(* ===== verification/Prelude.thy ===== *)
theory Prelude
  imports Main "HOL-Library.Word" "HOL-Library.Monad_Syntax" "HOL-Library.Multiset"
begin

text \<open>
  What the component theories share: the machine types of the source, bounds-checked access to
  \<^verbatim>\<open>std::deque\<close> and \<^verbatim>\<open>std::vector\<close>, unsigned subtraction at the width of
  \<^verbatim>\<open>size_t\<close>, and generic facts on lists and options. Undefined behaviour of the C++ code
  (an access out of range, a read of memory nothing wrote) is the value \<open>None\<close> of an
  \<open>option\<close> result throughout the development, so that "the operation is defined" is part of
  every theorem that says what the operation returns.
\<close>

named_theorems dq_simps "bounds-checked access to deques and vectors"

type_synonym u32 = "32 word"
type_synonym u64 = "64 word"
type_synonym byte = char

subsection \<open>Deques and vectors\<close>

text \<open>
  \<^verbatim>\<open>operator[]\<close> on \<^verbatim>\<open>std::deque\<close> and \<^verbatim>\<open>std::vector\<close> is undefined outside the
  bounds: \<open>dq_at\<close> is the read and \<open>dq_set\<close> the write through the returned reference.
\<close>

definition dq_at :: "'a list \<Rightarrow> nat \<Rightarrow> 'a option" where
  "dq_at xs i = (if i < length xs then Some (xs ! i) else None)"

definition dq_set :: "'a list \<Rightarrow> nat \<Rightarrow> 'a \<Rightarrow> 'a list option" where
  "dq_set xs i v = (if i < length xs then Some (xs[i := v]) else None)"

lemma dq_at_lt [simp, dq_simps]: "i < length xs \<Longrightarrow> dq_at xs i = Some (xs ! i)"
  by (simp add: dq_at_def)

lemma dq_set_lt [simp, dq_simps]: "i < length xs \<Longrightarrow> dq_set xs i v = Some (xs[i := v])"
  by (simp add: dq_set_def)

lemma dq_at_None [dq_simps]: "dq_at xs i = None \<longleftrightarrow> length xs \<le> i"
  by (auto simp: dq_at_def)

lemma dq_at_Some [dq_simps]: "dq_at xs i = Some v \<longleftrightarrow> i < length xs \<and> v = xs ! i"
  by (auto simp: dq_at_def)

subsection \<open>Unsigned arithmetic\<close>

text \<open>Subtraction on \<^verbatim>\<open>size_t\<close> (64 bits) wraps around below zero.\<close>

definition size_sub :: "nat \<Rightarrow> nat \<Rightarrow> nat" where
  "size_sub a b = (if b \<le> a then a - b else 2 ^ 64 + a - b)"

lemma size_sub_le [simp]: "b \<le> a \<Longrightarrow> size_sub a b = a - b"
  by (simp add: size_sub_def)

subsection \<open>Lists and options\<close>

lemma drop_append_le: "n \<le> length xs \<Longrightarrow> drop n (xs @ ys) = drop n xs @ ys"
  by simp

lemma bind_eq_SomeD: "Option.bind m f = Some r \<Longrightarrow> \<exists>a. m = Some a \<and> f a = Some r"
  by (cases m) auto

lemma nth_snoc [simp]: "n = length xs \<Longrightarrow> (xs @ [x]) ! n = x"
  by simp

lemma map_upt_shift: "map f [k ..< k + n] = map (\<lambda>i. f (k + i)) [0 ..< n]"
  by (rule nth_equalityI) auto

lemma sum_list_butlast_last:
  "xs \<noteq> [] \<Longrightarrow> sum_list xs = sum_list (butlast xs) + (last xs :: nat)"
  by (metis append_butlast_last_id sum_list.Cons sum_list.Nil sum_list_append add_0_right)

text \<open>Positions on a circle of \<open>n\<close> places: within one turn a place determines its position.\<close>

lemma mod_turn_eq:
  fixes n :: nat
  assumes "x mod n = y mod n" "x \<le> y" "y < x + n"
  shows "x = y"
proof -
  have "n dvd y - x" using assms(1,2) mod_eq_dvd_iff_nat [of x y n] by simp
  moreover have "y - x < n" using assms(2,3) by linarith
  ultimately have "y - x = 0" by (auto dest: dvd_imp_le)
  then show ?thesis using assms(2) by simp
qed

end
