(* ===== verification/Buffer.thy ===== *)
theory Buffer
  imports Prelude
begin

text \<open>
  The streaming buffer of \<^verbatim>\<open>buffer.hpp\<close> and \<^verbatim>\<open>buffer.cpp\<close>: a deque of fixed-size
  chunks with a write position in the last chunk and a read position in the first, and the
  iterator that reads across chunks. A chunk is a partial function from offsets to bytes: an
  offset nothing wrote holds \<open>None\<close>, the indeterminate value of \<^verbatim>\<open>new char[BlockSize]\<close>.
  \<open>content\<close> is the byte string a buffer holds, \<open>buf_inv\<close> what every operation keeps.
\<close>

section \<open>State\<close>

definition BlockSize :: nat where
  "BlockSize = 4096"

type_synonym chunk = "nat \<Rightarrow> byte option"

definition fresh_chunk :: chunk where
  "fresh_chunk = (\<lambda>_. None)"

record Position =
  idx :: nat
  off :: nat

record Buffer =
  chunks :: "chunk list"
  sizes :: "nat list"
  wpos :: Position
  rpos :: Position

section \<open>Operations\<close>

definition addChunk :: "Buffer \<Rightarrow> Position \<times> Buffer" where
  "addChunk b =
     (let cs = chunks b @ [fresh_chunk]
      in (\<lparr>idx = length cs - 1, off = 0\<rparr>, b\<lparr>chunks := cs, sizes := sizes b @ [0]\<rparr>))"

definition new_Buffer :: Buffer where
  "new_Buffer =
     (case addChunk \<lparr>chunks = [], sizes = [], wpos = \<lparr>idx = 0, off = 0\<rparr>, rpos = \<lparr>idx = 0, off = 0\<rparr>\<rparr>
      of (p, b) \<Rightarrow> b\<lparr>wpos := p, rpos := p\<rparr>)"

definition writeSize :: "Buffer \<Rightarrow> nat" where
  "writeSize b = size_sub BlockSize (off (wpos b))"

definition readSize :: "Buffer \<Rightarrow> nat option" where
  "readSize b = do { s \<leftarrow> dq_at (sizes b) (idx (rpos b)); Some (size_sub s (off (rpos b))) }"

text \<open>The loop of \<^verbatim>\<open>dropChunks\<close> pops the fronts; \<^verbatim>\<open>pop_front\<close> on an empty deque is undefined.\<close>

fun popChunks :: "nat \<Rightarrow> Buffer \<Rightarrow> Buffer option" where
  "popChunks 0 b = Some b"
| "popChunks (Suc n) b =
     (case (chunks b, sizes b) of
        (c # cs, s # ss) \<Rightarrow> popChunks n (b\<lparr>chunks := cs, sizes := ss\<rparr>)
      | _ \<Rightarrow> None)"

definition dropChunks :: "nat \<Rightarrow> Buffer \<Rightarrow> Buffer option" where
  "dropChunks n b =
     (if n = 0 then Some b
      else popChunks n
        (b\<lparr>wpos := (wpos b)\<lparr>idx := size_sub (idx (wpos b)) n\<rparr>,
           rpos := (rpos b)\<lparr>idx := size_sub (idx (rpos b)) n\<rparr>\<rparr>))"

definition reserve :: "nat \<Rightarrow> Buffer \<Rightarrow> (bool \<times> Buffer) option" where
  "reserve bytes b =
     (if bytes > BlockSize then Some (False, b)
      else if size_sub BlockSize (off (wpos b)) \<ge> bytes then Some (True, b)
      else
        (let should_advance = (rpos b = wpos b);
             (p, b1) = addChunk b;
             b2 = b1\<lparr>wpos := p\<rparr>
         in if should_advance
            then do { b3 \<leftarrow> dropChunks 1 (b2\<lparr>rpos := p\<rparr>); Some (True, b3) }
            else Some (True, b2)))"

definition advance :: "nat \<Rightarrow> Buffer \<Rightarrow> (bool \<times> Buffer) option" where
  "advance bytes b =
     (if bytes \<le> 0 then Some (False, b)
      else if bytes \<le> writeSize b then
        do { s \<leftarrow> dq_at (sizes b) (idx (wpos b));
             ss \<leftarrow> dq_set (sizes b) (idx (wpos b)) (s + bytes);
             Some (True, b\<lparr>wpos := (wpos b)\<lparr>off := off (wpos b) + bytes\<rparr>, sizes := ss\<rparr>) }
      else Some (False, b))"

text \<open>
  A copy of bytes to the area \<^verbatim>\<open>writePtr()\<close> points to: by the loop of \<^verbatim>\<open>write\<close>, by
  \<^verbatim>\<open>memcpy\<close>, or by the kernel when the area is handed to \<^verbatim>\<open>read(2)\<close>. Running past the
  end of the chunk is undefined.
\<close>

definition put_bytes :: "chunk \<Rightarrow> nat \<Rightarrow> byte option list \<Rightarrow> chunk" where
  "put_bytes c k src = (\<lambda>i. if k \<le> i \<and> i < k + length src then src ! (i - k) else c i)"

definition poke :: "byte option list \<Rightarrow> Buffer \<Rightarrow> Buffer option" where
  "poke src b =
     do { c \<leftarrow> dq_at (chunks b) (idx (wpos b));
          if off (wpos b) + length src \<le> BlockSize \<or> src = []
          then do { cs \<leftarrow> dq_set (chunks b) (idx (wpos b)) (put_bytes c (off (wpos b)) src);
                    Some (b\<lparr>chunks := cs\<rparr>) }
          else None }"

definition grow :: "nat \<Rightarrow> Buffer \<Rightarrow> Buffer option" where
  "grow n b =
     do { s \<leftarrow> dq_at (sizes b) (idx (wpos b));
          ss \<leftarrow> dq_set (sizes b) (idx (wpos b)) (s + n);
          Some (b\<lparr>sizes := ss, wpos := (wpos b)\<lparr>off := off (wpos b) + n\<rparr>\<rparr>) }"

definition newWriteChunk :: "Buffer \<Rightarrow> Buffer" where
  "newWriteChunk b = (case addChunk b of (p, b1) \<Rightarrow> b1\<lparr>wpos := p\<rparr>)"

text \<open>One iteration of the loop of \<^verbatim>\<open>write\<close>: what is left to write is returned beside the buffer.\<close>

definition write_step :: "byte option list \<Rightarrow> Buffer \<Rightarrow> (byte option list \<times> Buffer) option" where
  "write_step src b =
     (let bytes_in_chunk = min (writeSize b) (length src);
          left = drop bytes_in_chunk src
      in do { b1 \<leftarrow> poke (take bytes_in_chunk src) b;
              b2 \<leftarrow> grow bytes_in_chunk b1;
              Some (left, if left \<noteq> [] \<or> off (wpos b2) = BlockSize then newWriteChunk b2 else b2) })"

lemma newWriteChunk_simps [simp]:
  "chunks (newWriteChunk b) = chunks b @ [fresh_chunk]"
  "sizes (newWriteChunk b) = sizes b @ [0]"
  "wpos (newWriteChunk b) = \<lparr>idx = length (chunks b), off = 0\<rparr>"
  "rpos (newWriteChunk b) = rpos b"
  by (simp_all add: newWriteChunk_def addChunk_def Let_def)

lemma write_step_progress:
  assumes "write_step src b = Some (left, b')" and "src \<noteq> []"
  shows "length left < length src \<or> length left = length src \<and> writeSize b = 0 \<and> 0 < writeSize b'"
proof (cases "writeSize b = 0")
  case True
  with assms show ?thesis
    by (auto simp: write_step_def Let_def BlockSize_def writeSize_def [of "newWriteChunk _"]
        dest!: bind_eq_SomeD)
next
  case False
  with assms show ?thesis
    by (auto simp: write_step_def Let_def min_def dest!: bind_eq_SomeD)
qed

function write_loop :: "byte option list \<Rightarrow> Buffer \<Rightarrow> Buffer option" where
  "write_loop src b =
     (if src = [] then Some b
      else case write_step src b of
             None \<Rightarrow> None
           | Some (left, b') \<Rightarrow> write_loop left b')"
  by pat_completeness auto
termination
  by (relation "measures [\<lambda>(src, b). length src, \<lambda>(src, b). if writeSize b = 0 then 1 else 0]")
    (use write_step_progress in \<open>fastforce+\<close>)

declare write_loop.simps [simp del]

definition buf_write :: "string \<Rightarrow> Buffer \<Rightarrow> Buffer option" where
  "buf_write data b = write_loop (map Some data) b"


text \<open>The last chunk is taken off when it is empty; \<open>wpos\<close> is then stale, the caller repairs it.\<close>

definition maybeRemoveLastChunk :: "Buffer \<Rightarrow> (chunk option \<times> Buffer) option" where
  "maybeRemoveLastChunk b =
     do { s \<leftarrow> dq_at (sizes b) (idx (wpos b));
          if s = 0
          then do { c \<leftarrow> dq_at (chunks b) (idx (wpos b));
                    Some (Some c, b\<lparr>chunks := butlast (chunks b), sizes := butlast (sizes b)\<rparr>) }
          else Some (None, b) }"

definition isConsumed :: "Buffer \<Rightarrow> bool" where
  "isConsumed b \<longleftrightarrow> idx (rpos b) \<noteq> 0 \<or> off (rpos b) \<noteq> 0"

text \<open>
  \<^verbatim>\<open>appendFrom\<close> and \<^verbatim>\<open>copyFrom\<close> return, beside the two buffers, whether a FATAL message
  was logged (which ends the process unless \<^verbatim>\<open>MCP_BASE_exit_on_fatal\<close> was cleared).
\<close>

definition appendFrom :: "Buffer \<Rightarrow> Buffer \<Rightarrow> (bool \<times> Buffer \<times> Buffer) option" where
  "appendFrom this other =
     (if isConsumed other then Some (True, this, other)
      else do {
        n \<leftarrow> readSize other;
        if n = 0 then Some (False, this, other)
        else do {
          (last_chunk, t1) \<leftarrow> maybeRemoveLastChunk this;
          (other_last_chunk, o1) \<leftarrow> maybeRemoveLastChunk other;
          let t2 = t1\<lparr>chunks := chunks t1 @ chunks o1, sizes := sizes t1 @ sizes o1\<rparr>;
          if sizes t2 = [] then None
          else do {
            let t3 =
              (if last (sizes t2) = BlockSize then
                 (case last_chunk of
                    None \<Rightarrow> snd (addChunk t2)
                  | Some c \<Rightarrow> t2\<lparr>chunks := chunks t2 @ [c], sizes := sizes t2 @ [0]\<rparr>)
               else t2);
            m \<leftarrow> readSize t3;
            let t4 = (if m = 0 then t3\<lparr>rpos := \<lparr>idx = idx (rpos t3) + 1, off = 0\<rparr>\<rparr> else t3);
            let t5 = t4\<lparr>wpos := \<lparr>idx = length (chunks t4) - 1, off = last (sizes t4)\<rparr>\<rparr>;
            let o2 = o1\<lparr>chunks := [], sizes := []\<rparr>;
            let o3 =
              (case other_last_chunk of
                 None \<Rightarrow> newWriteChunk o2
               | Some c \<Rightarrow> o2\<lparr>chunks := [c], sizes := [0]\<rparr>);
            Some (False, t5, o3\<lparr>rpos := wpos o3\<rparr>)
          }
        }
      })"

text \<open>
  The loop of \<^verbatim>\<open>copyFrom\<close> over the other buffer's chunks; \<open>first\<close> is the test
  \<^verbatim>\<open>i == 0\<close>.
\<close>

fun copy_loop :: "bool \<Rightarrow> (chunk \<times> nat) list \<Rightarrow> Buffer \<Rightarrow> Buffer option" where
  "copy_loop first [] b = Some b"
| "copy_loop first ((c, len) # rest) b =
     (let b1 = (if \<not> first \<or> len > writeSize b then newWriteChunk b else b)
      in do { b2 \<leftarrow> poke (map c [0 ..< len]) b1;
              b3 \<leftarrow> grow len b2;
              copy_loop False rest b3 })"

definition copyFrom :: "Buffer \<Rightarrow> Buffer \<Rightarrow> (bool \<times> Buffer) option" where
  "copyFrom this other =
     (if isConsumed other then Some (True, this)
      else do {
        n \<leftarrow> readSize other;
        if n = 0 then Some (False, this)
        else do {
          t1 \<leftarrow> copy_loop True (zip (chunks other) (sizes other)) this;
          Some (False, if off (wpos t1) = BlockSize then newWriteChunk t1 else t1)
        }
      })"

text \<open>One iteration of the loop of \<^verbatim>\<open>consume\<close>: bytes left, chunks to drop, buffer.\<close>

definition consume_step :: "nat \<Rightarrow> nat \<Rightarrow> Buffer \<Rightarrow> (nat \<times> nat \<times> Buffer) option" where
  "consume_step bytes dropped b =
     do { r \<leftarrow> readSize b;
          let bytes_in_chunk = min bytes r;
          let b1 = b\<lparr>rpos := (rpos b)\<lparr>off := off (rpos b) + bytes_in_chunk\<rparr>\<rparr>;
          r1 \<leftarrow> readSize b1;
          if r1 = 0
          then Some (bytes - bytes_in_chunk, dropped + 1,
                 b1\<lparr>rpos := \<lparr>idx = idx (rpos b1) + 1, off = 0\<rparr>\<rparr>)
          else Some (bytes - bytes_in_chunk, dropped, b1) }"

lemma readSize_rpos:
  "readSize (b\<lparr>rpos := p\<rparr>) = do { s \<leftarrow> dq_at (sizes b) (idx p); Some (size_sub s (off p)) }"
  by (simp add: readSize_def)

lemma size_sub_add_zero: "size_sub s (r + size_sub s r) = 0" if "r \<le> 2 ^ 64 + s"
  using that by (auto simp: size_sub_def)

lemma consume_step_progress:
  assumes "consume_step n d b = Some (n', d', b')" and "0 < n" and "idx (rpos b) < idx (wpos b)"
  shows "n' + (idx (wpos b') - idx (rpos b')) < n + (idx (wpos b) - idx (rpos b))"
proof -
  from assms(1) obtain r r1 where
    r: "readSize b = Some r" and
    r1: "readSize (b\<lparr>rpos := (rpos b)\<lparr>off := off (rpos b) + min n r\<rparr>\<rparr>) = Some r1" and
    res: "n' = n - min n r" "wpos b' = wpos b"
      "idx (rpos b') = (if r1 = 0 then idx (rpos b) + 1 else idx (rpos b))"
    by (auto simp: consume_step_def Let_def split: if_splits dest!: bind_eq_SomeD)
  show ?thesis
  proof (cases "r1 = 0")
    case True
    with res assms(3) show ?thesis by auto
  next
    case False
    have "n \<le> r \<or> 0 < r"
    proof (rule ccontr)
      assume "\<not> (n \<le> r \<or> 0 < r)"
      with r r1 have "r1 = 0"
        by (simp add: readSize_rpos readSize_def)
      with False show False by simp
    qed
    with res False assms(2) show ?thesis by auto
  qed
qed

function consume_loop :: "nat \<Rightarrow> nat \<Rightarrow> Buffer \<Rightarrow> (nat \<times> nat \<times> Buffer) option" where
  "consume_loop bytes dropped b =
     (if 0 < bytes \<and> idx (rpos b) < idx (wpos b) then
        (case consume_step bytes dropped b of
           None \<Rightarrow> None
         | Some (bytes', dropped', b') \<Rightarrow> consume_loop bytes' dropped' b')
      else Some (bytes, dropped, b))"
  by pat_completeness auto
termination
  by (relation "measure (\<lambda>(n, d, b). n + (idx (wpos b) - idx (rpos b)))")
    (use consume_step_progress in \<open>fastforce+\<close>)

declare consume_loop.simps [simp del]

definition consume :: "nat \<Rightarrow> Buffer \<Rightarrow> Buffer option" where
  "consume bytes_to_consume b =
     do { (left, chunks_to_drop, b1) \<leftarrow> consume_loop bytes_to_consume 0 b;
          b2 \<leftarrow> (if 0 < left
                 then do { r \<leftarrow> readSize b1;
                           Some (b1\<lparr>rpos := (rpos b1)\<lparr>off := off (rpos b1) + min left r\<rparr>\<rparr>) }
                 else Some b1);
          dropChunks chunks_to_drop b2 }"

definition byteCount :: "Buffer \<Rightarrow> nat option" where
  "byteCount b =
     do { r \<leftarrow> readSize b;
          Some (r + sum_list (map (\<lambda>i. sizes b ! i) [1 ..< length (sizes b)])) }"

definition numChunks :: "Buffer \<Rightarrow> nat" where
  "numChunks b = length (chunks b)"

section \<open>Iterator\<close>

text \<open>
  The pointer \<^verbatim>\<open>chunk_start_\<close> is the index of the chunk it points into: the deque does not
  change while an iterator is in use.
\<close>

record Iterator =
  pos :: Position
  bytes_read :: nat
  bytes_total :: nat
  budget :: nat
  chunk_start :: nat

definition getBudget :: "Buffer \<Rightarrow> Position \<Rightarrow> nat option" where
  "getBudget b p = do { s \<leftarrow> dq_at (sizes b) (idx p); Some (size_sub s (off p)) }"

definition new_Iterator :: "Buffer \<Rightarrow> Iterator option" where
  "new_Iterator b =
     do { n \<leftarrow> byteCount b;
          g \<leftarrow> getBudget b (rpos b);
          c \<leftarrow> dq_at (chunks b) (idx (rpos b));
          Some \<lparr>pos = rpos b, bytes_read = 0, bytes_total = n, budget = g, chunk_start = idx (rpos b)\<rparr> }"

definition buf_begin :: "Buffer \<Rightarrow> Iterator option" where
  "buf_begin b = do { it \<leftarrow> new_Iterator b; Some (it\<lparr>pos := rpos b\<rparr>) }"

definition buf_end :: "Buffer \<Rightarrow> Iterator option" where
  "buf_end b = do { it \<leftarrow> new_Iterator b; Some (it\<lparr>pos := wpos b\<rparr>) }"

definition eob :: "Buffer \<Rightarrow> Iterator \<Rightarrow> bool" where
  "eob b it \<longleftrightarrow> (if budget it \<noteq> 0 then False
     else idx (pos it) = idx (wpos b) \<and> off (pos it) = off (wpos b))"

definition slowNext :: "Buffer \<Rightarrow> Iterator \<Rightarrow> Iterator option" where
  "slowNext b it =
     do { s \<leftarrow> dq_at (sizes b) (idx (pos it));
          if off (pos it) < s then
            do { let it1 = it\<lparr>pos := (pos it)\<lparr>off := off (pos it) + 1\<rparr>, bytes_read := bytes_read it + 1\<rparr>;
                 let it2 =
                   (if off (pos it1) = s \<and> idx (pos it1) < idx (wpos b)
                    then it1\<lparr>pos := \<lparr>idx = idx (pos it1) + 1, off = 0\<rparr>, chunk_start := idx (pos it1) + 1\<rparr>
                    else it1);
                 c \<leftarrow> dq_at (chunks b) (chunk_start it2);
                 g \<leftarrow> getBudget b (pos it2);
                 Some (it2\<lparr>budget := g\<rparr>) }
          else Some it }"

definition it_next :: "Buffer \<Rightarrow> Iterator \<Rightarrow> Iterator option" where
  "it_next b it =
     (if budget it > 1
      then Some (it\<lparr>budget := budget it - 1, pos := (pos it)\<lparr>off := off (pos it) + 1\<rparr>,
                    bytes_read := bytes_read it + 1\<rparr>)
      else slowNext b it)"

definition getChar :: "Buffer \<Rightarrow> Iterator \<Rightarrow> byte option" where
  "getChar b it =
     do { c \<leftarrow> dq_at (chunks b) (chunk_start it);
          if off (pos it) < BlockSize then c (off (pos it)) else None }"

definition it_eq :: "Iterator \<Rightarrow> Iterator \<Rightarrow> bool" where
  "it_eq a b \<longleftrightarrow> pos a = pos b"

end
