(* ===== verification/Streams.thy ===== *)
theory Streams
  imports Prelude
begin

text \<open>
  The two interfaces the streaming buffer offers to its clients. A \<open>byte_stream\<close> is what the
  writers of messages and the socket writer rely on: bytes are appended at one end and dropped
  from the other. A \<open>byte_cursor\<close> is what the HTTP parser relies on: an iterator that walks over
  the bytes without changing the stream. \<^verbatim>\<open>Buffer\<close> and \<^verbatim>\<open>Buffer::Iterator\<close> are shown to
  satisfy them in \<open>Buffer_Correct\<close>.
\<close>

text \<open>A sequence of writes to a stream, each of one piece.\<close>

fun put_all :: "('d \<Rightarrow> 'b \<Rightarrow> 'b option) \<Rightarrow> 'd list \<Rightarrow> 'b \<Rightarrow> 'b option" where
  "put_all put [] b = Some b"
| "put_all put (d # ds) b = do { b' \<leftarrow> put d b; put_all put ds b' }"

lemma put_all_fun:
  "put_all put [] = Some" "put_all put (d # ds) = (\<lambda>b. Option.bind (put d b) (put_all put ds))"
  by auto

locale byte_stream =
  fixes inv :: "'b \<Rightarrow> bool"
    and bytes :: "'b \<Rightarrow> byte option list"
    and put :: "string \<Rightarrow> 'b \<Rightarrow> 'b option"
    and skip :: "nat \<Rightarrow> 'b \<Rightarrow> 'b option"
  assumes put_ok: "inv b \<Longrightarrow> \<exists>b'. put data b = Some b' \<and> inv b' \<and> bytes b' = bytes b @ map Some data"
    and skip_ok: "inv b \<Longrightarrow> \<exists>b'. skip n b = Some b' \<and> inv b' \<and> bytes b' = drop n (bytes b)"
begin

lemma put_all_ok:
  "inv b \<Longrightarrow> \<exists>b'. put_all put ds b = Some b' \<and> inv b' \<and> bytes b' = bytes b @ map Some (concat ds)"
proof (induction ds arbitrary: b)
  case (Cons d ds)
  from put_ok [OF Cons.prems, of d] obtain b1 where
    b1: "put d b = Some b1" "inv b1" "bytes b1 = bytes b @ map Some d" by blast
  from Cons.IH [OF b1(2)] b1 show ?case by auto
qed simp

text \<open>What goes in comes out, in order: bytes put behind others surface once those are skipped.\<close>

lemma put_then_skip:
  assumes "inv b"
  shows "\<exists>b1 b2. put_all put ds b = Some b1 \<and> skip (length (bytes b)) b1 = Some b2
    \<and> inv b2 \<and> bytes b2 = map Some (concat ds)"
proof -
  from put_all_ok [OF assms] obtain b1 where
    b1: "put_all put ds b = Some b1" "inv b1" "bytes b1 = bytes b @ map Some (concat ds)" by blast
  from skip_ok [OF b1(2), of "length (bytes b)"] b1 show ?thesis by auto
qed

text \<open>Skipping in two portions is skipping once: partial sends lose and repeat nothing.\<close>

lemma skip_skip:
  assumes "inv b"
  shows "\<exists>b1 b2 b3. skip m b = Some b1 \<and> skip n b1 = Some b2 \<and> skip (m + n) b = Some b3
    \<and> bytes b2 = bytes b3"
proof -
  from skip_ok [OF assms, of m] obtain b1 where b1: "skip m b = Some b1" "inv b1" "bytes b1 = drop m (bytes b)"
    by blast
  from skip_ok [OF b1(2), of n] skip_ok [OF assms, of "m + n"] b1 show ?thesis
    by (auto simp: add.commute)
qed

end

locale byte_cursor =
  fixes inv :: "'c \<Rightarrow> bool"
    and rest :: "'c \<Rightarrow> byte option list"
    and at_end :: "'c \<Rightarrow> bool"
    and cur :: "'c \<Rightarrow> byte option"
    and step :: "'c \<Rightarrow> 'c option"
  assumes at_end_iff: "inv it \<Longrightarrow> at_end it \<longleftrightarrow> rest it = []"
    and cur_hd: "inv it \<Longrightarrow> rest it = x # xs \<Longrightarrow> cur it = x"
    and step_tl: "inv it \<Longrightarrow> rest it = x # xs \<Longrightarrow> \<exists>it'. step it = Some it' \<and> inv it' \<and> rest it' = xs"
    and step_end: "inv it \<Longrightarrow> rest it = [] \<Longrightarrow> step it = Some it"
begin

text \<open>A cursor over initialised bytes, at the front of the string \<open>s\<close>.\<close>

definition over :: "'c \<Rightarrow> string \<Rightarrow> bool" where
  "over it s \<longleftrightarrow> inv it \<and> rest it = map Some s"

lemma over_Nil: "over it [] \<Longrightarrow> at_end it \<and> step it = Some it"
  by (simp add: over_def at_end_iff step_end)

lemma over_Cons:
  assumes "over it (x # s)"
  obtains it' where "\<not> at_end it" "cur it = Some x" "step it = Some it'" "over it' s"
proof -
  from assms have i: "inv it" "rest it = Some x # map Some s" by (simp_all add: over_def)
  from step_tl [OF i] obtain it' where "step it = Some it'" "over it' s" by (auto simp: over_def)
  with i cur_hd [OF i] at_end_iff [OF i(1)] that show ?thesis by simp
qed

end

end
