(* ===== verification/Buffer_Correct.thy ===== *)
theory Buffer_Correct
  imports Buffer Streams
begin

text \<open>
  Correctness of the streaming buffer against its specification: a buffer is a byte string, a
  write appends to it, a consume drops from its front, an iterator enumerates it. The invariant
  \<open>buf_inv\<close> and the canonical form \<open>mk_buf\<close> of the buffers that satisfy it come first; every
  operation is then proved on the canonical form.
\<close>

named_theorems buf_simps "operations on buffers in canonical form"

section \<open>Content and invariant\<close>

fun stored :: "chunk list \<Rightarrow> nat list \<Rightarrow> byte option list" where
  "stored (c # cs) (s # ss) = map c [0 ..< s] @ stored cs ss"
| "stored _ _ = []"

definition content :: "Buffer \<Rightarrow> byte option list" where
  "content b = drop (off (rpos b)) (stored (drop (idx (rpos b)) (chunks b)) (drop (idx (rpos b)) (sizes b)))"

definition buf_inv :: "Buffer \<Rightarrow> bool" where
  "buf_inv b \<longleftrightarrow>
     chunks b \<noteq> [] \<and> length (sizes b) = length (chunks b) \<and>
     wpos b = \<lparr>idx = length (chunks b) - 1, off = last (sizes b)\<rparr> \<and>
     list_all (\<lambda>s. s \<le> BlockSize) (sizes b) \<and> list_all (\<lambda>s. 0 < s) (butlast (sizes b)) \<and>
     idx (rpos b) = 0 \<and>
     (if length (sizes b) = 1 then off (rpos b) \<le> hd (sizes b) else off (rpos b) < hd (sizes b))"

text \<open>The last chunk has room: what \<^verbatim>\<open>write\<close> leaves and \<^verbatim>\<open>advance\<close> may not.\<close>

definition has_room :: "Buffer \<Rightarrow> bool" where
  "has_room b \<longleftrightarrow> off (wpos b) < BlockSize"

definition drained :: "Buffer \<Rightarrow> bool" where
  "drained b \<longleftrightarrow> rpos b = wpos b"

definition mk_buf :: "chunk list \<Rightarrow> chunk \<Rightarrow> nat list \<Rightarrow> nat \<Rightarrow> nat \<Rightarrow> Buffer" where
  "mk_buf cs c ss s r =
     \<lparr>chunks = cs @ [c], sizes = ss @ [s], wpos = \<lparr>idx = length cs, off = s\<rparr>, rpos = \<lparr>idx = 0, off = r\<rparr>\<rparr>"

definition mk_ok :: "chunk list \<Rightarrow> nat list \<Rightarrow> nat \<Rightarrow> nat \<Rightarrow> bool" where
  "mk_ok cs ss s r \<longleftrightarrow> length cs = length ss \<and> s \<le> BlockSize \<and>
     list_all (\<lambda>x. 0 < x \<and> x \<le> BlockSize) ss \<and> (case ss of [] \<Rightarrow> r \<le> s | x # _ \<Rightarrow> r < x)"

lemma mk_buf_sel [simp]:
  "chunks (mk_buf cs c ss s r) = cs @ [c]"
  "sizes (mk_buf cs c ss s r) = ss @ [s]"
  "wpos (mk_buf cs c ss s r) = \<lparr>idx = length cs, off = s\<rparr>"
  "rpos (mk_buf cs c ss s r) = \<lparr>idx = 0, off = r\<rparr>"
  by (simp_all add: mk_buf_def)

lemma buf_inv_mk: "length cs = length ss \<Longrightarrow> buf_inv (mk_buf cs c ss s r) \<longleftrightarrow> mk_ok cs ss s r"
  by (cases ss) (auto simp: buf_inv_def mk_ok_def list_all_iff)

lemma buf_invE:
  assumes "buf_inv b"
  obtains cs c ss s r where "b = mk_buf cs c ss s r" "mk_ok cs ss s r"
proof -
  from assms have ne: "chunks b \<noteq> []" "sizes b \<noteq> []" and len: "length (sizes b) = length (chunks b)"
    by (auto simp: buf_inv_def)
  let ?cs = "butlast (chunks b)" and ?c = "last (chunks b)"
  let ?ss = "butlast (sizes b)" and ?s = "last (sizes b)"
  have eq: "b = mk_buf ?cs ?c ?ss ?s (off (rpos b))"
    using assms ne len by (cases b; cases "rpos b") (auto simp: buf_inv_def mk_buf_def)
  have "length ?cs = length ?ss" using len by simp
  with eq assms have "mk_ok ?cs ?ss ?s (off (rpos b))"
    using buf_inv_mk by metis
  with eq that show ?thesis by blast
qed

lemma mk_ok_len: "mk_ok cs ss s r \<Longrightarrow> length cs = length ss"
  by (simp add: mk_ok_def)

lemma buf_inv_mkI: "mk_ok cs ss s r \<Longrightarrow> buf_inv (mk_buf cs c ss s r)"
  using buf_inv_mk mk_ok_len by blast

lemma stored_append [simp]:
  "length cs = length ss \<Longrightarrow> stored (cs @ cs') (ss @ ss') = stored cs ss @ stored cs' ss'"
  by (induction cs ss rule: list_induct2) auto

lemma length_stored: "length cs = length ss \<Longrightarrow> length (stored cs ss) = sum_list ss"
  by (induction cs ss rule: list_induct2) auto

lemma content_mk:
  "length cs = length ss \<Longrightarrow>
     content (mk_buf cs c ss s r) = drop r (stored cs ss @ map c [0 ..< s])"
  by (simp add: content_def)

lemma mk_ok_read_le: "mk_ok cs ss s r \<Longrightarrow> r \<le> sum_list (ss @ [s])"
  by (cases ss) (auto simp: mk_ok_def)

lemma mk_ok_read_le_stored: "mk_ok cs ss s r \<Longrightarrow> r \<le> length (stored cs ss) + s"
  using mk_ok_read_le [of cs ss s r] by (simp add: length_stored mk_ok_len)

section \<open>Writing\<close>

lemma new_Buffer_mk: "new_Buffer = mk_buf [] fresh_chunk [] 0 0"
  by (simp add: new_Buffer_def addChunk_def mk_buf_def)

lemma buf_inv_new: "buf_inv new_Buffer" and content_new: "content new_Buffer = []"
  and has_room_new: "has_room new_Buffer"
  by (simp_all add: new_Buffer_mk buf_inv_mk mk_ok_def content_mk has_room_def BlockSize_def)

lemma writeSize_mk [buf_simps]: "s \<le> BlockSize \<Longrightarrow> writeSize (mk_buf cs c ss s r) = BlockSize - s"
  by (simp add: writeSize_def)

lemma readSize_mk [buf_simps]:
  "readSize (mk_buf cs c ss s r) = Some (size_sub (hd (ss @ [s])) r)"
  by (cases ss) (simp_all add: readSize_def)

lemma newWriteChunk_mk [buf_simps]:
  "length cs = length ss \<Longrightarrow>
     newWriteChunk (mk_buf cs c ss s r) = mk_buf (cs @ [c]) fresh_chunk (ss @ [s]) 0 r"
  by (simp add: newWriteChunk_def addChunk_def mk_buf_def)

lemma poke_mk [buf_simps]:
  "s + length src \<le> BlockSize \<Longrightarrow>
     poke src (mk_buf cs c ss s r) = Some (mk_buf cs (put_bytes c s src) ss s r)"
  by (simp add: poke_def mk_buf_def dq_at_def dq_set_def)

lemma grow_mk [buf_simps]:
  "length cs = length ss \<Longrightarrow> grow n (mk_buf cs c ss s r) = Some (mk_buf cs c ss (s + n) r)"
  by (simp add: grow_def mk_buf_def dq_at_def dq_set_def list_update_append)

lemma map_put_bytes:
  "map (put_bytes c s src) [0 ..< s + length src] = map c [0 ..< s] @ src"
  by (rule nth_equalityI) (auto simp: put_bytes_def nth_append)

lemma write_step_mk:
  assumes ok: "mk_ok cs ss s r" and src: "src \<noteq> []" and room: "s < BlockSize \<or> r < s \<or> ss \<noteq> []"
  defines "n \<equiv> min (BlockSize - s) (length src)"
  shows "\<exists>cs' c' ss' s'. write_step src (mk_buf cs c ss s r) = Some (drop n src, mk_buf cs' c' ss' s' r)
    \<and> mk_ok cs' ss' s' r \<and> s' < BlockSize
    \<and> stored cs' ss' @ map c' [0 ..< s'] = stored cs ss @ map c [0 ..< s] @ take n src"
proof -
  have len: "length cs = length ss" and s: "s \<le> BlockSize" using ok by (auto simp: mk_ok_def)
  let ?c = "put_bytes c s (take n src)"
  have tk: "length (take n src) = n" by (simp add: n_def)
  have sn: "s + n \<le> BlockSize" using s by (simp add: n_def)
  have bytes: "map ?c [0 ..< s + n] = map c [0 ..< s] @ take n src"
    using map_put_bytes [of c s "take n src"] tk by simp
  have step: "write_step src (mk_buf cs c ss s r) =
    Some (drop n src, if drop n src \<noteq> [] \<or> s + n = BlockSize
      then mk_buf (cs @ [?c]) fresh_chunk (ss @ [s + n]) 0 r else mk_buf cs ?c ss (s + n) r)"
    using s sn tk len by (auto simp: write_step_def buf_simps n_def Let_def)
  show ?thesis
  proof (cases "drop n src \<noteq> [] \<or> s + n = BlockSize")
    case True
    then have full: "s + n = BlockSize" using s by (auto simp: n_def)
    have "mk_ok (cs @ [?c]) (ss @ [s + n]) 0 r"
      using ok full src room by (cases ss) (auto simp: mk_ok_def BlockSize_def n_def)
    with True step bytes len show ?thesis
      by (intro exI [of _ "cs @ [?c]"] exI [of _ fresh_chunk] exI [of _ "ss @ [s + n]"] exI [of _ 0])
        (simp add: BlockSize_def)
  next
    case False
    then have "mk_ok cs ss (s + n) r" and "s + n < BlockSize"
      using ok sn by (cases ss; auto simp: mk_ok_def)+
    with False step bytes show ?thesis
      by (intro exI [of _ cs] exI [of _ ?c] exI [of _ ss] exI [of _ "s + n"]) simp
  qed
qed

lemma write_loop_mk:
  assumes "mk_ok cs ss s r" and "s < BlockSize \<or> r < s \<or> ss \<noteq> []"
  shows "\<exists>cs' c' ss' s'. write_loop src (mk_buf cs c ss s r) = Some (mk_buf cs' c' ss' s' r)
    \<and> mk_ok cs' ss' s' r \<and> (src \<noteq> [] \<longrightarrow> s' < BlockSize) \<and> (s < BlockSize \<longrightarrow> s' < BlockSize)
    \<and> stored cs' ss' @ map c' [0 ..< s'] = stored cs ss @ map c [0 ..< s] @ src"
  using assms
proof (induction src "mk_buf cs c ss s r" arbitrary: cs c ss s rule: write_loop.induct)
  case (1 src)
  show ?case
  proof (cases "src = []")
    case True
    with 1(2) show ?thesis by (auto simp: write_loop.simps)
  next
    case False
    define n where "n = min (BlockSize - s) (length src)"
    from write_step_mk [OF 1(2) False 1(3), of c, folded n_def]
    obtain cs1 c1 ss1 s1 where
      step: "write_step src (mk_buf cs c ss s r) = Some (drop n src, mk_buf cs1 c1 ss1 s1 r)" and
      ok1: "mk_ok cs1 ss1 s1 r" "s1 < BlockSize" and
      st1: "stored cs1 ss1 @ map c1 [0 ..< s1] = stored cs ss @ map c [0 ..< s] @ take n src"
      by blast
    from 1(1) [OF False step refl ok1(1)] ok1(2)
    obtain cs2 c2 ss2 s2 where
      "write_loop (drop n src) (mk_buf cs1 c1 ss1 s1 r) = Some (mk_buf cs2 c2 ss2 s2 r)"
      "mk_ok cs2 ss2 s2 r" "s2 < BlockSize"
      "stored cs2 ss2 @ map c2 [0 ..< s2] = stored cs1 ss1 @ map c1 [0 ..< s1] @ drop n src"
      by blast
    moreover have "stored cs1 ss1 @ map c1 [0 ..< s1] @ drop n src = stored cs ss @ map c [0 ..< s] @ src"
      using arg_cong [OF st1, of "\<lambda>xs. xs @ drop n src"] by simp
    ultimately show ?thesis
      using False step by (subst write_loop.simps) auto
  qed
qed

text \<open>The form every client uses: a write is defined, keeps the invariant and appends.\<close>

lemma write_spec:
  assumes "buf_inv b" and "has_room b \<or> \<not> drained b"
  shows "\<exists>b'. buf_write data b = Some b' \<and> buf_inv b' \<and> content b' = content b @ map Some data
    \<and> (has_room b \<or> data \<noteq> [] \<longrightarrow> has_room b')"
proof -
  from assms(1) obtain cs c ss s r where b: "b = mk_buf cs c ss s r" and ok: "mk_ok cs ss s r"
    by (rule buf_invE)
  from assms(2) ok have room: "s < BlockSize \<or> r < s \<or> ss \<noteq> []"
    by (cases ss) (auto simp: b has_room_def drained_def mk_ok_def)
  from write_loop_mk [OF ok room, of "map Some data" c] obtain cs' c' ss' s' where
    w: "write_loop (map Some data) (mk_buf cs c ss s r) = Some (mk_buf cs' c' ss' s' r)"
    and ok': "mk_ok cs' ss' s' r" and rm: "data \<noteq> [] \<longrightarrow> s' < BlockSize" "s < BlockSize \<longrightarrow> s' < BlockSize"
    and st: "stored cs' ss' @ map c' [0 ..< s'] = stored cs ss @ map c [0 ..< s] @ map Some data"
    by auto
  have "content (mk_buf cs' c' ss' s' r) = content (mk_buf cs c ss s r) @ map Some data"
    using ok ok' st mk_ok_read_le_stored [OF ok] by (simp add: content_mk mk_ok_len)
  with w ok' rm show ?thesis
    by (auto simp: b buf_write_def has_room_def intro: buf_inv_mkI)
qed


lemma poke_advance_spec:
  assumes "buf_inv b" and "src \<noteq> []" and "length src \<le> writeSize b"
  shows "\<exists>b1 b'. poke src b = Some b1 \<and> advance (length src) b1 = Some (True, b')
    \<and> buf_inv b' \<and> content b' = content b @ src"
proof -
  from assms(1) obtain cs c ss s r where b: "b = mk_buf cs c ss s r" and ok: "mk_ok cs ss s r"
    by (rule buf_invE)
  from ok have len: "length cs = length ss" and s: "s \<le> BlockSize" by (auto simp: mk_ok_def)
  from assms(3) b s have sn: "s + length src \<le> BlockSize" by (simp add: buf_simps)
  let ?c = "put_bytes c s src"
  let ?b = "mk_buf cs ?c ss (s + length src) r"
  have "poke src b = Some (mk_buf cs ?c ss s r)"
    using sn by (simp add: b buf_simps)
  moreover have "advance (length src) (mk_buf cs ?c ss s r) = Some (True, ?b)"
    using assms(2) sn len
    by (simp add: advance_def mk_buf_def writeSize_def dq_at_def dq_set_def list_update_append)
  moreover have "buf_inv ?b"
    using ok sn by (intro buf_inv_mkI) (cases ss; auto simp: mk_ok_def)
  moreover have "content ?b = content b @ src"
    using map_put_bytes [of c s src] mk_ok_read_le_stored [OF ok] by (simp add: b content_mk len)
  ultimately show ?thesis by blast
qed

lemma reserve_spec:
  assumes "buf_inv b" and "n \<le> BlockSize"
  shows "\<exists>b'. reserve n b = Some (True, b') \<and> buf_inv b' \<and> content b' = content b
    \<and> n \<le> writeSize b'"
proof -
  from assms(1) obtain cs c ss s r where b: "b = mk_buf cs c ss s r" and ok: "mk_ok cs ss s r"
    by (rule buf_invE)
  from ok have len: "length cs = length ss" and s: "s \<le> BlockSize" by (auto simp: mk_ok_def)
  consider (fits) "n \<le> BlockSize - s"
    | (drained) "BlockSize - s < n" "r = s" "ss = []"
    | (more) "BlockSize - s < n" "r \<noteq> s \<or> ss \<noteq> []" by linarith
  then show ?thesis
  proof cases
    case fits
    with assms s show ?thesis by (simp add: b reserve_def buf_simps)
  next
    case drained
    with len have "reserve n b = Some (True, mk_buf [] fresh_chunk [] 0 0)"
      using assms(2) s
      by (simp add: b reserve_def addChunk_def dropChunks_def mk_buf_def Let_def numeral_eq_Suc)
    moreover have "content b = []" using drained len by (simp add: b content_mk)
    ultimately show ?thesis
      using assms(2) by (simp add: buf_inv_mk mk_ok_def content_mk buf_simps)
  next
    case more
    have "reserve n b = Some (True, newWriteChunk b)"
      using more assms(2) s len by (auto simp: b reserve_def newWriteChunk_def addChunk_def Let_def)
    moreover have "mk_ok (cs @ [c]) (ss @ [s]) 0 r"
      using more assms(2) ok by (cases ss) (auto simp: mk_ok_def)
    ultimately show ?thesis
      using len assms(2) mk_ok_read_le_stored [OF ok]
      by (auto simp: b buf_simps content_mk intro: buf_inv_mkI)
  qed
qed

lemma reserve_too_big: "BlockSize < n \<Longrightarrow> reserve n b = Some (False, b)"
  by (simp add: reserve_def)

section \<open>Reading\<close>

text \<open>The reader at chunk \<open>d\<close>, offset \<open>r\<close>, of a buffer in canonical form.\<close>

definition rd_ok :: "nat list \<Rightarrow> nat \<Rightarrow> nat \<Rightarrow> nat \<Rightarrow> bool" where
  "rd_ok ss s d r \<longleftrightarrow> d \<le> length ss \<and> (if d < length ss then r < ss ! d else r \<le> s)"

abbreviation at_pos :: "Buffer \<Rightarrow> nat \<Rightarrow> nat \<Rightarrow> Buffer" where
  "at_pos b d r \<equiv> b\<lparr>rpos := \<lparr>idx = d, off = r\<rparr>\<rparr>"

lemma stored_drop:
  "length cs = length ss \<Longrightarrow> d < length ss \<Longrightarrow>
     stored (drop d cs) (drop d ss) = map (cs ! d) [0 ..< ss ! d] @ stored (drop (Suc d) cs) (drop (Suc d) ss)"
  by (metis Cons_nth_drop_Suc stored.simps(1))

lemma content_at:
  assumes "length cs = length ss" "rd_ok ss s d r"
  shows "content (at_pos (mk_buf cs c ss s q) d r) =
    (if d < length ss
     then map (cs ! d) [r ..< ss ! d] @ content (at_pos (mk_buf cs c ss s q) (Suc d) 0)
     else map c [r ..< s])"
  using assms by (auto simp: content_def rd_ok_def stored_drop drop_map drop_upt)

lemma readSize_at:
  "rd_ok ss s d r \<Longrightarrow>
     readSize (at_pos (mk_buf cs c ss s q) d r) = Some (if d < length ss then ss ! d - r else s - r)"
  by (auto simp: readSize_def rd_ok_def nth_append)

lemma consume_step_at:
  assumes len: "length cs = length ss" and rd: "rd_ok ss s d r" and d: "d < length ss"
    and pos: "list_all (\<lambda>x. 0 < x \<and> x \<le> BlockSize) ss"
  defines "k \<equiv> ss ! d - r"
  shows "consume_step n m (at_pos (mk_buf cs c ss s q) d r) =
    (if k \<le> n then Some (n - k, m + 1, at_pos (mk_buf cs c ss s q) (Suc d) 0)
     else Some (0, m, at_pos (mk_buf cs c ss s q) d (r + n)))"
  using rd d by (auto simp: consume_step_def readSize_def Let_def rd_ok_def k_def min_def nth_append)

lemma consume_loop_at:
  assumes len: "length cs = length ss" and rd: "rd_ok ss s d r"
    and pos: "list_all (\<lambda>x. 0 < x \<and> x \<le> BlockSize) ss"
  shows "\<exists>n' d' r'. consume_loop n m (at_pos (mk_buf cs c ss s q) d r)
        = Some (n', m + (d' - d), at_pos (mk_buf cs c ss s q) d' r')
    \<and> d \<le> d' \<and> rd_ok ss s d' r' \<and> n' \<le> n \<and> (n' = 0 \<or> d' = length ss)
    \<and> content (at_pos (mk_buf cs c ss s q) d' r') = drop (n - n') (content (at_pos (mk_buf cs c ss s q) d r))"
    (is "\<exists>n' d' r'. ?P n m d r n' d' r'")
  using rd
proof (induction n m "at_pos (mk_buf cs c ss s q) d r" arbitrary: d r rule: consume_loop.induct)
  case (1 n m)
  let ?b = "mk_buf cs c ss s q"
  show ?case
  proof (cases "0 < n \<and> d < length ss")
    case False
    with 1(2) len have "?P n m d r n d r"
      by (subst consume_loop.simps) (auto simp: rd_ok_def)
    then show ?thesis by blast
  next
    case True
    note step = consume_step_at [OF len 1(2) _ pos, of n m c q]
    show ?thesis
    proof (cases "ss ! d - r \<le> n")
      case le: True
      have st: "consume_step n m (at_pos ?b d r) = Some (n - (ss ! d - r), m + 1, at_pos ?b (Suc d) 0)"
        using step True le by simp
      have rd': "rd_ok ss s (Suc d) 0" using pos True by (auto simp: rd_ok_def list_all_length)
      from 1(1) [OF _ st refl refl rd'] True len obtain n' d' r' where
        *: "?P (n - (ss ! d - r)) (m + 1) (Suc d) 0 n' d' r'" by auto
      have "?P n m d r n' d' r'"
        using * st True len 1(2) le
        by (subst consume_loop.simps) (auto simp: content_at [OF len 1(2)] add.commute)
      then show ?thesis by blast
    next
      case gt: False
      have st: "consume_step n m (at_pos ?b d r) = Some (0, m, at_pos ?b d (r + n))"
        using step True gt by simp
      have rd': "rd_ok ss s d (r + n)" using gt True by (auto simp: rd_ok_def)
      have "?P n m d r 0 d (r + n)"
        using st True len gt rd' 1(2)
        by (subst consume_loop.simps)
          (auto simp: consume_loop.simps [of 0] content_at [OF len rd'] content_at [OF len 1(2)] drop_map drop_upt)
      then show ?thesis by blast
    qed
  qed
qed

lemma popChunks_drop:
  "n \<le> length (chunks b) \<Longrightarrow> n \<le> length (sizes b) \<Longrightarrow>
     popChunks n b = Some (b\<lparr>chunks := drop n (chunks b), sizes := drop n (sizes b)\<rparr>)"
proof (induction n arbitrary: b)
  case (Suc n)
  then show ?case by (cases "chunks b"; cases "sizes b") auto
qed simp

lemma dropChunks_at:
  assumes "length cs = length ss" "d \<le> length ss"
  shows "dropChunks d (at_pos (mk_buf cs c ss s q) d r) = Some (mk_buf (drop d cs) c (drop d ss) s r)"
  using assms by (auto simp: dropChunks_def popChunks_drop mk_buf_def)

lemma consume_spec:
  assumes "buf_inv b"
  shows "\<exists>b'. consume n b = Some b' \<and> buf_inv b' \<and> content b' = drop n (content b)
    \<and> wpos b' = (wpos b)\<lparr>idx := idx (wpos b')\<rparr>"
proof -
  from assms obtain cs c ss s r where b: "b = mk_buf cs c ss s r" and ok: "mk_ok cs ss s r"
    by (rule buf_invE)
  from ok have len: "length cs = length ss" and pos: "list_all (\<lambda>x. 0 < x \<and> x \<le> BlockSize) ss"
    and rd: "rd_ok ss s 0 r"
    by (auto simp: mk_ok_def rd_ok_def split: list.splits)
  have b0: "b = at_pos (mk_buf cs c ss s r) 0 r" by (simp add: b mk_buf_def)
  from consume_loop_at [OF len rd pos, of n 0 c r] obtain n' d r' where
    lp: "consume_loop n 0 b = Some (n', d, at_pos (mk_buf cs c ss s r) d r')"
    and rd': "rd_ok ss s d r'" and n': "n' \<le> n" "n' = 0 \<or> d = length ss"
    and ct: "content (at_pos (mk_buf cs c ss s r) d r') = drop (n - n') (content b)"
    by (auto simp: b0)
  define r2 where "r2 = (if 0 < n' then r' + min n' (s - r') else r')"
  have d: "d \<le> length ss" using rd' by (simp add: rd_ok_def)
  have cons: "consume n b = Some (mk_buf (drop d cs) c (drop d ss) s r2)"
    using lp rd' n' dropChunks_at [OF len d]
    by (auto simp: consume_def r2_def readSize_at [OF rd'])
  have rd2: "rd_ok ss s d r2" using rd' n' by (auto simp: r2_def rd_ok_def)
  have "list_all (\<lambda>x. 0 < x \<and> x \<le> BlockSize) (drop d ss)"
    using ok by (auto simp: mk_ok_def list_all_iff dest: in_set_dropD)
  then have "mk_ok (drop d cs) (drop d ss) s r2"
    using ok rd2 d Cons_nth_drop_Suc [of d ss, symmetric]
    by (cases "d < length ss") (auto simp: mk_ok_def rd_ok_def)
  moreover have "content (mk_buf (drop d cs) c (drop d ss) s r2) = content (at_pos (mk_buf cs c ss s r) d r2)"
    using d len by (simp add: content_def)
  moreover have "content (at_pos (mk_buf cs c ss s r) d r2) = drop n (content b)"
  proof (cases "n' = 0")
    case True
    with ct show ?thesis by (simp add: r2_def)
  next
    case False
    with n' have dl: "d = length ss" by simp
    have "content (at_pos (mk_buf cs c ss s r) d r2) = drop n' (content (at_pos (mk_buf cs c ss s r) d r'))"
      using dl False rd' content_at [OF len rd2, of c r] content_at [OF len rd', of c r]
      by (auto simp: r2_def rd_ok_def drop_map drop_upt min_def)
    with ct n' show ?thesis by simp
  qed
  ultimately show ?thesis
    using cons by (auto simp: b intro: buf_inv_mkI)
qed

lemma sum_list_map_nth_from1: "sum_list (map (\<lambda>i. (x # xs) ! i) [1 ..< length (x # xs)]) = sum_list xs"
  by (metis (no_types, lifting) One_nat_def drop0 drop_Suc_Cons drop_map map_nth drop_upt plus_nat.add_0
      length_Cons)

lemma byteCount_spec: "buf_inv b \<Longrightarrow> byteCount b = Some (length (content b))"
proof -
  assume "buf_inv b"
  then obtain cs c ss s r where b: "b = mk_buf cs c ss s r" and ok: "mk_ok cs ss s r"
    by (rule buf_invE)
  have len: "length cs = length ss" using ok by (rule mk_ok_len)
  obtain x xs where ss: "ss @ [s] = x # xs" by (cases "ss @ [s]") auto
  have "r \<le> x" using ok ss by (cases ss) (auto simp: mk_ok_def)
  moreover have "sum_list ss + s = x + sum_list xs"
    using arg_cong [OF ss, of sum_list] by simp
  ultimately show ?thesis
    using sum_list_map_nth_from1 [of x xs] ss
    by (simp add: byteCount_def readSize_def b content_mk len length_stored)
qed

lemma readSize_zero:
  assumes "buf_inv b" shows "readSize b = Some 0 \<longleftrightarrow> content b = []"
proof -
  from assms obtain cs c ss s r where b: "b = mk_buf cs c ss s r" and ok: "mk_ok cs ss s r"
    by (rule buf_invE)
  then show ?thesis
    by (cases ss; cases cs) (auto simp: buf_simps content_mk mk_ok_def)
qed

lemma buf_inv_readSize: "buf_inv b \<Longrightarrow> \<exists>n. readSize b = Some n \<and> n \<le> length (content b)"
  by (erule buf_invE) (auto simp: buf_simps content_mk mk_ok_def length_stored split: list.splits)


section \<open>Copying and moving between buffers\<close>

lemma copy_loop_rest:
  assumes "mk_ok cs ss s r" and "length ocs = length oss"
    and "list_all (\<lambda>x. x \<le> BlockSize) oss" and "list_all (\<lambda>x. 0 < x) (butlast oss)"
    and "oss \<noteq> [] \<Longrightarrow> 0 < s \<and> (ss = [] \<longrightarrow> r < s)"
  shows "\<exists>cs' c' ss' s'. copy_loop False (zip ocs oss) (mk_buf cs c ss s r) = Some (mk_buf cs' c' ss' s' r)
    \<and> mk_ok cs' ss' s' r \<and> stored cs' ss' @ map c' [0 ..< s'] = stored cs ss @ map c [0 ..< s] @ stored ocs oss"
  using assms(2,1,3-)
proof (induction ocs oss arbitrary: cs c ss s rule: list_induct2)
  case Nil
  then show ?case by auto
next
  case (Cons oc ocs len oss)
  let ?c = "put_bytes fresh_chunk 0 (map oc [0 ..< len])"
  have len: "length cs = length ss" using Cons.prems(1) by (rule mk_ok_len)
  have step: "copy_loop False (zip (oc # ocs) (len # oss)) (mk_buf cs c ss s r) =
    copy_loop False (zip ocs oss) (mk_buf (cs @ [c]) ?c (ss @ [s]) len r)"
    using Cons.prems len by (simp add: buf_simps Let_def)
  have ok: "mk_ok (cs @ [c]) (ss @ [s]) len r"
    using Cons.prems by (cases ss) (auto simp: mk_ok_def)
  have bytes: "map ?c [0 ..< len] = map oc [0 ..< len]"
    using map_put_bytes [of fresh_chunk 0 "map oc [0 ..< len]"] by simp
  have "list_all (\<lambda>x. x \<le> BlockSize) oss" "list_all (\<lambda>x. 0 < x) (butlast oss)"
    "oss \<noteq> [] \<Longrightarrow> 0 < len \<and> (ss @ [s] = [] \<longrightarrow> r < len)"
    using Cons.prems by (auto split: if_splits)
  from Cons.IH [OF ok this, of ?c] show ?case
    unfolding step using bytes len by (auto; blast)
qed

lemma copyFrom_spec:
  assumes "buf_inv this" and "buf_inv other" and "\<not> isConsumed other"
    and fits: "drained this \<Longrightarrow> hd (sizes other) \<le> writeSize this"
  shows "\<exists>t. copyFrom this other = Some (False, t) \<and> buf_inv t
    \<and> content t = content this @ content other \<and> (has_room this \<longrightarrow> has_room t)"
proof (cases "content other = []")
  case True
  with assms readSize_zero [OF assms(2)] show ?thesis by (auto simp: copyFrom_def)
next
  case False
  from assms(1) obtain cs c ss s r where t: "this = mk_buf cs c ss s r" and ok: "mk_ok cs ss s r"
    by (rule buf_invE)
  have len: "length cs = length ss" and s: "s \<le> BlockSize" using ok by (auto simp: mk_ok_def)
  obtain n where n: "readSize other = Some n" "n \<noteq> 0"
    using False assms(2) readSize_zero buf_inv_readSize by (metis bot_nat_0.not_eq_extremum)
  obtain oc ocs l oss where o: "chunks other = oc # ocs" "sizes other = l # oss" "length ocs = length oss"
    using assms(2) by (cases "chunks other"; cases "sizes other") (auto simp: buf_inv_def)
  have r0: "rpos other = \<lparr>idx = 0, off = 0\<rparr>" using assms(3) by (cases "rpos other") (simp add: isConsumed_def)
  have l: "0 < l" using n o r0 by (simp add: readSize_def)
  have bnd: "l \<le> BlockSize" "list_all (\<lambda>x. x \<le> BlockSize) oss" "list_all (\<lambda>x. 0 < x) (butlast oss)"
    using assms(2) o by (auto simp: buf_inv_def list_all_iff dest: in_set_butlastD split: if_splits)
  have co: "content other = map oc [0 ..< l] @ stored ocs oss" by (simp add: content_def r0 o)
  let ?room = "l \<le> BlockSize - s"
  define cs1 where "cs1 = (if ?room then cs else cs @ [c])"
  define ss1 where "ss1 = (if ?room then ss else ss @ [s])"
  define c1 where "c1 = (if ?room then put_bytes c s (map oc [0 ..< l]) else put_bytes fresh_chunk 0 (map oc [0 ..< l]))"
  define s1 where "s1 = (if ?room then s + l else l)"
  have nd: "\<not> ?room \<Longrightarrow> ss = [] \<Longrightarrow> r < s"
    using fits ok o len s by (auto simp: t drained_def mk_ok_def buf_simps le_less)
  have ok1: "mk_ok cs1 ss1 s1 r"
    using ok bnd l nd by (cases ss) (auto simp: mk_ok_def cs1_def ss1_def s1_def)
  have st1: "stored cs1 ss1 @ map c1 [0 ..< s1] = stored cs ss @ map c [0 ..< s] @ map oc [0 ..< l]"
    using map_put_bytes [of c s "map oc [0 ..< l]"] map_put_bytes [of fresh_chunk 0 "map oc [0 ..< l]"] len
    by (auto simp: cs1_def ss1_def c1_def s1_def)
  have "copy_loop True (zip (chunks other) (sizes other)) this = copy_loop False (zip ocs oss) (mk_buf cs1 c1 ss1 s1 r)"
    using s bnd len by (auto simp: t o buf_simps Let_def cs1_def ss1_def c1_def s1_def)
  moreover have "0 < s1 \<and> (ss1 = [] \<longrightarrow> r < s1)"
    using l ok by (auto simp: s1_def ss1_def mk_ok_def)
  ultimately obtain cs2 c2 ss2 s2 where
    lp: "copy_loop True (zip (chunks other) (sizes other)) this = Some (mk_buf cs2 c2 ss2 s2 r)"
    and ok2: "mk_ok cs2 ss2 s2 r"
    and st2: "stored cs2 ss2 @ map c2 [0 ..< s2] = stored cs ss @ map c [0 ..< s] @ content other"
    using copy_loop_rest [OF ok1 o(3) bnd(2,3), of c1] arg_cong [OF st1, of "\<lambda>x. x @ stored ocs oss"] co
    by auto
  have ct: "content (mk_buf cs2 c2 ss2 s2 r) = content this @ content other"
    using st2 ok2 mk_ok_read_le_stored [OF ok] by (simp add: t content_mk mk_ok_len len)
  have ne: "r < sum_list ss2 + s2"
  proof -
    have "length (content (mk_buf cs2 c2 ss2 s2 r)) = sum_list ss2 + s2 - r"
      using mk_ok_len [OF ok2] by (simp add: content_mk length_stored)
    moreover have "0 < length (content (mk_buf cs2 c2 ss2 s2 r))"
      using ct False by simp
    ultimately show ?thesis by linarith
  qed
  show ?thesis
  proof (cases "s2 = BlockSize")
    case True
    then have "mk_ok (cs2 @ [c2]) (ss2 @ [s2]) 0 r"
      using ok2 ne by (cases ss2) (auto simp: mk_ok_def BlockSize_def)
    moreover have "content (mk_buf (cs2 @ [c2]) fresh_chunk (ss2 @ [s2]) 0 r) = content (mk_buf cs2 c2 ss2 s2 r)"
      using ok2 by (simp add: content_mk mk_ok_len)
    ultimately show ?thesis
      using True lp ct n assms(3) ok2
      by (auto simp: copyFrom_def buf_simps mk_ok_len has_room_def BlockSize_def intro: buf_inv_mkI)
  next
    case False
    with lp ct n assms(3) ok2 show ?thesis
      by (auto simp: copyFrom_def has_room_def mk_ok_def intro!: buf_inv_mkI)
  qed
qed

lemma buf_inv_plainI:
  assumes "length S = length C" "S \<noteq> []" "list_all (\<lambda>x. 0 < x \<and> x \<le> BlockSize) S" "r < hd S"
    and "b = \<lparr>chunks = C, sizes = S, wpos = \<lparr>idx = length C - 1, off = last S\<rparr>, rpos = \<lparr>idx = 0, off = r\<rparr>\<rparr>"
  shows "buf_inv b"
  using assms by (auto simp: buf_inv_def list_all_iff dest: in_set_butlastD)

lemma buf_inv_plain_emptyI:
  assumes "length S = length C" "S \<noteq> []" "list_all (\<lambda>x. 0 < x \<and> x \<le> BlockSize) S" "r < hd S"
    and "b = \<lparr>chunks = C @ [c], sizes = S @ [0], wpos = \<lparr>idx = length C, off = 0\<rparr>, rpos = \<lparr>idx = 0, off = r\<rparr>\<rparr>"
  shows "buf_inv b"
  using assms by (cases S) (auto simp: buf_inv_def list_all_iff)

text \<open>The chunks of a buffer without an empty last one.\<close>

definition full_chunks :: "Buffer \<Rightarrow> chunk list" where
  "full_chunks b = (if last (sizes b) = 0 then butlast (chunks b) else chunks b)"

definition full_sizes :: "Buffer \<Rightarrow> nat list" where
  "full_sizes b = (if last (sizes b) = 0 then butlast (sizes b) else sizes b)"

lemma full_mk:
  "full_chunks (mk_buf cs c ss s r) = (if s = 0 then cs else cs @ [c])"
  "full_sizes (mk_buf cs c ss s r) = (if s = 0 then ss else ss @ [s])"
  by (simp_all add: full_chunks_def full_sizes_def)

lemma full_props:
  assumes "mk_ok cs ss s r" and "b = mk_buf cs c ss s r"
  shows "length (full_sizes b) = length (full_chunks b)"
    "list_all (\<lambda>x. 0 < x \<and> x \<le> BlockSize) (full_sizes b)"
    "content b = drop r (stored (full_chunks b) (full_sizes b))"
    "maybeRemoveLastChunk b =
       Some (if last (sizes b) = 0 then Some c else None, b\<lparr>chunks := full_chunks b, sizes := full_sizes b\<rparr>)"
  using assms
  by (auto simp: full_mk mk_ok_def content_mk maybeRemoveLastChunk_def dq_at_def)

lemma Buffer_rebuild:
  "(b :: Buffer)\<lparr>chunks := C, sizes := S, wpos := w\<rparr> = \<lparr>chunks = C, sizes = S, wpos = w, rpos = rpos b\<rparr>"
  "(b :: Buffer)\<lparr>chunks := C, sizes := S, wpos := w, rpos := r\<rparr> = \<lparr>chunks = C, sizes = S, wpos = w, rpos = r\<rparr>"
  by (cases b; simp)+

lemma appendFrom_eq:
  assumes "buf_inv this" "buf_inv other" "\<not> isConsumed other" "content other \<noteq> []"
    and "\<not> (drained this \<and> 0 < off (wpos this))"
  defines "C \<equiv> full_chunks this @ full_chunks other" and "S \<equiv> full_sizes this @ full_sizes other"
  shows "\<exists>c t o'. appendFrom this other = Some (False, t, o')
    \<and> t = (if last S = BlockSize
           then \<lparr>chunks = C @ [c], sizes = S @ [0], wpos = \<lparr>idx = length C, off = 0\<rparr>, rpos = rpos this\<rparr>
           else \<lparr>chunks = C, sizes = S, wpos = \<lparr>idx = length C - 1, off = last S\<rparr>, rpos = rpos this\<rparr>)
    \<and> o' = (if last (sizes other) = 0
           then other\<lparr>chunks := [last (chunks other)], sizes := [0], rpos := wpos other\<rparr> else new_Buffer)
    \<and> S \<noteq> [] \<and> off (rpos this) < hd S"
proof -
  from assms(1) obtain cs c ss s r where t: "this = mk_buf cs c ss s r" and ok: "mk_ok cs ss s r"
    by (rule buf_invE)
  from assms(2) obtain ocs oc oss os q where o: "other = mk_buf ocs oc oss os q" and oko: "mk_ok ocs oss os q"
    by (rule buf_invE)
  note ft = full_props [OF ok t] and fo = full_props [OF oko o]
  have q: "q = 0" using assms(3) by (simp add: isConsumed_def o)
  have fo_ne: "full_sizes other \<noteq> []" using fo(1,3) assms(4) by auto
  obtain n where n: "readSize other = Some n" "n \<noteq> 0"
    using assms(2,4) readSize_zero buf_inv_readSize by (metis bot_nat_0.not_eq_extremum)
  have hd: "r < hd S"
  proof (cases "full_sizes this")
    case Nil
    then have "s = 0" "ss = []" by (auto simp: t full_mk split: if_splits)
    with ok have "r = 0" by (simp add: mk_ok_def)
    with Nil fo(2) fo_ne show ?thesis by (cases "full_sizes other") (auto simp: S_def)
  next
    case (Cons x xs)
    with ok assms(5) have "r < x"
      by (cases ss) (auto simp: t full_mk mk_ok_def drained_def split: if_splits)
    with Cons show ?thesis by (simp add: S_def)
  qed
  have S: "S \<noteq> []" "length S = length C" using fo_ne ft(1) fo(1) by (auto simp: S_def C_def)
  define k where "k = hd S - r"
  have pos: "k \<noteq> 0" using hd by (simp add: k_def)
  have rd0: "readSize b = Some k"
    if "sizes b = full_sizes this @ full_sizes other @ zs" "rpos b = rpos this" for b zs
    using that S(1) hd by (cases S) (auto simp: readSize_def t k_def S_def append_eq_Cons_conv)
  have rd: "readSize b = Some k" if "sizes b = full_sizes this @ full_sizes other" "rpos b = rpos this" for b
    using rd0 [of b "[]"] that by simp
  let ?c = "if last (sizes this) = 0 then c else fresh_chunk"
  let ?t = "if last S = BlockSize
           then \<lparr>chunks = C @ [?c], sizes = S @ [0], wpos = \<lparr>idx = length C, off = 0\<rparr>, rpos = rpos this\<rparr>
           else \<lparr>chunks = C, sizes = S, wpos = \<lparr>idx = length C - 1, off = last S\<rparr>, rpos = rpos this\<rparr>"
  let ?o = "if last (sizes other) = 0
           then other\<lparr>chunks := [last (chunks other)], sizes := [0], rpos := wpos other\<rparr> else new_Buffer"
  have lc: "last (chunks other) = oc" by (simp add: o)
  have lastS: "last S = last (full_sizes other)" using fo_ne by (simp add: S_def)
  have "appendFrom this other = Some (False, ?t, ?o)"
    using assms(3) n S pos fo_ne lastS
    by (cases "last S = BlockSize"; cases "last (sizes this) = 0"; cases "last (sizes other) = 0")
      (simp_all add: appendFrom_def ft(4) fo(4) rd rd0 lc Let_def addChunk_def newWriteChunk_def new_Buffer_def
        Buffer_rebuild C_def S_def)
  with S hd show ?thesis by (auto simp: t)
qed


lemma stored_full:
  assumes "buf_inv b" shows "content b = drop (off (rpos b)) (stored (full_chunks b) (full_sizes b))"
    "length (full_sizes b) = length (full_chunks b)"
    "list_all (\<lambda>x. 0 < x \<and> x \<le> BlockSize) (full_sizes b)" "idx (rpos b) = 0"
  using assms by (auto elim!: buf_invE simp: full_props)

lemma appendFrom_spec:
  assumes "buf_inv this" "buf_inv other" "\<not> isConsumed other"
    and "\<not> (drained this \<and> 0 < off (wpos this))"
  shows "\<exists>t o'. appendFrom this other = Some (False, t, o') \<and> buf_inv t
    \<and> content t = content this @ content other"
proof (cases "content other = []")
  case True
  with assms readSize_zero [OF assms(2)] show ?thesis by (auto simp: appendFrom_def)
next
  case False
  define C where "C = full_chunks this @ full_chunks other"
  define S where "S = full_sizes this @ full_sizes other"
  from appendFrom_eq [OF assms(1-3) False assms(4)] obtain c t o' where
    app: "appendFrom this other = Some (False, t, o')" and
    t: "t = (if last S = BlockSize
           then \<lparr>chunks = C @ [c], sizes = S @ [0], wpos = \<lparr>idx = length C, off = 0\<rparr>, rpos = rpos this\<rparr>
           else \<lparr>chunks = C, sizes = S, wpos = \<lparr>idx = length C - 1, off = last S\<rparr>, rpos = rpos this\<rparr>)" and
    S: "S \<noteq> []" "off (rpos this) < hd S"
    unfolding C_def S_def by blast
  note ft = stored_full [OF assms(1)] and fo = stored_full [OF assms(2)]
  have rp: "rpos this = \<lparr>idx = 0, off = off (rpos this)\<rparr>" using ft(4) by (cases "rpos this") simp
  have CS: "length S = length C" "list_all (\<lambda>x. 0 < x \<and> x \<le> BlockSize) S"
    using ft fo by (auto simp: C_def S_def)
  have inv: "buf_inv t"
  proof (cases "last S = BlockSize")
    case True
    with t rp show ?thesis by (intro buf_inv_plain_emptyI [OF CS(1) S(1) CS(2) S(2), of t c]) simp
  next
    case False
    with t rp show ?thesis by (intro buf_inv_plainI [OF CS(1) S(1) CS(2) S(2), of t]) simp
  qed
  have le: "off (rpos this) \<le> length (stored (full_chunks this) (full_sizes this))"
  proof (cases "full_sizes this")
    case Nil
    with assms(1) have "off (rpos this) = 0"
      by (auto elim!: buf_invE simp: full_mk mk_ok_def split: if_splits)
    then show ?thesis by simp
  next
    case (Cons x xs)
    with S(2) have "off (rpos this) \<le> sum_list (full_sizes this)" by (simp add: S_def)
    then show ?thesis by (simp add: length_stored ft(2))
  qed
  have "content t = drop (off (rpos this)) (stored C S)"
    using ft(4) CS(1) by (auto simp: content_def t)
  also have "\<dots> = content this @ content other"
    using le ft(1,2) fo(1) assms(3) by (simp add: C_def S_def isConsumed_def)
  finally show ?thesis using app inv by blast
qed

section \<open>Iterators\<close>

definition it_rest :: "Buffer \<Rightarrow> Iterator \<Rightarrow> byte option list" where
  "it_rest b it = content (b\<lparr>rpos := pos it\<rparr>)"

definition it_inv :: "Buffer \<Rightarrow> Iterator \<Rightarrow> bool" where
  "it_inv b it \<longleftrightarrow> buf_inv b \<and>
     rd_ok (butlast (sizes b)) (last (sizes b)) (idx (pos it)) (off (pos it)) \<and>
     chunk_start it = idx (pos it) \<and> budget it = sizes b ! idx (pos it) - off (pos it) \<and>
     bytes_total it = length (content b) \<and> bytes_read it + length (it_rest b it) = bytes_total it"

lemma it_invE:
  assumes "it_inv b it"
  obtains cs c ss s q d r where "b = mk_buf cs c ss s q" "mk_ok cs ss s q" "length cs = length ss"
    "pos it = \<lparr>idx = d, off = r\<rparr>" "rd_ok ss s d r" "chunk_start it = d"
    "budget it = (if d < length ss then ss ! d - r else s - r)"
    "bytes_total it = length (content b)" "bytes_read it + length (it_rest b it) = bytes_total it"
proof -
  from assms have "buf_inv b" by (simp add: it_inv_def)
  then obtain cs c ss s q where b: "b = mk_buf cs c ss s q" and ok: "mk_ok cs ss s q"
    by (rule buf_invE)
  obtain d r where p: "pos it = \<lparr>idx = d, off = r\<rparr>" by (cases "pos it")
  have "budget it = (if d < length ss then ss ! d - r else s - r)" "rd_ok ss s d r"
    using assms by (auto simp: it_inv_def b p rd_ok_def nth_append)
  with that b ok p mk_ok_len [OF ok] assms show ?thesis by (auto simp: it_inv_def)
qed

lemma begin_spec:
  assumes "buf_inv b"
  shows "\<exists>it. buf_begin b = Some it \<and> it_inv b it \<and> it_rest b it = content b \<and> bytes_read it = 0"
proof -
  from assms obtain cs c ss s r where b: "b = mk_buf cs c ss s r" and ok: "mk_ok cs ss s r"
    by (rule buf_invE)
  have rd: "rd_ok ss s 0 r" using ok by (auto simp: mk_ok_def rd_ok_def split: list.splits)
  have bc: "byteCount b = Some (length (content b))" using assms by (rule byteCount_spec)
  have "getBudget b (rpos b) = Some ((ss @ [s]) ! 0 - r)"
    using rd by (cases ss) (auto simp: getBudget_def b rd_ok_def)
  with bc have "buf_begin b = Some \<lparr>pos = rpos b, bytes_read = 0, bytes_total = length (content b),
      budget = (ss @ [s]) ! 0 - r, chunk_start = 0\<rparr>"
    by (simp add: buf_begin_def new_Iterator_def b)
  with rd assms show ?thesis by (simp add: it_inv_def it_rest_def b content_def)
qed

lemma eob_spec: "it_inv b it \<Longrightarrow> eob b it \<longleftrightarrow> it_rest b it = []"
  by (erule it_invE) (auto simp: eob_def it_rest_def content_at rd_ok_def)

lemma getChar_spec:
  assumes "it_inv b it" "it_rest b it = x # xs" shows "getChar b it = x"
proof -
  from assms(1) obtain cs c ss s q d r where
    b: "b = mk_buf cs c ss s q" and ok: "mk_ok cs ss s q" and len: "length cs = length ss" and
    p: "pos it = \<lparr>idx = d, off = r\<rparr>" and rd: "rd_ok ss s d r" and ch: "chunk_start it = d"
    by (rule it_invE)
  have rest: "it_rest b it = content (at_pos b d r)" by (simp add: it_rest_def p)
  show ?thesis
  proof (cases "d < length ss")
    case True
    then have "r < ss ! d" "ss ! d \<le> BlockSize" using rd ok by (auto simp: rd_ok_def mk_ok_def list_all_length)
    with True assms(2) content_at [OF len rd, of c q] show ?thesis
      unfolding rest unfolding b
      by (simp add: getChar_def p ch len nth_append upt_conv_Cons less_le_trans)
  next
    case False
    then have d: "d = length cs" "s \<le> BlockSize" using rd ok len by (auto simp: rd_ok_def mk_ok_def)
    have "map c [r ..< s] = x # xs" using False assms(2) content_at [OF len rd, of c q] unfolding rest unfolding b by simp
    then have "r < s" "c r = x" by (auto simp: upt_eq_Cons_conv)
    with d show ?thesis by (simp add: getChar_def p ch b)
  qed
qed

lemma it_next_eob: "it_inv b it \<Longrightarrow> it_rest b it = [] \<Longrightarrow> it_next b it = Some it"
  by (elim it_invE)
    (auto simp: it_next_def slowNext_def it_rest_def content_at rd_ok_def split: if_splits)

lemma it_next_spec:
  assumes "it_inv b it" "it_rest b it = x # xs"
  shows "\<exists>it'. it_next b it = Some it' \<and> it_inv b it' \<and> it_rest b it' = xs \<and> bytes_read it' = bytes_read it + 1"
proof -
  from assms(1) obtain cs c ss s q d r where
    b: "b = mk_buf cs c ss s q" and ok: "mk_ok cs ss s q" and len: "length cs = length ss" and
    p: "pos it = \<lparr>idx = d, off = r\<rparr>" and rd: "rd_ok ss s d r" and ch: "chunk_start it = d" and
    bud: "budget it = (if d < length ss then ss ! d - r else s - r)" and
    tot: "bytes_total it = length (content b)" "bytes_read it + length (it_rest b it) = bytes_total it"
    by (rule it_invE)
  have bi: "buf_inv b" using ok by (simp add: b buf_inv_mkI)
  have rest: "it_rest b it = content (at_pos b d r)" by (simp add: it_rest_def p)
  let ?s = "if d < length ss then ss ! d else s"
  have lt: "r < ?s"
    using assms(2) rd content_at [OF len rd, of c q] unfolding rest unfolding b
    by (auto simp: rd_ok_def upt_eq_Cons_conv split: if_splits)
  show ?thesis
  proof (cases "r + 1 < ?s \<or> d = length ss")
    case True
    let ?it = "it\<lparr>pos := \<lparr>idx = d, off = r + 1\<rparr>, bytes_read := bytes_read it + 1, budget := ?s - (r + 1)\<rparr>"
    have rd': "rd_ok ss s d (r + 1)" using True lt rd by (auto simp: rd_ok_def)
    have nx: "it_next b it = Some ?it"
      using True lt bud ch rd
      by (auto simp: it_next_def slowNext_def getBudget_def p b rd_ok_def nth_append len)
    have "content (at_pos b d r) = x # content (at_pos b d (r + 1))"
      using assms(2) lt content_at [OF len rd, of c q] content_at [OF len rd', of c q]
      unfolding rest unfolding b by (auto simp: upt_conv_Cons split: if_splits)
    with nx rd' tot assms(2) bi show ?thesis
      by (auto simp: it_inv_def it_rest_def rest b ch p nth_append rd_ok_def)
  next
    case False
    then have d: "d < length ss" and r1: "r + 1 = ss ! d" using lt rd by (auto simp: rd_ok_def)
    let ?it = "it\<lparr>pos := \<lparr>idx = d + 1, off = 0\<rparr>, bytes_read := bytes_read it + 1,
      budget := (ss @ [s]) ! (d + 1), chunk_start := d + 1\<rparr>"
    have rd': "rd_ok ss s (Suc d) 0" using ok d by (auto simp: rd_ok_def mk_ok_def list_all_length)
    have nx: "it_next b it = Some ?it"
      using d r1 bud ch by (simp add: it_next_def slowNext_def getBudget_def p b nth_append len Let_def)
    have "content (at_pos b d r) = x # content (at_pos b (Suc d) 0)"
      using assms(2) d r1 content_at [OF len rd, of c q] unfolding rest unfolding b
      by (auto simp: upt_conv_Cons)
    with nx rd' tot assms(2) bi show ?thesis
      by (auto simp: it_inv_def it_rest_def rest b p)
  qed
qed


section \<open>The interfaces\<close>

text \<open>The buffer as a byte stream: a connection's output buffer, written by \<^verbatim>\<open>write\<close>.\<close>

definition out_inv :: "Buffer \<Rightarrow> bool" where
  "out_inv b \<longleftrightarrow> buf_inv b \<and> has_room b"

lemma out_inv_new: "out_inv new_Buffer"
  by (simp add: out_inv_def buf_inv_new has_room_new)

interpretation outbuf: byte_stream out_inv content buf_write consume
proof
  fix b data
  assume "out_inv b"
  then show "\<exists>b'. buf_write data b = Some b' \<and> out_inv b' \<and> content b' = content b @ map Some data"
    using write_spec [of b data] by (auto simp: out_inv_def)
next
  fix b n
  assume b: "out_inv b"
  then obtain b' where b': "consume n b = Some b'" "buf_inv b'" "content b' = drop n (content b)"
    "wpos b' = (wpos b)\<lparr>idx := idx (wpos b')\<rparr>"
    using consume_spec [of b n] by (auto simp: out_inv_def)
  from b'(4) have "off (wpos b') = off (wpos b)" by (metis Position.select_convs(2) Position.surjective Position.update_convs(1))
  with b b' show "\<exists>b'. consume n b = Some b' \<and> out_inv b' \<and> content b' = drop n (content b)"
    by (auto simp: out_inv_def has_room_def)
qed

text \<open>The iterator of a fixed buffer as a cursor.\<close>

interpretation bufit: byte_cursor "it_inv b" "it_rest b" "eob b" "getChar b" "it_next b" for b
proof
  fix it x xs
  assume i: "it_inv b it"
  show "eob b it \<longleftrightarrow> it_rest b it = []" using i by (rule eob_spec)
  show "it_rest b it = x # xs \<Longrightarrow> getChar b it = x" using i by (rule getChar_spec)
  show "it_rest b it = x # xs \<Longrightarrow> \<exists>it'. it_next b it = Some it' \<and> it_inv b it' \<and> it_rest b it' = xs"
    using it_next_spec [OF i] by blast
  show "it_rest b it = [] \<Longrightarrow> it_next b it = Some it" using i by (rule it_next_eob)
qed


section \<open>Where the operations fall short of their contract\<close>

lemma write_no_chunk:
  assumes "length (chunks b) \<le> idx (wpos b)" "data \<noteq> []" shows "buf_write data b = None"
  using assms by (simp add: buf_write_def write_loop.simps write_step_def poke_def dq_at_def Let_def)

lemma appendFrom_stale_aux:
  assumes "buf_inv this" "buf_inv other" "\<not> isConsumed other" "\<not> (drained this \<and> 0 < off (wpos this))"
    and "last (sizes other) = 0" "1 < length (sizes other)"
  shows "\<exists>t o'. appendFrom this other = Some (False, t, o') \<and> length (chunks o') \<le> idx (wpos o')"
proof -
  have "content other \<noteq> []"
  proof -
    from assms(2) obtain cs c ss s r where o: "other = mk_buf cs c ss s r" and ok: "mk_ok cs ss s r"
      by (rule buf_invE)
    have "r = 0" using assms(3) by (simp add: o isConsumed_def)
    with ok assms(6) o show ?thesis by (cases ss; cases cs) (auto simp: content_mk mk_ok_def)
  qed
  from appendFrom_eq [OF assms(1-3) this assms(4)] assms(2,5,6) show ?thesis
    by (auto simp: buf_inv_def)
qed

section \<open>Properties\<close>

text \<open>
  A write to a buffer whose last chunk has room never touches memory out of bounds, keeps the
  buffer well formed and appends exactly the written bytes, whatever chunk boundaries they cross.
\<close>

theorem write_appends:
  assumes "out_inv b"
  shows "\<exists>b'. buf_write data b = Some b' \<and> out_inv b' \<and> content b' = content b @ map Some data"
  by (rule outbuf.put_ok [OF assms])

theorem write_appends_witness:
  "out_inv new_Buffer \<and>
   (\<exists>b'. buf_write ''GET'' new_Buffer = Some b' \<and> out_inv b' \<and> content b' = map Some ''GET'')"
  using write_appends [OF out_inv_new, of "''GET''"] out_inv_new by (simp add: content_new)

text \<open>
  Consuming \<open>n\<close> bytes removes exactly the first \<open>n\<close> unread bytes (all of them when fewer are
  left), frees the chunks that were read and keeps the buffer well formed; \<^verbatim>\<open>byteCount\<close> is
  the number of unread bytes and \<^verbatim>\<open>readSize\<close> is zero only when nothing is unread.
\<close>

theorem consume_drops:
  assumes "buf_inv b"
  shows "\<exists>b'. consume n b = Some b' \<and> buf_inv b' \<and> content b' = drop n (content b)
    \<and> byteCount b' = Some (length (content b) - n)
    \<and> (readSize b' = Some 0 \<longleftrightarrow> length (content b) \<le> n)"
  using consume_spec [OF assms, of n] byteCount_spec readSize_zero by force

theorem consume_drops_witness:
  "\<exists>b'. consume 3 new_Buffer = Some b' \<and> buf_inv b' \<and> content b' = []"
  using consume_drops [OF buf_inv_new, of 3] by (auto simp: content_new)

text \<open>
  An iterator started by \<^verbatim>\<open>begin()\<close> enumerates exactly the unread bytes: at every
  position \<^verbatim>\<open>eob\<close> tells whether bytes are left, \<^verbatim>\<open>getChar\<close> is the first of them and
  \<^verbatim>\<open>next\<close> moves one byte on across chunk boundaries, counting it in \<^verbatim>\<open>bytesRead\<close>.
\<close>

theorem iterator_enumerates:
  assumes "it_inv b it"
  shows "case it_rest b it of
      [] \<Rightarrow> eob b it \<and> it_next b it = Some it \<and> bytes_read it = bytes_total it
    | x # xs \<Rightarrow> \<not> eob b it \<and> getChar b it = x \<and>
        (\<exists>it'. it_next b it = Some it' \<and> it_inv b it' \<and> it_rest b it' = xs \<and> bytes_read it' = bytes_read it + 1)"
  using assms eob_spec [OF assms] it_next_eob [OF assms] getChar_spec [OF assms] it_next_spec [OF assms]
  by (auto simp: it_inv_def split: list.splits)

theorem iterator_enumerates_witness:
  "\<exists>it. buf_begin new_Buffer = Some it \<and> it_inv new_Buffer it \<and> eob new_Buffer it \<and> bytes_read it = 0"
proof -
  from begin_spec [OF buf_inv_new] obtain it where
    it: "buf_begin new_Buffer = Some it" "it_inv new_Buffer it" "it_rest new_Buffer it = []" "bytes_read it = 0"
    by (auto simp: content_new)
  with iterator_enumerates [OF it(2)] show ?thesis by auto
qed

text \<open>
  Copying an unread buffer into another appends the whole content of the source and leaves
  the target well formed, provided that a target whose reader has caught up with its writer has
  room for the source's first chunk.
\<close>

theorem copyFrom_appends:
  assumes "buf_inv this" "buf_inv other" "\<not> isConsumed other"
    and "drained this \<Longrightarrow> hd (sizes other) \<le> writeSize this"
  shows "\<exists>t. copyFrom this other = Some (False, t) \<and> buf_inv t \<and> content t = content this @ content other"
  using copyFrom_spec [OF assms] by blast

theorem copyFrom_appends_witness:
  "\<exists>t. copyFrom new_Buffer (mk_buf [] (\<lambda>_. Some CHR ''x'') [] 2 0) = Some (False, t) \<and> buf_inv t
    \<and> content t = [Some CHR ''x'', Some CHR ''x'']"
  using copyFrom_appends [OF buf_inv_new, of "mk_buf [] (\<lambda>_. Some CHR ''x'') [] 2 0"]
  by (simp add: new_Buffer_mk content_mk isConsumed_def buf_inv_mk mk_ok_def BlockSize_def buf_simps
      numeral_2_eq_2)

text \<open>
  When a source buffer ends exactly at a chunk boundary (its last chunk is empty),
  \<^verbatim>\<open>appendFrom\<close> leaves it with a write position past its only chunk: the next non-empty
  write to that buffer is undefined behaviour.
\<close>

theorem appendFrom_leaves_source_broken:
  assumes "buf_inv this" "buf_inv other" "\<not> isConsumed other" "\<not> (drained this \<and> 0 < off (wpos this))"
    and "last (sizes other) = 0" "1 < length (sizes other)" and "data \<noteq> []"
  shows "\<exists>t o'. appendFrom this other = Some (False, t, o') \<and> content t = content this @ content other
    \<and> buf_write data o' = None"
  using appendFrom_stale_aux [OF assms(1-6)] appendFrom_spec [OF assms(1-4)] write_no_chunk [OF _ assms(7)]
  by force

definition boundary_example :: Buffer where
  "boundary_example = mk_buf [\<lambda>_. Some CHR ''x''] fresh_chunk [BlockSize] 0 0"

lemma boundary_example_ok: "buf_inv boundary_example" "\<not> isConsumed boundary_example"
  "last (sizes boundary_example) = 0" "1 < length (sizes boundary_example)"
  by (auto simp: boundary_example_def buf_inv_mk mk_ok_def isConsumed_def BlockSize_def)

theorem appendFrom_leaves_source_broken_witness:
  "\<exists>t o'. appendFrom new_Buffer boundary_example = Some (False, t, o') \<and> buf_write ''y'' o' = None"
  using appendFrom_leaves_source_broken [OF buf_inv_new boundary_example_ok(1,2) _ boundary_example_ok(3,4),
      of "''y''"]
  by (force simp: new_Buffer_mk)

text \<open>
  Copying into a buffer whose reader has caught up with its writer inside a chunk, when the
  source's first chunk does not fit in what is left of that chunk, strands the reader: the bytes
  are in the buffer but \<^verbatim>\<open>readSize\<close> reports that nothing can be read.
\<close>

theorem copyFrom_can_strand_reader:
  assumes "0 < s" "s \<le> BlockSize" "BlockSize - s < l" "l \<le> BlockSize"
  shows "\<exists>t. copyFrom (mk_buf [] c [] s s) (mk_buf [] d [] l 0) = Some (False, t)
    \<and> readSize t = Some 0 \<and> content t = map d [0 ..< l]"
proof -
  let ?d = "put_bytes fresh_chunk 0 (map d [0 ..< l])"
  have bytes: "map ?d [0 ..< l] = map d [0 ..< l]"
    using map_put_bytes [of fresh_chunk 0 "map d [0 ..< l]"] by simp
  have lp: "copy_loop True (zip (chunks (mk_buf [] d [] l 0)) (sizes (mk_buf [] d [] l 0))) (mk_buf [] c [] s s)
      = Some (mk_buf [c] ?d [s] l s)"
    using assms by (simp add: buf_simps Let_def)
  have "copyFrom (mk_buf [] c [] s s) (mk_buf [] d [] l 0) =
      Some (False, if l = BlockSize then mk_buf [c, ?d] fresh_chunk [s, l] 0 s else mk_buf [c] ?d [s] l s)"
    using assms lp by (simp add: copyFrom_def isConsumed_def buf_simps newWriteChunk_mk)
  then show ?thesis using bytes by (auto simp: buf_simps content_mk)
qed

theorem copyFrom_can_strand_reader_witness:
  "\<exists>t. copyFrom (mk_buf [] fresh_chunk [] 4095 4095) (mk_buf [] (\<lambda>_. Some CHR ''x'') [] 2 0) = Some (False, t)
    \<and> readSize t = Some 0 \<and> content t = [Some CHR ''x'', Some CHR ''x'']"
  using copyFrom_can_strand_reader [of 4095 2 fresh_chunk "\<lambda>_. Some CHR ''x''"]
  by (simp add: BlockSize_def numeral_2_eq_2)

end
