(* ===== verification/Http_Message.thy ===== *)
theory Http_Message
  imports Buffer_Correct
begin

text \<open>
  The HTTP messages of \<^verbatim>\<open>http_request.hpp\<close>, \<^verbatim>\<open>http_request.cpp\<close> and
  \<^verbatim>\<open>http_response.hpp\<close>, and the C-string view through which they reach a buffer: a
  \<^verbatim>\<open>const char*\<close> turned into a \<^verbatim>\<open>MemPiece\<close> ends at its first NUL (\<^verbatim>\<open>mem_piece.hpp\<close>).
\<close>

abbreviation CR :: char where
  "CR \<equiv> CHR 0x0D"

abbreviation LF :: char where
  "LF \<equiv> CHR 0x0A"

abbreviation CRLF :: string where
  "CRLF \<equiv> [CHR 0x0D, CHR 0x0A]"

record Request =
  req_method :: string
  req_address :: string
  req_version :: string

record Response =
  statusLine :: string
  headerRemainder :: string
  res_body :: string

definition Request_clear :: "Request \<Rightarrow> Request" where
  "Request_clear r = r\<lparr>req_method := [], req_address := [], req_version := []\<rparr>"

definition cloneFrom :: "Request \<Rightarrow> Request \<Rightarrow> Request" where
  "cloneFrom this other =
     this\<lparr>req_method := req_method other, req_address := req_address other, req_version := req_version other\<rparr>"

definition Response_clear :: "Response \<Rightarrow> Response" where
  "Response_clear r = r\<lparr>statusLine := [], headerRemainder := [], res_body := []\<rparr>"

definition MemPiece_cstr :: "string \<Rightarrow> string" where
  "MemPiece_cstr s = takeWhile (\<lambda>c. c \<noteq> CHR 0x00) s"

definition toBuffer :: "Request \<Rightarrow> Buffer \<Rightarrow> Buffer option" where
  "toBuffer r out =
     do { b1 \<leftarrow> buf_write (MemPiece_cstr (req_method r)) out;
          b2 \<leftarrow> buf_write '' '' b1;
          b3 \<leftarrow> buf_write (MemPiece_cstr (req_address r)) b2;
          b4 \<leftarrow> buf_write '' '' b3;
          b5 \<leftarrow> buf_write (MemPiece_cstr (req_version r)) b4;
          buf_write (CRLF @ CRLF) b5 }"

text \<open>The bytes of a request on the wire.\<close>

definition request_bytes :: "Request \<Rightarrow> string" where
  "request_bytes r = MemPiece_cstr (req_method r) @ '' '' @ MemPiece_cstr (req_address r) @ '' ''
     @ MemPiece_cstr (req_version r) @ CRLF @ CRLF"

lemma MemPiece_cstr_id: "CHR 0x00 \<notin> set s \<Longrightarrow> MemPiece_cstr s = s"
  unfolding MemPiece_cstr_def by (rule takeWhile_eq_all_conv [THEN iffD2]) auto

lemma cloneFrom_eq: "cloneFrom this other = other"
  by (cases this; cases other) (simp add: cloneFrom_def)

lemma toBuffer_put_all:
  "toBuffer r b = put_all buf_write
     [MemPiece_cstr (req_method r), '' '', MemPiece_cstr (req_address r), '' '',
      MemPiece_cstr (req_version r), CRLF @ CRLF] b"
  by (simp add: toBuffer_def put_all_fun)

lemma toBuffer_spec:
  assumes "out_inv b"
  shows "\<exists>b'. toBuffer r b = Some b' \<and> out_inv b' \<and> content b' = content b @ map Some (request_bytes r)"
proof -
  from outbuf.put_all_ok [OF assms, of "[MemPiece_cstr (req_method r), '' '', MemPiece_cstr (req_address r), '' '',
      MemPiece_cstr (req_version r), CRLF @ CRLF]"]
  show ?thesis unfolding toBuffer_put_all by (simp add: request_bytes_def)
qed

end
