(* ===== verification/Http_Parser.thy ===== *)
theory Http_Parser
  imports Http_Message
begin

text \<open>
  The parser of \<^verbatim>\<open>http_parser.cpp\<close>, over the iterator of a buffer. A parsing function
  takes and returns the iterator together with the value it fills in; it returns, throws one of
  the parser's exceptions (with the state reached so far), lets a standard-library exception
  escape, or reads memory that was never written. The loops follow the iterator and need not end
  for an arbitrary one, so they are partial functions whose \<open>None\<close> is "does not return"; the
  lemmas show that they return on every well-formed buffer.
\<close>

section \<open>Model\<close>

datatype exn = IncompleteInput | ErrorInRequest | OutOfRange

datatype 's outcome = Ret 's | Exn exn 's | Undef

fun and_then :: "'s outcome option \<Rightarrow> ('s \<Rightarrow> 's outcome option) \<Rightarrow> 's outcome option" where
  "and_then (Some (Ret s)) f = f s"
| "and_then (Some (Exn e s)) f = Some (Exn e s)"
| "and_then (Some Undef) f = Some Undef"
| "and_then None f = None"

text \<open>A parser of a string applied to a field of a message.\<close>

fun in_field ::
  "('m \<Rightarrow> string) \<Rightarrow> ((string \<Rightarrow> string) \<Rightarrow> 'm \<Rightarrow> 'm) \<Rightarrow>
   (Iterator \<times> string \<Rightarrow> (Iterator \<times> string) outcome option) \<Rightarrow>
   Iterator \<times> 'm \<Rightarrow> (Iterator \<times> 'm) outcome option" where
  "in_field get upd p (it, m) =
     (case p (it, get m) of
        None \<Rightarrow> None
      | Some (Ret (it', s)) \<Rightarrow> Some (Ret (it', upd (\<lambda>_. s) m))
      | Some (Exn e (it', s)) \<Rightarrow> Some (Exn e (it', upd (\<lambda>_. s) m))
      | Some Undef \<Rightarrow> Some Undef)"

partial_function (option) parseString_loop ::
  "Buffer \<Rightarrow> Iterator \<Rightarrow> string \<Rightarrow> (Iterator \<times> string) outcome option" where
  "parseString_loop b it res =
     (if eob b it then Some (Ret (it, res))
      else case getChar b it of
             None \<Rightarrow> Some Undef
           | Some c \<Rightarrow>
               if c = CHR '' '' \<or> c = CR then Some (Ret (it, res))
               else case it_next b it of
                      None \<Rightarrow> Some Undef
                    | Some it' \<Rightarrow> parseString_loop b it' (res @ [c]))"

definition parseString :: "Buffer \<Rightarrow> Iterator \<times> string \<Rightarrow> (Iterator \<times> string) outcome option" where
  "parseString b s =
     (case s of (it, res) \<Rightarrow>
        if eob b it then Some (Exn IncompleteInput (it, res))
        else and_then (parseString_loop b it res)
          (\<lambda>(it', res'). if eob b it' then Some (Exn IncompleteInput (it', res')) else Some (Ret (it', res'))))"

text \<open>After a carriage return the next character is read without asking \<^verbatim>\<open>eob()\<close> first.\<close>

partial_function (option) parseLine_loop ::
  "Buffer \<Rightarrow> Iterator \<Rightarrow> string \<Rightarrow> (Iterator \<times> string) outcome option" where
  "parseLine_loop b it res =
     (if eob b it then Some (Exn IncompleteInput (it, res))
      else case getChar b it of
             None \<Rightarrow> Some Undef
           | Some c \<Rightarrow>
               if c = CR then
                 (case it_next b it of
                    None \<Rightarrow> Some Undef
                  | Some it1 \<Rightarrow>
                      (case getChar b it1 of
                         None \<Rightarrow> Some Undef
                       | Some c1 \<Rightarrow>
                           if c1 = LF then
                             (case it_next b it1 of
                                None \<Rightarrow> Some Undef
                              | Some it2 \<Rightarrow> Some (Ret (it2, res)))
                           else Some (Exn ErrorInRequest (it1, res))))
               else case it_next b it of
                      None \<Rightarrow> Some Undef
                    | Some it' \<Rightarrow> parseLine_loop b it' (res @ [c]))"

definition parseLine :: "Buffer \<Rightarrow> Iterator \<times> string \<Rightarrow> (Iterator \<times> string) outcome option" where
  "parseLine b s =
     (case s of (it, res) \<Rightarrow>
        if eob b it then Some (Exn IncompleteInput (it, res)) else parseLine_loop b it res)"

definition skipChar :: "Buffer \<Rightarrow> char \<Rightarrow> Iterator \<times> 'm \<Rightarrow> (Iterator \<times> 'm) outcome option" where
  "skipChar b skip s =
     (case s of (it, m) \<Rightarrow>
        if eob b it then Some (Exn IncompleteInput (it, m))
        else case getChar b it of
               None \<Rightarrow> Some Undef
             | Some c \<Rightarrow>
                 if c \<noteq> skip then Some (Exn ErrorInRequest (it, m))
                 else case it_next b it of
                        None \<Rightarrow> Some Undef
                      | Some it' \<Rightarrow> Some (Ret (it', m)))"

definition skipNewLine :: "Buffer \<Rightarrow> Iterator \<times> 'm \<Rightarrow> (Iterator \<times> 'm) outcome option" where
  "skipNewLine b s =
     (case s of (it, m) \<Rightarrow>
        if eob b it then Some (Exn IncompleteInput (it, m))
        else case getChar b it of
               None \<Rightarrow> Some Undef
             | Some c1 \<Rightarrow>
                 (case it_next b it of
                    None \<Rightarrow> Some Undef
                  | Some it1 \<Rightarrow>
                      if eob b it1 then Some (Exn IncompleteInput (it1, m))
                      else case getChar b it1 of
                             None \<Rightarrow> Some Undef
                           | Some c2 \<Rightarrow>
                               if c1 \<noteq> CR \<or> c2 \<noteq> LF then Some (Exn ErrorInRequest (it1, m))
                               else case it_next b it1 of
                                      None \<Rightarrow> Some Undef
                                    | Some it2 \<Rightarrow> Some (Ret (it2, m))))"

text \<open>The loop of \<^verbatim>\<open>parseRequest\<close> that skips the headers up to the first empty line.\<close>

partial_function (option) skipHeaders ::
  "Buffer \<Rightarrow> Iterator \<Rightarrow> 'm \<Rightarrow> (Iterator \<times> 'm) outcome option" where
  "skipHeaders b it m =
     (case parseLine b (it, []) of
        None \<Rightarrow> None
      | Some (Ret (it', dummy)) \<Rightarrow>
          if length dummy = 0 then Some (Ret (it', m)) else skipHeaders b it' m
      | Some (Exn e (it', dummy)) \<Rightarrow> Some (Exn e (it', m))
      | Some Undef \<Rightarrow> Some Undef)"

text \<open>
  What a parse returns: the code (-1 error, 0 parsed, 1 insufficient input) with the iterator and
  the message; an exception no handler catches; or undefined behaviour.
\<close>

datatype 'm parse_result = Code int Iterator 'm | Uncaught exn | Undefined

fun catch :: "(Iterator \<times> 'm) outcome \<Rightarrow> 'm parse_result" where
  "catch (Ret (it, m)) = Code 0 it m"
| "catch (Exn IncompleteInput (it, m)) = Code 1 it m"
| "catch (Exn ErrorInRequest (it, m)) = Code (-1) it m"
| "catch (Exn OutOfRange (it, m)) = Uncaught OutOfRange"
| "catch Undef = Undefined"

definition parseRequest :: "Buffer \<Rightarrow> Iterator \<Rightarrow> Request \<Rightarrow> Request parse_result option" where
  "parseRequest b it rq =
     map_option catch
       (and_then (and_then (and_then (and_then (and_then (and_then (and_then
          (in_field req_method req_method_update (parseString b) (it, Request_clear rq))
          (skipChar b CHR '' ''))
          (skipChar b CHR ''/''))
          (in_field req_address req_address_update (parseString b)))
          (skipChar b CHR '' ''))
          (in_field req_version req_version_update (parseString b)))
          (skipNewLine b))
          (\<lambda>(it', m). skipHeaders b it' m))"


section \<open>Reference parser on strings\<close>

text \<open>
  The same grammar over the string of unread bytes, with no iterator. \<open>beyond\<close> is what memory
  holds at the write position, which \<open>parseLine\<close> reads when the input ends in a carriage return.
\<close>

datatype 'a sres = SRet 'a string | SExn exn | SUndef

definition sp_string :: "string \<Rightarrow> string sres" where
  "sp_string s =
     (let w = takeWhile (\<lambda>c. c \<noteq> CHR '' '' \<and> c \<noteq> CR) s; r = dropWhile (\<lambda>c. c \<noteq> CHR '' '' \<and> c \<noteq> CR) s
      in if r = [] then SExn IncompleteInput else SRet w r)"

definition sp_char :: "char \<Rightarrow> string \<Rightarrow> unit sres" where
  "sp_char c s = (case s of [] \<Rightarrow> SExn IncompleteInput
     | x # r \<Rightarrow> if x = c then SRet () r else SExn ErrorInRequest)"

definition sp_newline :: "string \<Rightarrow> unit sres" where
  "sp_newline s = (case s of x # y # r \<Rightarrow> if x = CR \<and> y = LF then SRet () r else SExn ErrorInRequest
     | _ \<Rightarrow> SExn IncompleteInput)"

fun after_cr :: "byte option \<Rightarrow> string \<Rightarrow> string \<Rightarrow> string sres" where
  "after_cr beyond w (y # r) = (if y = LF then SRet w r else SExn ErrorInRequest)"
| "after_cr beyond w [] = (case beyond of None \<Rightarrow> SUndef
     | Some y \<Rightarrow> if y = LF then SRet w [] else SExn ErrorInRequest)"

definition sp_line :: "byte option \<Rightarrow> string \<Rightarrow> string sres" where
  "sp_line beyond s =
     (case dropWhile (\<lambda>c. c \<noteq> CR) s of
        [] \<Rightarrow> SExn IncompleteInput
      | _ # r \<Rightarrow> after_cr beyond (takeWhile (\<lambda>c. c \<noteq> CR) s) r)"

lemma after_cr_Cons:
  "after_cr beyond (x # w) r =
     (case after_cr beyond w r of SRet v q \<Rightarrow> SRet (x # v) q | SExn e \<Rightarrow> SExn e | SUndef \<Rightarrow> SUndef)"
  by (cases r) (auto split: option.splits)

lemma sp_line_Cons:
  "x \<noteq> CR \<Longrightarrow> sp_line beyond (x # s) =
     (case sp_line beyond s of SRet v q \<Rightarrow> SRet (x # v) q | SExn e \<Rightarrow> SExn e | SUndef \<Rightarrow> SUndef)"
  by (cases "dropWhile (\<lambda>c. c \<noteq> CR) s") 
    (simp_all add: sp_line_def after_cr_Cons del: dropWhile_eq_Nil_conv)

lemma sp_line_shorter: "sp_line beyond s = SRet w r \<Longrightarrow> length r < length s"
proof -
  assume a: "sp_line beyond s = SRet w r"
  then obtain x q where q: "dropWhile (\<lambda>c. c \<noteq> CR) s = x # q" "after_cr beyond (takeWhile (\<lambda>c. c \<noteq> CR) s) q = SRet w r"
    by (auto simp: sp_line_def split: list.splits)
  have "length q < length s" using q(1) length_dropWhile_le [of "\<lambda>c. c \<noteq> CR" s] by simp
  moreover have "length r \<le> length q" using q(2) by (cases q) (auto split: option.splits if_splits)
  ultimately show ?thesis by linarith
qed

function sp_headers :: "byte option \<Rightarrow> string \<Rightarrow> unit sres" where
  "sp_headers beyond s =
     (case sp_line beyond s of
        SRet w r \<Rightarrow> if w = [] then SRet () r else sp_headers beyond r
      | SExn e \<Rightarrow> SExn e
      | SUndef \<Rightarrow> SUndef)"
  by pat_completeness auto
termination
  by (relation "measure (\<lambda>(b, s). length s)") (auto simp: sp_line_shorter)

declare sp_headers.simps [simp del]

fun s_then :: "'a sres \<Rightarrow> ('a \<Rightarrow> string \<Rightarrow> 'b sres) \<Rightarrow> 'b sres" where
  "s_then (SRet a r) f = f a r"
| "s_then (SExn e) f = SExn e"
| "s_then SUndef f = SUndef"

definition sp_request :: "byte option \<Rightarrow> string \<Rightarrow> Request sres" where
  "sp_request beyond s =
     s_then (sp_string s) (\<lambda>m r. s_then (sp_char CHR '' '' r) (\<lambda>_ r. s_then (sp_char CHR ''/'' r) (\<lambda>_ r.
     s_then (sp_string r) (\<lambda>a r. s_then (sp_char CHR '' '' r) (\<lambda>_ r. s_then (sp_string r) (\<lambda>v r.
     s_then (sp_newline r) (\<lambda>_ r. s_then (sp_headers beyond r) (\<lambda>_ r.
       SRet \<lparr>req_method = m, req_address = a, req_version = v\<rparr> r))))))))"

section \<open>The parser agrees with the reference\<close>

text \<open>What memory holds at the write position of a buffer.\<close>

definition beyond_end :: "Buffer \<Rightarrow> byte option" where
  "beyond_end b = (if off (wpos b) < BlockSize then last (chunks b) (off (wpos b)) else None)"

lemma getChar_at_end:
  assumes "bufit.over b it []" shows "getChar b it = beyond_end b"
proof -
  from assms have i: "it_inv b it" "it_rest b it = []" by (auto simp: bufit.over_def)
  from i(1) obtain cs c ss s q d r where
    b: "b = mk_buf cs c ss s q" and ok: "mk_ok cs ss s q" and len: "length cs = length ss" and
    p: "pos it = \<lparr>idx = d, off = r\<rparr>" and rd: "rd_ok ss s d r" and ch: "chunk_start it = d"
    by (rule it_invE)
  have "content (at_pos b d r) = []" using i(2) by (simp add: it_rest_def p)
  with content_at [OF len rd, of c q] have e: "d < length ss \<Longrightarrow> [r ..< ss ! d] = []" "\<not> d < length ss \<Longrightarrow> [r ..< s] = []"
    unfolding b by simp_all
  with rd have "\<not> d < length ss" by (auto simp: rd_ok_def)
  with e(2) rd have "d = length ss" "r = s" by (auto simp: rd_ok_def)
  with ch p len show ?thesis by (simp add: getChar_def beyond_end_def b)
qed

text \<open>
  The simulation: from an iterator over \<open>s\<close>, a parser that fills in \<open>m\<close> does what the reference
  parser does on \<open>s\<close>, \<open>upd\<close> placing the parsed value into \<open>m\<close>.
\<close>

definition sim :: "Buffer \<Rightarrow> (Iterator \<times> 'm) outcome option \<Rightarrow> ('a \<Rightarrow> 'm) \<Rightarrow> 'a sres \<Rightarrow> bool" where
  "sim b p upd sp \<longleftrightarrow>
     (case sp of
        SRet a r \<Rightarrow> \<exists>it. p = Some (Ret (it, upd a)) \<and> bufit.over b it r
      | SExn e \<Rightarrow> \<exists>it m. p = Some (Exn e (it, m))
      | SUndef \<Rightarrow> p = Some Undef)"

lemma sim_and_then:
  assumes "sim b p upd sp"
    and "\<And>it a r. sp = SRet a r \<Longrightarrow> bufit.over b it r \<Longrightarrow> sim b (f (it, upd a)) upd' (g a r)"
  shows "sim b (and_then p f) upd' (s_then sp g)"
proof (cases sp)
  case (SRet a r)
  with assms(1) obtain it where "p = Some (Ret (it, upd a))" "bufit.over b it r" by (auto simp: sim_def)
  with SRet assms(2) show ?thesis by simp
next
  case (SExn e)
  with assms(1) show ?thesis by (auto simp: sim_def)
next
  case SUndef
  with assms(1) show ?thesis by (simp add: sim_def)
qed

lemma sim_in_field:
  assumes "sim b (p (it, get m)) (\<lambda>w. w) sp"
  shows "sim b (in_field get upd p (it, m)) (\<lambda>w. upd (\<lambda>_. w) m) sp"
  using assms by (cases sp) (auto simp: sim_def)

lemma parseString_loop_over:
  assumes "bufit.over b it s"
  shows "\<exists>it'. parseString_loop b it res = Some (Ret (it', res @ takeWhile (\<lambda>c. c \<noteq> CHR '' '' \<and> c \<noteq> CR) s))
    \<and> bufit.over b it' (dropWhile (\<lambda>c. c \<noteq> CHR '' '' \<and> c \<noteq> CR) s)"
  using assms
proof (induction s arbitrary: it res)
  case Nil
  then show ?case by (auto simp: parseString_loop.simps bufit.over_Nil)
next
  case (Cons x s)
  from Cons.prems obtain it' where
    it': "\<not> eob b it" "getChar b it = Some x" "it_next b it = Some it'" "bufit.over b it' s"
    by (rule bufit.over_Cons)
  from Cons.IH [OF it'(4), of "res @ [x]"] it' Cons.prems show ?case
    by (subst parseString_loop.simps) auto
qed

lemma over_eob: "bufit.over b it s \<Longrightarrow> eob b it \<longleftrightarrow> s = []"
  by (auto simp: bufit.over_def eob_spec)

lemma parseString_sim:
  assumes "bufit.over b it s"
  shows "sim b (parseString b (it, [])) (\<lambda>w. w) (sp_string s)"
proof (cases s)
  case Nil
  with assms show ?thesis by (auto simp: parseString_def sim_def sp_string_def over_eob)
next
  case (Cons x xs)
  from parseString_loop_over [OF assms, of "[]"] obtain it' where
    "parseString_loop b it [] = Some (Ret (it', takeWhile (\<lambda>c. c \<noteq> CHR '' '' \<and> c \<noteq> CR) s))"
    "bufit.over b it' (dropWhile (\<lambda>c. c \<noteq> CHR '' '' \<and> c \<noteq> CR) s)" by auto
  with Cons assms show ?thesis
    by (auto simp: parseString_def sim_def sp_string_def over_eob Let_def)
qed

lemma parseLine_loop_sim:
  assumes "bufit.over b it s"
  shows "sim b (parseLine_loop b it res) (\<lambda>w. res @ w) (sp_line (beyond_end b) s)"
  using assms
proof (induction s arbitrary: it res)
  case Nil
  then show ?case by (auto simp: parseLine_loop.simps bufit.over_Nil sim_def sp_line_def)
next
  case (Cons x s)
  from Cons.prems obtain it' where
    it': "\<not> eob b it" "getChar b it = Some x" "it_next b it = Some it'" "bufit.over b it' s"
    by (rule bufit.over_Cons)
  show ?case
  proof (cases "x = CR")
    case False
    with Cons.IH [OF it'(4), of "res @ [x]"] it' show ?thesis
      by (subst parseLine_loop.simps, cases "sp_line (beyond_end b) s") (simp_all add: sim_def sp_line_Cons)
  next
    case True
    show ?thesis
    proof (cases s)
      case Nil
      with True it' bufit.over_Nil [of b it'] getChar_at_end [of b it'] show ?thesis
        by (subst parseLine_loop.simps) (auto simp: sim_def sp_line_def split: option.splits)
    next
      case (Cons y ys)
      with it'(4) obtain it2 where
        "\<not> eob b it'" "getChar b it' = Some y" "it_next b it' = Some it2" "bufit.over b it2 ys"
        using bufit.over_Cons by metis
      with True it' Cons show ?thesis
        by (subst parseLine_loop.simps) (auto simp: sim_def sp_line_def)
    qed
  qed
qed

lemma parseLine_sim:
  assumes "bufit.over b it s"
  shows "sim b (parseLine b (it, [])) (\<lambda>w. w) (sp_line (beyond_end b) s)"
proof (cases s)
  case Nil
  with assms show ?thesis by (auto simp: parseLine_def sim_def sp_line_def over_eob)
next
  case (Cons x xs)
  with parseLine_loop_sim [OF assms, of "[]"] assms show ?thesis
    by (auto simp: parseLine_def over_eob)
qed

lemma skipChar_sim:
  assumes "bufit.over b it s"
  shows "sim b (skipChar b c (it, m)) (\<lambda>_. m) (sp_char c s)"
proof (cases s)
  case Nil
  with assms show ?thesis by (auto simp: skipChar_def sim_def sp_char_def over_eob)
next
  case (Cons x xs)
  with assms obtain it' where
    "\<not> eob b it" "getChar b it = Some x" "it_next b it = Some it'" "bufit.over b it' xs"
    using bufit.over_Cons by metis
  with Cons show ?thesis by (auto simp: skipChar_def sim_def sp_char_def)
qed

lemma skipNewLine_sim:
  assumes "bufit.over b it s"
  shows "sim b (skipNewLine b (it, m)) (\<lambda>_. m) (sp_newline s)"
proof (cases s)
  case Nil
  with assms show ?thesis by (auto simp: skipNewLine_def sim_def sp_newline_def over_eob)
next
  case (Cons x xs)
  with assms obtain it1 where it1:
    "\<not> eob b it" "getChar b it = Some x" "it_next b it = Some it1" "bufit.over b it1 xs"
    using bufit.over_Cons by metis
  show ?thesis
  proof (cases xs)
    case Nil
    with it1 Cons show ?thesis by (auto simp: skipNewLine_def sim_def sp_newline_def over_eob)
  next
    case c2: (Cons y ys)
    with it1(4) obtain it2 where
      "\<not> eob b it1" "getChar b it1 = Some y" "it_next b it1 = Some it2" "bufit.over b it2 ys"
      using bufit.over_Cons by metis
    with it1 Cons c2 show ?thesis by (auto simp: skipNewLine_def sim_def sp_newline_def)
  qed
qed

lemma skipHeaders_sim:
  assumes "bufit.over b it s"
  shows "sim b (skipHeaders b it m) (\<lambda>_. m) (sp_headers (beyond_end b) s)"
  using assms
proof (induction "beyond_end b" s arbitrary: it rule: sp_headers.induct)
  case (1 s)
  note line = parseLine_sim [OF "1.prems"]
  show ?case
  proof (cases "sp_line (beyond_end b) s")
    case (SRet w r)
    with line obtain it' where "parseLine b (it, []) = Some (Ret (it', w))" "bufit.over b it' r"
      by (auto simp: sim_def)
    with SRet "1.hyps" [OF SRet] show ?thesis
      by (subst skipHeaders.simps, subst sp_headers.simps) (auto simp: sim_def)
  next
    case (SExn e)
    with line show ?thesis
      by (subst skipHeaders.simps, subst sp_headers.simps) (auto simp: sim_def)
  next
    case SUndef
    with line show ?thesis
      by (subst skipHeaders.simps, subst sp_headers.simps) (auto simp: sim_def)
  qed
qed

lemmas parser_sims = parseString_sim parseLine_sim skipChar_sim skipNewLine_sim skipHeaders_sim


lemma and_then_assoc: "and_then (and_then p f) g = and_then p (\<lambda>s. and_then (f s) g)"
  by (cases "(p, f)" rule: and_then.cases) auto

lemma and_then_Ret: "and_then p (\<lambda>s. Some (Ret s)) = p"
proof (cases p)
  case (Some x)
  then show ?thesis by (cases x) auto
qed simp

lemma sim_Ret: "bufit.over b it r \<Longrightarrow> m = upd a \<Longrightarrow> sim b (Some (Ret (it, m))) upd (SRet a r)"
  by (simp add: sim_def)

definition parseRequest_body :: "Buffer \<Rightarrow> Iterator \<Rightarrow> Request \<Rightarrow> (Iterator \<times> Request) outcome option" where
  "parseRequest_body b it m0 =
     and_then (in_field req_method req_method_update (parseString b) (it, m0)) (\<lambda>s.
     and_then (skipChar b CHR '' '' s) (\<lambda>s. and_then (skipChar b CHR ''/'' s) (\<lambda>s.
     and_then (in_field req_address req_address_update (parseString b) s) (\<lambda>s.
     and_then (skipChar b CHR '' '' s) (\<lambda>s.
     and_then (in_field req_version req_version_update (parseString b) s) (\<lambda>s.
     and_then (skipNewLine b s) (\<lambda>(it', m).
     and_then (skipHeaders b it' m) (\<lambda>s. Some (Ret s)))))))))"

lemma parseRequest_body_eq: "parseRequest b it rq = map_option catch (parseRequest_body b it (Request_clear rq))"
  unfolding parseRequest_def parseRequest_body_def and_then_assoc and_then_Ret
  by (simp add: case_prod_unfold)

lemma parseRequest_body_sim:
  assumes "bufit.over b it s"
  shows "sim b (parseRequest_body b it \<lparr>req_method = [], req_address = [], req_version = []\<rparr>)
    (\<lambda>m. m) (sp_request (beyond_end b) s)"
proof -
  let ?m0 = "\<lparr>req_method = [], req_address = [], req_version = []\<rparr>"
  show ?thesis
    unfolding parseRequest_body_def sp_request_def
    apply (rule sim_and_then [OF sim_in_field], simp, rule parseString_sim [OF assms])
    apply (rule sim_and_then [OF skipChar_sim], assumption)
    apply (rule sim_and_then [OF skipChar_sim], assumption)
    apply (rule sim_and_then [OF sim_in_field], simp, erule parseString_sim)
    apply (rule sim_and_then [OF skipChar_sim], assumption)
    apply (rule sim_and_then [OF sim_in_field], simp, erule parseString_sim)
    apply (rule sim_and_then [OF skipNewLine_sim], assumption)
    apply (simp, rule sim_and_then [OF skipHeaders_sim], assumption)
    by (rule sim_Ret, assumption, simp)
qed

lemma Request_clear_eq: "Request_clear rq = \<lparr>req_method = [], req_address = [], req_version = []\<rparr>"
  by (cases rq) (simp add: Request_clear_def)

lemma parseRequest_agrees:
  assumes "bufit.over b it s"
  shows "case sp_request (beyond_end b) s of
      SRet rq' r \<Rightarrow> \<exists>it'. parseRequest b it rq = Some (Code 0 it' rq') \<and> bufit.over b it' r
    | SExn IncompleteInput \<Rightarrow> \<exists>it' m. parseRequest b it rq = Some (Code 1 it' m)
    | SExn ErrorInRequest \<Rightarrow> \<exists>it' m. parseRequest b it rq = Some (Code (-1) it' m)
    | SExn OutOfRange \<Rightarrow> False
    | SUndef \<Rightarrow> parseRequest b it rq = Some Undefined"
proof -
  have no: "sp_request (beyond_end b) s \<noteq> SExn OutOfRange"
  proof -
    have h: "sp_headers bd r \<noteq> SExn OutOfRange" for bd r
    proof (induction bd r rule: sp_headers.induct)
      case (1 bd r)
      have "sp_line bd r \<noteq> SExn OutOfRange"
        by (auto simp: sp_line_def split: list.splits elim!: after_cr.elims split: option.splits if_splits)
      with 1 show ?case by (subst sp_headers.simps) (auto split: sres.splits)
    qed
    have "sp_string r \<noteq> SExn OutOfRange" "sp_char c r \<noteq> SExn OutOfRange" "sp_newline r \<noteq> SExn OutOfRange" for r c
      by (auto simp: sp_string_def sp_char_def sp_newline_def Let_def split: list.splits)
    moreover have st: "s_then p f \<noteq> SExn OutOfRange"
      if "p \<noteq> SExn OutOfRange" "\<And>a r. f a r \<noteq> SExn OutOfRange"
      for p :: "'x sres" and f :: "'x \<Rightarrow> string \<Rightarrow> Request sres" using that by (cases p) auto
    ultimately show ?thesis unfolding sp_request_def using h by (intro st) auto
  qed
  show ?thesis
    using parseRequest_body_sim [OF assms] no
    by (auto simp: parseRequest_body_eq Request_clear_eq sim_def split: sres.splits exn.splits)
qed

end
