(* ===== verification/Cpp_Text.thy ===== *)
theory Cpp_Text
  imports Prelude
begin

text \<open>
  The standard-library text operations the source uses: \<^verbatim>\<open>std::string::find\<close>, formatting of
  unsigned integers by \<^verbatim>\<open>ostringstream\<close>, and extraction of integers by
  \<^verbatim>\<open>istringstream\<close> (skip white space, an optional sign, then digits; out of range gives the
  largest value, no digits give 0, as C++11 prescribes).
\<close>

fun str_find :: "string \<Rightarrow> string \<Rightarrow> nat option" where
  "str_find pat [] = (if pat = [] then Some 0 else None)"
| "str_find pat (x # xs) =
     (if take (length pat) (x # xs) = pat then Some 0 else map_option Suc (str_find pat xs))"

definition is_space :: "char \<Rightarrow> bool" where
  "is_space c \<longleftrightarrow> c = CHR '' '' \<or> (9 \<le> (of_char c :: nat) \<and> (of_char c :: nat) \<le> 13)"

definition is_digit :: "char \<Rightarrow> bool" where
  "is_digit c \<longleftrightarrow> 48 \<le> (of_char c :: nat) \<and> (of_char c :: nat) \<le> 57"

definition digit_char :: "nat \<Rightarrow> char" where
  "digit_char d = char_of (48 + d)"

fun show_nat :: "nat \<Rightarrow> string" where
  "show_nat n = (if n < 10 then [digit_char n] else show_nat (n div 10) @ [digit_char (n mod 10)])"

declare show_nat.simps [simp del]

definition digits_val :: "string \<Rightarrow> nat" where
  "digits_val s = foldl (\<lambda>a c. 10 * a + (of_char c - 48)) 0 s"

text \<open>The sign and the digits of a number at the front of a string.\<close>

definition scan_number :: "string \<Rightarrow> bool \<times> string" where
  "scan_number s =
     (let s1 = dropWhile is_space s
      in case s1 of
           c # r \<Rightarrow> if c = CHR ''-'' then (True, takeWhile is_digit r)
                    else if c = CHR ''+'' then (False, takeWhile is_digit r)
                    else (False, takeWhile is_digit s1)
         | [] \<Rightarrow> (False, []))"

text \<open>
  \<^verbatim>\<open>is >> n\<close> for a 64-bit unsigned and for a 32-bit signed \<^verbatim>\<open>n\<close>. When nothing but white
  space is left, the extraction does not start and the variable keeps its value \<open>old\<close>.
\<close>

definition extract_size :: "nat \<Rightarrow> string \<Rightarrow> nat" where
  "extract_size old s =
     (if dropWhile is_space s = [] then old else case scan_number s of (neg, ds) \<Rightarrow>
        let v = digits_val ds
        in if v \<ge> 2 ^ 64 then 2 ^ 64 - 1 else if neg then (2 ^ 64 - v) mod 2 ^ 64 else v)"

definition extract_int :: "int \<Rightarrow> string \<Rightarrow> int" where
  "extract_int old s =
     (if dropWhile is_space s = [] then old else case scan_number s of (neg, ds) \<Rightarrow>
        let v = (if neg then - int (digits_val ds) else int (digits_val ds))
        in if v > 2 ^ 31 - 1 then 2 ^ 31 - 1 else if v < - (2 ^ 31) then - (2 ^ 31) else v)"

lemma of_digit_char: "d < 10 \<Longrightarrow> (of_char (digit_char d) :: nat) = 48 + d"
  by (simp add: digit_char_def)

lemma is_digit_digit_char [simp]: "d < 10 \<Longrightarrow> is_digit (digit_char d)"
  by (simp add: is_digit_def of_digit_char)

lemma show_nat_digits: "\<forall>c \<in> set (show_nat n). is_digit c"
proof (induction n rule: show_nat.induct)
  case (1 n)
  then show ?case by (subst show_nat.simps) auto
qed

lemma show_nat_ne [simp]: "show_nat n \<noteq> []"
  by (subst show_nat.simps) simp

lemma digits_val_snoc: "digits_val (s @ [c]) = 10 * digits_val s + (of_char c - 48)"
  by (simp add: digits_val_def)

lemma digits_val_show: "digits_val (show_nat n) = n"
proof (induction n rule: show_nat.induct)
  case (1 n)
  show ?case
  proof (cases "n < 10")
    case True
    then show ?thesis by (subst show_nat.simps) (simp add: digits_val_def of_digit_char)
  next
    case False
    with 1 have "digits_val (show_nat (n div 10)) = n div 10" by simp
    with False show ?thesis
      by (subst show_nat.simps) (simp add: digits_val_snoc of_digit_char)
  qed
qed

lemma digit_not_special:
  "is_digit c \<Longrightarrow> \<not> is_space c \<and> c \<noteq> CHR ''-'' \<and> c \<noteq> CHR ''+'' \<and> c \<noteq> CHR 0x0D \<and> c \<noteq> CHR '' '' \<and> c \<noteq> CHR 0x00"
  by (auto simp: is_digit_def is_space_def)

lemma scan_show:
  assumes "\<not> is_digit (hd (r @ [CHR '' '']))"
  shows "scan_number (show_nat n @ r) = (False, show_nat n)"
proof -
  obtain c cs where s: "show_nat n = c # cs" by (cases "show_nat n") auto
  with show_nat_digits [of n] have d: "is_digit c" "\<forall>x \<in> set cs. is_digit x" by auto
  have tk: "takeWhile is_digit (show_nat n @ r) = show_nat n"
    using show_nat_digits [of n] assms by (cases r) (auto simp: takeWhile_append takeWhile_tail)
  show ?thesis using digit_not_special [OF d(1)] tk by (simp add: scan_number_def s)
qed

lemma show_nat_not_blank: "dropWhile is_space (show_nat n) \<noteq> []"
  using show_nat_digits [of n] digit_not_special by (cases "show_nat n") auto

lemma extract_size_show: "n < 2 ^ 64 \<Longrightarrow> extract_size old (show_nat n) = n"
  using scan_show [of "[]" n] show_nat_not_blank [of n]
  by (auto simp: extract_size_def digits_val_show is_digit_def)

lemma extract_int_show: "n < 2 ^ 31 \<Longrightarrow> extract_int old (show_nat n) = int n"
  using scan_show [of "[]" n] show_nat_not_blank [of n]
  by (auto simp: extract_int_def digits_val_show is_digit_def)

lemma str_find_prefix: "str_find pat (pat @ s) = Some 0"
  by (cases pat; cases s) auto

end
