(* ===== verification/Response_Parser.thy ===== *)
theory Response_Parser
  imports Http_Parser Cpp_Text
begin

text \<open>
  \<^verbatim>\<open>Parser::parseResponse\<close> of \<^verbatim>\<open>http_parser.cpp\<close>: the status line, the headers with the
  declared length, and the body. The reference parser and the simulation follow the request
  parser's.
\<close>

section \<open>Model\<close>

definition lengthString :: string where
  "lengthString = ''Content-Length:''"

text \<open>
  \<^verbatim>\<open>sizeof(lengthString)\<close> counts the terminating NUL, so that the number is extracted from
  the character after the blank; \<^verbatim>\<open>string(line, 16)\<close> throws when the line is shorter.
\<close>

definition header_length :: "string \<Rightarrow> nat \<Rightarrow> nat option" where
  "header_length line contentSize =
     (if str_find lengthString line \<noteq> None then
        (if length line < length lengthString + 1 then None
         else Some (extract_size contentSize (drop (length lengthString + 1) line)))
      else Some contentSize)"

partial_function (option) responseHeaders ::
  "Buffer \<Rightarrow> Iterator \<Rightarrow> nat \<Rightarrow> Response \<Rightarrow> (Iterator \<times> nat \<times> Response) outcome option" where
  "responseHeaders b it contentSize m =
     (case parseLine b (it, []) of
        None \<Rightarrow> None
      | Some (Ret (it', line)) \<Rightarrow>
          if line = [] then Some (Ret (it', contentSize, m))
          else (case header_length line contentSize of
                  None \<Rightarrow> Some (Exn OutOfRange (it', contentSize, m))
                | Some n \<Rightarrow>
                    responseHeaders b it' n (m\<lparr>headerRemainder := headerRemainder m @ line\<rparr>))
      | Some (Exn e (it', line)) \<Rightarrow> Some (Exn e (it', contentSize, m))
      | Some Undef \<Rightarrow> Some Undef)"

fun responseBody :: "Buffer \<Rightarrow> nat \<Rightarrow> Iterator \<times> Response \<Rightarrow> (Iterator \<times> Response) outcome option" where
  "responseBody b 0 (it, m) = Some (Ret (it, m))"
| "responseBody b (Suc n) (it, m) =
     (case getChar b it of
        None \<Rightarrow> Some Undef
      | Some c \<Rightarrow>
          (case it_next b it of
             None \<Rightarrow> Some Undef
           | Some it' \<Rightarrow> responseBody b n (it', m\<lparr>res_body := res_body m @ [c]\<rparr>)))"

fun afterHeaders ::
  "Buffer \<Rightarrow> (Iterator \<times> nat \<times> Response) outcome option \<Rightarrow> (Iterator \<times> Response) outcome option" where
  "afterHeaders b None = None"
| "afterHeaders b (Some Undef) = Some Undef"
| "afterHeaders b (Some (Exn e (it, n, m))) = Some (Exn e (it, m))"
| "afterHeaders b (Some (Ret (it, n, m))) =
     (if size_sub (bytes_total it) (bytes_read it) < n then Some (Exn IncompleteInput (it, m))
      else responseBody b n (it, m))"

definition parseResponse :: "Buffer \<Rightarrow> Iterator \<Rightarrow> Response \<Rightarrow> Response parse_result option" where
  "parseResponse b it rs =
     map_option catch
       (and_then (in_field statusLine statusLine_update (parseLine b) (it, Response_clear rs))
          (\<lambda>(it', m). afterHeaders b (responseHeaders b it' 0 m)))"

section \<open>Reference parser\<close>

function sp_resp_headers :: "byte option \<Rightarrow> nat \<Rightarrow> string \<Rightarrow> string \<Rightarrow> (nat \<times> string) sres" where
  "sp_resp_headers beyond n h s =
     (case sp_line beyond s of
        SRet w r \<Rightarrow>
          if w = [] then SRet (n, h) r
          else (case header_length w n of
                  None \<Rightarrow> SExn OutOfRange
                | Some n' \<Rightarrow> sp_resp_headers beyond n' (h @ w) r)
      | SExn e \<Rightarrow> SExn e
      | SUndef \<Rightarrow> SUndef)"
  by pat_completeness auto
termination
  by (relation "measure (\<lambda>(b, n, h, s). length s)") (auto simp: sp_line_shorter)

declare sp_resp_headers.simps [simp del]

definition sp_response :: "byte option \<Rightarrow> string \<Rightarrow> Response sres" where
  "sp_response beyond s =
     s_then (sp_line beyond s) (\<lambda>st r. s_then (sp_resp_headers beyond 0 [] r) (\<lambda>(n, h) r.
       if length r < n then SExn IncompleteInput
       else SRet \<lparr>statusLine = st, headerRemainder = h, res_body = take n r\<rparr> (drop n r)))"

section \<open>Agreement\<close>

lemma responseHeaders_sim:
  assumes "bufit.over b it s"
  shows "sim b (responseHeaders b it n m) (\<lambda>(n', h). (n', m\<lparr>headerRemainder := h\<rparr>))
    (sp_resp_headers (beyond_end b) n (headerRemainder m) s)"
  using assms
proof (induction "beyond_end b" n "headerRemainder m" s arbitrary: it m rule: sp_resp_headers.induct)
  case (1 n s)
  note line = parseLine_sim [OF "1.prems"]
  show ?case
  proof (cases "sp_line (beyond_end b) s")
    case (SRet w r)
    with line obtain it' where p: "parseLine b (it, []) = Some (Ret (it', w))" "bufit.over b it' r"
      by (auto simp: sim_def)
    show ?thesis
    proof (cases "w \<noteq> [] \<and> header_length w n \<noteq> None")
      case True
      then obtain n' where n': "w \<noteq> []" "header_length w n = Some n'" by auto
      have "headerRemainder (m\<lparr>headerRemainder := headerRemainder m @ w\<rparr>) = headerRemainder m @ w" by simp
      from "1.hyps" [OF SRet n'(1,2), of "m\<lparr>headerRemainder := headerRemainder m @ w\<rparr>" it', simplified] p(2)
      have "sim b (responseHeaders b it' n' (m\<lparr>headerRemainder := headerRemainder m @ w\<rparr>))
          (\<lambda>(n', h). (n', m\<lparr>headerRemainder := h\<rparr>)) (sp_resp_headers (beyond_end b) n' (headerRemainder m @ w) r)"
        by (simp add: case_prod_unfold)
      with n' p SRet show ?thesis
        by (subst responseHeaders.simps, subst sp_resp_headers.simps) simp
    next
      case False
      with SRet p show ?thesis
        by (subst responseHeaders.simps, subst sp_resp_headers.simps) (auto simp: sim_def)
    qed
  next
    case (SExn e)
    with line show ?thesis
      by (subst responseHeaders.simps, subst sp_resp_headers.simps) (auto simp: sim_def)
  next
    case SUndef
    with line show ?thesis
      by (subst responseHeaders.simps, subst sp_resp_headers.simps) (auto simp: sim_def)
  qed
qed

lemma responseBody_over:
  assumes "bufit.over b it s" "n \<le> length s"
  shows "\<exists>it'. responseBody b n (it, m) = Some (Ret (it', m\<lparr>res_body := res_body m @ take n s\<rparr>))
    \<and> bufit.over b it' (drop n s)"
  using assms
proof (induction n arbitrary: it s m)
  case (Suc n)
  then obtain x xs where s: "s = x # xs" "n \<le> length xs" by (cases s) auto
  with Suc.prems obtain it' where
    "getChar b it = Some x" "it_next b it = Some it'" "bufit.over b it' xs"
    using bufit.over_Cons by metis
  with Suc.IH [of it' xs "m\<lparr>res_body := res_body m @ [x]\<rparr>"] s show ?case by auto
qed auto

lemma over_left: "bufit.over b it s \<Longrightarrow> size_sub (bytes_total it) (bytes_read it) = length s"
  by (auto simp: bufit.over_def it_inv_def)

lemma parseResponse_sim:
  assumes "bufit.over b it s"
  shows "\<exists>p. parseResponse b it rs = map_option catch p \<and> sim b p (\<lambda>m. m) (sp_response (beyond_end b) s)"
proof -
  define m0 where "m0 = \<lparr>statusLine = [], headerRemainder = [], res_body = []\<rparr>"
  have clear: "Response_clear rs = m0" by (cases rs) (simp add: Response_clear_def m0_def)
  have step: "sim b (afterHeaders b (responseHeaders b it' 0 (m0\<lparr>statusLine := st\<rparr>))) (\<lambda>m. m)
      (s_then (sp_resp_headers (beyond_end b) 0 [] r) (\<lambda>(n, h) r.
       if length r < n then SExn IncompleteInput
       else SRet \<lparr>statusLine = st, headerRemainder = h, res_body = take n r\<rparr> (drop n r)))"
    if "bufit.over b it' r" for it' st r
  proof -
    let ?m = "m0\<lparr>statusLine := st\<rparr>"
    have h: "sim b (responseHeaders b it' 0 ?m) (\<lambda>(n', h). (n', ?m\<lparr>headerRemainder := h\<rparr>))
        (sp_resp_headers (beyond_end b) 0 [] r)"
      using responseHeaders_sim [OF that, of 0 ?m] by (simp add: m0_def)
    show ?thesis
    proof (cases "sp_resp_headers (beyond_end b) 0 [] r")
      case (SRet a q)
      obtain n hd where a: "a = (n, hd)" by (cases a)
      with h SRet obtain it2 where
        i2: "responseHeaders b it' 0 ?m = Some (Ret (it2, n, ?m\<lparr>headerRemainder := hd\<rparr>))" "bufit.over b it2 q"
        by (auto simp: sim_def)
      show ?thesis
      proof (cases "length q < n")
        case True
        with i2 a SRet show ?thesis by (simp add: over_left sim_def)
      next
        case False
        then have "n \<le> length q" by simp
        from responseBody_over [OF i2(2) this, of "?m\<lparr>headerRemainder := hd\<rparr>"] i2 a SRet False show ?thesis
          by (auto simp: over_left sim_def m0_def)
      qed
    next
      case (SExn e)
      with h show ?thesis by (auto simp: sim_def)
    next
      case SUndef
      with h show ?thesis by (auto simp: sim_def)
    qed
  qed
  have "sim b (and_then (in_field statusLine statusLine_update (parseLine b) (it, m0))
      (\<lambda>(it', m). afterHeaders b (responseHeaders b it' 0 m))) (\<lambda>m. m) (sp_response (beyond_end b) s)"
    unfolding sp_response_def
    apply (rule sim_and_then [OF sim_in_field])
     apply (simp add: m0_def, rule parseLine_sim [OF assms])
    using step by simp
  then show ?thesis unfolding parseResponse_def clear by blast
qed

end
