(* ===== verification/Http_Roundtrip.thy ===== *)
theory Http_Roundtrip
  imports Response_Parser
begin

text \<open>
  What the parser makes of the bytes the program writes: requests written by
  \<^verbatim>\<open>Request::toBuffer\<close> are read back, whatever follows them in the buffer and wherever the
  chunk boundaries fall; a request that has not fully arrived is reported as insufficient input;
  responses with a declared length are read back with their body.
\<close>

section \<open>Requests\<close>

definition token :: "string \<Rightarrow> bool" where
  "token w \<longleftrightarrow> list_all (\<lambda>c. c \<noteq> CHR '' '' \<and> c \<noteq> CR \<and> c \<noteq> CHR 0x00) w"

text \<open>The request a client sends for the document \<open>a\<close>: the address starts with a slash.\<close>

definition wire_request :: "Request \<Rightarrow> Request" where
  "wire_request r = r\<lparr>req_address := CHR ''/'' # req_address r\<rparr>"

definition wf_request :: "Request \<Rightarrow> bool" where
  "wf_request r \<longleftrightarrow> token (req_method r) \<and> token (req_address r) \<and> token (req_version r)"

lemma token_cstr: "token w \<Longrightarrow> MemPiece_cstr w = w"
  by (rule MemPiece_cstr_id) (auto simp: token_def list_all_iff)

lemma token_slash: "token (CHR ''/'' # w) = token w"
  by (simp add: token_def)

lemma request_bytes_wire:
  "wf_request r \<Longrightarrow> request_bytes (wire_request r) =
     req_method r @ '' /'' @ req_address r @ '' '' @ req_version r @ CRLF @ CRLF"
  by (simp add: wf_request_def request_bytes_def wire_request_def token_cstr token_slash)

lemma sp_string_token:
  "token w \<Longrightarrow> x = CHR '' '' \<or> x = CR \<Longrightarrow> sp_string (w @ x # r) = SRet w (x # r)"
  by (auto simp: sp_string_def token_def list_all_iff takeWhile_append dropWhile_append Let_def)

lemma sp_newline_CRLF [simp]: "sp_newline (CR # LF # r) = SRet () r"
  by (simp add: sp_newline_def)

lemma sp_char_same [simp]: "sp_char c (c # r) = SRet () r"
  by (simp add: sp_char_def)

lemma sp_line_line: "CR \<notin> set w \<Longrightarrow> sp_line beyond (w @ CR # LF # r) = SRet w r"
  by (auto simp: sp_line_def takeWhile_append dropWhile_append)

lemma sp_headers_empty: "sp_headers beyond (CR # LF # r) = SRet () r"
  using sp_line_line [of "[]" beyond r] by (subst sp_headers.simps) simp

lemma sp_request_wire:
  "wf_request r \<Longrightarrow> sp_request beyond (request_bytes (wire_request r) @ rest) = SRet r rest"
  by (simp add: request_bytes_wire)
    (simp add: wf_request_def sp_request_def sp_string_token sp_headers_empty)

text \<open>Reading from the front of a buffer.\<close>

lemma begin_over:
  assumes "buf_inv b" "content b = map Some s"
  shows "\<exists>it. buf_begin b = Some it \<and> bufit.over b it s \<and> bytes_read it = 0 \<and> bytes_total it = length s"
  using begin_spec [OF assms(1)] assms(2) by (auto simp: bufit.over_def it_inv_def)

lemma over_bytes_read: "bufit.over b it s \<Longrightarrow> bytes_read it + length s = bytes_total it"
  by (auto simp: bufit.over_def it_inv_def)

lemma over_total: "bufit.over b it s \<Longrightarrow> bytes_total it = length (content b)"
  by (auto simp: bufit.over_def it_inv_def)

lemma parse_wire_request:
  assumes "buf_inv b" "content b = map Some (request_bytes (wire_request r) @ rest)" "wf_request r"
  shows "\<exists>it it'. buf_begin b = Some it \<and> parseRequest b it rq = Some (Code 0 it' r)
    \<and> bufit.over b it' rest \<and> bytes_read it' = length (request_bytes (wire_request r))"
proof -
  from begin_over [OF assms(1,2)] obtain it where
    it: "buf_begin b = Some it" "bufit.over b it (request_bytes (wire_request r) @ rest)" by blast
  from parseRequest_agrees [OF it(2), of rq] obtain it' where
    it': "parseRequest b it rq = Some (Code 0 it' r)" "bufit.over b it' rest"
    by (auto simp: sp_request_wire [OF assms(3)])
  with it over_bytes_read [OF it'(2)] over_total [OF it'(2)] assms(2) show ?thesis by auto
qed

section \<open>Input that has not fully arrived\<close>

text \<open>A scanner on a prefix of its input asks for more or gives the same result.\<close>

definition on_prefix :: "'a sres \<Rightarrow> 'a sres \<Rightarrow> string \<Rightarrow> bool" where
  "on_prefix short long t \<longleftrightarrow>
     (\<forall>a r. long = SRet a r \<longrightarrow> short = SExn IncompleteInput \<or> (\<exists>r'. short = SRet a r' \<and> r = r' @ t))"

lemma sp_string_prefix: "on_prefix (sp_string s) (sp_string (s @ t)) t"
proof -
  let ?P = "\<lambda>c. c \<noteq> CHR '' '' \<and> c \<noteq> CR"
  show ?thesis
  proof (cases "\<forall>c \<in> set s. ?P c")
    case True
    then have "sp_string s = SExn IncompleteInput" by (auto simp: sp_string_def Let_def)
    then show ?thesis by (simp add: on_prefix_def)
  next
    case False
    then obtain x where x: "x \<in> set s" "\<not> ?P x" by auto
    then have "takeWhile ?P (s @ t) = takeWhile ?P s" "dropWhile ?P (s @ t) = dropWhile ?P s @ t"
      by (intro takeWhile_append1 dropWhile_append1; simp)+
    then show ?thesis by (auto simp: on_prefix_def sp_string_def Let_def split: if_splits)
  qed
qed

lemma sp_char_prefix: "on_prefix (sp_char c s) (sp_char c (s @ t)) t"
  by (cases s) (auto simp: on_prefix_def sp_char_def split: if_splits)

lemma sp_newline_prefix: "on_prefix (sp_newline s) (sp_newline (s @ t)) t"
  by (cases s; cases "tl s") (auto simp: on_prefix_def sp_newline_def split: if_splits)

lemma request_prefix:
  assumes wf: "wf_request r" and split: "s @ t = request_bytes (wire_request r)" and t: "t \<noteq> []"
  shows "sp_request beyond s = SExn IncompleteInput \<or>
    (t = [LF] \<and> sp_request beyond s =
       (case beyond of None \<Rightarrow> SUndef | Some y \<Rightarrow> if y = LF then SRet r [] else SExn ErrorInRequest))"
proof -
  have w: "token (req_method r)" "token (req_address r)" "token (req_version r)"
    using wf by (auto simp: wf_request_def)
  have s: "s @ t = req_method r @ '' /'' @ req_address r @ '' '' @ req_version r @ CRLF @ CRLF"
    using split request_bytes_wire [OF wf] by simp
  let ?goal = "\<lambda>x. x = SExn IncompleteInput \<or> (t = [LF] \<and> x =
       (case beyond of None \<Rightarrow> SUndef | Some y \<Rightarrow> if y = LF then SRet r [] else SExn ErrorInRequest))"
  have step: "?goal (s_then p f)"
    if "on_prefix p q t" "q = SRet a r0" "\<And>r'. r' @ t = r0 \<Longrightarrow> ?goal (f a r')"
    for p q :: "'x sres" and a r0 and f :: "'x \<Rightarrow> string \<Rightarrow> Request sres"
    using that by (auto simp: on_prefix_def)
  show ?thesis
    unfolding sp_request_def
    apply (rule step [OF sp_string_prefix], subst s, simp, rule sp_string_token [OF w(1)], simp)
    apply (rule step [OF sp_char_prefix], simp)
    apply (rule step [OF sp_char_prefix], simp)
    apply (rule step [OF sp_string_prefix], simp, rule sp_string_token [OF w(2)], simp)
    apply (rule step [OF sp_char_prefix], simp)
    apply (rule step [OF sp_string_prefix], simp, rule sp_string_token [OF w(3)], simp)
    apply (rule step [OF sp_newline_prefix], simp)
    subgoal for r1 r2 r3 r4 r5 r6 r7
    proof -
      assume "r7 @ t = CRLF"
      with t consider "r7 = []" | "r7 = [CR]" "t = [LF]"
        by (cases r7; cases "tl r7") (auto simp: append_eq_Cons_conv)
      then show ?thesis
        by cases (auto simp: sp_headers.simps sp_line_def split: option.splits)
    qed
    done
qed

lemma sp_request_nearly:
  assumes "wf_request r"
  shows "sp_request beyond (req_method r @ '' /'' @ req_address r @ '' '' @ req_version r @ CRLF @ [CR]) =
    (case beyond of None \<Rightarrow> SUndef | Some y \<Rightarrow> if y = LF then SRet r [] else SExn ErrorInRequest)"
proof -
  have l: "sp_line beyond [CR] =
      (case beyond of None \<Rightarrow> SUndef | Some y \<Rightarrow> if y = LF then SRet [] [] else SExn ErrorInRequest)"
    by (simp add: sp_line_def split: option.splits)
  show ?thesis
    using assms by (simp add: wf_request_def sp_request_def sp_string_token)
      (subst sp_headers.simps, simp add: l split: option.splits)
qed

section \<open>Responses\<close>

definition header_lines :: "string list \<Rightarrow> string" where
  "header_lines hs = concat (map (\<lambda>h. h @ CRLF) hs)"

definition response_bytes :: "string \<Rightarrow> string list \<Rightarrow> string \<Rightarrow> string" where
  "response_bytes st hs body = st @ CRLF @ header_lines hs @ CRLF @ body"

definition plain_line :: "string \<Rightarrow> bool" where
  "plain_line h \<longleftrightarrow> h \<noteq> [] \<and> CR \<notin> set h"

definition length_header :: "nat \<Rightarrow> string" where
  "length_header n = ''Content-Length: '' @ show_nat n"

lemma header_length_header: "k < 2 ^ 64 \<Longrightarrow> header_length (length_header k) n = Some k"
proof -
  assume k: "k < 2 ^ 64"
  have e: "length_header k = lengthString @ '' '' @ show_nat k"
    by (simp add: length_header_def lengthString_def)
  have f: "str_find lengthString (length_header k) = Some 0"
    unfolding e by (rule str_find_prefix)
  have d: "drop (length lengthString + 1) (length_header k) = show_nat k"
    by (simp add: length_header_def lengthString_def)
  show ?thesis using f d k by (simp add: header_length_def extract_size_show) (simp add: e)
qed

lemma plain_length_header: "plain_line (length_header n)"
  using show_nat_digits [of n] digit_not_special by (fastforce simp: plain_line_def length_header_def)

lemma sp_resp_headers_lines:
  assumes "list_all (\<lambda>h. plain_line h \<and> (\<forall>n. header_length h n \<noteq> None)) hs"
  shows "sp_resp_headers beyond n acc (header_lines hs @ CRLF @ r) =
    SRet (foldl (\<lambda>n h. the (header_length h n)) n hs, acc @ concat hs) r"
  using assms
proof (induction hs arbitrary: n acc)
  case Nil
  then show ?case
    using sp_line_line [of "[]" beyond r] by (subst sp_resp_headers.simps) (simp add: header_lines_def)
next
  case (Cons h hs)
  then have h: "h \<noteq> []" "CR \<notin> set h" "header_length h n \<noteq> None" by (auto simp: plain_line_def)
  have "sp_line beyond (header_lines (h # hs) @ CRLF @ r) = SRet h (header_lines hs @ CRLF @ r)"
    using sp_line_line [OF h(2), of beyond "header_lines hs @ CRLF @ r"] by (simp add: header_lines_def)
  moreover obtain n' where "header_length h n = Some n'" using h(3) by blast
  ultimately show ?case using h Cons by (subst sp_resp_headers.simps) auto
qed

lemma sp_response_bytes:
  assumes "CR \<notin> set st" "list_all (\<lambda>h. plain_line h \<and> header_length h 0 = Some 0 \<and> header_length h (length body) = Some (length body)) (hs1 @ hs2)"
    and "\<And>h. h \<in> set (hs1 @ hs2) \<Longrightarrow> str_find lengthString h = None"
    and "length body < 2 ^ 64"
  shows "sp_response beyond (response_bytes st (hs1 @ length_header (length body) # hs2) body @ rest) =
    SRet \<lparr>statusLine = st, headerRemainder = concat (hs1 @ length_header (length body) # hs2), res_body = body\<rparr> rest"
proof -
  let ?hs = "hs1 @ length_header (length body) # hs2"
  have nf: "header_length h n = Some n" if "h \<in> set (hs1 @ hs2)" for h n
    using assms(3) [OF that] by (simp add: header_length_def)
  have all: "list_all (\<lambda>h. plain_line h \<and> (\<forall>n. header_length h n \<noteq> None)) ?hs"
    using assms(2) nf assms(4) by (auto simp: list_all_iff plain_length_header header_length_header)
  have keep: "foldl (\<lambda>n h. the (header_length h n)) n hs = n" if "set hs \<subseteq> set (hs1 @ hs2)" for n hs
    using that by (induction hs arbitrary: n) (auto simp: nf)
  have n: "foldl (\<lambda>n h. the (header_length h n)) 0 ?hs = length body"
    using keep [of hs1 0] keep [of hs2 "length body"] assms(4) by (simp add: header_length_header)
  have l: "sp_line beyond (response_bytes st ?hs body @ rest) = SRet st (header_lines ?hs @ CRLF @ body @ rest)"
    using sp_line_line [OF assms(1), of beyond "header_lines ?hs @ CRLF @ body @ rest"]
    by (simp add: response_bytes_def)
  show ?thesis
    unfolding sp_response_def l s_then.simps sp_resp_headers_lines [OF all] n by simp
qed

section \<open>Properties\<close>

text \<open>A buffer of a single chunk that has received the bytes \<open>s\<close>.\<close>

definition received :: "string \<Rightarrow> Buffer" where
  "received s = mk_buf [] (\<lambda>i. if i < length s then Some (s ! i) else None) [] (length s) 0"

lemma buf_inv_received: "length s \<le> BlockSize \<Longrightarrow> buf_inv (received s)"
  unfolding received_def by (rule buf_inv_mkI) (simp add: mk_ok_def)

lemma content_received: "content (received s) = map Some s"
  by (auto simp: received_def content_mk intro: nth_equalityI)

lemma beyond_received: "length s < BlockSize \<Longrightarrow> beyond_end (received s) = None"
  by (simp add: received_def beyond_end_def)

lemmas received_simps = buf_inv_received content_received beyond_received

text \<open>
  C4. A request for a document, written by \<^verbatim>\<open>toBuffer\<close> behind any requests still unread
  and followed by anything, is parsed back: once the bytes before it are consumed,
  \<^verbatim>\<open>parseRequest\<close> returns 0 with the method, the address without its slash and the
  version, and the iterator has read exactly the bytes of that request, wherever the chunk
  boundaries of the buffer fall.
\<close>

theorem request_roundtrip:
  assumes "out_inv b" "wf_request r"
  shows "\<exists>b1 b2 b3 it it'. toBuffer (wire_request r) b = Some b1 \<and> buf_write extra b1 = Some b2
    \<and> consume (length (content b)) b2 = Some b3 \<and> buf_begin b3 = Some it
    \<and> parseRequest b3 it rq = Some (Code 0 it' r)
    \<and> bytes_read it' = length (request_bytes (wire_request r))
    \<and> it_rest b3 it' = map Some extra"
proof -
  from toBuffer_spec [OF assms(1), of "wire_request r"] obtain b1 where
    b1: "toBuffer (wire_request r) b = Some b1" "out_inv b1"
      "content b1 = content b @ map Some (request_bytes (wire_request r))" by blast
  from outbuf.put_ok [OF b1(2), of extra] obtain b2 where
    b2: "buf_write extra b1 = Some b2" "out_inv b2" "content b2 = content b1 @ map Some extra" by blast
  from outbuf.skip_ok [OF b2(2), of "length (content b)"] obtain b3 where
    b3: "consume (length (content b)) b2 = Some b3" "out_inv b3"
      "content b3 = map Some (request_bytes (wire_request r) @ extra)"
    using b1 b2 by auto
  from parse_wire_request [OF _ b3(3) assms(2), of rq] b3(2) obtain it it' where
    "buf_begin b3 = Some it" "parseRequest b3 it rq = Some (Code 0 it' r)" "bufit.over b3 it' extra"
    "bytes_read it' = length (request_bytes (wire_request r))"
    by (auto simp: out_inv_def)
  with b1 b2 b3 show ?thesis by (auto simp: bufit.over_def)
qed

definition example_request :: Request where
  "example_request = \<lparr>req_method = ''GET'', req_address = ''index.html'', req_version = ''HTTP/1.1''\<rparr>"

lemma wf_example_request: "wf_request example_request"
  by (simp add: wf_request_def example_request_def token_def)

theorem request_roundtrip_witness:
  "\<exists>b1 b2 b3 it it'. toBuffer (wire_request example_request) new_Buffer = Some b1 \<and> buf_write ''G'' b1 = Some b2
    \<and> consume 0 b2 = Some b3 \<and> buf_begin b3 = Some it
    \<and> parseRequest b3 it example_request = Some (Code 0 it' example_request)
    \<and> it_rest b3 it' = [Some CHR ''G'']"
  using request_roundtrip [OF out_inv_new wf_example_request, of "''G''" example_request]
  by (auto simp: content_new)

text \<open>
  C31. \<^verbatim>\<open>parseRequest\<close> returns on every well-formed buffer of initialised bytes: it never
  loops, and its result is 0, 1, -1 or a read past the written bytes, never another exception.
\<close>

theorem parseRequest_returns:
  assumes "buf_inv b" "content b = map Some s"
  shows "\<exists>it. buf_begin b = Some it \<and>
    ((\<exists>code it' m. code \<in> {0, 1, -1} \<and> parseRequest b it rq = Some (Code code it' m))
     \<or> parseRequest b it rq = Some Undefined)"
proof -
  from begin_over [OF assms] obtain it where it: "buf_begin b = Some it" "bufit.over b it s" by blast
  from parseRequest_agrees [OF it(2), of rq] it(1) show ?thesis
    by (cases "sp_request (beyond_end b) s") (auto split: exn.splits; blast)+
qed

theorem parseRequest_returns_witness:
  "\<exists>it. buf_begin new_Buffer = Some it \<and>
    ((\<exists>code it' m. code \<in> {0, 1, -1} \<and> parseRequest new_Buffer it example_request = Some (Code code it' m))
     \<or> parseRequest new_Buffer it example_request = Some Undefined)"
  using parseRequest_returns [OF buf_inv_new, of "[]" example_request] by (simp add: content_new)

lemma parse_partial_request:
  assumes "buf_inv b" "content b = map Some s" "wf_request r"
    and "s @ t = request_bytes (wire_request r)" "1 < length t"
  shows "\<exists>it it' m. buf_begin b = Some it \<and> parseRequest b it rq = Some (Code 1 it' m)"
proof -
  from begin_over [OF assms(1,2)] obtain it where it: "buf_begin b = Some it" "bufit.over b it s" by blast
  have "sp_request (beyond_end b) s = SExn IncompleteInput"
    using request_prefix [OF assms(3,4), of "beyond_end b"] assms(5) by (cases t) auto
  with parseRequest_agrees [OF it(2), of rq] it(1) show ?thesis by auto
qed

text \<open>
  A request cut anywhere before its last byte is reported as insufficient input (code 1), so
  that the connection waits for the rest instead of rejecting it.
\<close>

theorem partial_request_needs_more:
  assumes "buf_inv b" "content b = map Some s" "wf_request r"
    and "s @ t = request_bytes (wire_request r)" "1 < length t"
  shows "\<exists>it it' m. buf_begin b = Some it \<and> parseRequest b it rq = Some (Code 1 it' m)"
  by (rule parse_partial_request [OF assms])

theorem partial_request_needs_more_witness:
  "\<exists>it it' m. buf_begin new_Buffer = Some it \<and> parseRequest new_Buffer it example_request = Some (Code 1 it' m)"
  using partial_request_needs_more [OF buf_inv_new, of "[]" example_request
      "request_bytes (wire_request example_request)" example_request]
  by (simp add: content_new wf_example_request request_bytes_def)

text \<open>
  When exactly the last byte of a request is missing, \<^verbatim>\<open>parseLine\<close> reads past the bytes
  received: never-written memory makes the parse undefined, and any byte there other than a line
  feed makes it reject the request (code -1) although the request is only incomplete.
\<close>

theorem last_byte_missing_not_awaited:
  assumes "buf_inv b" "content b = map Some s" "wf_request r"
    and "s @ [LF] = request_bytes (wire_request r)" "beyond_end b \<noteq> Some LF"
  shows "\<exists>it. buf_begin b = Some it \<and>
    (if beyond_end b = None then parseRequest b it rq = Some Undefined
     else \<exists>it' m. parseRequest b it rq = Some (Code (-1) it' m))"
proof -
  from begin_over [OF assms(1,2)] obtain it where it: "buf_begin b = Some it" "bufit.over b it s" by blast
  have "s @ [LF] = (req_method r @ '' /'' @ req_address r @ '' '' @ req_version r @ CRLF @ [CR]) @ [LF]"
    using assms(4) unfolding request_bytes_wire [OF assms(3)] by simp
  then have "s = req_method r @ '' /'' @ req_address r @ '' '' @ req_version r @ CRLF @ [CR]"
    by (simp only: append1_eq_conv)
  then have "sp_request (beyond_end b) s = (case beyond_end b of None \<Rightarrow> SUndef | Some y \<Rightarrow> SExn ErrorInRequest)"
    using sp_request_nearly [OF assms(3), of "beyond_end b"] assms(5) by (auto split: option.splits)
  with parseRequest_agrees [OF it(2), of rq] it(1) show ?thesis by (auto split: option.splits)
qed

definition example_short :: string where
  "example_short = ''GET /index.html HTTP/1.1'' @ CRLF @ [CR]"

lemma example_short: "example_short @ [LF] = request_bytes (wire_request example_request)"
    "length example_short < BlockSize"
  unfolding request_bytes_wire [OF wf_example_request]
  by (simp_all add: example_short_def example_request_def BlockSize_def)

theorem last_byte_missing_not_awaited_witness:
  "\<exists>it. buf_begin (received example_short) = Some it \<and>
    parseRequest (received example_short) it example_request = Some Undefined"
  using last_byte_missing_not_awaited [OF buf_inv_received content_received wf_example_request example_short(1),
      of example_request] example_short(2)
  by (simp add: beyond_received)

lemma parse_response_bytes:
  assumes "buf_inv b" "content b = map Some (response_bytes st (hs1 @ length_header (length body) # hs2) body @ rest)"
    and "CR \<notin> set st" "list_all plain_line (hs1 @ hs2)"
    and "list_all (\<lambda>h. str_find lengthString h = None) (hs1 @ hs2)" "length body < 2 ^ 64"
  shows "\<exists>it it'. buf_begin b = Some it \<and> parseResponse b it rs = Some (Code 0 it'
      \<lparr>statusLine = st, headerRemainder = concat (hs1 @ length_header (length body) # hs2), res_body = body\<rparr>)
    \<and> bufit.over b it' rest"
proof -
  from begin_over [OF assms(1,2)] obtain it where
    it: "buf_begin b = Some it"
      "bufit.over b it (response_bytes st (hs1 @ length_header (length body) # hs2) body @ rest)" by blast
  have "sp_response (beyond_end b) (response_bytes st (hs1 @ length_header (length body) # hs2) body @ rest) =
    SRet \<lparr>statusLine = st, headerRemainder = concat (hs1 @ length_header (length body) # hs2), res_body = body\<rparr> rest"
    using assms(3-6) by (intro sp_response_bytes) (auto simp: list_all_iff header_length_def)
  with parseResponse_sim [OF it(2), of rs] it(1) show ?thesis
    by (auto simp: sim_def)
qed

text \<open>
  C18. A response with a \<^verbatim>\<open>Content-Length\<close> header that states the size of its body is parsed
  back: \<^verbatim>\<open>parseResponse\<close> returns 0 with the status line, the headers and exactly the body, and
  stops at the byte after it.
\<close>

theorem response_roundtrip:
  assumes "buf_inv b" "content b = map Some (response_bytes st (hs1 @ length_header (length body) # hs2) body @ rest)"
    and "CR \<notin> set st" "list_all plain_line (hs1 @ hs2)"
    and "list_all (\<lambda>h. str_find lengthString h = None) (hs1 @ hs2)" "length body < 2 ^ 64"
  shows "\<exists>it it'. buf_begin b = Some it \<and> parseResponse b it rs = Some (Code 0 it'
      \<lparr>statusLine = st, headerRemainder = concat (hs1 @ length_header (length body) # hs2), res_body = body\<rparr>)
    \<and> it_rest b it' = map Some rest"
  using parse_response_bytes [OF assms, of rs] by (auto simp: bufit.over_def)

lemma example_response_fits: "length (response_bytes ''OK'' [length_header 3] ''abc'' @ ''H'') \<le> BlockSize"
  by (simp add: response_bytes_def header_lines_def length_header_def BlockSize_def show_nat.simps)

theorem response_roundtrip_witness:
  "\<exists>it it'. buf_begin (received (response_bytes ''OK'' [length_header 3] ''abc'' @ ''H'')) = Some it
    \<and> parseResponse (received (response_bytes ''OK'' [length_header 3] ''abc'' @ ''H'')) it \<lparr>statusLine = [], headerRemainder = [], res_body = []\<rparr> = Some (Code 0 it'
      \<lparr>statusLine = ''OK'', headerRemainder = length_header 3, res_body = ''abc''\<rparr>)
    \<and> it_rest (received (response_bytes ''OK'' [length_header 3] ''abc'' @ ''H'')) it' = [Some CHR ''H'']"
  using response_roundtrip [of "received (response_bytes ''OK'' [length_header 3] ''abc'' @ ''H'')"
      "''OK''" "[]" "''abc''" "[]" "''H''" "\<lparr>statusLine = [], headerRemainder = [], res_body = []\<rparr>"]
    buf_inv_received [OF example_response_fits]
  by (simp add: content_received numeral_3_eq_3)

end
