(* ===== verification/Markable_Pointer.thy ===== *)
theory Markable_Pointer
  imports Prelude
begin

unbundle bit_operations_syntax

text \<open>
  Pointers as 64-bit words whose least significant bit serves as a logical-deletion mark
  (\<^verbatim>\<open>markable_pointer.hpp\<close>). The union \<^verbatim>\<open>PointerAndMark\<close> overlays the pointer with a
  one-bit field, which on the x86 targets of the build is bit 0 of the word. The laws the list
  relies on are the locale \<open>mark_bit\<close>.
\<close>

type_synonym ptr = u64

abbreviation NULL :: ptr where
  "NULL \<equiv> 0"

definition mark :: "ptr \<Rightarrow> ptr" where
  "mark p = p OR 1"

definition unmark :: "ptr \<Rightarrow> ptr" where
  "unmark p = p AND NOT 1"

definition isMarked :: "ptr \<Rightarrow> bool" where
  "isMarked p = bit p 0"

text \<open>What an allocated object's address is: not NULL, and with its least significant bit clear.\<close>

definition aligned :: "ptr \<Rightarrow> bool" where
  "aligned p \<longleftrightarrow> \<not> bit p 0"

locale mark_bit =
  fixes set_mark clear_mark :: "'p \<Rightarrow> 'p" and has_mark clean :: "'p \<Rightarrow> bool"
  assumes has_mark_set: "has_mark (set_mark p)"
    and clear_set: "clean p \<Longrightarrow> clear_mark (set_mark p) = p"
    and clear_clean: "clean p \<Longrightarrow> clear_mark p = p"
    and clean_iff: "clean p \<longleftrightarrow> \<not> has_mark p"
begin

lemma set_mark_inject: "clean p \<Longrightarrow> clean q \<Longrightarrow> set_mark p = set_mark q \<longleftrightarrow> p = q"
  using clear_set by metis

lemma set_mark_neq: "clean p \<Longrightarrow> set_mark q \<noteq> p"
  using has_mark_set clean_iff by metis

end

interpretation mb: mark_bit mark unmark isMarked aligned
proof unfold_locales
  fix p :: ptr
  show "isMarked (mark p)" by (simp add: isMarked_def mark_def bit_simps)
  show "unmark (mark p) = p" if "aligned p"
    using that by (intro bit_eqI) (auto simp: aligned_def unmark_def mark_def bit_simps intro: gr0I)
  show "unmark p = p" if "aligned p"
    using that by (intro bit_eqI) (auto simp: aligned_def unmark_def bit_simps intro: gr0I)
  show "aligned p \<longleftrightarrow> \<not> isMarked p" by (simp add: aligned_def isMarked_def)
qed

lemma unmark_aligned [simp]: "aligned (unmark p)"
  by (simp add: aligned_def unmark_def bit_simps)

lemma unmark_mark [simp]: "unmark (mark p) = unmark p"
  by (intro bit_eqI) (auto simp: unmark_def mark_def bit_simps)

lemma isMarked_mark [simp]: "isMarked (mark p)"
  by (rule mb.has_mark_set)

lemma unmark_id: "\<not> isMarked p \<Longrightarrow> unmark p = p"
  by (rule mb.clear_clean) (simp add: mb.clean_iff)

lemma aligned_NULL [simp]: "aligned NULL"
  by (simp add: aligned_def)

lemma isMarked_aligned: "aligned p \<Longrightarrow> \<not> isMarked p"
  by (simp add: mb.clean_iff)

end
