(* ===== verification/Hazard_Pointers.thy ===== *)
theory Hazard_Pointers
  imports Markable_Pointer
begin

text \<open>
  Hazard pointers (\<^verbatim>\<open>hazard_pointers.hpp\<close>): per thread, an array of \<^verbatim>\<open>NUM_PTRS\<close> pointers in
  use and a set of retired nodes. \<^verbatim>\<open>delete\<close> of a node is reported as a list of freed
  addresses, which the client takes out of its heap. An index that is not a thread number is
  undefined behaviour (\<open>None\<close>). Sets of pointers are lists without duplicates; nothing proved
  depends on their order, which \<^verbatim>\<open>unordered_set\<close> leaves open.
\<close>

record HazardPointers =
  num_threads :: nat
  hp_recs :: "ptr list list"
  retired_lists :: "ptr list list"

definition MAX_RETIRED_NODES_PER_THREAD :: nat where
  "MAX_RETIRED_NODES_PER_THREAD = 10"

text \<open>
  The placement new of the \<^verbatim>\<open>HPRec\<close> array does not initialise it, so that the first hazard
  pointers are whatever the memory \<open>mem\<close> held.
\<close>

definition new_HazardPointers :: "nat \<Rightarrow> nat \<Rightarrow> (nat \<Rightarrow> nat \<Rightarrow> ptr) \<Rightarrow> HazardPointers" where
  "new_HazardPointers n ptrs mem =
     \<lparr>num_threads = n, hp_recs = map (\<lambda>i. map (mem i) [0 ..< ptrs]) [0 ..< n], retired_lists = replicate n []\<rparr>"

definition delete_HazardPointers :: "HazardPointers \<Rightarrow> ptr list" where
  "delete_HazardPointers h = concat (retired_lists h)"

definition getHPRec :: "nat \<Rightarrow> HazardPointers \<Rightarrow> ptr list option" where
  "getHPRec t h = dq_at (hp_recs h) t"

text \<open>\<^verbatim>\<open>hp[j] = p\<close> through the pointer \<^verbatim>\<open>getHPRec\<close> returns.\<close>

definition set_hp :: "nat \<Rightarrow> nat \<Rightarrow> ptr \<Rightarrow> HazardPointers \<Rightarrow> HazardPointers option" where
  "set_hp t j p h =
     do { rc \<leftarrow> getHPRec t h; rc' \<leftarrow> dq_set rc j p; recs \<leftarrow> dq_set (hp_recs h) t rc';
          Some (h\<lparr>hp_recs := recs\<rparr>) }"

definition active_list :: "HazardPointers \<Rightarrow> ptr list" where
  "active_list h = remdups (filter (\<lambda>p. p \<noteq> NULL) (concat (hp_recs h)))"

text \<open>The loop of \<^verbatim>\<open>maybeFreeNodes\<close>: what is deleted, what stays, how many were reclaimed.\<close>

fun free_loop :: "ptr list \<Rightarrow> ptr list \<Rightarrow> ptr list \<times> ptr list \<times> nat" where
  "free_loop active [] = ([], [], 0)"
| "free_loop active (p # l) =
     (case free_loop active l of (freed, kept, reclaimed) \<Rightarrow>
        if p \<notin> set active then (p # freed, kept, Suc reclaimed) else (freed, p # kept, reclaimed))"

definition maybeFreeNodes :: "nat \<Rightarrow> HazardPointers \<Rightarrow> (nat \<times> ptr list \<times> HazardPointers) option" where
  "maybeFreeNodes t h =
     do { l \<leftarrow> dq_at (retired_lists h) t;
          case free_loop (active_list h) l of (freed, kept, reclaimed) \<Rightarrow>
            do { ls \<leftarrow> dq_set (retired_lists h) t kept;
                 Some (reclaimed, freed, h\<lparr>retired_lists := ls\<rparr>) } }"

definition retireNode :: "nat \<Rightarrow> ptr \<Rightarrow> HazardPointers \<Rightarrow> (nat \<times> ptr list \<times> HazardPointers) option" where
  "retireNode t p h =
     do { l \<leftarrow> dq_at (retired_lists h) t;
          ls \<leftarrow> dq_set (retired_lists h) t (List.insert p l);
          (let h' = h\<lparr>retired_lists := ls\<rparr>
           in if length (List.insert p l) > MAX_RETIRED_NODES_PER_THREAD then maybeFreeNodes t h'
              else Some (0, [], h')) }"

section \<open>Invariant and behaviour\<close>

definition retired :: "HazardPointers \<Rightarrow> ptr list" where
  "retired h = concat (retired_lists h)"

text \<open>
  One record of \<open>n\<close> pointers and one retired set per thread; no node is retired twice.
\<close>

definition hp_inv :: "nat \<Rightarrow> HazardPointers \<Rightarrow> bool" where
  "hp_inv n h \<longleftrightarrow> length (hp_recs h) = num_threads h \<and> length (retired_lists h) = num_threads h \<and>
     list_all (\<lambda>r. length r = n) (hp_recs h) \<and> distinct (retired h)"

lemma hp_inv_new: "hp_inv n (new_HazardPointers k n mem)"
  by (simp add: hp_inv_def new_HazardPointers_def list_all_iff retired_def)

lemma free_loop_spec:
  "free_loop act l = (filter (\<lambda>p. p \<notin> set act) l, filter (\<lambda>p. p \<in> set act) l, length (filter (\<lambda>p. p \<notin> set act) l))"
  by (induction l) auto

lemma set_active_list: "set (active_list h) = {p \<in> \<Union> (set ` set (hp_recs h)). p \<noteq> NULL}"
  by (auto simp: active_list_def)

lemma concat_update_perm:
  "i < length ls \<Longrightarrow> mset (concat (ls[i := l])) + mset (ls ! i) = mset (concat ls) + mset l"
proof (induction ls arbitrary: i)
  case (Cons x xs)
  then show ?case by (cases i) (auto simp: ac_simps)
qed simp

lemma set_hp_spec:
  assumes "hp_inv n h" "t < num_threads h" "j < n"
  shows "\<exists>h'. set_hp t j p h = Some h' \<and> hp_inv n h' \<and> num_threads h' = num_threads h
    \<and> retired_lists h' = retired_lists h \<and> hp_recs h' = (hp_recs h)[t := (hp_recs h ! t)[j := p]]"
proof -
  have "length (hp_recs h ! t) = n" "t < length (hp_recs h)"
    using assms by (auto simp: hp_inv_def list_all_iff)
  with assms show ?thesis
    by (auto simp: set_hp_def getHPRec_def dq_at_def dq_set_def hp_inv_def retired_def list_all_iff
        dest!: set_update_subset_insert [THEN subsetD])
qed

lemma maybeFreeNodes_spec:
  assumes "hp_inv n h" "t < num_threads h"
  shows "\<exists>freed h'. maybeFreeNodes t h = Some (length freed, freed, h') \<and> hp_inv n h'
    \<and> num_threads h' = num_threads h \<and> hp_recs h' = hp_recs h
    \<and> freed = filter (\<lambda>p. p \<notin> set (active_list h)) (retired_lists h ! t)
    \<and> retired_lists h' = (retired_lists h)[t := filter (\<lambda>p. p \<in> set (active_list h)) (retired_lists h ! t)]
    \<and> mset (retired h') + mset freed = mset (retired h)"
proof -
  let ?l = "retired_lists h ! t" and ?A = "set (active_list h)"
  let ?ls = "(retired_lists h)[t := filter (\<lambda>p. p \<in> ?A) ?l]"
  have t: "t < length (retired_lists h)" using assms by (simp add: hp_inv_def)
  have split: "mset (filter (\<lambda>p. p \<in> ?A) ?l) + mset (filter (\<lambda>p. p \<notin> ?A) ?l) = mset ?l"
    using multiset_partition [of "mset ?l" "\<lambda>p. p \<in> ?A"] by simp
  have m: "mset (concat ?ls) + mset (filter (\<lambda>p. p \<notin> ?A) ?l) = mset (retired h)"
  proof -
    let ?k = "mset (filter (\<lambda>p. p \<in> ?A) ?l)" and ?f = "mset (filter (\<lambda>p. p \<notin> ?A) ?l)"
    have "mset (concat ?ls) + (?k + ?f) = mset (concat (retired_lists h)) + ?k"
      unfolding split by (rule concat_update_perm [OF t])
    then have "(mset (concat ?ls) + ?f) + ?k = mset (concat (retired_lists h)) + ?k"
      by (simp only: ac_simps)
    then show ?thesis by (simp only: add_right_cancel retired_def)
  qed
  then have "distinct (concat ?ls)"
    using assms(1) unfolding hp_inv_def
    by (metis distinct_append mset_append mset_eq_imp_distinct_iff)
  with assms t m show ?thesis
    by (auto simp: maybeFreeNodes_def dq_at_def dq_set_def free_loop_spec hp_inv_def retired_def)
qed

lemma retireNode_spec:
  assumes "hp_inv n h" "t < num_threads h" "p \<notin> set (retired h)"
  shows "\<exists>k freed h'. retireNode t p h = Some (k, freed, h') \<and> k = length freed \<and> hp_inv n h'
    \<and> num_threads h' = num_threads h \<and> hp_recs h' = hp_recs h
    \<and> mset (retired h') + mset freed = mset (retired h) + {#p#}
    \<and> set freed \<inter> set (active_list h) = {}
    \<and> length (retired_lists h' ! t) \<le> max MAX_RETIRED_NODES_PER_THREAD (length (active_list h))"
proof -
  let ?l = "retired_lists h ! t"
  let ?h = "h\<lparr>retired_lists := (retired_lists h)[t := p # ?l]\<rparr>"
  have t: "t < length (retired_lists h)" using assms by (simp add: hp_inv_def)
  have p: "List.insert p ?l = p # ?l"
    using assms(3) t by (auto simp: retired_def intro: not_in_set_insert)
  have m: "mset (retired ?h) = mset (retired h) + {#p#}"
    using concat_update_perm [OF t, of "p # ?l"] by (simp add: retired_def)
  then have inv: "hp_inv n ?h"
    using assms(1,3) unfolding hp_inv_def
    by simp (metis distinct.simps(2) mset.simps(2) mset_eq_imp_distinct_iff)
  have e: "retireNode t p h = (if length (p # ?l) > MAX_RETIRED_NODES_PER_THREAD then maybeFreeNodes t ?h else Some (0, [], ?h))"
    using t by (simp add: retireNode_def dq_at_def dq_set_def p Let_def)
  have act: "active_list ?h = active_list h" by (simp add: active_list_def)
  show ?thesis
  proof (cases "length (p # ?l) > MAX_RETIRED_NODES_PER_THREAD")
    case True
    from maybeFreeNodes_spec [OF inv, of t] assms(2) t obtain freed h' where
      f: "maybeFreeNodes t ?h = Some (length freed, freed, h')" "hp_inv n h'" "num_threads h' = num_threads h"
        "hp_recs h' = hp_recs h" "freed = filter (\<lambda>x. x \<notin> set (active_list h)) (p # ?l)"
        "retired_lists h' ! t = filter (\<lambda>x. x \<in> set (active_list h)) (p # ?l)"
        "mset (retired h') + mset freed = mset (retired ?h)"
      by (fastforce simp: act)
    have "distinct (p # ?l)"
      using inv set_update_memI [OF t, of "p # ?l"] unfolding hp_inv_def retired_def distinct_concat_iff
      by (auto simp del: distinct.simps)
    then have "length (filter (\<lambda>x. x \<in> set (active_list h)) (p # ?l)) \<le> card (set (active_list h))"
      using card_mono [of "set (active_list h)" "set (filter (\<lambda>x. x \<in> set (active_list h)) (p # ?l))"]
        distinct_card [of "filter (\<lambda>x. x \<in> set (active_list h)) (p # ?l)"] distinct_filter
      by (metis (no_types, lifting) List.finite_set filter_set subsetI set_filter mem_Collect_eq)
    also have "\<dots> \<le> length (active_list h)" by (rule card_length)
    finally have "length (retired_lists h' ! t) \<le> length (active_list h)" by (simp only: f(6))
    with f True m e show ?thesis by auto
  next
    case False
    with inv m e t show ?thesis by auto
  qed
qed

lemma length_active_list:
  assumes "hp_inv n h"
  shows "length (active_list h) \<le> num_threads h * n"
proof -
  have "length (active_list h) \<le> length (concat (hp_recs h))"
    unfolding active_list_def by (meson le_trans length_filter_le length_remdups_leq)
  also have "length (concat (hp_recs h)) = sum_list (map (\<lambda>_. n) (hp_recs h))"
    unfolding length_concat using assms
    by (auto simp: hp_inv_def list_all_iff intro!: arg_cong [where f = sum_list])
  finally show ?thesis using assms by (simp add: sum_list_triv hp_inv_def)
qed

section \<open>Properties\<close>

text \<open>
  C23. \<^verbatim>\<open>retireNode\<close> reclaims memory safely and exactly: every node it deletes was retired and is
  in no thread's hazard pointers, nothing is lost or deleted twice (the retired nodes after the
  call and the deleted ones are together the retired nodes before it and the new node), and it
  returns the number of nodes deleted. The calling thread is left with at most as many retired
  nodes as the threshold or the total number of hazard pointers.
\<close>

theorem retireNode_safe:
  assumes "hp_inv n h" "t < num_threads h" "p \<notin> set (retired h)"
  shows "\<exists>freed h'. retireNode t p h = Some (length freed, freed, h') \<and> hp_inv n h'
    \<and> (\<forall>x i j. i < num_threads h \<and> j < n \<and> hp_recs h ! i ! j = x \<and> x \<noteq> NULL \<longrightarrow> x \<notin> set freed)
    \<and> mset (retired h') + mset freed = mset (retired h) + {#p#}
    \<and> length (retired_lists h' ! t) \<le> max MAX_RETIRED_NODES_PER_THREAD (num_threads h * n)"
proof -
  have "hp_recs h ! i ! j \<in> set (active_list h)"
    if "i < num_threads h" "j < n" "hp_recs h ! i ! j \<noteq> NULL" for i j
  proof -
    have i: "hp_recs h ! i \<in> set (hp_recs h)" using assms(1) that by (simp add: hp_inv_def)
    moreover have "hp_recs h ! i ! j \<in> set (hp_recs h ! i)"
      using assms(1) that i by (simp add: hp_inv_def list_all_iff)
    ultimately show ?thesis using that by (auto simp: set_active_list)
  qed
  with retireNode_spec [OF assms] length_active_list [OF assms(1)] show ?thesis
    by (fastforce intro: order_trans max.mono)
qed

definition example_hps :: HazardPointers where
  "example_hps = \<lparr>num_threads = 1, hp_recs = [[8, 0]], retired_lists = [map (\<lambda>i. 8 * i) [1, 2, 3, 4, 5, 6, 7, 8, 9, 10]]\<rparr>"

theorem retireNode_safe_witness:
  "\<exists>freed h'. retireNode 0 88 example_hps = Some (length freed, freed, h') \<and> hp_inv 2 h'
    \<and> mset (retired h') + mset freed = mset (retired example_hps) + {#88#} \<and> 8 \<notin> set freed
    \<and> length (retired_lists h' ! 0) \<le> 10"
proof -
  have "hp_inv 2 example_hps" "88 \<notin> set (retired example_hps)"
    by (simp_all add: hp_inv_def example_hps_def retired_def)
  from retireNode_safe [OF this(1) _ this(2), of 0] obtain freed h' where
    f: "retireNode 0 88 example_hps = Some (length freed, freed, h')" "hp_inv 2 h'"
      "\<forall>x i j. i < num_threads example_hps \<and> j < 2 \<and> hp_recs example_hps ! i ! j = x \<and> x \<noteq> NULL \<longrightarrow> x \<notin> set freed"
      "mset (retired h') + mset freed = mset (retired example_hps) + {#88#}"
      "length (retired_lists h' ! 0) \<le> max MAX_RETIRED_NODES_PER_THREAD (num_threads example_hps * 2)"
    by (auto simp: example_hps_def)
  moreover have "8 \<notin> set freed" using f(3) [rule_format, of 0 0 8] by (simp add: example_hps_def)
  ultimately show ?thesis by (auto simp: example_hps_def MAX_RETIRED_NODES_PER_THREAD_def)
qed

end
