(* ===== verification/Lock_Free_List.thy ===== *)
theory Lock_Free_List
  imports Hazard_Pointers
begin

text \<open>
  The lock-free ordered list (\<^verbatim>\<open>lock_free_list.hpp\<close>), which the hash table also enters in the
  middle. Memory is a heap of nodes; a \<open>loc\<close> is what a \<^verbatim>\<open>Node**\<close> can point to: the head of
  the list, the by-value parameter \<^verbatim>\<open>start_\<close> of the running call, or the \<^verbatim>\<open>next\<close> field of a
  node. The model runs one operation at a time and keeps every test, retry and compare-and-swap of
  the code. \<open>None\<close> is undefined behaviour (an access to a node that is not allocated) or a call that
  does not return; the list may hold nodes another thread has marked but not yet unlinked.
\<close>

record 'k Node =
  node_data :: 'k
  node_value :: "int option"
  node_next :: ptr

record 'k LockFreeList =
  heap :: "ptr \<Rightarrow> 'k Node option"
  head :: ptr
  hps :: HazardPointers
  brk :: nat
  start_arg :: ptr

datatype loc = HeadLoc | StartLoc | NextLoc ptr

record LookupContext =
  lc_prev :: loc
  lc_cur :: ptr
  lc_next :: ptr

section \<open>Memory\<close>

text \<open>
  Allocation takes the next of the 16-byte slots (the size of a \<^verbatim>\<open>Node\<close>) and fails when the
  address space is used up. The constructor leaves \<^verbatim>\<open>value\<close> uninitialised.
\<close>

definition slot :: "nat \<Rightarrow> ptr" where
  "slot k = word_of_nat (16 * k)"

definition max_slots :: nat where
  "max_slots = 2 ^ 59"

definition new_Node :: "('k :: zero) LockFreeList \<Rightarrow> (ptr \<times> 'k LockFreeList) option" where
  "new_Node st =
     (if brk st < max_slots then
        let a = slot (Suc (brk st))
        in Some (a, st\<lparr>heap := (heap st)(a \<mapsto> \<lparr>node_data = 0, node_value = None, node_next = NULL\<rparr>),
                       brk := Suc (brk st)\<rparr>)
      else None)"

definition delete_Node :: "ptr \<Rightarrow> 'k LockFreeList \<Rightarrow> 'k LockFreeList option" where
  "delete_Node a st =
     (if a = NULL then Some st
      else case heap st a of None \<Rightarrow> None | Some _ \<Rightarrow> Some (st\<lparr>heap := (heap st)(a := None)\<rparr>))"

fun delete_Nodes :: "ptr list \<Rightarrow> 'k LockFreeList \<Rightarrow> 'k LockFreeList option" where
  "delete_Nodes [] st = Some st"
| "delete_Nodes (a # as) st = do { st' \<leftarrow> delete_Node a st; delete_Nodes as st' }"

definition read_loc :: "loc \<Rightarrow> 'k LockFreeList \<Rightarrow> ptr option" where
  "read_loc l st =
     (case l of HeadLoc \<Rightarrow> Some (head st) | StartLoc \<Rightarrow> Some (start_arg st)
      | NextLoc a \<Rightarrow> map_option node_next (heap st a))"

definition write_loc :: "loc \<Rightarrow> ptr \<Rightarrow> 'k LockFreeList \<Rightarrow> 'k LockFreeList option" where
  "write_loc l p st =
     (case l of HeadLoc \<Rightarrow> Some (st\<lparr>head := p\<rparr>) | StartLoc \<Rightarrow> Some (st\<lparr>start_arg := p\<rparr>)
      | NextLoc a \<Rightarrow>
          (case heap st a of None \<Rightarrow> None
           | Some n \<Rightarrow> Some (st\<lparr>heap := (heap st)(a \<mapsto> n\<lparr>node_next := p\<rparr>)\<rparr>)))"

text \<open>\<^verbatim>\<open>__sync_bool_compare_and_swap\<close>\<close>

definition cas :: "loc \<Rightarrow> ptr \<Rightarrow> ptr \<Rightarrow> 'k LockFreeList \<Rightarrow> (bool \<times> 'k LockFreeList) option" where
  "cas l old new st =
     do { v \<leftarrow> read_loc l st;
          if v = old then do { st' \<leftarrow> write_loc l new st; Some (True, st') } else Some (False, st) }"

definition retire :: "nat \<Rightarrow> ptr \<Rightarrow> 'k LockFreeList \<Rightarrow> 'k LockFreeList option" where
  "retire t a st =
     do { (_, freed, h) \<leftarrow> retireNode t a (hps st); delete_Nodes freed (st\<lparr>hps := h\<rparr>) }"

section \<open>Operations\<close>

definition new_LockFreeList :: "nat \<Rightarrow> (nat \<Rightarrow> nat \<Rightarrow> ptr) \<Rightarrow> 'k LockFreeList" where
  "new_LockFreeList n mem =
     \<lparr>heap = (\<lambda>_. None), head = NULL, hps = new_HazardPointers n 2 mem, brk = 0, start_arg = NULL\<rparr>"

text \<open>
  The body of the loop of \<^verbatim>\<open>lookupInternal\<close>, for a current node that is not NULL: either the
  result with the value it stores, or the context in which the loop goes on. \<open>try_again\<close> is the
  label.
\<close>

datatype 'k lookup_step = Found bool LookupContext "int option" "'k LockFreeList" | Continue LookupContext "'k LockFreeList"

definition try_again :: "loc \<Rightarrow> LookupContext \<Rightarrow> 'k LockFreeList \<Rightarrow> 'k lookup_step option" where
  "try_again start ctx st =
     do { c \<leftarrow> read_loc start st; Some (Continue (ctx\<lparr>lc_prev := start, lc_cur := c\<rparr>) st) }"

definition swap_hp :: "nat \<Rightarrow> HazardPointers \<Rightarrow> HazardPointers option" where
  "swap_hp t h =
     do { rc \<leftarrow> getHPRec t h; p0 \<leftarrow> dq_at rc 0; p1 \<leftarrow> dq_at rc 1;
          h' \<leftarrow> set_hp t 0 p1 h; set_hp t 1 p0 h' }"

definition lookup_body ::
  "nat \<Rightarrow> loc \<Rightarrow> 'k::linorder \<Rightarrow> LookupContext \<Rightarrow> 'k LockFreeList \<Rightarrow> 'k lookup_step option" where
  "lookup_body t start key ctx st0 =
     do { h \<leftarrow> set_hp t 0 (lc_cur ctx) (hps st0);
          let st = st0\<lparr>hps := h\<rparr>;
          p \<leftarrow> read_loc (lc_prev ctx) st;
          if p \<noteq> lc_cur ctx then try_again start ctx st
          else do {
            n \<leftarrow> heap st (lc_cur ctx);
            let ctx = ctx\<lparr>lc_next := node_next n\<rparr>;
            if isMarked (node_next n) then do {
              (ok, st') \<leftarrow> cas (lc_prev ctx) (lc_cur ctx) (unmark (node_next n)) st;
              if \<not> ok then try_again start ctx st'
              else do { st'' \<leftarrow> retire t (lc_cur ctx) st';
                        Some (Continue (ctx\<lparr>lc_cur := unmark (node_next n)\<rparr>) st'') } }
            else do {
              p' \<leftarrow> read_loc (lc_prev ctx) st;
              if p' \<noteq> lc_cur ctx then try_again start ctx st
              else if node_data n \<ge> key then
                (if node_data n = key then Some (Found True ctx (node_value n) st)
                 else Some (Found False ctx None st))
              else do { h' \<leftarrow> swap_hp t h;
                        Some (Continue (ctx\<lparr>lc_prev := NextLoc (lc_cur ctx), lc_cur := node_next n\<rparr>)
                                (st\<lparr>hps := h'\<rparr>)) } } } }"

partial_function (option) lookup_loop ::
  "nat \<Rightarrow> loc \<Rightarrow> 'k::linorder \<Rightarrow> LookupContext \<Rightarrow> 'k LockFreeList \<Rightarrow>
   (bool \<times> LookupContext \<times> int option \<times> 'k LockFreeList) option" where
  "lookup_loop t start key ctx st =
     (if lc_cur ctx = NULL then Some (False, ctx, None, st)
      else case lookup_body t start key ctx st of
             None \<Rightarrow> None
           | Some (Found r ctx' v st') \<Rightarrow> Some (r, ctx', v, st')
           | Some (Continue ctx' st') \<Rightarrow> lookup_loop t start key ctx' st')"

definition lookupInternal ::
  "nat \<Rightarrow> loc \<Rightarrow> 'k::linorder \<Rightarrow> LookupContext \<Rightarrow> 'k LockFreeList \<Rightarrow>
   (bool \<times> LookupContext \<times> int option \<times> 'k LockFreeList) option" where
  "lookupInternal t start key ctx st =
     do { c \<leftarrow> read_loc start st;
          lookup_loop t start key (ctx\<lparr>lc_prev := start, lc_cur := c\<rparr>) st }"

text \<open>
  \<^verbatim>\<open>LookupContext ctx;\<close> starts with NULL pointers; \<^verbatim>\<open>prev\<close> is overwritten before it is read.
\<close>

definition new_ctx :: LookupContext where
  "new_ctx = \<lparr>lc_prev = HeadLoc, lc_cur = NULL, lc_next = NULL\<rparr>"

definition startingPointer :: "ptr \<Rightarrow> loc" where
  "startingPointer start = (if start \<noteq> NULL then StartLoc else HeadLoc)"

definition set_next :: "ptr \<Rightarrow> ptr \<Rightarrow> 'k LockFreeList \<Rightarrow> 'k LockFreeList option" where
  "set_next a p st = write_loc (NextLoc a) p st"

text \<open>
  The loop of \<^verbatim>\<open>insert\<close>. \<open>dummy\<close> is the node \<^verbatim>\<open>*dummyNode\<close> points to, or \<open>None\<close> when the
  parameter is NULL; its value after the call is part of the result.
\<close>

partial_function (option) insert_loop ::
  "nat \<Rightarrow> loc \<Rightarrow> 'k::linorder \<Rightarrow> ptr \<Rightarrow> ptr option \<Rightarrow> 'k LockFreeList \<Rightarrow>
   (bool \<times> ptr option \<times> 'k LockFreeList) option" where
  "insert_loop t start key node dummy st =
     do { (r, ctx, _, st1) \<leftarrow> lookupInternal t start key new_ctx st;
          if r then do { st2 \<leftarrow> delete_Node node st1;
                         Some (False, if dummy = None then None else Some (lc_cur ctx), st2) }
          else do { st2 \<leftarrow> set_next node (lc_cur ctx) st1;
                    (ok, st3) \<leftarrow> cas (lc_prev ctx) (lc_cur ctx) node st2;
                    if ok then Some (True, dummy, st3) else insert_loop t start key node dummy st3 } }"

definition init_node :: "'k \<Rightarrow> int option \<Rightarrow> ptr \<Rightarrow> 'k LockFreeList \<Rightarrow> 'k LockFreeList option" where
  "init_node key val a st =
     do { n \<leftarrow> heap st a;
          Some (st\<lparr>heap := (heap st)(a \<mapsto> n\<lparr>node_data := key,
                 node_value := (case val of None \<Rightarrow> node_value n | Some v \<Rightarrow> Some v)\<rparr>)\<rparr>) }"

definition lf_insert ::
  "nat \<Rightarrow> 'k::{linorder, zero} \<Rightarrow> int option \<Rightarrow> ptr \<Rightarrow> ptr option \<Rightarrow> 'k LockFreeList \<Rightarrow>
   (bool \<times> ptr option \<times> 'k LockFreeList) option" where
  "lf_insert t key val start dummy st0 =
     (let st = st0\<lparr>start_arg := start\<rparr>
      in do { (node, st1) \<leftarrow> (case dummy of None \<Rightarrow> new_Node st | Some d \<Rightarrow> Some (d, st));
              st2 \<leftarrow> init_node key val node st1;
              insert_loop t (startingPointer start) key node dummy st2 })"

partial_function (option) remove_loop ::
  "nat \<Rightarrow> loc \<Rightarrow> 'k::linorder \<Rightarrow> 'k LockFreeList \<Rightarrow> (bool \<times> 'k LockFreeList) option" where
  "remove_loop t start key st =
     do { (r, ctx, _, st1) \<leftarrow> lookupInternal t start key new_ctx st;
          if \<not> r then Some (False, st1)
          else do { (ok, st2) \<leftarrow> cas (NextLoc (lc_cur ctx)) (lc_next ctx) (mark (lc_next ctx)) st1;
                    if \<not> ok then remove_loop t start key st2
                    else do { (ok', st3) \<leftarrow> cas (lc_prev ctx) (lc_cur ctx) (lc_next ctx) st2;
                              if ok' then do { st4 \<leftarrow> retire t (lc_cur ctx) st3; Some (True, st4) }
                              else do { (_, _, _, st4) \<leftarrow> lookupInternal t start key ctx st3;
                                        Some (True, st4) } } } }"

definition lf_remove :: "nat \<Rightarrow> 'k::linorder \<Rightarrow> ptr \<Rightarrow> 'k LockFreeList \<Rightarrow> (bool \<times> 'k LockFreeList) option" where
  "lf_remove t key start st = remove_loop t (startingPointer start) key (st\<lparr>start_arg := start\<rparr>)"

definition lf_lookup ::
  "nat \<Rightarrow> 'k::linorder \<Rightarrow> ptr \<Rightarrow> 'k LockFreeList \<Rightarrow> (bool \<times> int option \<times> 'k LockFreeList) option" where
  "lf_lookup t key start st =
     do { (r, _, v, st') \<leftarrow> lookupInternal t (startingPointer start) key new_ctx (st\<lparr>start_arg := start\<rparr>);
          Some (r, v, st') }"

text \<open>The loop of \<^verbatim>\<open>checkIntegrity\<close>: it follows \<^verbatim>\<open>next\<close> as it is, mark included.\<close>

partial_function (option) integrity_loop :: "('k::linorder) LockFreeList \<Rightarrow> 'k \<Rightarrow> ptr \<Rightarrow> bool option" where
  "integrity_loop st prev_element cur =
     (if cur = NULL then Some True
      else do { n \<leftarrow> heap st cur;
                if prev_element \<ge> node_data n then Some False
                else integrity_loop st (node_data n) (node_next n) })"

definition checkIntegrity :: "('k::linorder) LockFreeList \<Rightarrow> bool option" where
  "checkIntegrity st =
     (if head st = NULL then Some True
      else do { n \<leftarrow> heap st (head st); integrity_loop st (node_data n) (node_next n) })"

partial_function (option) destroy_loop :: "'k LockFreeList \<Rightarrow> 'k LockFreeList option" where
  "destroy_loop st =
     (if head st = NULL then Some st
      else do { n \<leftarrow> heap st (head st); st' \<leftarrow> delete_Node (head st) (st\<lparr>head := node_next n\<rparr>);
                destroy_loop st' })"

text \<open>The destructor: the chain of nodes, then the member \<^verbatim>\<open>hps_\<close> with the retired nodes.\<close>

definition delete_LockFreeList :: "'k LockFreeList \<Rightarrow> 'k LockFreeList option" where
  "delete_LockFreeList st =
     do { st' \<leftarrow> destroy_loop st; delete_Nodes (delete_HazardPointers (hps st')) st' }"

end
