(* ===== verification/Lock_Free_List_Correct.thy ===== *)
theory Lock_Free_List_Correct
  imports Lock_Free_List
begin

text \<open>
  Correctness of the lock-free list, one operation at a time, from any state a quiescent list can
  be in, nodes marked by a stalled remover included. The abstraction \<open>lf_map\<close> takes a key to the
  address and the value of its live node; every operation is specified on it.
\<close>

section \<open>Chains and the invariant\<close>

fun chain :: "(ptr \<Rightarrow> 'k Node option) \<Rightarrow> ptr \<Rightarrow> ptr list \<Rightarrow> bool" where
  "chain h p [] \<longleftrightarrow> p = NULL"
| "chain h p (a # as) \<longleftrightarrow> p = a \<and> a \<noteq> NULL \<and> aligned a \<and>
     (case h a of None \<Rightarrow> False | Some n \<Rightarrow> chain h (unmark (node_next n)) as)"

definition node_key :: "(ptr \<Rightarrow> 'k Node option) \<Rightarrow> ptr \<Rightarrow> 'k" where
  "node_key h a = node_data (the (h a))"

definition live :: "(ptr \<Rightarrow> 'k Node option) \<Rightarrow> ptr \<Rightarrow> bool" where
  "live h a \<longleftrightarrow> \<not> isMarked (node_next (the (h a)))"

definition lf_map :: "(ptr \<Rightarrow> 'k Node option) \<Rightarrow> ptr list \<Rightarrow> 'k \<Rightarrow> (ptr \<times> int option) option" where
  "lf_map h as = map_of (map (\<lambda>a. (node_key h a, (a, node_value (the (h a))))) (filter (live h) as))"

definition lf_inv :: "('k::linorder) LockFreeList \<Rightarrow> ptr list \<Rightarrow> bool" where
  "lf_inv st as \<longleftrightarrow> chain (heap st) (head st) as \<and> sorted_wrt (<) (map (node_key (heap st)) as) \<and>
     hp_inv 2 (hps st) \<and> set (retired (hps st)) \<inter> set as = {} \<and>
     NULL \<notin> set (retired (hps st)) \<and> set (retired (hps st)) \<subseteq> dom (heap st) \<and>
     dom (heap st) \<subseteq> slot ` {1 .. brk st} \<and> brk st \<le> max_slots"

definition first :: "ptr list \<Rightarrow> ptr" where
  "first as = (case as of [] \<Rightarrow> NULL | a # _ \<Rightarrow> a)"

lemma first_simps [simp]: "first [] = NULL" "first (a # as) = a"
  by (simp_all add: first_def)

lemma chain_first: "chain h p as \<Longrightarrow> p = first as"
  by (cases as) auto

lemma chain_aligned: "chain h p as \<Longrightarrow> aligned p"
  by (cases as) auto

lemma chain_dom: "chain h p as \<Longrightarrow> set as \<subseteq> dom h - {NULL}"
  by (induction as arbitrary: p) (auto split: option.splits)

lemma chain_nonnull: "chain h p as \<Longrightarrow> a \<in> set as \<Longrightarrow> a \<noteq> NULL"
  using chain_dom by fastforce

lemma chain_cong: "chain h p as \<Longrightarrow> \<forall>a \<in> set as. h' a = h a \<Longrightarrow> chain h' p as"
  by (induction as arbitrary: p) (auto split: option.splits)

lemma chain_suffix: "chain h p (pre @ suf) \<Longrightarrow> chain h (first suf) suf"
proof (induction pre arbitrary: p)
  case Nil
  then show ?case using chain_first by fastforce
qed (auto split: option.splits)

lemma chain_redirect:
  assumes "chain h p (pre @ [a] @ suf)" "distinct (pre @ [a])" "h a = Some n" "unmark q = first as2"
    and "chain h' (first as2) as2" "\<forall>x. x \<noteq> a \<longrightarrow> x \<in> set pre \<longrightarrow> h' x = h x" "h' a = Some (n\<lparr>node_next := q\<rparr>)"
  shows "chain h' p (pre @ [a] @ as2)"
  using assms
proof (induction pre arbitrary: p)
  case (Cons b pre)
  then show ?case by (auto split: option.splits)
qed (auto split: option.splits)

lemma sorted_keys_distinct: "sorted_wrt (<) (map (f :: _ \<Rightarrow> 'k::linorder) as) \<Longrightarrow> distinct as"
  using strict_sorted_iff distinct_map by metis

lemma lf_inv_distinct: "lf_inv st as \<Longrightarrow> distinct as"
  unfolding lf_inv_def using sorted_keys_distinct by blast

text \<open>Heaps that agree on a set of nodes up to where live nodes point.\<close>

definition same_nodes :: "ptr set \<Rightarrow> (ptr \<Rightarrow> 'k Node option) \<Rightarrow> (ptr \<Rightarrow> 'k Node option) \<Rightarrow> bool" where
  "same_nodes A h h' \<longleftrightarrow> (\<forall>a \<in> A. node_key h' a = node_key h a
     \<and> node_value (the (h' a)) = node_value (the (h a)) \<and> live h' a = live h a)"

lemma same_nodesI: "\<forall>a \<in> A. h' a = h a \<Longrightarrow> same_nodes A h h'"
  by (simp add: same_nodes_def node_key_def live_def)

lemma same_nodes_keys: "same_nodes (set as) h h' \<Longrightarrow> map (node_key h') as = map (node_key h) as"
  by (simp add: same_nodes_def)

lemma same_nodes_sorted:
  "same_nodes (set as) h h' \<Longrightarrow> sorted_wrt (<) (map (node_key h) as) \<Longrightarrow> sorted_wrt (<) (map (node_key h') as)"
  by (simp only: same_nodes_keys)

lemma same_nodes_map: "same_nodes (set as) h h' \<Longrightarrow> lf_map h' as = lf_map h as"
  unfolding lf_map_def by (rule arg_cong [where f = map_of])
    (auto simp: same_nodes_def cong: filter_cong map_cong)

lemma same_nodes_subset: "same_nodes A h h' \<Longrightarrow> B \<subseteq> A \<Longrightarrow> same_nodes B h h'"
  by (auto simp: same_nodes_def)

lemma lf_map_unlink: "\<not> live h a \<Longrightarrow> lf_map h (pre @ a # suf) = lf_map h (pre @ suf)"
  by (simp add: lf_map_def)

lemma lf_map_append: "lf_map h (as @ bs) = lf_map h bs ++ lf_map h as"
  by (simp add: lf_map_def)

lemma lf_map_keys: "lf_map h as k \<noteq> None \<Longrightarrow> k \<in> node_key h ` set as"
  by (auto simp: lf_map_def dest!: map_of_SomeD)

lemma lf_map_Cons: "lf_map h (a # as) = (if live h a then (lf_map h as)(node_key h a \<mapsto> (a, node_value (the (h a)))) else lf_map h as)"
  by (simp add: lf_map_def)

lemma lf_map_Nil [simp]: "lf_map h [] = Map.empty"
  by (simp add: lf_map_def)

lemma lf_map_absent: "\<forall>a \<in> set as. node_key h a \<noteq> k \<Longrightarrow> lf_map h as k = None"
  using lf_map_keys by fastforce

lemma lf_map_at:
  assumes "sorted_wrt (<) (map (node_key h) (pre @ suf))" "\<forall>a \<in> set pre. node_key h a < (k :: 'k::linorder)"
    and "suf \<noteq> [] \<Longrightarrow> live h (hd suf) \<and> k \<le> node_key h (hd suf)"
  shows "lf_map h (pre @ suf) k =
    (if suf \<noteq> [] \<and> node_key h (hd suf) = k then Some (hd suf, node_value (the (h (hd suf)))) else None)"
proof -
  have pre: "lf_map h pre k = None" using assms(2) by (intro lf_map_absent) auto
  show ?thesis
  proof (cases suf)
    case (Cons a as)
    have "lf_map h as k = None" if "node_key h a \<noteq> k"
      using assms(1,3) that Cons by (intro lf_map_absent) (auto simp: sorted_wrt_append)
    with pre Cons assms(3) show ?thesis by (auto simp: lf_map_append lf_map_Cons map_add_def)
  qed (use pre in \<open>simp add: lf_map_append\<close>)
qed

section \<open>Memory\<close>

lemma slot_aligned: "aligned (slot k)"
  by (simp add: slot_def aligned_def bit_0)

lemma slot_inj: "slot i = slot j \<Longrightarrow> i \<le> max_slots \<Longrightarrow> j \<le> max_slots \<Longrightarrow> i = j"
  unfolding slot_def max_slots_def
  by (drule arg_cong [where f = unat]) (simp add: unat_of_nat take_bit_nat_def del: of_nat_mult)

lemma slot_nonnull: "0 < k \<Longrightarrow> k \<le> max_slots \<Longrightarrow> slot k \<noteq> NULL"
  using slot_inj [of k 0] by (auto simp: slot_def)

lemma new_Node_spec:
  assumes "lf_inv st as" "brk st < max_slots"
  shows "\<exists>a st'. new_Node st = Some (a, st') \<and> lf_inv st' as \<and> lf_map (heap st') as = lf_map (heap st) as
    \<and> heap st a = None \<and> a \<noteq> NULL \<and> aligned a \<and> a \<notin> set as \<and> a \<notin> set (retired (hps st'))
    \<and> heap st' = (heap st)(a \<mapsto> \<lparr>node_data = 0, node_value = None, node_next = NULL\<rparr>)
    \<and> brk st' = Suc (brk st) \<and> hps st' = hps st \<and> head st' = head st \<and> start_arg st' = start_arg st"
proof -
  let ?a = "slot (Suc (brk st))"
  have fresh: "heap st ?a = None"
  proof (rule ccontr)
    assume "heap st ?a \<noteq> None"
    then obtain k where "k \<in> {1 .. brk st}" "?a = slot k" using assms(1) by (auto simp: lf_inv_def)
    with slot_inj [of "Suc (brk st)" k] assms(2) show False by auto
  qed
  let ?h = "(heap st)(?a \<mapsto> \<lparr>node_data = 0, node_value = None, node_next = NULL\<rparr>)"
  have na: "?a \<notin> set as" using assms(1) fresh chain_dom by (fastforce simp: lf_inv_def)
  then have eq: "\<forall>x \<in> set as. ?h x = heap st x" by auto
  have nr: "?a \<notin> set (retired (hps st))" using assms(1) fresh by (auto simp: lf_inv_def)
  have "sorted_wrt (<) (map (node_key ?h) as)"
    by (rule same_nodes_sorted [OF same_nodesI [OF eq]]) (use assms(1) in \<open>simp add: lf_inv_def\<close>)
  moreover have "chain ?h (head st) as"
    using assms(1) eq by (auto simp: lf_inv_def intro: chain_cong)
  moreover have "dom ?h \<subseteq> slot ` {1 .. Suc (brk st)}"
  proof -
    have "dom (heap st) \<subseteq> slot ` {1 .. Suc (brk st)}"
      using assms(1) unfolding lf_inv_def by (meson atLeastatMost_subset_iff image_mono le_SucI order_refl order_trans)
    then show ?thesis by auto
  qed
  ultimately have "lf_inv (st\<lparr>heap := ?h, brk := Suc (brk st)\<rparr>) as"
    using assms by (auto simp: lf_inv_def)
  moreover have "new_Node st = Some (?a, st\<lparr>heap := ?h, brk := Suc (brk st)\<rparr>)"
    using assms(2) by (simp add: new_Node_def Let_def)
  moreover have "lf_map ?h as = lf_map (heap st) as" by (rule same_nodes_map, rule same_nodesI, rule eq)
  ultimately show ?thesis
    using slot_nonnull [of "Suc (brk st)"] assms(2) fresh na nr slot_aligned
    by (intro exI [of _ ?a] exI [of _ "st\<lparr>heap := ?h, brk := Suc (brk st)\<rparr>"]) simp
qed

lemma delete_Nodes_heap:
  assumes "set fs \<subseteq> dom (heap st)" "distinct fs" "NULL \<notin> set fs"
  shows "delete_Nodes fs st = Some (st\<lparr>heap := (\<lambda>a. if a \<in> set fs then None else heap st a)\<rparr>)"
  using assms
proof (induction fs arbitrary: st)
  case (Cons f fs)
  then obtain n where "heap st f = Some n" by auto
  with Cons.prems have d: "delete_Node f st = Some (st\<lparr>heap := (heap st)(f := None)\<rparr>)" by (simp add: delete_Node_def)
  have "delete_Nodes fs (st\<lparr>heap := (heap st)(f := None)\<rparr>) =
      Some (st\<lparr>heap := (\<lambda>a. if a \<in> set fs then None else ((heap st)(f := None)) a)\<rparr>)"
    using Cons.prems by (subst Cons.IH) (auto cong: if_cong)
  moreover have "(\<lambda>a. if a \<in> set fs then None else ((heap st)(f := None)) a) = (\<lambda>a. if a \<in> set (f # fs) then None else heap st a)"
    by auto
  ultimately show ?case by (simp add: d)
qed simp

text \<open>
  What a traversal may change: marked nodes leave the list for the retired sets, retired nodes
  are freed, nodes that are neither listed nor retired stay as they are.
\<close>

definition frame :: "('k::linorder) LockFreeList \<Rightarrow> ptr list \<Rightarrow> 'k LockFreeList \<Rightarrow> ptr list \<Rightarrow> bool" where
  "frame st as st' as' \<longleftrightarrow> lf_inv st' as' \<and> lf_map (heap st') as' = lf_map (heap st) as
     \<and> set as' \<union> set (retired (hps st')) \<subseteq> set as \<union> set (retired (hps st)) \<and> set as' \<subseteq> set as
     \<and> (\<forall>a. a \<notin> set as \<union> set (retired (hps st)) \<longrightarrow> heap st' a = heap st a)
     \<and> same_nodes (set as') (heap st) (heap st')
     \<and> brk st' = brk st \<and> num_threads (hps st') = num_threads (hps st) \<and> start_arg st' = start_arg st"

lemma frame_refl: "lf_inv st as \<Longrightarrow> frame st as st as"
  by (simp add: frame_def same_nodesI)

lemma frame_trans: "frame st as st1 as1 \<Longrightarrow> frame st1 as1 st2 as2 \<Longrightarrow> frame st as st2 as2"
proof -
  assume f: "frame st as st1 as1" and g: "frame st1 as1 st2 as2"
  have "same_nodes (set as2) (heap st) (heap st2)"
    using f g unfolding frame_def same_nodes_def by (metis subsetD)
  moreover have "\<forall>a. a \<notin> set as \<union> set (retired (hps st)) \<longrightarrow> heap st2 a = heap st a"
    using f g unfolding frame_def by (metis (no_types, lifting) subsetD)
  moreover have "set as2 \<union> set (retired (hps st2)) \<subseteq> set as \<union> set (retired (hps st))" "set as2 \<subseteq> set as"
    using f g unfolding frame_def by (meson order_trans)+
  ultimately show ?thesis using f g unfolding frame_def by simp
qed

lemma frame_inv: "frame st as st' as' \<Longrightarrow> lf_inv st' as'"
  by (simp add: frame_def)

text \<open>Hazard pointers can be set at will.\<close>

lemma frame_hps:
  assumes "lf_inv st as" "hp_inv 2 h" "retired_lists h = retired_lists (hps st)" "num_threads h = num_threads (hps st)"
  shows "frame st as (st\<lparr>hps := h\<rparr>) as"
  using assms by (auto simp: frame_def lf_inv_def retired_def same_nodesI)

lemma swap_hp_spec:
  assumes "hp_inv 2 h" "t < num_threads h"
  shows "\<exists>h'. swap_hp t h = Some h' \<and> hp_inv 2 h' \<and> num_threads h' = num_threads h \<and> retired_lists h' = retired_lists h"
proof -
  have l: "t < length (hp_recs h)" "length (hp_recs h ! t) = 2" using assms by (auto simp: hp_inv_def list_all_iff)
  from set_hp_spec [OF assms, of 0 "hp_recs h ! t ! 1"] obtain h1 where
    h1: "set_hp t 0 (hp_recs h ! t ! 1) h = Some h1" "hp_inv 2 h1" "num_threads h1 = num_threads h"
      "retired_lists h1 = retired_lists h" by auto
  from set_hp_spec [OF h1(2), of t 1 "hp_recs h ! t ! 0"] h1 assms(2) obtain h2 where
    "set_hp t 1 (hp_recs h ! t ! 0) h1 = Some h2" "hp_inv 2 h2" "num_threads h2 = num_threads h"
      "retired_lists h2 = retired_lists h" by auto
  with h1 l show ?thesis by (auto simp: swap_hp_def getHPRec_def dq_at_def)
qed

text \<open>Retiring a node that has been unlinked.\<close>

lemma retire_frame:
  assumes "lf_inv st as" "t < num_threads (hps st)" "a \<notin> set as" "a \<notin> set (retired (hps st))"
    and "a \<in> dom (heap st)" "a \<noteq> NULL"
  shows "\<exists>st'. retire t a st = Some st' \<and> lf_inv st' as \<and> (\<forall>x \<in> set as. heap st' x = heap st x)
    \<and> set (retired (hps st')) \<subseteq> insert a (set (retired (hps st)))
    \<and> (\<forall>x. x \<notin> insert a (set (retired (hps st))) \<longrightarrow> heap st' x = heap st x)
    \<and> brk st' = brk st \<and> num_threads (hps st') = num_threads (hps st) \<and> start_arg st' = start_arg st"
proof -
  have inv: "hp_inv 2 (hps st)" using assms(1) by (simp add: lf_inv_def)
  from retireNode_spec [OF inv assms(2,4)] obtain k freed h where
    r: "retireNode t a (hps st) = Some (k, freed, h)" "hp_inv 2 h" "num_threads h = num_threads (hps st)"
      "mset (retired h) + mset freed = mset (retired (hps st)) + {#a#}" by blast
  have fs: "set (retired h) \<union> set freed = insert a (set (retired (hps st)))"
    using arg_cong [OF r(4), of set_mset] by simp
  have "distinct (retired (hps st) @ [a])" using inv assms(4) by (simp add: hp_inv_def)
  moreover have "mset (retired h @ freed) = mset (retired (hps st) @ [a])" using r(4) by simp
  ultimately have dist: "distinct (retired h @ freed)" using mset_eq_imp_distinct_iff by blast
  let ?h = "\<lambda>x. if x \<in> set freed then None else heap st x"
  let ?st = "st\<lparr>hps := h, heap := ?h\<rparr>"
  have sub: "set freed \<subseteq> dom (heap st)" "NULL \<notin> set freed"
    using fs assms(1,5,6) by (auto simp: lf_inv_def)
  with dist have "delete_Nodes freed (st\<lparr>hps := h\<rparr>) = Some ?st"
    by (subst delete_Nodes_heap) (auto cong: if_cong)
  then have e: "retire t a st = Some ?st" by (simp add: retire_def r)
  have "set freed \<inter> set as = {}" "set (retired h) \<inter> set as = {}"
    using fs assms(1,3) by (auto simp: lf_inv_def)
  then have keep: "\<forall>x \<in> set as. ?h x = heap st x" by auto
  have "chain ?h (head st) as" using assms(1) keep by (auto simp: lf_inv_def intro: chain_cong)
  moreover have "sorted_wrt (<) (map (node_key ?h) as)"
    by (rule same_nodes_sorted [OF same_nodesI [OF keep]]) (use assms(1) in \<open>simp add: lf_inv_def\<close>)
  moreover have "set (retired h) \<subseteq> dom ?h"
  proof
    fix x assume "x \<in> set (retired h)"
    with fs dist have "x \<in> insert a (set (retired (hps st)))" "x \<notin> set freed" by auto
    with assms(1,5) show "x \<in> dom ?h" by (auto simp: lf_inv_def)
  qed
  moreover have "dom ?h \<subseteq> slot ` {1 .. brk st}"
    using assms(1) unfolding lf_inv_def by (auto split: if_splits dest!: subsetD)
  moreover have "NULL \<notin> set (retired h)" using fs assms(1,6) by (auto simp: lf_inv_def)
  ultimately have "lf_inv ?st as"
    using assms(1) r(2) \<open>set (retired h) \<inter> set as = {}\<close> by (simp add: lf_inv_def)
  with e keep r(3) fs show ?thesis by auto
qed

section \<open>Locations\<close>

text \<open>The location after the nodes \<open>pre\<close>: it holds the pointer to the rest of the list.\<close>

definition at_loc :: "'k LockFreeList \<Rightarrow> ptr list \<Rightarrow> loc \<Rightarrow> bool" where
  "at_loc st pre l \<longleftrightarrow> (if pre = [] then l = HeadLoc else l = NextLoc (last pre) \<and> live (heap st) (last pre))"

lemma chain_node:
  assumes "chain h p (pre @ a # suf)"
  obtains n where "h a = Some n" "chain h (unmark (node_next n)) suf" "a \<noteq> NULL" "aligned a"
  using chain_suffix [OF assms] by (auto split: option.splits)

lemma read_at:
  assumes "chain (heap st) (head st) (pre @ suf)" "at_loc st pre l"
  shows "read_loc l st = Some (first suf)"
proof (cases pre rule: rev_cases)
  case Nil
  then show ?thesis using assms chain_first by (fastforce simp: at_loc_def read_loc_def)
next
  case (snoc pre' a)
  with assms(1) obtain n where n: "heap st a = Some n" "chain (heap st) (unmark (node_next n)) suf"
    by (auto elim: chain_node)
  moreover have "unmark (node_next n) = node_next n"
    using assms(2) snoc n(1) by (intro unmark_id) (simp add: at_loc_def live_def)
  ultimately show ?thesis
    using assms(2) snoc chain_first by (fastforce simp: at_loc_def read_loc_def)
qed

lemma write_at:
  assumes "chain (heap st) (head st) (pre @ suf)" "at_loc st pre l" "distinct pre"
    and "chain (heap st) (first as2) as2" "set as2 \<inter> set pre = {}"
  shows "\<exists>st'. write_loc l (first as2) st = Some st' \<and> chain (heap st') (head st') (pre @ as2)
    \<and> same_nodes UNIV (heap st) (heap st') \<and> dom (heap st') = dom (heap st)
    \<and> (\<forall>x. x \<notin> set pre \<longrightarrow> heap st' x = heap st x) \<and> at_loc st' pre l
    \<and> hps st' = hps st \<and> brk st' = brk st \<and> start_arg st' = start_arg st"
proof (cases pre rule: rev_cases)
  case Nil
  with assms show ?thesis by (simp add: at_loc_def write_loc_def same_nodesI)
next
  case (snoc pre' a)
  with assms(1) obtain n where n: "heap st a = Some n" by (auto elim: chain_node)
  let ?h = "(heap st)(a \<mapsto> n\<lparr>node_next := first as2\<rparr>)"
  have al: "aligned (first as2)" using assms(4) by (rule chain_aligned)
  have "chain ?h (first as2) as2"
    by (rule chain_cong [OF assms(4)]) (use assms(5) snoc in auto)
  moreover have "chain (heap st) (head st) (pre' @ [a] @ suf)" "distinct (pre' @ [a])"
    using assms(1,3) snoc by simp_all
  ultimately have "chain ?h (head st) (pre' @ [a] @ as2)"
    using chain_redirect [of "heap st" "head st" pre' a suf n "first as2" as2 ?h] n
      unmark_id [OF isMarked_aligned [OF al]] by simp
  moreover have "same_nodes UNIV (heap st) ?h"
    using n al assms(2) snoc by (simp add: same_nodes_def node_key_def live_def at_loc_def isMarked_aligned)
  moreover have "write_loc l (first as2) st = Some (st\<lparr>heap := ?h\<rparr>)"
    using assms(2) snoc n by (simp add: at_loc_def write_loc_def)
  ultimately show ?thesis
    using n snoc assms(2) al by (auto simp: at_loc_def live_def isMarked_aligned)
qed

lemma cas_at:
  assumes "lf_inv st (pre @ suf)" "at_loc st pre l"
    and "chain (heap st) (first as2) as2" "set as2 \<inter> set pre = {}"
  shows "\<exists>st'. cas l (first suf) (first as2) st = Some (True, st') \<and> chain (heap st') (head st') (pre @ as2)
    \<and> same_nodes UNIV (heap st) (heap st') \<and> dom (heap st') = dom (heap st)
    \<and> (\<forall>x. x \<notin> set pre \<longrightarrow> heap st' x = heap st x) \<and> at_loc st' pre l
    \<and> hps st' = hps st \<and> brk st' = brk st \<and> start_arg st' = start_arg st"
proof -
  have "chain (heap st) (head st) (pre @ suf)" "distinct pre"
    using assms(1) lf_inv_distinct [OF assms(1)] by (auto simp: lf_inv_def)
  with write_at [OF this(1) assms(2) this(2) assms(3,4)] read_at [OF this(1) assms(2)]
  show ?thesis by (auto simp: cas_def)
qed

text \<open>Unlinking a marked node and retiring it.\<close>

lemma unlink_spec:
  assumes "lf_inv st (pre @ a # suf)" "at_loc st pre l" "t < num_threads (hps st)" "\<not> live (heap st) a"
  shows "\<exists>st1 st2. cas l a (first suf) st = Some (True, st1) \<and> retire t a st1 = Some st2
    \<and> frame st (pre @ a # suf) st2 (pre @ suf) \<and> at_loc st2 pre l"
proof -
  have ch: "chain (heap st) (head st) (pre @ a # suf)" and d: "distinct (pre @ a # suf)"
    using assms(1) lf_inv_distinct [OF assms(1)] by (auto simp: lf_inv_def)
  have suf: "chain (heap st) (first suf) suf" using chain_suffix [of _ _ "pre @ [a]" suf] ch by simp
  have "set suf \<inter> set pre = {}" using d by auto
  from cas_at [OF assms(1,2) suf this] obtain st1 where
    c: "cas l a (first suf) st = Some (True, st1)" "chain (heap st1) (head st1) (pre @ suf)"
      "same_nodes UNIV (heap st) (heap st1)" "dom (heap st1) = dom (heap st)"
      "\<forall>x. x \<notin> set pre \<longrightarrow> heap st1 x = heap st x" "at_loc st1 pre l"
      "hps st1 = hps st" "brk st1 = brk st" "start_arg st1 = start_arg st"
    by auto
  have sn: "same_nodes (set (pre @ suf)) (heap st) (heap st1)" using c(3) by (rule same_nodes_subset) simp
  have "sorted_wrt (<) (map (node_key (heap st)) (pre @ suf))"
    using assms(1) by (auto simp: lf_inv_def sorted_wrt_append)
  then have inv1: "lf_inv st1 (pre @ suf)"
    using assms(1) c same_nodes_sorted [OF sn] unfolding lf_inv_def by auto
  have a: "a \<in> dom (heap st1)" "a \<noteq> NULL" "a \<notin> set (pre @ suf)" "a \<notin> set (retired (hps st1))"
    using chain_dom [OF ch] c(4,7) d assms(1) by (auto simp: lf_inv_def)
  have "t < num_threads (hps st1)" using assms(3) c(7) by simp
  from retire_frame [OF inv1 this a(3,4,1,2)] c(7) obtain st2 where
    r: "retire t a st1 = Some st2" "lf_inv st2 (pre @ suf)" "\<forall>x \<in> set (pre @ suf). heap st2 x = heap st1 x"
      "set (retired (hps st2)) \<subseteq> insert a (set (retired (hps st)))"
      "\<forall>x. x \<notin> insert a (set (retired (hps st))) \<longrightarrow> heap st2 x = heap st1 x"
      "brk st2 = brk st1" "num_threads (hps st2) = num_threads (hps st1)" "start_arg st2 = start_arg st1"
    by auto
  have sn2: "same_nodes (set (pre @ suf)) (heap st) (heap st2)"
    using sn r(3) by (simp add: same_nodes_def node_key_def live_def)
  then have "lf_map (heap st2) (pre @ suf) = lf_map (heap st) (pre @ a # suf)"
    using same_nodes_map lf_map_unlink [OF assms(4)] by metis
  moreover have "at_loc st2 pre l"
    using c(6) r(3) by (auto simp: at_loc_def live_def)
  ultimately have "frame st (pre @ a # suf) st2 (pre @ suf)"
    using r sn2 c unfolding frame_def by (auto simp: r(5))
  with c(1) r(1) \<open>at_loc st2 pre l\<close> show ?thesis by blast
qed

section \<open>Lookup\<close>

lemma read_loc_hps [simp]: "read_loc l (st\<lparr>hps := h\<rparr>) = read_loc l st"
  by (cases l) (simp_all add: read_loc_def)

lemma at_loc_hps [simp]: "at_loc (st\<lparr>hps := h\<rparr>) pre l = at_loc st pre l"
  by (simp add: at_loc_def)

lemma set_hp_frame:
  assumes "lf_inv st as" "t < num_threads (hps st)"
  obtains h where "set_hp t 0 a (hps st) = Some h" "frame st as (st\<lparr>hps := h\<rparr>) as"
    "hp_inv 2 h" "num_threads h = num_threads (hps st)"
proof -
  from set_hp_spec [of 2 "hps st" t 0 a] assms obtain h where
    "set_hp t 0 a (hps st) = Some h" "hp_inv 2 h" "num_threads h = num_threads (hps st)"
    "retired_lists h = retired_lists (hps st)" by (auto simp: lf_inv_def)
  with that frame_hps [OF assms(1)] show ?thesis by blast
qed

lemma swap_hp_frame:
  assumes "lf_inv st as" "t < num_threads (hps st)"
  obtains h where "swap_hp t (hps st) = Some h" "frame st as (st\<lparr>hps := h\<rparr>) as" "num_threads h = num_threads (hps st)"
proof -
  from swap_hp_spec [of "hps st" t] assms obtain h where
    "swap_hp t (hps st) = Some h" "hp_inv 2 h" "num_threads h = num_threads (hps st)"
    "retired_lists h = retired_lists (hps st)" by (auto simp: lf_inv_def)
  with that frame_hps [OF assms(1)] show ?thesis by blast
qed

lemma lookup_body_live:
  assumes "lf_inv st as" "t < num_threads (hps st)"
    and "read_loc (lc_prev ctx) st = Some (lc_cur ctx)" "heap st (lc_cur ctx) = Some n" "\<not> isMarked (node_next n)"
  obtains h where "frame st as (st\<lparr>hps := h\<rparr>) as" "num_threads h = num_threads (hps st)"
    "lookup_body t start key ctx st = Some (
       if node_data n < key then Continue (ctx\<lparr>lc_next := node_next n, lc_prev := NextLoc (lc_cur ctx), lc_cur := node_next n\<rparr>) (st\<lparr>hps := h\<rparr>)
       else if node_data n = key then Found True (ctx\<lparr>lc_next := node_next n\<rparr>) (node_value n) (st\<lparr>hps := h\<rparr>)
       else Found False (ctx\<lparr>lc_next := node_next n\<rparr>) None (st\<lparr>hps := h\<rparr>))"
proof -
  obtain h where h: "set_hp t 0 (lc_cur ctx) (hps st) = Some h" "frame st as (st\<lparr>hps := h\<rparr>) as" "hp_inv 2 h"
    "num_threads h = num_threads (hps st)" using set_hp_frame [OF assms(1,2)] .
  obtain h' where h': "swap_hp t h = Some h'" "frame (st\<lparr>hps := h\<rparr>) as (st\<lparr>hps := h'\<rparr>) as" "num_threads h' = num_threads h"
    using swap_hp_frame [OF frame_inv [OF h(2)], of t] assms(2) h(4) by auto
  let ?h = "if node_data n < key then h' else h"
  show thesis
  proof (rule that)
    show "frame st as (st\<lparr>hps := ?h\<rparr>) as" using h(2) frame_trans [OF h(2) h'(2)] by simp
    show "num_threads ?h = num_threads (hps st)" using h h' by simp
  qed (use assms h h' in \<open>auto simp: lookup_body_def Let_def not_less\<close>)
qed

lemma lookup_body_marked:
  assumes "lf_inv st (pre @ a # suf)" "t < num_threads (hps st)" "at_loc st pre (lc_prev ctx)" "lc_cur ctx = a"
    and "\<not> live (heap st) a"
  obtains st' ctx' where "frame st (pre @ a # suf) st' (pre @ suf)"
    "at_loc st' pre (lc_prev ctx')" "lc_cur ctx' = first suf"
    "lookup_body t start key ctx st = Some (Continue ctx' st')"
proof -
  obtain h where h: "set_hp t 0 (lc_cur ctx) (hps st) = Some h" "frame st (pre @ a # suf) (st\<lparr>hps := h\<rparr>) (pre @ a # suf)"
    "num_threads h = num_threads (hps st)" using set_hp_frame [OF assms(1,2)] by blast
  have ch: "chain (heap st) (head st) (pre @ a # suf)" using assms(1) by (simp add: lf_inv_def)
  then obtain n where n: "heap st a = Some n" "chain (heap st) (unmark (node_next n)) suf" by (rule chain_node)
  have un: "unmark (node_next n) = first suf" using chain_first [OF n(2)] .
  from unlink_spec [OF frame_inv [OF h(2)], of "lc_prev ctx" t] assms h(3) obtain st1 st2 where
    u: "cas (lc_prev ctx) a (first suf) (st\<lparr>hps := h\<rparr>) = Some (True, st1)" "retire t a st1 = Some st2"
      "frame (st\<lparr>hps := h\<rparr>) (pre @ a # suf) st2 (pre @ suf)" "at_loc st2 pre (lc_prev ctx)" by auto
  have "lookup_body t start key ctx st =
      Some (Continue (ctx\<lparr>lc_next := node_next n, lc_cur := first suf\<rparr>) st2)"
    using h(1) read_at [OF ch assms(3)] n(1) assms(4,5) u un by (simp add: lookup_body_def Let_def live_def)
  with that [OF frame_trans [OF h(2) u(3)], of "ctx\<lparr>lc_next := node_next n, lc_cur := first suf\<rparr>"] u(4)
  show thesis by simp
qed

text \<open>What \<^verbatim>\<open>lookupInternal\<close> leaves in the context and the list: the place of the key.\<close>

definition placed ::
  "('k::linorder) LockFreeList \<Rightarrow> ptr list \<Rightarrow> ptr list \<Rightarrow> 'k \<Rightarrow> bool \<Rightarrow> LookupContext \<Rightarrow> int option \<Rightarrow> bool" where
  "placed st pre suf key r ctx v \<longleftrightarrow> at_loc st pre (lc_prev ctx) \<and> lc_cur ctx = first suf
     \<and> (\<forall>a \<in> set pre. node_key (heap st) a < key)
     \<and> (suf \<noteq> [] \<longrightarrow> live (heap st) (hd suf) \<and> key \<le> node_key (heap st) (hd suf)
          \<and> lc_next ctx = node_next (the (heap st (hd suf))))
     \<and> r = (suf \<noteq> [] \<and> node_key (heap st) (hd suf) = key)
     \<and> v = (if r then node_value (the (heap st (hd suf))) else None)"

lemma lookup_loop_spec:
  assumes "lf_inv st (pre @ suf)" "t < num_threads (hps st)" "at_loc st pre (lc_prev ctx)" "lc_cur ctx = first suf"
    and "\<forall>a \<in> set pre. node_key (heap st) a < key"
  shows "\<exists>r ctx' v st' pre' suf'. lookup_loop t start key ctx st = Some (r, ctx', v, st')
    \<and> frame st (pre @ suf) st' (pre' @ suf') \<and> placed st' pre' suf' key r ctx' v"
  using assms
proof (induction suf arbitrary: st pre ctx)
  case Nil
  then have "placed st pre [] key False ctx None" by (simp add: placed_def)
  moreover have "lookup_loop t start key ctx st = Some (False, ctx, None, st)"
    using Nil by (simp add: lookup_loop.simps)
  ultimately show ?case using frame_refl Nil.prems(1) by blast
next
  case (Cons a suf)
  have ch: "chain (heap st) (head st) (pre @ a # suf)" using Cons.prems(1) by (simp add: lf_inv_def)
  then obtain n where n: "heap st a = Some n" "chain (heap st) (unmark (node_next n)) suf" "a \<noteq> NULL" by (rule chain_node)
  show ?case
  proof (cases "live (heap st) a")
    case False
    have "lc_cur ctx = a" using Cons.prems(4) by simp
    then obtain st' ctx' where b: "frame st (pre @ a # suf) st' (pre @ suf)" "at_loc st' pre (lc_prev ctx')"
      "lc_cur ctx' = first suf" "lookup_body t start key ctx st = Some (Continue ctx' st')"
      using lookup_body_marked [OF Cons.prems(1-3) _ False] by blast
    have "\<forall>x \<in> set pre. node_key (heap st') x < key"
      using b(1) Cons.prems(5) by (simp add: frame_def same_nodes_def)
    with Cons.IH [OF frame_inv [OF b(1)] _ b(2,3)] Cons.prems(2) b(1) obtain r ctx2 v st2 pre' suf' where
      "lookup_loop t start key ctx' st' = Some (r, ctx2, v, st2)"
      "frame st' (pre @ suf) st2 (pre' @ suf')" "placed st2 pre' suf' key r ctx2 v" by (auto simp: frame_def)
    with b(4) frame_trans [OF b(1)] Cons.prems(4) n(3) show ?thesis
      by (subst lookup_loop.simps) auto
  next
    case True
    then have um: "\<not> isMarked (node_next n)" using n(1) by (simp add: live_def)
    then have nx: "node_next n = first suf" using chain_first [OF n(2)] unmark_id by simp
    obtain h where h: "frame st (pre @ a # suf) (st\<lparr>hps := h\<rparr>) (pre @ a # suf)" "num_threads h = num_threads (hps st)"
      "lookup_body t start key ctx st = Some (
       if node_data n < key then Continue (ctx\<lparr>lc_next := first suf, lc_prev := NextLoc a, lc_cur := first suf\<rparr>) (st\<lparr>hps := h\<rparr>)
       else if node_data n = key then Found True (ctx\<lparr>lc_next := first suf\<rparr>) (node_value n) (st\<lparr>hps := h\<rparr>)
       else Found False (ctx\<lparr>lc_next := first suf\<rparr>) None (st\<lparr>hps := h\<rparr>))"
      using lookup_body_live [OF Cons.prems(1,2), of ctx n start key] read_at [OF ch Cons.prems(3)]
        Cons.prems(4) n(1) um unfolding nx by auto
    have key: "node_key (heap st) a = node_data n" by (simp add: node_key_def n(1))
    show ?thesis
    proof (cases "node_data n < key")
      case less: True
      let ?ctx = "ctx\<lparr>lc_next := first suf, lc_prev := NextLoc a, lc_cur := first suf\<rparr>"
      have "at_loc (st\<lparr>hps := h\<rparr>) (pre @ [a]) (lc_prev ?ctx)" using True by (simp add: at_loc_def)
      moreover have "\<forall>x \<in> set (pre @ [a]). node_key (heap (st\<lparr>hps := h\<rparr>)) x < key" using Cons.prems(5) less key by auto
      ultimately obtain r ctx2 v st2 pre' suf' where
        "lookup_loop t start key ?ctx (st\<lparr>hps := h\<rparr>) = Some (r, ctx2, v, st2)"
        "frame (st\<lparr>hps := h\<rparr>) (pre @ a # suf) st2 (pre' @ suf')" "placed st2 pre' suf' key r ctx2 v"
        using Cons.IH [of "st\<lparr>hps := h\<rparr>" "pre @ [a]" ?ctx] frame_inv [OF h(1)] Cons.prems(2) h(2) by auto
      with h(3) less frame_trans [OF h(1)] Cons.prems(4) n(3) show ?thesis
        by (subst lookup_loop.simps) auto
    next
      case False
      let ?r = "node_data n = key" and ?v = "if node_data n = key then node_value n else None"
      have "lookup_loop t start key ctx st = Some (?r, ctx\<lparr>lc_next := first suf\<rparr>, ?v, st\<lparr>hps := h\<rparr>)"
        using h(3) False Cons.prems(4) n(3) by (subst lookup_loop.simps) auto
      moreover have "placed (st\<lparr>hps := h\<rparr>) pre (a # suf) key ?r (ctx\<lparr>lc_next := first suf\<rparr>) ?v"
        using Cons.prems(3-5) True False n(1) nx key by (simp add: placed_def not_less)
      ultimately show ?thesis using h(1) by blast
    qed
  qed
qed

text \<open>
  Where an operation may start: at the head, or at a live node with a smaller key.
\<close>

definition start_ok :: "('k::linorder) LockFreeList \<Rightarrow> ptr list \<Rightarrow> ptr \<Rightarrow> 'k \<Rightarrow> bool" where
  "start_ok st as start key \<longleftrightarrow> start = NULL \<or> (start \<in> set as \<and> live (heap st) start \<and> node_key (heap st) start < key)"

lemma lookupInternal_spec:
  assumes "lf_inv st as" "t < num_threads (hps st)" "start_ok st as (start_arg st) key"
  shows "\<exists>r ctx' v st' pre suf. lookupInternal t (startingPointer (start_arg st)) key ctx st = Some (r, ctx', v, st')
    \<and> frame st as st' (pre @ suf) \<and> placed st' pre suf key r ctx' v"
proof (cases "start_arg st = NULL")
  case True
  have "chain (heap st) (head st) as" using assms(1) by (simp add: lf_inv_def)
  then have "head st = first as" by (rule chain_first)
  with True lookup_loop_spec [of st "[]" as t "ctx\<lparr>lc_prev := HeadLoc, lc_cur := first as\<rparr>" key HeadLoc] assms(1,2)
  show ?thesis by (simp add: lookupInternal_def startingPointer_def read_loc_def at_loc_def)
next
  case False
  let ?a = "start_arg st"
  from assms(3) False have a: "?a \<in> set as" "live (heap st) ?a" "node_key (heap st) ?a < key"
    by (auto simp: start_ok_def)
  then obtain pre suf where as: "as = pre @ ?a # suf" by (meson split_list)
  have "chain (heap st) (head st) (pre @ ?a # suf)" using assms(1) as by (simp add: lf_inv_def)
  then obtain n where n: "heap st ?a = Some n" "chain (heap st) (unmark (node_next n)) suf" "?a \<noteq> NULL" by (rule chain_node)
  have um: "\<not> isMarked (node_next n)" using a(2) n(1) by (simp add: live_def)
  then have nx: "node_next n = first suf" using chain_first [OF n(2)] unmark_id by simp
  let ?ctx = "ctx\<lparr>lc_prev := StartLoc, lc_cur := ?a\<rparr>"
  let ?ctx1 = "?ctx\<lparr>lc_next := first suf, lc_prev := NextLoc ?a, lc_cur := first suf\<rparr>"
  obtain h where h: "frame st as (st\<lparr>hps := h\<rparr>) as" "num_threads h = num_threads (hps st)"
    "lookup_body t StartLoc key ?ctx st = Some (Continue ?ctx1 (st\<lparr>hps := h\<rparr>))"
    using lookup_body_live [OF assms(1,2), of ?ctx n StartLoc key] n(1) um nx a(3)
    by (auto simp: read_loc_def node_key_def)
  have "\<forall>x \<in> set (pre @ [?a]). node_key (heap st) x < key"
    using assms(1) a(3) as by (force simp: lf_inv_def sorted_wrt_append)
  with lookup_loop_spec [of "st\<lparr>hps := h\<rparr>" "pre @ [?a]" suf t ?ctx1 key StartLoc] frame_inv [OF h(1)] as h(2) assms(2) a(2)
  obtain r ctx2 v st2 pre' suf' where
    l: "lookup_loop t StartLoc key ?ctx1 (st\<lparr>hps := h\<rparr>) = Some (r, ctx2, v, st2)"
      "frame (st\<lparr>hps := h\<rparr>) as st2 (pre' @ suf')" "placed st2 pre' suf' key r ctx2 v"
    by (auto simp: at_loc_def)
  have "lookupInternal t StartLoc key ctx st = Some (r, ctx2, v, st2)"
    using h(3) l(1) n(3) by (simp add: lookupInternal_def read_loc_def) (subst lookup_loop.simps, simp)
  with l frame_trans [OF h(1) l(2)] False show ?thesis by (auto simp: startingPointer_def)
qed

lemma frame_start [simp]: "frame (st\<lparr>start_arg := p\<rparr>) as st' as' \<longleftrightarrow>
    frame st as (st'\<lparr>start_arg := start_arg st\<rparr>) as' \<and> start_arg st' = p"
  by (auto simp: frame_def lf_inv_def)

lemma placed_map:
  assumes "lf_inv st (pre @ suf)" "placed st pre suf key r ctx v"
  shows "lf_map (heap st) (pre @ suf) key = (if r then Some (lc_cur ctx, v) else None)"
  using lf_map_at [of "heap st" pre suf key] assms by (cases suf) (auto simp: lf_inv_def placed_def)

section \<open>Insertion and removal\<close>

lemma lf_lookup_spec:
  assumes "lf_inv st as" "t < num_threads (hps st)" "start_ok st as start key"
  shows "\<exists>st' as'. lf_lookup t key start st =
      Some (lf_map (heap st) as key \<noteq> None, Option.bind (lf_map (heap st) as key) snd, st')
    \<and> frame st as (st'\<lparr>start_arg := start_arg st\<rparr>) as'"
proof -
  let ?st = "st\<lparr>start_arg := start\<rparr>"
  have "lf_inv ?st as" "start_ok ?st as (start_arg ?st) key"
    using assms by (simp_all add: lf_inv_def start_ok_def)
  from lookupInternal_spec [OF this(1) _ this(2), of t new_ctx] assms(2) obtain r ctx v st' pre suf where
    l: "lookupInternal t (startingPointer start) key new_ctx ?st = Some (r, ctx, v, st')"
      "frame ?st as st' (pre @ suf)" "placed st' pre suf key r ctx v" by auto
  have "lf_map (heap st) as key = (if r then Some (lc_cur ctx, v) else None)"
    using placed_map [OF frame_inv [OF l(2)] l(3)] l(2) by (simp add: frame_def)
  with l show ?thesis by (auto simp: lf_lookup_def placed_def)
qed

lemma lf_map_SomeD:
  "lf_map h as k = Some (a, v) \<Longrightarrow> a \<in> set as \<and> live h a \<and> node_key h a = k \<and> v = node_value (the (h a))"
  by (auto simp: lf_map_def dest!: map_of_SomeD)

lemma lf_map_insert_at:
  assumes "\<forall>a \<in> set pre. node_key h a \<noteq> node_key h x" "live h x"
  shows "lf_map h (pre @ x # suf) = (lf_map h (pre @ suf))(node_key h x \<mapsto> (x, node_value (the (h x))))"
proof -
  have "lf_map h pre (node_key h x) = None" using assms(1) by (intro lf_map_absent) auto
  then show ?thesis using assms(2) by (auto simp: lf_map_append lf_map_Cons map_add_def fun_eq_iff split: option.splits)
qed

lemma lf_map_remove_at:
  fixes h :: "ptr \<Rightarrow> ('k::linorder) Node option"
  assumes "sorted_wrt (<) (map (node_key h) (pre @ a # suf))"
  shows "lf_map h (pre @ suf) = (lf_map h (pre @ a # suf))(node_key h a := None)"
proof -
  have "\<forall>x \<in> set pre. node_key h x \<noteq> node_key h a" "\<forall>x \<in> set suf. node_key h x \<noteq> node_key h a"
    using assms by (fastforce simp: sorted_wrt_append)+
  then have "lf_map h pre (node_key h a) = None" "lf_map h suf (node_key h a) = None"
    by (simp_all add: lf_map_absent)
  then show ?thesis by (auto simp: lf_map_append lf_map_Cons map_add_def fun_eq_iff split: option.splits)
qed

text \<open>A node that belongs to the running call: allocated, neither in the list nor retired.\<close>

definition owned :: "'k LockFreeList \<Rightarrow> ptr list \<Rightarrow> ptr \<Rightarrow> bool" where
  "owned st as x \<longleftrightarrow> x \<in> dom (heap st) \<and> x \<notin> set as \<and> x \<notin> set (retired (hps st)) \<and> x \<noteq> NULL \<and> aligned x"

lemma frame_owned:
  assumes "frame st as st' as'" "owned st as x"
  shows "owned st' as' x" "heap st' x = heap st x"
proof -
  show e: "heap st' x = heap st x" using assms by (simp add: frame_def owned_def)
  have "set as' \<union> set (retired (hps st')) \<subseteq> set as \<union> set (retired (hps st))" using assms(1) by (simp only: frame_def)
  with assms(2) e show "owned st' as' x" by (auto simp: owned_def domIff)
qed

text \<open>The heap changes at a owned node only.\<close>

lemma owned_update:
  assumes "lf_inv st as" "owned st as x"
  shows "lf_inv (st\<lparr>heap := (heap st)(x \<mapsto> n)\<rparr>) as" "lf_map ((heap st)(x \<mapsto> n)) as = lf_map (heap st) as"
    and "owned (st\<lparr>heap := (heap st)(x \<mapsto> n)\<rparr>) as x"
proof -
  let ?h = "(heap st)(x \<mapsto> n)"
  have eq: "\<forall>a \<in> set as. ?h a = heap st a" using assms(2) by (auto simp: owned_def)
  then have sn: "same_nodes (set as) (heap st) ?h" by (rule same_nodesI)
  have "chain ?h (head st) as" by (rule chain_cong [OF _ eq]) (use assms(1) in \<open>simp add: lf_inv_def\<close>)
  moreover have "sorted_wrt (<) (map (node_key ?h) as)"
    by (rule same_nodes_sorted [OF sn]) (use assms(1) in \<open>simp add: lf_inv_def\<close>)
  moreover have "dom ?h = dom (heap st)" using assms(2) by (auto simp: owned_def)
  ultimately show "lf_inv (st\<lparr>heap := ?h\<rparr>) as"
    using assms(1) by (simp add: lf_inv_def del: dom_fun_upd)
  show "lf_map ?h as = lf_map (heap st) as" using sn by (rule same_nodes_map)
  show "owned (st\<lparr>heap := ?h\<rparr>) as x" using assms(2) by (simp add: owned_def)
qed

lemma delete_owned:
  assumes "lf_inv st as" "owned st as x"
  shows "\<exists>st'. delete_Node x st = Some st' \<and> lf_inv st' as \<and> lf_map (heap st') as = lf_map (heap st) as
    \<and> brk st' = brk st \<and> hps st' = hps st \<and> start_arg st' = start_arg st"
proof -
  let ?h = "(heap st)(x := None)"
  have eq: "\<forall>a \<in> set as. ?h a = heap st a" using assms(2) by (auto simp: owned_def)
  then have sn: "same_nodes (set as) (heap st) ?h" by (rule same_nodesI)
  have "chain ?h (head st) as" by (rule chain_cong [OF _ eq]) (use assms(1) in \<open>simp add: lf_inv_def\<close>)
  moreover have "sorted_wrt (<) (map (node_key ?h) as)"
    by (rule same_nodes_sorted [OF sn]) (use assms(1) in \<open>simp add: lf_inv_def\<close>)
  ultimately have "lf_inv (st\<lparr>heap := ?h\<rparr>) as"
    using assms by (auto simp: lf_inv_def owned_def)
  moreover have "lf_map ?h as = lf_map (heap st) as" using sn by (rule same_nodes_map)
  ultimately show ?thesis using assms(2) by (auto simp: delete_Node_def owned_def)
qed

text \<open>Linking a owned node at the place of its key.\<close>

lemma link_spec:
  assumes "lf_inv st (pre @ suf)" "placed st pre suf key False ctx v" "owned st (pre @ suf) x"
    and "node_key (heap st) x = key" 
  shows "\<exists>st1 st2. set_next x (lc_cur ctx) st = Some st1 \<and> cas (lc_prev ctx) (lc_cur ctx) x st1 = Some (True, st2)
    \<and> lf_inv st2 (pre @ x # suf)
    \<and> lf_map (heap st2) (pre @ x # suf) = (lf_map (heap st) (pre @ suf))(key \<mapsto> (x, node_value (the (heap st x))))
    \<and> brk st2 = brk st \<and> hps st2 = hps st \<and> start_arg st2 = start_arg st"
proof -
  obtain n where n: "heap st x = Some n" using assms(3) by (auto simp: owned_def)
  let ?n = "n\<lparr>node_next := first suf\<rparr>"
  let ?st1 = "st\<lparr>heap := (heap st)(x \<mapsto> ?n)\<rparr>"
  have cur: "lc_cur ctx = first suf" and at: "at_loc st pre (lc_prev ctx)"
    using assms(2) by (simp_all add: placed_def)
  have s1: "set_next x (lc_cur ctx) st = Some ?st1" using n cur by (simp add: set_next_def write_loc_def)
  note upd = owned_update [OF assms(1,3), of ?n]
  have x: "x \<notin> set pre" "x \<notin> set suf" "x \<noteq> NULL" "aligned x" using assms(3) by (auto simp: owned_def)
  have at1: "at_loc ?st1 pre (lc_prev ctx)" using at x(1) by (auto simp: at_loc_def live_def)
  have ch: "chain (heap ?st1) (head ?st1) (pre @ suf)" using upd(1) by (simp add: lf_inv_def)
  have al: "aligned (first suf)" using chain_aligned [OF chain_suffix [OF ch]] .
  have chx: "chain (heap ?st1) (first (x # suf)) (x # suf)"
    using chain_suffix [OF ch] x al by (simp add: unmark_id isMarked_aligned)
  have "set (x # suf) \<inter> set pre = {}" using x lf_inv_distinct [OF assms(1)] by auto
  from cas_at [OF upd(1) at1 chx this] obtain st2 where
    c: "cas (lc_prev ctx) (first suf) x ?st1 = Some (True, st2)" "chain (heap st2) (head st2) (pre @ x # suf)"
      "same_nodes UNIV (heap ?st1) (heap st2)" "dom (heap st2) = dom (heap ?st1)"
      "hps st2 = hps st" "brk st2 = brk st" "start_arg st2 = start_arg st" by auto
  have key: "node_key (heap ?st1) x = key" using assms(4) n by (simp add: node_key_def)
  have lt: "\<forall>a \<in> set pre. node_key (heap ?st1) a < key"
    using assms(2) x by (auto simp: placed_def node_key_def)
  have gt: "\<forall>a \<in> set suf. key < node_key (heap ?st1) a"
  proof (cases suf)
    case (Cons b bs)
    have "key < node_key (heap ?st1) b" using assms(2) Cons x(2) by (auto simp: placed_def node_key_def)
    moreover have "\<forall>a \<in> set bs. node_key (heap ?st1) b < node_key (heap ?st1) a"
      using upd(1) Cons unfolding lf_inv_def by (simp add: sorted_wrt_append)
    ultimately show ?thesis using Cons by (auto intro: less_trans)
  qed simp
  have "sorted_wrt (<) (map (node_key (heap ?st1)) (pre @ x # suf))"
  proof -
    have "sorted_wrt (<) (map (node_key (heap ?st1)) (pre @ suf))" using upd(1) unfolding lf_inv_def by blast
    then show ?thesis using lt gt unfolding map_append list.map key sorted_wrt_append by auto
  qed
  then have "sorted_wrt (<) (map (node_key (heap st2)) (pre @ x # suf))"
    by (rule same_nodes_sorted [OF same_nodes_subset [OF c(3)], rotated]) simp
  with c upd(1) assms(3) have inv: "lf_inv st2 (pre @ x # suf)"
    unfolding lf_inv_def owned_def by auto
  have "live (heap ?st1) x" using al by (simp add: live_def isMarked_aligned)
  then have "lf_map (heap ?st1) (pre @ x # suf) = (lf_map (heap ?st1) (pre @ suf))(key \<mapsto> (x, node_value n))"
    using lf_map_insert_at [of pre "heap ?st1" x suf] lt unfolding key by fastforce
  then have "lf_map (heap st2) (pre @ x # suf) = (lf_map (heap st) (pre @ suf))(key \<mapsto> (x, node_value n))"
    using same_nodes_map [OF same_nodes_subset [OF c(3) subset_UNIV], of "pre @ x # suf"] upd(2) by simp
  with s1 c inv cur n show ?thesis by auto
qed

lemma insert_loop_spec:
  assumes "lf_inv st as" "t < num_threads (hps st)" "start_ok st as (start_arg st) key" "owned st as x"
    and "node_key (heap st) x = key"
  shows "\<exists>st' as'. insert_loop t (startingPointer (start_arg st)) key x dummy st =
      Some (lf_map (heap st) as key = None,
            if lf_map (heap st) as key = None \<or> dummy = None then dummy else map_option fst (lf_map (heap st) as key), st')
    \<and> lf_inv st' as' \<and> brk st' = brk st \<and> num_threads (hps st') = num_threads (hps st)
    \<and> lf_map (heap st') as' = (if lf_map (heap st) as key = None
        then (lf_map (heap st) as)(key \<mapsto> (x, node_value (the (heap st x)))) else lf_map (heap st) as)"
proof -
  from lookupInternal_spec [OF assms(1-3), of new_ctx] obtain r ctx v st1 pre suf where
    l: "lookupInternal t (startingPointer (start_arg st)) key new_ctx st = Some (r, ctx, v, st1)"
      "frame st as st1 (pre @ suf)" "placed st1 pre suf key r ctx v" by blast
  have m: "lf_map (heap st) as key = (if r then Some (lc_cur ctx, v) else None)"
    and m1: "lf_map (heap st1) (pre @ suf) = lf_map (heap st) as"
    using placed_map [OF frame_inv [OF l(2)] l(3)] l(2) by (simp_all add: frame_def)
  note px = frame_owned [OF l(2) assms(4)]
  have b: "brk st1 = brk st" "num_threads (hps st1) = num_threads (hps st)" using l(2) by (simp_all add: frame_def)
  show ?thesis
  proof (cases r)
    case True
    from delete_owned [OF frame_inv [OF l(2)] px(1)] obtain st2 where
      "delete_Node x st1 = Some st2" "lf_inv st2 (pre @ suf)" "lf_map (heap st2) (pre @ suf) = lf_map (heap st) as"
      "brk st2 = brk st" "hps st2 = hps st1" using m1 b by auto
    with True l(1) m b show ?thesis by (subst insert_loop.simps) auto
  next
    case False
    have "node_key (heap st1) x = key" using px(2) assms(5) by (simp add: node_key_def)
    moreover have "placed st1 pre suf key False ctx v" using l(3) False by simp
    ultimately have "\<exists>st2 st3. set_next x (lc_cur ctx) st1 = Some st2
      \<and> cas (lc_prev ctx) (lc_cur ctx) x st2 = Some (True, st3) \<and> lf_inv st3 (pre @ x # suf)
      \<and> lf_map (heap st3) (pre @ x # suf) = (lf_map (heap st1) (pre @ suf))(key \<mapsto> (x, node_value (the (heap st1 x))))
      \<and> brk st3 = brk st1 \<and> hps st3 = hps st1 \<and> start_arg st3 = start_arg st1"
      using link_spec [OF frame_inv [OF l(2)]] px(1) by blast
    with m1 px(2) b
    obtain st2 st3 where "set_next x (lc_cur ctx) st1 = Some st2"
      "cas (lc_prev ctx) (lc_cur ctx) x st2 = Some (True, st3)" "lf_inv st3 (pre @ x # suf)"
      "lf_map (heap st3) (pre @ x # suf) = (lf_map (heap st) as)(key \<mapsto> (x, node_value (the (heap st x))))"
      "brk st3 = brk st" "num_threads (hps st3) = num_threads (hps st)" by auto
    with False l(1) m show ?thesis by (subst insert_loop.simps) auto
  qed
qed

lemma lf_insert_spec:
  assumes "lf_inv st as" "t < num_threads (hps st)" "start_ok st as start key"
    and "case dummy of None \<Rightarrow> brk st < max_slots | Some d \<Rightarrow> owned st as d"
  shows "\<exists>d st' as'. lf_insert t key val start dummy st = Some (lf_map (heap st) as key = None, d, st')
    \<and> lf_inv st' as' \<and> brk st' \<le> Suc (brk st) \<and> num_threads (hps st') = num_threads (hps st)
    \<and> (dummy \<noteq> None \<longrightarrow> brk st' = brk st)
    \<and> (\<exists>x w. (val \<noteq> None \<longrightarrow> w = val) \<and> (dummy \<noteq> None \<longrightarrow> dummy = Some x)
        \<and> lf_map (heap st') as' = (if lf_map (heap st) as key = None
            then (lf_map (heap st) as)(key \<mapsto> (x, w)) else lf_map (heap st) as)
        \<and> (dummy \<noteq> None \<longrightarrow> d = map_option fst (lf_map (heap st') as' key)))"
proof -
  let ?st = "st\<lparr>start_arg := start\<rparr>"
  have i: "lf_inv ?st as" using assms(1) by (simp add: lf_inv_def)
  obtain x st1 where x: "(case dummy of None \<Rightarrow> new_Node ?st | Some d \<Rightarrow> Some (d, ?st)) = Some (x, st1)"
    "lf_inv st1 as" "owned st1 as x" "lf_map (heap st1) as = lf_map (heap st) as"
    "\<forall>a \<in> set as. heap st1 a = heap st a" "hps st1 = hps st" "start_arg st1 = start"
    "brk st1 \<le> Suc (brk st)" "dummy \<noteq> None \<Longrightarrow> brk st1 = brk st \<and> dummy = Some x"
  proof (cases dummy)
    case None
    with new_Node_spec [OF i] assms(4) show thesis by (auto intro!: that simp: owned_def)
  next
    case (Some d)
    with assms(4) i show thesis by (intro that [of d ?st]) (auto simp: owned_def)
  qed
  obtain n where n: "heap st1 x = Some n" using x(3) by (auto simp: owned_def)
  let ?n = "n\<lparr>node_data := key, node_value := (case val of None \<Rightarrow> node_value n | Some v \<Rightarrow> Some v)\<rparr>"
  let ?st2 = "st1\<lparr>heap := (heap st1)(x \<mapsto> ?n)\<rparr>"
  have s2: "init_node key val x st1 = Some ?st2" using n by (simp add: init_node_def)
  note upd = owned_update [OF x(2,3), of ?n]
  have so: "start_ok ?st2 as (start_arg ?st2) key"
    using assms(3) x(3,5,7) by (auto simp: start_ok_def live_def node_key_def owned_def)
  have k: "node_key (heap ?st2) x = key" by (simp add: node_key_def)
  have t: "t < num_threads (hps ?st2)" using assms(2) x(6) by simp
  have eqs: "start_arg ?st2 = start" "hps ?st2 = hps st" "brk ?st2 = brk st1" "the (heap ?st2 x) = ?n"
    "lf_map (heap ?st2) as = lf_map (heap st) as" using x upd(2) by simp_all
  have "\<exists>st' as'. insert_loop t (startingPointer start) key x dummy ?st2 =
      Some (lf_map (heap st) as key = None,
            if lf_map (heap st) as key = None \<or> dummy = None then dummy else map_option fst (lf_map (heap st) as key), st')
    \<and> lf_inv st' as' \<and> brk st' = brk st1 \<and> num_threads (hps st') = num_threads (hps st)
    \<and> lf_map (heap st') as' = (if lf_map (heap st) as key = None
        then (lf_map (heap st) as)(key \<mapsto> (x, node_value ?n)) else lf_map (heap st) as)"
    using insert_loop_spec [OF upd(1) t so upd(3) k, of dummy] unfolding eqs .
  then obtain st' as' where r: "insert_loop t (startingPointer start) key x dummy ?st2 =
      Some (lf_map (heap st) as key = None,
            if lf_map (heap st) as key = None \<or> dummy = None then dummy else map_option fst (lf_map (heap st) as key), st')"
    "lf_inv st' as'" "brk st' = brk st1" "num_threads (hps st') = num_threads (hps st)"
    "lf_map (heap st') as' = (if lf_map (heap st) as key = None
        then (lf_map (heap st) as)(key \<mapsto> (x, node_value ?n)) else lf_map (heap st) as)" by blast
  have "lf_insert t key val start dummy st = insert_loop t (startingPointer start) key x dummy ?st2"
    using x(1) s2 by (simp add: lf_insert_def Let_def)
  moreover have "val \<noteq> None \<longrightarrow> node_value ?n = val" by auto
  ultimately show ?thesis using r x(8,9) by (fastforce split: if_splits)
qed

text \<open>Logical deletion: the mark on a node's next pointer.\<close>

lemma mark_spec:
  assumes "lf_inv st (pre @ a # suf)" "live (heap st) a" "at_loc st pre l"
  shows "\<exists>st'. cas (NextLoc a) (first suf) (mark (first suf)) st = Some (True, st') \<and> lf_inv st' (pre @ a # suf)
    \<and> \<not> live (heap st') a \<and> lf_map (heap st') (pre @ suf) = lf_map (heap st) (pre @ suf)
    \<and> at_loc st' pre l \<and> brk st' = brk st \<and> hps st' = hps st \<and> start_arg st' = start_arg st"
proof -
  have ch: "chain (heap st) (head st) (pre @ [a] @ suf)" and d: "distinct (pre @ a # suf)"
    using assms(1) lf_inv_distinct [OF assms(1)] by (auto simp: lf_inv_def)
  then obtain n where n: "heap st a = Some n" "chain (heap st) (unmark (node_next n)) suf"
    using chain_node [of "heap st" "head st" pre a suf] by auto
  have nx: "node_next n = first suf"
    using chain_first [OF n(2)] unmark_id assms(2) n(1) by (simp add: live_def)
  let ?h = "(heap st)(a \<mapsto> n\<lparr>node_next := mark (first suf)\<rparr>)"
  let ?st = "st\<lparr>heap := ?h\<rparr>"
  have c: "cas (NextLoc a) (first suf) (mark (first suf)) st = Some (True, ?st)"
    using n nx by (simp add: cas_def read_loc_def write_loc_def)
  have al: "aligned (first suf)" using chain_aligned [OF chain_suffix [of _ _ "pre @ [a]"]] ch by simp
  have suf: "chain (heap st) (first suf) suf" using chain_suffix [of _ _ "pre @ [a]"] ch by simp
  have "chain ?h (first suf) suf" by (rule chain_cong [OF suf]) (use d in auto)
  then have "chain ?h (head st) (pre @ [a] @ suf)"
    using chain_redirect [of "heap st" "head st" pre a suf n "mark (first suf)" suf ?h] ch d n
      unmark_id [OF isMarked_aligned [OF al]] by simp
  moreover have "node_key ?h = node_key (heap st)" using n(1) by (auto simp: node_key_def fun_eq_iff)
  moreover have "dom ?h = dom (heap st)" using n(1) by auto
  ultimately have "lf_inv ?st (pre @ a # suf)"
    using assms(1) unfolding lf_inv_def by simp
  moreover have "lf_map ?h (pre @ suf) = lf_map (heap st) (pre @ suf)"
    by (rule same_nodes_map, rule same_nodesI) (use d in auto)
  moreover have "at_loc ?st pre l" using assms(3) d by (cases pre rule: rev_cases) (auto simp: at_loc_def live_def)
  moreover have "\<not> live ?h a" by (simp add: live_def)
  ultimately show ?thesis using c by (intro exI [of _ ?st]) simp
qed

lemma lf_remove_spec:
  assumes "lf_inv st as" "t < num_threads (hps st)" "start_ok st as start key"
  shows "\<exists>st' as'. lf_remove t key start st = Some (lf_map (heap st) as key \<noteq> None, st')
    \<and> lf_inv st' as' \<and> brk st' = brk st \<and> num_threads (hps st') = num_threads (hps st)
    \<and> lf_map (heap st') as' = (lf_map (heap st) as)(key := None)"
proof -
  let ?st = "st\<lparr>start_arg := start\<rparr>"
  have "lf_inv ?st as" "start_ok ?st as (start_arg ?st) key"
    using assms by (simp_all add: lf_inv_def start_ok_def)
  from lookupInternal_spec [OF this(1) _ this(2), of t new_ctx] assms(2) obtain r ctx v st1 pre suf where
    l: "lookupInternal t (startingPointer start) key new_ctx ?st = Some (r, ctx, v, st1)"
      "frame ?st as st1 (pre @ suf)" "placed st1 pre suf key r ctx v" by auto
  note inv1 = frame_inv [OF l(2)]
  have m1: "lf_map (heap st1) (pre @ suf) = lf_map (heap st) as" and t1: "t < num_threads (hps st1)"
    and b1: "brk st1 = brk st" "num_threads (hps st1) = num_threads (hps st)"
    using l(2) assms(2) by (simp_all add: frame_def)
  have m: "lf_map (heap st) as key = (if r then Some (lc_cur ctx, v) else None)"
    using placed_map [OF inv1 l(3)] m1 by simp
  show ?thesis
  proof (cases r)
    case False
    then have "lf_remove t key start st = Some (False, st1)"
      using l(1) by (simp add: lf_remove_def) (subst remove_loop.simps, simp)
    moreover have "(lf_map (heap st) as)(key := None) = lf_map (heap st) as" using m False by auto
    ultimately show ?thesis using False m m1 b1 inv1 by auto
  next
    case True
    with l(3) obtain a suf2 where suf: "suf = a # suf2" by (cases suf) (auto simp: placed_def)
    have a: "live (heap st1) a" "node_key (heap st1) a = key" "lc_cur ctx = a" "at_loc st1 pre (lc_prev ctx)"
      "lc_next ctx = node_next (the (heap st1 a))"
      using l(3) suf True by (auto simp: placed_def)
    have "chain (heap st1) (head st1) (pre @ a # suf2)" using inv1 suf by (simp add: lf_inv_def)
    then have nx: "lc_next ctx = first suf2"
      using read_at [of st1 "pre @ [a]" suf2 "NextLoc a"] a(1,5) by (auto simp: at_loc_def read_loc_def)
    from mark_spec [OF inv1 [unfolded suf] a(1,4)] obtain st2 where
      c: "cas (NextLoc a) (first suf2) (mark (first suf2)) st1 = Some (True, st2)" "lf_inv st2 (pre @ a # suf2)"
        "\<not> live (heap st2) a" "lf_map (heap st2) (pre @ suf2) = lf_map (heap st1) (pre @ suf2)"
        "at_loc st2 pre (lc_prev ctx)" "brk st2 = brk st1" "hps st2 = hps st1" by blast
    from unlink_spec [OF c(2,5) _ c(3), of t] t1 c(7) obtain st3 st4 where
      u: "cas (lc_prev ctx) a (first suf2) st2 = Some (True, st3)" "retire t a st3 = Some st4"
        "frame st2 (pre @ a # suf2) st4 (pre @ suf2)" by auto
    have "lf_map (heap st1) (pre @ suf2) = (lf_map (heap st) as)(key := None)"
      using lf_map_remove_at [of "heap st1" pre a suf2] inv1 m1 a(2) unfolding suf lf_inv_def by simp
    then have "lf_map (heap st4) (pre @ suf2) = (lf_map (heap st) as)(key := None)"
      using u(3) c(3,4) lf_map_unlink [OF c(3)] by (simp add: frame_def)
    moreover have "lf_remove t key start st = Some (True, st4)"
      using l(1) True a(3) nx c(1) u(1,2) by (simp add: lf_remove_def) (subst remove_loop.simps, simp)
    ultimately show ?thesis using True m u(3) c(6,7) b1 by (auto simp: frame_def)
  qed
qed

section \<open>The interface to the list\<close>

text \<open>
  A map from keys to nodes with a value, whose operations may be started at the node of a smaller
  key. \<open>rep s m\<close> says that the state \<open>s\<close> represents the map \<open>m\<close>, \<open>used s\<close> counts allocations. \<open>add\<close> makes
  its own node, \<open>place\<close> puts a marker node without a value and tells where the node of the key is.
\<close>

definition hint :: "('k::linorder \<Rightarrow> (ptr \<times> int option) option) \<Rightarrow> ptr \<Rightarrow> 'k \<Rightarrow> bool" where
  "hint m p k \<longleftrightarrow> p = NULL \<or> (\<exists>k' v. m k' = Some (p, v) \<and> k' < k)"

locale hinted_map =
  fixes rep :: "'s \<Rightarrow> ('k::linorder \<Rightarrow> (ptr \<times> int option) option) \<Rightarrow> bool"
    and used :: "'s \<Rightarrow> nat"
    and look :: "'k \<Rightarrow> ptr \<Rightarrow> 's \<Rightarrow> (bool \<times> int option \<times> 's) option"
    and add :: "'k \<Rightarrow> int \<Rightarrow> ptr \<Rightarrow> 's \<Rightarrow> (bool \<times> 's) option"
    and place :: "'k \<Rightarrow> ptr \<Rightarrow> 's \<Rightarrow> (ptr \<times> 's) option"
    and del :: "'k \<Rightarrow> ptr \<Rightarrow> 's \<Rightarrow> (bool \<times> 's) option"
  assumes look_ok: "rep s m \<Longrightarrow> hint m p k \<Longrightarrow>
      \<exists>s'. look k p s = Some (m k \<noteq> None, Option.bind (m k) snd, s') \<and> rep s' m \<and> used s' = used s"
    and add_ok: "rep s m \<Longrightarrow> hint m p k \<Longrightarrow> used s < max_slots \<Longrightarrow>
      \<exists>s' x. add k v p s = Some (m k = None, s') \<and> used s' \<le> Suc (used s)
        \<and> rep s' (if m k = None then m(k \<mapsto> (x, Some v)) else m)"
    and place_ok: "rep s m \<Longrightarrow> hint m p k \<Longrightarrow> used s < max_slots \<Longrightarrow>
      \<exists>s' x w. place k p s = Some (x, s') \<and> used s' \<le> Suc (used s)
        \<and> rep s' (if m k = None then m(k \<mapsto> (x, w)) else m) \<and> (m k \<noteq> None \<longrightarrow> map_option fst (m k) = Some x)"
    and del_ok: "rep s m \<Longrightarrow> hint m p k \<Longrightarrow>
      \<exists>s'. del k p s = Some (m k \<noteq> None, s') \<and> used s' = used s \<and> rep s' (m(k := None))"
    and rep_nonnull: "rep s m \<Longrightarrow> m k = Some (p, w) \<Longrightarrow> p \<noteq> NULL"
begin

text \<open>A marker found or made by \<open>place\<close> is a hint for every larger key.\<close>

lemma place_hint:
  assumes "rep s m" "hint m p k" "used s < max_slots"
  obtains s' x m' where "place k p s = Some (x, s')" "used s' \<le> Suc (used s)" "rep s' m'" "x \<noteq> NULL"
    "\<exists>w. m' k = Some (x, w)" "\<forall>k'. m k' \<noteq> None \<longrightarrow> m' k' = m k'" "\<forall>k'. k' \<noteq> k \<longrightarrow> m' k' = m k'"
proof -
  from place_ok [OF assms] obtain s' x w where
    p: "place k p s = Some (x, s')" "used s' \<le> Suc (used s)" "rep s' (if m k = None then m(k \<mapsto> (x, w)) else m)"
      "m k \<noteq> None \<longrightarrow> map_option fst (m k) = Some x" by blast
  let ?m = "if m k = None then m(k \<mapsto> (x, w)) else m"
  have "\<exists>w. ?m k = Some (x, w)" using p(4) by (cases "m k") auto
  moreover from this have "x \<noteq> NULL" using rep_nonnull [OF p(3)] by blast
  ultimately show thesis using p by (intro that [of x s' ?m]) auto
qed

lemma look_after_add:
  assumes "rep s m" "hint m p k" "used s < max_slots" "m k = None"
  shows "\<exists>s1 s2. add k v p s = Some (True, s1) \<and> look k p s1 = Some (True, Some v, s2)"
proof -
  from add_ok [OF assms(1-3), of v] assms(4) obtain s1 x where
    a: "add k v p s = Some (True, s1)" "rep s1 (m(k \<mapsto> (x, Some v)))" by auto
  have "hint (m(k \<mapsto> (x, Some v))) p k"
    using assms(2) unfolding hint_def by (metis fun_upd_apply less_irrefl)
  from look_ok [OF a(2) this] a(1) show ?thesis by auto
qed

lemma look_after_del:
  assumes "rep s m" "hint m p k"
  shows "\<exists>s1 s2. del k p s = Some (m k \<noteq> None, s1) \<and> look k p s1 = Some (False, None, s2)"
proof -
  from del_ok [OF assms] obtain s1 where a: "del k p s = Some (m k \<noteq> None, s1)" "rep s1 (m(k := None))" by blast
  have "hint (m(k := None)) p k"
    using assms(2) unfolding hint_def by (metis fun_upd_apply less_irrefl)
  from look_ok [OF a(2) this] a(1) show ?thesis by auto
qed

end

definition lf_rep :: "nat \<Rightarrow> ('k::linorder) LockFreeList \<Rightarrow> ('k \<Rightarrow> (ptr \<times> int option) option) \<Rightarrow> bool" where
  "lf_rep t st m \<longleftrightarrow> t < num_threads (hps st) \<and> (\<exists>as. lf_inv st as \<and> lf_map (heap st) as = m)"

definition lf_add :: "nat \<Rightarrow> 'k::{linorder, zero} \<Rightarrow> int \<Rightarrow> ptr \<Rightarrow> 'k LockFreeList \<Rightarrow> (bool \<times> 'k LockFreeList) option" where
  "lf_add t key v start st = do { (r, _, st') \<leftarrow> lf_insert t key (Some v) start None st; Some (r, st') }"

definition lf_place :: "nat \<Rightarrow> 'k::{linorder, zero} \<Rightarrow> ptr \<Rightarrow> 'k LockFreeList \<Rightarrow> (ptr \<times> 'k LockFreeList) option" where
  "lf_place t key start st =
     do { (d, st1) \<leftarrow> new_Node st; (_, d', st2) \<leftarrow> lf_insert t key None start (Some d) st1;
          x \<leftarrow> d'; Some (x, st2) }"

lemma hint_start_ok: "lf_inv st as \<Longrightarrow> hint (lf_map (heap st) as) p k \<Longrightarrow> start_ok st as p k"
  by (auto simp: hint_def start_ok_def dest!: lf_map_SomeD)

lemma lf_place_ok:
  fixes st :: "'k::{linorder, zero} LockFreeList"
  assumes "lf_inv st as" "t < num_threads (hps st)" "hint (lf_map (heap st) as) p k" "brk st < max_slots"
  shows "\<exists>st' x w. lf_place t k p st = Some (x, st') \<and> brk st' \<le> Suc (brk st)
    \<and> lf_rep t st' (if lf_map (heap st) as k = None then (lf_map (heap st) as)(k \<mapsto> (x, w)) else lf_map (heap st) as)
    \<and> (lf_map (heap st) as k \<noteq> None \<longrightarrow> map_option fst (lf_map (heap st) as k) = Some x)"
proof -
  from new_Node_spec [OF assms(1,4)] obtain d st1 where
    n: "new_Node st = Some (d, st1)" "lf_inv st1 as" "lf_map (heap st1) as = lf_map (heap st) as"
      "d \<noteq> NULL" "aligned d" "d \<notin> set as" "d \<notin> set (retired (hps st1))" "d \<in> dom (heap st1)"
      "brk st1 = Suc (brk st)" "hps st1 = hps st" by auto
  have "owned st1 as d" using n by (simp add: owned_def)
  moreover have "start_ok st1 as p k" using hint_start_ok [OF n(2)] assms(3) n(3) by simp
  ultimately have "\<exists>d' st' as'. lf_insert t k None p (Some d) st1 = Some (lf_map (heap st1) as k = None, d', st')
    \<and> lf_inv st' as' \<and> num_threads (hps st') = num_threads (hps st1) \<and> brk st' = brk st1
    \<and> (\<exists>w. lf_map (heap st') as' = (if lf_map (heap st1) as k = None
            then (lf_map (heap st1) as)(k \<mapsto> (d, w)) else lf_map (heap st1) as)
        \<and> d' = map_option fst (lf_map (heap st') as' k))"
    using lf_insert_spec [OF n(2), of t p k "Some d" None] assms(2) n(10) by fastforce
  then obtain d' st' as' w where r: "lf_insert t k None p (Some d) st1 = Some (lf_map (heap st1) as k = None, d', st')"
    "lf_inv st' as'" "num_threads (hps st') = num_threads (hps st1)" "brk st' = brk st1"
    "lf_map (heap st') as' = (if lf_map (heap st) as k = None then (lf_map (heap st) as)(k \<mapsto> (d, w)) else lf_map (heap st) as)"
    "d' = map_option fst (lf_map (heap st') as' k)" unfolding n(3) by blast
  show ?thesis
  proof (cases "lf_map (heap st) as k")
    case None
    with r n(1,9,10) assms(2) show ?thesis
      by (intro exI [of _ st'] exI [of _ d] exI [of _ w]) (auto simp: lf_place_def lf_rep_def)
  next
    case (Some y)
    with r n(1,9,10) assms(2) show ?thesis
      by (intro exI [of _ st'] exI [of _ "fst y"]) (auto simp: lf_place_def lf_rep_def)
  qed
qed

interpretation lfl: hinted_map "lf_rep t" brk "lf_lookup t" "lf_add t" "lf_place t" "lf_remove t" for t
proof unfold_locales
  fix s :: "'a LockFreeList" and m p k
  assume rep: "lf_rep t s m" and h: "hint m p k"
  then obtain as where as: "lf_inv s as" "lf_map (heap s) as = m" "t < num_threads (hps s)" by (auto simp: lf_rep_def)
  have so: "start_ok s as p k" using hint_start_ok as h by blast
  from lf_lookup_spec [OF as(1,3) so] as show "\<exists>s'. lf_lookup t k p s = Some (m k \<noteq> None, Option.bind (m k) snd, s') \<and> lf_rep t s' m \<and> brk s' = brk s"
    by (auto simp: frame_def lf_rep_def lf_inv_def)
  from lf_remove_spec [OF as(1,3) so] as
  show "\<exists>s'. lf_remove t k p s = Some (m k \<noteq> None, s') \<and> brk s' = brk s \<and> lf_rep t s' (m(k := None))"
    by (auto simp: lf_rep_def)
  assume room: "brk s < max_slots"
  show "\<exists>s' x. lf_add t k v p s = Some (m k = None, s') \<and> brk s' \<le> Suc (brk s)
        \<and> lf_rep t s' (if m k = None then m(k \<mapsto> (x, Some v)) else m)" for v
  proof -
    from lf_insert_spec [OF as(1,3) so, of None "Some v"] room as obtain d s' as' x where
      "lf_insert t k (Some v) p None s = Some (m k = None, d, s')" "lf_inv s' as'" "brk s' \<le> Suc (brk s)"
      "num_threads (hps s') = num_threads (hps s)"
      "lf_map (heap s') as' = (if m k = None then m(k \<mapsto> (x, Some v)) else m)" by auto
    with as(3) show ?thesis by (intro exI [of _ s'] exI [of _ x]) (auto simp: lf_add_def lf_rep_def)
  qed
  have "hint (lf_map (heap s) as) p k" using h as(2) by simp
  from lf_place_ok [OF as(1,3) this room]
  show "\<exists>s' x w. lf_place t k p s = Some (x, s') \<and> brk s' \<le> Suc (brk s)
        \<and> lf_rep t s' (if m k = None then m(k \<mapsto> (x, w)) else m) \<and> (m k \<noteq> None \<longrightarrow> map_option fst (m k) = Some x)"
    unfolding as(2) .
next
  fix s :: "'a LockFreeList" and m k p v
  assume "lf_rep t s m" "m k = Some (p, v)"
  then show "p \<noteq> NULL"
    by (auto simp: lf_rep_def lf_inv_def dest!: lf_map_SomeD dest: chain_nonnull)
qed

section \<open>Integrity and destruction\<close>

lemma integrity_loop_spec:
  assumes "chain (heap st) p as" "\<forall>a \<in> set as. live (heap st) a"
    and "sorted_wrt (<) (k # map (node_key (heap st)) as)"
  shows "integrity_loop st k p = Some True"
  using assms
proof (induction as arbitrary: p k)
  case Nil
  then show ?case by (simp add: integrity_loop.simps)
next
  case (Cons a as)
  then obtain n where n: "heap st a = Some n" "chain (heap st) (unmark (node_next n)) as" "p = a" "a \<noteq> NULL"
    by (auto split: option.splits)
  have "unmark (node_next n) = node_next n" using Cons.prems(2) n(1) by (simp add: live_def unmark_id)
  with Cons n have "integrity_loop st (node_data n) (node_next n) = Some True" by (auto simp: node_key_def)
  with n Cons.prems(3) show ?case by (subst integrity_loop.simps) (auto simp: node_key_def not_le)
qed

lemma destroy_loop_spec:
  assumes "chain (heap st) (head st) as" "\<forall>a \<in> set as. live (heap st) a" "distinct as"
  shows "destroy_loop st = Some (st\<lparr>head := NULL, heap := (\<lambda>a. if a \<in> set as then None else heap st a)\<rparr>)"
  using assms
proof (induction as arbitrary: st)
  case Nil
  then show ?case by (cases st) (simp add: destroy_loop.simps)
next
  case (Cons a as)
  then obtain n where n: "heap st a = Some n" "chain (heap st) (unmark (node_next n)) as" "head st = a" "a \<noteq> NULL"
    by (auto split: option.splits)
  have un: "unmark (node_next n) = node_next n" using Cons.prems(2) n(1) by (simp add: live_def unmark_id)
  let ?st = "st\<lparr>head := node_next n, heap := (heap st)(a := None)\<rparr>"
  have eq: "\<forall>x \<in> set as. ((heap st)(a := None)) x = heap st x" using Cons.prems(3) by auto
  have "chain ((heap st)(a := None)) (unmark (node_next n)) as" by (rule chain_cong [OF n(2) eq])
  then have "chain (heap ?st) (head ?st) as" using un by simp
  moreover have "\<forall>x \<in> set as. live (heap ?st) x" using Cons.prems(2) eq by (simp add: live_def)
  ultimately have "destroy_loop ?st = Some (?st\<lparr>head := NULL, heap := (\<lambda>x. if x \<in> set as then None else heap ?st x)\<rparr>)"
    by (rule Cons.IH) (use Cons.prems(3) in simp)
  also have "(\<lambda>x. if x \<in> set as then None else heap ?st x) = (\<lambda>x. if x \<in> set (a # as) then None else heap st x)" by auto
  finally show ?case using n by (subst destroy_loop.simps) (simp add: delete_Node_def fun_upd_def)
qed

section \<open>Properties\<close>

text \<open>
  C12. Every operation of the list, run by itself on a well-formed list that may hold nodes left
  marked by stalled removers, started at the head or at the node of a smaller key, returns and
  implements the abstract map exactly: \<^verbatim>\<open>lookup\<close> reports the key and its value and changes
  nothing, \<^verbatim>\<open>insert\<close> adds the key with its value iff it is absent, \<^verbatim>\<open>remove\<close> deletes it iff it
  is present; no access to freed memory, no double free, and all other keys keep their nodes.
\<close>

theorem list_implements_map:
  fixes st :: "('k::{linorder, zero}) LockFreeList"
  assumes "lf_inv st as" "t < num_threads (hps st)" "start_ok st as start key" "brk st < max_slots"
    and "m = lf_map (heap st) as"
  shows "(\<exists>st' as'. lf_lookup t key start st = Some (m key \<noteq> None, Option.bind (m key) snd, st')
            \<and> lf_inv st' as' \<and> lf_map (heap st') as' = m)
    \<and> (\<exists>st' as' d x. lf_insert t key (Some v) start None st = Some (m key = None, d, st')
            \<and> lf_inv st' as' \<and> lf_map (heap st') as' = (if m key = None then m(key \<mapsto> (x, Some v)) else m))
    \<and> (\<exists>st' as'. lf_remove t key start st = Some (m key \<noteq> None, st')
            \<and> lf_inv st' as' \<and> lf_map (heap st') as' = m(key := None))"
proof (intro conjI)
  from lf_lookup_spec [OF assms(1-3)] obtain st' as' where
    l: "lf_lookup t key start st = Some (m key \<noteq> None, Option.bind (m key) snd, st')"
      "frame st as (st'\<lparr>start_arg := start_arg st\<rparr>) as'" unfolding assms(5) by blast
  have "lf_inv (st'\<lparr>start_arg := start_arg st\<rparr>) as' \<longleftrightarrow> lf_inv st' as'" by (simp add: lf_inv_def)
  with l show "\<exists>st' as'. lf_lookup t key start st = Some (m key \<noteq> None, Option.bind (m key) snd, st')
            \<and> lf_inv st' as' \<and> lf_map (heap st') as' = m" unfolding frame_def assms(5) by auto
  show "\<exists>st' as' d x. lf_insert t key (Some v) start None st = Some (m key = None, d, st')
            \<and> lf_inv st' as' \<and> lf_map (heap st') as' = (if m key = None then m(key \<mapsto> (x, Some v)) else m)"
    using lf_insert_spec [OF assms(1-3), of None "Some v"] assms(4) unfolding assms(5) by fastforce
  show "\<exists>st' as'. lf_remove t key start st = Some (m key \<noteq> None, st')
            \<and> lf_inv st' as' \<and> lf_map (heap st') as' = m(key := None)"
    using lf_remove_spec [OF assms(1-3)] unfolding assms(5) by blast
qed

lemma lf_inv_new: "lf_inv (new_LockFreeList n mem) []"
  by (simp add: lf_inv_def new_LockFreeList_def hp_inv_new)
    (simp add: new_HazardPointers_def retired_def)

theorem list_implements_map_witness:
  "\<exists>st' as' d x. lf_insert 0 (5 :: nat) (Some 7) NULL None (new_LockFreeList 1 (\<lambda>_ _. 0)) = Some (True, d, st')
     \<and> lf_inv st' as' \<and> lf_map (heap st') as' = [5 \<mapsto> (x, Some 7)]"
  using list_implements_map [OF lf_inv_new, of 0 1 "\<lambda>_ _. 0" NULL "5 :: nat" Map.empty 7]
  by (simp add: start_ok_def max_slots_def) (simp add: new_LockFreeList_def new_HazardPointers_def)

text \<open>
  A lookup that follows an insertion finds the inserted value, and one that follows a removal
  finds nothing, wherever both are started.
\<close>

theorem lookup_after_insert_and_remove:
  fixes st :: "('k::{linorder, zero}) LockFreeList"
  assumes "lf_rep t st m" "hint m p k" "brk st < max_slots"
  shows "(m k = None \<longrightarrow> (\<exists>st1 st2. lf_add t k v p st = Some (True, st1) \<and> lf_lookup t k p st1 = Some (True, Some v, st2)))
    \<and> (\<exists>st1 st2. lf_remove t k p st = Some (m k \<noteq> None, st1) \<and> lf_lookup t k p st1 = Some (False, None, st2))"
  using lfl.look_after_add [OF assms] lfl.look_after_del [OF assms(1,2)] by blast

theorem lookup_after_insert_and_remove_witness:
  "\<exists>st1 st2. lf_add 0 (5 :: nat) 7 NULL (new_LockFreeList 1 (\<lambda>_ _. 0)) = Some (True, st1)
     \<and> lf_lookup 0 5 NULL st1 = Some (True, Some 7, st2)"
proof -
  have "lf_rep 0 (new_LockFreeList 1 (\<lambda>_ _. 0) :: nat LockFreeList) Map.empty"
    using lf_inv_new [of 1 "\<lambda>_ _. 0"]
    by (auto simp: lf_rep_def) (auto simp: new_LockFreeList_def new_HazardPointers_def intro!: exI [of _ "[]"])
  from lookup_after_insert_and_remove [OF this, of NULL 5 7] show ?thesis
    by (simp add: hint_def max_slots_def) (simp add: new_LockFreeList_def)
qed

text \<open>
  On a list in which no node is marked, \<^verbatim>\<open>checkIntegrity\<close> returns true, and the destructor
  frees every node of the list and every retired node exactly once, and nothing else.
\<close>

theorem quiescent_check_and_destroy:
  assumes "lf_inv st as" "\<forall>a \<in> set as. live (heap st) a"
  shows "checkIntegrity st = Some True
    \<and> (\<exists>st'. delete_LockFreeList st = Some st'
         \<and> heap st' = (\<lambda>a. if a \<in> set as \<union> set (retired (hps st)) then None else heap st a))"
proof
  have ch: "chain (heap st) (head st) as" and srt: "sorted_wrt (<) (map (node_key (heap st)) as)"
    using assms(1) by (auto simp: lf_inv_def)
  show "checkIntegrity st = Some True"
  proof (cases as)
    case (Cons a as2)
    with ch obtain n where n: "heap st a = Some n" "chain (heap st) (unmark (node_next n)) as2" "head st = a" "a \<noteq> NULL"
      by (auto split: option.splits)
    have "unmark (node_next n) = node_next n" using assms(2) Cons n(1) by (simp add: live_def unmark_id)
    with n integrity_loop_spec [of st "node_next n" as2 "node_data n"] assms(2) srt Cons
    show ?thesis by (simp add: checkIntegrity_def node_key_def)
  qed (use ch in \<open>simp add: checkIntegrity_def\<close>)
  let ?st = "st\<lparr>head := NULL, heap := (\<lambda>a. if a \<in> set as then None else heap st a)\<rparr>"
  have d: "destroy_loop st = Some ?st"
    using destroy_loop_spec [OF ch assms(2) lf_inv_distinct [OF assms(1)]] .
  have fr: "delete_HazardPointers (hps st) = retired (hps st)" by (simp add: delete_HazardPointers_def retired_def)
  have "set (retired (hps st)) \<subseteq> dom (heap ?st)" using assms(1) by (auto simp: lf_inv_def)
  moreover have "distinct (retired (hps st))" "NULL \<notin> set (retired (hps st))" using assms(1) by (auto simp: lf_inv_def hp_inv_def)
  ultimately have "delete_Nodes (retired (hps st)) ?st = Some (?st\<lparr>heap := (\<lambda>a. if a \<in> set (retired (hps st)) then None else heap ?st a)\<rparr>)"
    by (rule delete_Nodes_heap)
  then show "\<exists>st'. delete_LockFreeList st = Some st'
         \<and> heap st' = (\<lambda>a. if a \<in> set as \<union> set (retired (hps st)) then None else heap st a)"
    using d fr by (auto simp: delete_LockFreeList_def)
qed

theorem quiescent_check_and_destroy_witness:
  "checkIntegrity (new_LockFreeList 1 (\<lambda>_ _. 0) :: nat LockFreeList) = Some True"
  using quiescent_check_and_destroy [OF lf_inv_new [where ?'a = nat and n = 1 and mem = "\<lambda>_ _. 0"]] by simp

end
