(* ===== verification/Lock_Free_Hash_Table.thy ===== *)
theory Lock_Free_Hash_Table
  imports Lock_Free_List_Correct
begin

unbundle bit_operations_syntax

text \<open>
  The split-ordered hash table (\<^verbatim>\<open>lock_free_hash_table.hpp\<close>, \<^verbatim>\<open>lock_free_hash_table.cpp\<close>): one
  ordered list of bit-reversed keys, with a table of shortcuts to marker nodes inside it. Keys,
  the item count and the table size are 32-bit words. The bit arithmetic comes first, then the
  operations; like the list's, they run one at a time.
\<close>

section \<open>Bit arithmetic\<close>

definition reverse :: "u32 \<Rightarrow> u32" where
  "reverse x0 =
     (let x1 = drop_bit 1 (x0 AND 0xaaaaaaaa) OR push_bit 1 (x0 AND 0x55555555);
          x2 = drop_bit 2 (x1 AND 0xcccccccc) OR push_bit 2 (x1 AND 0x33333333);
          x3 = drop_bit 4 (x2 AND 0xf0f0f0f0) OR push_bit 4 (x2 AND 0x0f0f0f0f);
          x4 = drop_bit 8 (x3 AND 0xff00ff00) OR push_bit 8 (x3 AND 0x00ff00ff)
      in drop_bit 16 x4 OR push_bit 16 x4)"

definition reverseRegularKey :: "u32 \<Rightarrow> u32" where
  "reverseRegularKey key = reverse (key OR push_bit 31 1)"

definition reverseDummyKey :: "u32 \<Rightarrow> u32" where
  "reverseDummyKey key = reverse key"

text \<open>\<^verbatim>\<open>__builtin_clz\<close>: the number of leading zeros of a word that is not 0.\<close>

definition clz :: "u32 \<Rightarrow> nat" where
  "clz x = length (takeWhile (\<lambda>i. \<not> bit x i) (rev [0 ..< 32]))"

definition getParent :: "u32 \<Rightarrow> u32" where
  "getParent bucketNo = bucketNo XOR push_bit (32 - 1 - clz bucketNo) 1"

text \<open>Each stage of \<open>reverse\<close> exchanges neighbouring blocks of \<open>k\<close> bits.\<close>

definition swap_index :: "nat \<Rightarrow> nat \<Rightarrow> nat" where
  "swap_index k n = (if even (n div k) then k + n else n - k)"

definition swap_masks :: "nat \<Rightarrow> u32 \<Rightarrow> u32 \<Rightarrow> bool" where
  "swap_masks k a b \<longleftrightarrow> list_all (\<lambda>n. bit a (k + n) = even (n div k) \<and> (k \<le> n \<longrightarrow> bit b (n - k) = odd (n div k))
     \<and> (odd (n div k) \<longrightarrow> k \<le> n) \<and> swap_index k n < 32) [0 ..< 32]"

lemma bit_stage:
  assumes "swap_masks k a b" "n < 32"
  shows "bit (drop_bit k (x AND a) OR push_bit k (x AND b) :: u32) n = bit x (swap_index k n)"
    and "swap_index k n < 32"
proof -
  have m: "bit a (k + n) = even (n div k)" "k \<le> n \<longrightarrow> bit b (n - k) = odd (n div k)" "odd (n div k) \<longrightarrow> k \<le> n"
    "swap_index k n < 32" using assms by (auto simp: swap_masks_def list_all_iff)
  then show "bit (drop_bit k (x AND a) OR push_bit k (x AND b) :: u32) n = bit x (swap_index k n)" "swap_index k n < 32"
    using assms(2) by (auto simp: swap_index_def bit_simps)
qed

lemma bit_const: "bit (numeral w :: u32) n \<longleftrightarrow> n < 32 \<and> bit (numeral w :: int) n"
  by (simp add: bit_simps)

lemma masks:
  "swap_masks 1 0xaaaaaaaa 0x55555555" "swap_masks 2 0xcccccccc 0x33333333"
  "swap_masks 4 0xf0f0f0f0 0x0f0f0f0f" "swap_masks 8 0xff00ff00 0x00ff00ff"
  unfolding swap_masks_def swap_index_def by (simp_all add: bit_const upt_rec)

lemma index_reversed:
  "n < 32 \<Longrightarrow> swap_index 1 (swap_index 2 (swap_index 4 (swap_index 8 (if n < 16 then 16 + n else n - 16)))) = 31 - n"
proof -
  have "list_all (\<lambda>n. swap_index 1 (swap_index 2 (swap_index 4 (swap_index 8 (if n < 16 then 16 + n else n - 16)))) = 31 - n) [0 ..< 32]"
    by (simp add: swap_index_def upt_rec)
  then show "n < 32 \<Longrightarrow> ?thesis" by (simp add: list_all_iff)
qed

lemma bit_halves: "n < 32 \<Longrightarrow> bit (drop_bit 16 x OR push_bit 16 x :: u32) n = bit x (if n < 16 then 16 + n else n - 16)"
  by (auto simp: bit_simps dest: bit_imp_le_length)

lemma bit_reverse: "bit (reverse x) n \<longleftrightarrow> n < 32 \<and> bit x (31 - n)"
proof (cases "n < 32")
  case True
  let ?m = "if n < 16 then 16 + n else n - 16"
  have m: "?m < 32" using True by auto
  note s8 = bit_stage [OF masks(4) m] and s4 = bit_stage [OF masks(3)] and s2 = bit_stage [OF masks(2)]
    and s1 = bit_stage [OF masks(1)]
  have "bit (reverse x) n = bit x (swap_index 1 (swap_index 2 (swap_index 4 (swap_index 8 ?m))))"
    unfolding reverse_def Let_def
    by (simp only: bit_halves [OF True] s8 s4 [OF s8(2)] s2 [OF s4(2) [OF s8(2)]] s1 [OF s2(2) [OF s4(2) [OF s8(2)]]])
  then show ?thesis using True by (simp only: index_reversed [OF True] simp_thms)
next
  case False
  then show ?thesis by (auto dest: bit_imp_le_length)
qed

lemma reverse_reverse [simp]: "reverse (reverse x) = x"
  by (rule bit_eqI) (auto simp: bit_reverse dest: bit_imp_le_length)

lemma reverse_inject [simp]: "reverse x = reverse y \<longleftrightarrow> x = y"
  by (metis reverse_reverse)

lemma reverse_0 [simp]: "reverse 0 = 0"
  by (rule bit_eqI) (simp add: bit_reverse)

text \<open>A word whose bits are among another's is not larger, and stays so when reversed.\<close>

definition bits_within :: "u32 \<Rightarrow> u32 \<Rightarrow> bool" where
  "bits_within x y \<longleftrightarrow> x AND y = x"

lemma bits_within_le: "bits_within x y \<Longrightarrow> x \<le> y"
  unfolding bits_within_def by (metis and.commute word_and_le1)

lemma bits_within_reverse: "bits_within x y \<Longrightarrow> bits_within (reverse x) (reverse y)"
  unfolding bits_within_def by (intro bit_eqI) (metis bit_and_iff bit_reverse)

lemma reverse_less: "bits_within x y \<Longrightarrow> x \<noteq> y \<Longrightarrow> reverse x < reverse y"
  using bits_within_le [OF bits_within_reverse] by (metis order_le_imp_less_or_eq reverse_inject)

lemma clz_spec:
  assumes "x \<noteq> 0"
  shows "clz x < 32" "bit x (31 - clz x)" "\<And>i. 31 - clz x < i \<Longrightarrow> \<not> bit x i"
proof -
  let ?P = "\<lambda>i. \<not> bit x i" and ?l = "rev [0 ..< 32]"
  have nth: "?l ! i = 31 - i" if "i < 32" for i using that by (simp add: rev_nth)
  obtain j where j: "j < 32" "bit x j"
    using assms bit_eqI [of x 0] by (auto dest: bit_imp_le_length)
  show "clz x < 32"
  proof (rule ccontr)
    assume "\<not> clz x < 32"
    then have "length (takeWhile ?P ?l) = length ?l"
      using length_takeWhile_le [of ?P ?l] by (simp add: clz_def)
    then have "takeWhile ?P ?l = ?l" by (metis takeWhile_eq_take take_all_iff order_refl)
    then have "\<forall>i \<in> set ?l. ?P i" by (metis takeWhile_eq_all_conv)
    then show False using j by auto
  qed
  then have c: "length (takeWhile ?P ?l) < length ?l" by (simp add: clz_def)
  show "bit x (31 - clz x)" using nth_length_takeWhile [OF c] nth c by (simp add: clz_def)
  fix i assume i: "31 - clz x < i"
  show "\<not> bit x i"
  proof (cases "i < 32")
    case True
    then have "31 - i < clz x" using i by simp
    then have m: "31 - i < length (takeWhile ?P ?l)" by (simp only: clz_def)
    from set_takeWhileD [OF nth_mem [OF m]] have "?P (?l ! (31 - i))" unfolding takeWhile_nth [OF m] by blast
    then show ?thesis using nth [of "31 - i"] True by simp
  qed (auto dest: bit_imp_le_length)
qed

text \<open>\<^verbatim>\<open>getParent\<close> clears the most significant bit that is set.\<close>

lemma bit_getParent:
  assumes "b \<noteq> 0"
  shows "bit (getParent b) n \<longleftrightarrow> bit b n \<and> n \<noteq> 31 - clz b"
  using clz_spec [OF assms] by (auto simp: getParent_def bit_simps)

lemma getParent_within: "b \<noteq> 0 \<Longrightarrow> bits_within (getParent b) b \<and> getParent b \<noteq> b"
  unfolding bits_within_def
  by (metis (no_types, lifting) bit_and_iff bit_eqI bit_getParent clz_spec(2))

lemma getParent_less: "b \<noteq> 0 \<Longrightarrow> getParent b < b"
  using getParent_within bits_within_le by (metis order_le_imp_less_or_eq)

lemma unat_less_no_bit: "unat (b :: u32) < 2 ^ n \<Longrightarrow> n \<le> j \<Longrightarrow> \<not> bit b j"
proof -
  assume b: "unat b < 2 ^ n" and j: "n \<le> j"
  have "\<not> bit (take_bit n (unat b)) j" using j by (simp add: bit_take_bit_iff)
  then have "\<not> bit (unat b) j" unfolding take_bit_nat_eq_self [OF b] .
  then show ?thesis by (auto simp: bit_simps dest: bit_imp_le_length)
qed

lemma getParent_halves:
  assumes "b \<noteq> 0" "unat b < 2 ^ Suc n"
  shows "unat (getParent b) < 2 ^ n"
proof -
  have top: "\<not> bit (getParent b) i" if "n \<le> i" for i
  proof
    assume "bit (getParent b) i"
    with assms(1) have i: "bit b i" "i \<noteq> 31 - clz b" by (auto simp: bit_getParent)
    have "\<not> bit b j" if "Suc n \<le> j" for j using unat_less_no_bit [OF assms(2) that] .
    with i(1) that have "i = n" by (metis le_antisym not_less_eq_eq)
    moreover have "31 - clz b \<le> n" using clz_spec(2) [OF assms(1)] \<open>\<And>j. Suc n \<le> j \<Longrightarrow> \<not> bit b j\<close> by (metis not_less_eq_eq)
    ultimately show False using clz_spec(3) [OF assms(1), of i] i by auto
  qed
  have "take_bit n (getParent b) = getParent b"
    by (rule bit_eqI) (metis bit_take_bit_iff not_le top)
  then show ?thesis by (metis take_bit_nat_less_exp unsigned_take_bit_eq)
qed

section \<open>Operations\<close>

record LockFreeHashTable =
  lockfreelist :: "u32 LockFreeList"
  buckets :: "ptr list"
  count :: u32
  tsize :: u32
  loadFactor :: u32

text \<open>
  \<^verbatim>\<open>buckets_.at\<close> checks its index; the exception it throws is not caught anywhere (\<open>None\<close>). The
  first argument of the operations is the number of the calling thread, \<^verbatim>\<open>ThreadPoolFast::ME()\<close>.
\<close>

definition bucket_at :: "LockFreeHashTable \<Rightarrow> u32 \<Rightarrow> ptr option" where
  "bucket_at st b = dq_at (buckets st) (unat b)"

function initialize_bucket :: "nat \<Rightarrow> u32 \<Rightarrow> LockFreeHashTable \<Rightarrow> LockFreeHashTable option" where
  "initialize_bucket t bucketNo st =
     do { (parent, st1) \<leftarrow>
            (if bucketNo \<noteq> 0 then
               (case bucket_at st (getParent bucketNo) of
                  None \<Rightarrow> None
                | Some p \<Rightarrow>
                    if p = NULL then map_option (Pair (getParent bucketNo)) (initialize_bucket t (getParent bucketNo) st)
                    else Some (getParent bucketNo, st))
             else Some (0, st));
          (dummy, l1) \<leftarrow> new_Node (lockfreelist st1);
          start \<leftarrow> bucket_at st1 parent;
          (_, d, l2) \<leftarrow> lf_insert t (reverseDummyKey bucketNo) None start (Some dummy) l1;
          dummy' \<leftarrow> d;
          bs \<leftarrow> dq_set (buckets st1) (unat bucketNo) dummy';
          Some (st1\<lparr>lockfreelist := l2, buckets := bs\<rparr>) }"
  by auto
termination
  by (relation "measure (\<lambda>(t, b, st). unat b)") (simp_all add: getParent_less word_less_nat_alt [symmetric])

declare initialize_bucket.simps [simp del]

text \<open>The first lines of every operation: the bucket of the key, initialised on first use.\<close>

definition use_bucket :: "nat \<Rightarrow> u32 \<Rightarrow> LockFreeHashTable \<Rightarrow> (ptr \<times> LockFreeHashTable) option" where
  "use_bucket t data st =
     do { b \<leftarrow> bucket_at st (data mod tsize st);
          st1 \<leftarrow> (if b = NULL then initialize_bucket t (data mod tsize st) st else Some st);
          p \<leftarrow> bucket_at st1 (data mod tsize st);
          Some (p, st1) }"

definition grow_table :: "LockFreeHashTable \<Rightarrow> LockFreeHashTable" where
  "grow_table st =
     (let csize = tsize st;
          st1 = st\<lparr>count := count st + 1\<rparr>
      in if count st1 div csize > loadFactor st1
         then let st2 = st1\<lparr>buckets := buckets st1 @ replicate (nat (sint (tsize st1))) NULL\<rparr>
              in if tsize st2 = csize then st2\<lparr>tsize := 2 * csize\<rparr> else st2
         else st1)"

definition insertKey :: "nat \<Rightarrow> u32 \<Rightarrow> int \<Rightarrow> LockFreeHashTable \<Rightarrow> (bool \<times> LockFreeHashTable) option" where
  "insertKey t data val st =
     do { (p, st1) \<leftarrow> use_bucket t data st;
          (r, _, l) \<leftarrow> lf_insert t (reverseRegularKey data) (Some val) p None (lockfreelist st1);
          if \<not> r then Some (False, st1\<lparr>lockfreelist := l\<rparr>)
          else Some (True, grow_table (st1\<lparr>lockfreelist := l\<rparr>)) }"

definition removeKey :: "nat \<Rightarrow> u32 \<Rightarrow> LockFreeHashTable \<Rightarrow> (bool \<times> LockFreeHashTable) option" where
  "removeKey t data st =
     do { (p, st1) \<leftarrow> use_bucket t data st;
          (r, l) \<leftarrow> lf_remove t (reverseRegularKey data) p (lockfreelist st1);
          if \<not> r then Some (False, st1\<lparr>lockfreelist := l\<rparr>)
          else Some (True, st1\<lparr>lockfreelist := l, count := count st1 - 1\<rparr>) }"

definition findKey :: "nat \<Rightarrow> u32 \<Rightarrow> LockFreeHashTable \<Rightarrow> (bool \<times> int option \<times> LockFreeHashTable) option" where
  "findKey t data st =
     do { (p, st1) \<leftarrow> use_bucket t data st;
          (r, v, l) \<leftarrow> lf_lookup t (reverseRegularKey data) p (lockfreelist st1);
          Some (r, v, st1\<lparr>lockfreelist := l\<rparr>) }"

text \<open>The constructor inserts the regular key 0 with the value 0, from the constructing thread.\<close>

definition empty_table :: "nat \<Rightarrow> (nat \<Rightarrow> nat \<Rightarrow> ptr) \<Rightarrow> LockFreeHashTable" where
  "empty_table n mem =
     \<lparr>lockfreelist = new_LockFreeList n mem, buckets = replicate 2 NULL, count = 0, tsize = 2, loadFactor = 10\<rparr>"

definition new_LockFreeHashTable :: "nat \<Rightarrow> nat \<Rightarrow> (nat \<Rightarrow> nat \<Rightarrow> ptr) \<Rightarrow> LockFreeHashTable option" where
  "new_LockFreeHashTable t n mem = map_option snd (insertKey t 0 0 (empty_table n mem))"

definition delete_LockFreeHashTable :: "LockFreeHashTable \<Rightarrow> u32 LockFreeList option" where
  "delete_LockFreeHashTable st = delete_LockFreeList (lockfreelist st)"

definition ht_checkIntegrity :: "LockFreeHashTable \<Rightarrow> bool option" where
  "ht_checkIntegrity st = checkIntegrity (lockfreelist st)"

definition getSize :: "LockFreeHashTable \<Rightarrow> u32" where
  "getSize st = tsize st"

definition getCount :: "LockFreeHashTable \<Rightarrow> u32" where
  "getCount st = count st"

end
