(* ===== verification/Hash_Table_Correct.thy ===== *)
theory Hash_Table_Correct
  imports Lock_Free_Hash_Table
begin

unbundle bit_operations_syntax

text \<open>
  The hash table implements a map: its contents \<open>ht_map\<close> are what the regular nodes of the
  underlying list say, marker nodes and the table of shortcuts do not show. The proofs use the list
  through the interface \<open>hinted_map\<close> alone.
\<close>

section \<open>Split ordering\<close>

lemma reverseRegularKey_bit0 [simp]: "bit (reverseRegularKey k) 0"
  by (simp add: reverseRegularKey_def bit_reverse bit_simps)

lemma dummy_not_bit0: "unat b < 2 ^ 31 \<Longrightarrow> \<not> bit (reverse b) 0"
  using unat_less_no_bit [of b 31 31] by (simp add: bit_reverse)

lemma bucket_bits: "k mod 2 ^ j = k AND mask j" for k :: u32
  by (simp add: take_bit_eq_mod flip: take_bit_eq_mask)

text \<open>A key lies behind the marker of its bucket, and a bucket's marker behind its parent's.\<close>

lemma bucket_before_key:
  assumes "j \<le> 31"
  shows "reverseDummyKey (k mod 2 ^ j) < reverseRegularKey k"
proof -
  have "bits_within (k mod 2 ^ j) (k OR push_bit 31 1)"
    unfolding bits_within_def bucket_bits by (rule bit_eqI) (auto simp: bit_simps)
  moreover have "bit (k OR push_bit 31 1) 31" "\<not> bit (k mod 2 ^ j) 31"
    using assms unfolding bucket_bits by (auto simp: bit_simps)
  ultimately show ?thesis
    unfolding reverseDummyKey_def reverseRegularKey_def by (intro reverse_less) metis+
qed

lemma parent_before_bucket: "b \<noteq> 0 \<Longrightarrow> reverseDummyKey (getParent b) < reverseDummyKey b"
  unfolding reverseDummyKey_def using getParent_within reverse_less by blast

section \<open>Invariant\<close>

type_synonym node_map = "u32 \<Rightarrow> (ptr \<times> int option) option"

definition regular :: "node_map \<Rightarrow> u32 set" where
  "regular m = {k. m k \<noteq> None \<and> bit k 0}"

definition shortcuts_ok :: "ptr list \<Rightarrow> node_map \<Rightarrow> bool" where
  "shortcuts_ok bs m \<longleftrightarrow>
     (\<forall>b. unat b < length bs \<longrightarrow> bs ! unat b \<noteq> NULL \<longrightarrow> (\<exists>w. m (reverseDummyKey b) = Some (bs ! unat b, w)))"

definition ht_inv :: "nat \<Rightarrow> LockFreeHashTable \<Rightarrow> node_map \<Rightarrow> bool" where
  "ht_inv t st m \<longleftrightarrow> lf_rep t (lockfreelist st) m \<and> shortcuts_ok (buckets st) m \<and> loadFactor st = 10
     \<and> (\<exists>j. 1 \<le> j \<and> j \<le> 28 \<and> tsize st = 2 ^ j \<and> length (buckets st) = 2 ^ j)
     \<and> unat (count st) = card (regular m) \<and> (\<forall>k p w. bit k 0 \<longrightarrow> m k = Some (p, w) \<longrightarrow> w \<noteq> None)"

text \<open>The contents: the value of each key, a function of the key without its top bit.\<close>

definition ht_map :: "node_map \<Rightarrow> u32 \<Rightarrow> int option" where
  "ht_map m k = Option.bind (m (reverseRegularKey k)) snd"

definition nodes_used :: "LockFreeHashTable \<Rightarrow> nat" where
  "nodes_used st = brk (lockfreelist st)"

lemma unat_power: "j < 32 \<Longrightarrow> unat (2 ^ j :: u32) = 2 ^ j"
proof -
  assume "j < 32"
  then have "(2 :: nat) ^ j < 2 ^ 32" by (intro power_strict_increasing) auto
  then have "unat (word_of_nat (2 ^ j) :: u32) = 2 ^ j" by (simp add: unat_of_nat take_bit_nat_eq_self del: of_nat_power)
  then show ?thesis by simp
qed

text \<open>Maps that agree on regular keys.\<close>

definition same_regular :: "node_map \<Rightarrow> node_map \<Rightarrow> bool" where
  "same_regular m m' \<longleftrightarrow> (\<forall>k. bit k 0 \<longrightarrow> m' k = m k)"

lemma same_regular_map: "same_regular m m' \<Longrightarrow> ht_map m' = ht_map m \<and> regular m' = regular m"
  by (auto simp: same_regular_def ht_map_def regular_def fun_eq_iff)

lemma same_regular_refl: "same_regular m m"
  by (simp add: same_regular_def)

lemma same_regular_trans: "same_regular m m1 \<Longrightarrow> same_regular m1 m2 \<Longrightarrow> same_regular m m2"
  by (simp add: same_regular_def)

section \<open>Buckets\<close>

lemma initialize_bucket_place:
  "initialize_bucket t b st =
     do { (parent, st1) \<leftarrow>
            (if b \<noteq> 0 then
               (case bucket_at st (getParent b) of
                  None \<Rightarrow> None
                | Some p \<Rightarrow>
                    if p = NULL then map_option (Pair (getParent b)) (initialize_bucket t (getParent b) st)
                    else Some (getParent b, st))
             else Some (0, st));
          start \<leftarrow> bucket_at st1 parent;
          (x, l) \<leftarrow> lf_place t (reverseDummyKey b) start (lockfreelist st1);
          bs \<leftarrow> dq_set (buckets st1) (unat b) x;
          Some (st1\<lparr>lockfreelist := l, buckets := bs\<rparr>) }"
  by (subst initialize_bucket.simps, rule Option.bind_cong [OF refl]) (auto simp: lf_place_def split: Option.bind_splits)

text \<open>What initialising a bucket may change: markers and shortcuts.\<close>

definition same_table :: "nat \<Rightarrow> LockFreeHashTable \<Rightarrow> node_map \<Rightarrow> LockFreeHashTable \<Rightarrow> node_map \<Rightarrow> bool" where
  "same_table t st m st' m' \<longleftrightarrow> lf_rep t (lockfreelist st') m' \<and> shortcuts_ok (buckets st') m' \<and> same_regular m m'
     \<and> length (buckets st') = length (buckets st) \<and> count st' = count st \<and> tsize st' = tsize st \<and> loadFactor st' = loadFactor st"

lemma shortcuts_ok_upd:
  assumes "shortcuts_ok bs m" "m' (reverseDummyKey b) = Some (x, w)" "\<forall>k. k \<noteq> reverseDummyKey b \<longrightarrow> m' k = m k"
  shows "shortcuts_ok (bs[unat b := x]) m'"
  unfolding shortcuts_ok_def
proof (intro allI impI)
  fix c :: u32 assume c: "unat c < length (bs[unat b := x])" "bs[unat b := x] ! unat c \<noteq> NULL"
  show "\<exists>w. m' (reverseDummyKey c) = Some (bs[unat b := x] ! unat c, w)"
  proof (cases "c = b")
    case False
    then have "reverseDummyKey c \<noteq> reverseDummyKey b" "unat c \<noteq> unat b" using word_unat_eq_iff by (auto simp: reverseDummyKey_def)
    with assms(1,3) c show ?thesis by (auto simp: shortcuts_ok_def)
  qed (use assms(2) c in auto)
qed

lemma place_bucket:
  assumes "lf_rep t (lockfreelist st) m" "shortcuts_ok (buckets st) m" "hint m start (reverseDummyKey b)"
    and "unat b < length (buckets st)" "length (buckets st) \<le> 2 ^ 31" "nodes_used st < max_slots"
  obtains x l m' where "lf_place t (reverseDummyKey b) start (lockfreelist st) = Some (x, l)" "x \<noteq> NULL"
    "same_table t st m (st\<lparr>lockfreelist := l, buckets := (buckets st)[unat b := x]\<rparr>) m'" "brk l \<le> Suc (nodes_used st)"
proof -
  from lfl.place_hint [OF assms(1,3)] assms(6) obtain l x m' where
    p: "lf_place t (reverseDummyKey b) start (lockfreelist st) = Some (x, l)" "brk l \<le> Suc (nodes_used st)"
      "lf_rep t l m'" "x \<noteq> NULL" "\<exists>w. m' (reverseDummyKey b) = Some (x, w)" "\<forall>k. m k \<noteq> None \<longrightarrow> m' k = m k"
      "\<forall>k. k \<noteq> reverseDummyKey b \<longrightarrow> m' k = m k" unfolding nodes_used_def by metis
  have "\<not> bit (reverseDummyKey b) 0"
    using dummy_not_bit0 [of b] assms(4,5) by (simp add: reverseDummyKey_def)
  then have "same_regular m m'" using p(7) unfolding same_regular_def by metis
  with p shortcuts_ok_upd [OF assms(2) _ p(7)] show thesis
    by (intro that [of x l m']) (auto simp: same_table_def)
qed

lemma initialize_bucket_spec:
  assumes "lf_rep t (lockfreelist st) m" "shortcuts_ok (buckets st) m" "length (buckets st) \<le> 2 ^ 31"
    and "unat b < length (buckets st)" "unat b < 2 ^ n" "buckets st ! unat b = NULL" "nodes_used st + n < max_slots"
  shows "\<exists>st' m'. initialize_bucket t b st = Some st' \<and> same_table t st m st' m'
    \<and> buckets st' ! unat b \<noteq> NULL \<and> nodes_used st' \<le> nodes_used st + n + 1"
  using assms
proof (induction n arbitrary: b st m)
  case 0
  then have b: "b = 0" by (simp add: unat_eq_zero)
  have h: "hint m NULL (reverseDummyKey b)" by (simp add: hint_def)
  obtain x l m' where p: "lf_place t (reverseDummyKey b) NULL (lockfreelist st) = Some (x, l)" "x \<noteq> NULL"
    "same_table t st m (st\<lparr>lockfreelist := l, buckets := (buckets st)[unat b := x]\<rparr>) m'" "brk l \<le> Suc (nodes_used st)"
    using place_bucket [OF 0(1,2) h 0(4,3)] 0(7) by auto
  have "initialize_bucket t b st = Some (st\<lparr>lockfreelist := l, buckets := (buckets st)[unat b := x]\<rparr>)"
    using p(1) 0(4,6) b by (subst initialize_bucket_place) (simp add: bucket_at_def dq_at_def dq_set_def)
  with p 0(4) show ?case by (auto simp: nodes_used_def)
next
  case (Suc n)
  show ?case
  proof (cases "b = 0")
    case True
    with Suc.IH [OF Suc.prems(1-4)] Suc.prems show ?thesis by fastforce
  next
    case False
    let ?p = "getParent b"
    have pl: "unat ?p < length (buckets st)" "unat ?p < 2 ^ n"
      using getParent_less [OF False] Suc.prems(4) getParent_halves [OF False Suc.prems(5)]
      by (auto simp: word_less_nat_alt)
    obtain st1 m1 where s1: "(case bucket_at st ?p of None \<Rightarrow> None | Some p \<Rightarrow>
        if p = NULL then map_option (Pair ?p) (initialize_bucket t ?p st) else Some (?p, st)) = Some (?p, st1)"
      "same_table t st m st1 m1" "buckets st1 ! unat ?p \<noteq> NULL" "nodes_used st1 \<le> nodes_used st + n + 1"
    proof (cases "buckets st ! unat ?p = NULL")
      case True
      with Suc.IH [OF Suc.prems(1-3) pl True] Suc.prems(7) pl show thesis
        by (auto intro!: that simp: bucket_at_def dq_at_def)
    next
      case False
      with pl Suc.prems(1,2) show thesis
        by (intro that [of st m]) (auto simp: bucket_at_def dq_at_def same_table_def same_regular_refl)
    qed
    have len: "length (buckets st1) = length (buckets st)" and rep1: "lf_rep t (lockfreelist st1) m1"
      and sc1: "shortcuts_ok (buckets st1) m1" using s1(2) by (simp_all add: same_table_def)
    have "hint m1 (buckets st1 ! unat ?p) (reverseDummyKey b)"
      using sc1 s1(3) pl len parent_before_bucket [OF False] unfolding hint_def shortcuts_ok_def by metis
    moreover have b1: "unat b < length (buckets st1)" and l1: "length (buckets st1) \<le> 2 ^ 31"
      and room: "nodes_used st1 < max_slots" using len Suc.prems(3,4,7) s1(4) by simp_all
    ultimately obtain x l m2 where p: "lf_place t (reverseDummyKey b) (buckets st1 ! unat ?p) (lockfreelist st1) = Some (x, l)" "x \<noteq> NULL"
      "same_table t st1 m1 (st1\<lparr>lockfreelist := l, buckets := (buckets st1)[unat b := x]\<rparr>) m2" "brk l \<le> Suc (nodes_used st1)"
      using place_bucket [OF rep1 sc1 _ b1 l1 room] by blast
    have "initialize_bucket t b st = Some (st1\<lparr>lockfreelist := l, buckets := (buckets st1)[unat b := x]\<rparr>)"
      using False s1(1) p(1) pl(1) len Suc.prems(4) by (subst initialize_bucket_place) (simp add: bucket_at_def dq_at_def dq_set_def)
    moreover have "same_table t st m (st1\<lparr>lockfreelist := l, buckets := (buckets st1)[unat b := x]\<rparr>) m2"
      using s1(2) p(3) same_regular_trans unfolding same_table_def by metis
    ultimately show ?thesis using p(2,4) s1(4) len Suc.prems(4) by (auto simp: nodes_used_def)
  qed
qed

lemma ht_inv_same:
  assumes "ht_inv t st m" "same_table t st m st' m'"
  shows "ht_inv t st' m'" "ht_map m' = ht_map m"
proof -
  have r: "regular m' = regular m" "ht_map m' = ht_map m"
    using assms(2) same_regular_map unfolding same_table_def by blast+
  then show "ht_map m' = ht_map m" by simp
  have "\<forall>k p w. bit k 0 \<longrightarrow> m' k = Some (p, w) \<longrightarrow> w \<noteq> None"
    using assms unfolding ht_inv_def same_table_def same_regular_def by metis
  with assms r(1) show "ht_inv t st' m'" unfolding ht_inv_def same_table_def by simp
qed

lemma use_bucket_spec:
  assumes "ht_inv t st m" "nodes_used st + 31 < max_slots"
  obtains p st1 m1 where "use_bucket t k st = Some (p, st1)" "ht_inv t st1 m1" "ht_map m1 = ht_map m"
    "hint m1 p (reverseRegularKey k)" "nodes_used st1 \<le> nodes_used st + 32" "nodes_used st1 < max_slots"
    "count st1 = count st" "tsize st1 = tsize st" "regular m1 = regular m"
proof -
  obtain j where j: "1 \<le> j" "j \<le> 28" "tsize st = 2 ^ j" "length (buckets st) = 2 ^ j"
    using assms(1) by (auto simp: ht_inv_def)
  let ?b = "k mod tsize st"
  have b: "unat ?b < 2 ^ j" using j by (simp add: unat_mod unat_power)
  have rep: "lf_rep t (lockfreelist st) m" and sc: "shortcuts_ok (buckets st) m"
    using assms(1) by (auto simp: ht_inv_def)
  have len: "length (buckets st) \<le> 2 ^ 31"
    using j(2,4) power_increasing [of j 31 "2 :: nat"] by simp
  have "\<exists>st1 m1. (if buckets st ! unat ?b = NULL then initialize_bucket t ?b st else Some st) = Some st1
      \<and> same_table t st m st1 m1 \<and> buckets st1 ! unat ?b \<noteq> NULL \<and> nodes_used st1 \<le> nodes_used st + j + 1"
  proof (cases "buckets st ! unat ?b = NULL")
    case True
    with initialize_bucket_spec [OF rep sc len _ b True] b j assms(2) show ?thesis by auto
  next
    case False
    then show ?thesis using rep sc by (auto simp: same_table_def same_regular_refl)
  qed
  then obtain st1 m1 where s1: "(if buckets st ! unat ?b = NULL then initialize_bucket t ?b st else Some st) = Some st1"
    "same_table t st m st1 m1" "buckets st1 ! unat ?b \<noteq> NULL" "nodes_used st1 \<le> nodes_used st + j + 1" by blast
  have l1: "length (buckets st1) = 2 ^ j" and sc1: "shortcuts_ok (buckets st1) m1" and c1: "count st1 = count st" "tsize st1 = tsize st"
    using s1(2) j(4) by (simp_all add: same_table_def)
  obtain w where "m1 (reverseDummyKey ?b) = Some (buckets st1 ! unat ?b, w)"
    using sc1 s1(3) l1 b unfolding shortcuts_ok_def by metis
  then have "hint m1 (buckets st1 ! unat ?b) (reverseRegularKey k)"
    using bucket_before_key [of j k] j unfolding hint_def by auto
  moreover have "use_bucket t k st = Some (buckets st1 ! unat ?b, st1)"
    using s1(1) b j(4) l1 by (simp add: use_bucket_def bucket_at_def dq_at_def)
  moreover have "regular m1 = regular m" using s1(2) same_regular_map unfolding same_table_def by blast
  ultimately show thesis
    using ht_inv_same [OF assms(1) s1(2)] s1(4) j(2) assms(2) c1 by (intro that [of _ st1 m1]) auto
qed

section \<open>Operations on the contents\<close>

lemma ht_map_eq: "reverseRegularKey k' = reverseRegularKey k \<Longrightarrow> ht_map m k' = ht_map m k"
  by (simp add: ht_map_def)

lemma ht_map_None: "ht_inv t st m \<Longrightarrow> ht_map m k = None \<longleftrightarrow> m (reverseRegularKey k) = None"
  unfolding ht_inv_def ht_map_def by (cases "m (reverseRegularKey k)") (fastforce dest: spec [of _ "reverseRegularKey k"])+

lemma bit_top: "bit (push_bit 31 1 :: u32) n \<longleftrightarrow> n = 31"
  unfolding bit_push_bit_iff bit_1_iff by auto

lemma card_regular: "card (regular m) \<le> 2 ^ 31"
proof -
  have "regular m \<subseteq> reverseRegularKey ` word_of_nat ` {0 ..< 2 ^ 31}"
  proof
    fix k assume k: "k \<in> regular m"
    let ?d = "take_bit 31 (reverse k)"
    have "bit (reverse k OR push_bit 31 1) n = bit (?d OR push_bit 31 1) n" for n
      unfolding bit_or_iff bit_top bit_take_bit_iff using bit_reverse [of k n] by auto
    then have "reverse k OR push_bit 31 1 = ?d OR push_bit 31 1" by (rule bit_eqI)
    moreover have "reverse k OR push_bit 31 1 = reverse k"
      by (rule bit_eqI) (use k in \<open>auto simp only: bit_or_iff bit_top bit_reverse regular_def mem_Collect_eq diff_self_eq_0\<close>)
    ultimately have "k = reverseRegularKey ?d" unfolding reverseRegularKey_def by (metis reverse_reverse)
    moreover have "unat ?d < 2 ^ 31"
      using take_bit_nat_less_exp [of 31 "unat (reverse k)"] by (simp add: unsigned_take_bit_eq)
    ultimately show "k \<in> reverseRegularKey ` word_of_nat ` {0 ..< 2 ^ 31}"
      by (intro image_eqI [of _ _ ?d] image_eqI [of _ _ "unat ?d"]) auto
  qed
  then have "card (regular m) \<le> card (reverseRegularKey ` word_of_nat ` {0 ..< 2 ^ 31})"
    by (intro card_mono) auto
  also have "\<dots> \<le> card {0 ..< (2 :: nat) ^ 31}" by (intro order_trans [OF card_image_le] card_image_le) auto
  finally show ?thesis by simp
qed

lemma shortcuts_ok_more: "shortcuts_ok bs m \<Longrightarrow> shortcuts_ok (bs @ replicate n NULL) m"
  by (auto simp: shortcuts_ok_def nth_append)

lemma sint_power: "j \<le> 30 \<Longrightarrow> nat (sint (2 ^ j :: u32)) = 2 ^ j"
proof -
  assume j: "j \<le> 30"
  have "uint (2 ^ j :: u32) = int (unat (2 ^ j :: u32))" by (rule uint_nat)
  also have "unat (2 ^ j :: u32) = 2 ^ j" using j by (intro unat_power) simp
  finally have "uint (2 ^ j :: u32) = 2 ^ j" by simp
  moreover have "(2 :: int) ^ j \<le> 2 ^ 30" using j by (intro power_increasing) auto
  moreover have "signed_take_bit 31 ((2 :: int) ^ j) = 2 ^ j"
  proof (rule signed_take_bit_int_eq_self)
    show "- (2 ^ 31) \<le> (2 :: int) ^ j" by (rule order_trans [of _ 0]) auto
    show "(2 :: int) ^ j < 2 ^ 31" using \<open>(2 :: int) ^ j \<le> 2 ^ 30\<close> by (rule le_less_trans) simp
  qed
  ultimately show ?thesis by (simp add: sint_uint)
qed

lemma grow_table_spec:
  assumes "lf_rep t l m'" "shortcuts_ok (buckets st) m'" "loadFactor st = 10"
    and j: "1 \<le> j" "j \<le> 28" "tsize st = 2 ^ j" "length (buckets st) = 2 ^ j"
    and c: "card (regular m') = Suc (unat (count st))" "\<forall>k p w. bit k 0 \<longrightarrow> m' k = Some (p, w) \<longrightarrow> w \<noteq> None"
  shows "ht_inv t (grow_table (st\<lparr>lockfreelist := l\<rparr>)) m' \<and> nodes_used (grow_table (st\<lparr>lockfreelist := l\<rparr>)) = brk l"
proof -
  have uc: "unat (count st + 1) = Suc (unat (count st))"
    using card_regular [of m'] c(1) by (simp add: unat_word_ariths)
  show ?thesis
  proof (cases "(count st + 1) div 2 ^ j > (10 :: u32)")
    case False
    then show ?thesis
      using assms uc by (auto simp: grow_table_def Let_def ht_inv_def nodes_used_def)
  next
    case True
    then have "10 < unat (count st + 1) div 2 ^ j"
      using j by (simp add: word_less_nat_alt unat_div unat_power)
    then have "11 * 2 ^ j \<le> unat (count st + 1) div 2 ^ j * 2 ^ j" by (intro mult_le_mono1) simp
    then have "11 * 2 ^ j \<le> unat (count st + 1)" using div_times_less_eq_dividend order_trans by blast
    then have "11 * 2 ^ j \<le> (2 :: nat) ^ 31" using uc c(1) card_regular [of m'] by simp
    then have j27: "j \<le> 27"
    proof -
      have "\<not> 28 \<le> j"
      proof
        assume "28 \<le> j"
        then have "(2 :: nat) ^ 28 \<le> 2 ^ j" by (intro power_increasing) auto
        with \<open>11 * 2 ^ j \<le> (2 :: nat) ^ 31\<close> show False by simp
      qed
      then show ?thesis by simp
    qed
    have "grow_table (st\<lparr>lockfreelist := l\<rparr>) =
      st\<lparr>lockfreelist := l, count := count st + 1, buckets := buckets st @ replicate (2 ^ j) NULL, tsize := 2 ^ Suc j\<rparr>"
      using True assms(3) j sint_power [of j] by (simp add: grow_table_def Let_def)
    then show ?thesis
      using assms uc j27 shortcuts_ok_more [OF assms(2)]
      by (auto simp: ht_inv_def nodes_used_def intro!: exI [of _ "Suc j"])
  qed
qed

lemma ht_map_upd:
  "ht_map (m(reverseRegularKey k \<mapsto> (x, Some v))) k' = (if reverseRegularKey k' = reverseRegularKey k then Some v else ht_map m k')"
  "ht_map (m(reverseRegularKey k := None)) k' = (if reverseRegularKey k' = reverseRegularKey k then None else ht_map m k')"
  by (auto simp: ht_map_def)

lemma regular_add: "m (reverseRegularKey k) = None \<Longrightarrow>
    card (regular (m(reverseRegularKey k \<mapsto> y))) = Suc (card (regular m))"
proof -
  assume "m (reverseRegularKey k) = None"
  then have "regular (m(reverseRegularKey k \<mapsto> y)) = insert (reverseRegularKey k) (regular m)"
    "reverseRegularKey k \<notin> regular m" by (auto simp: regular_def)
  then show ?thesis by simp
qed

lemma regular_del: "m (reverseRegularKey k) \<noteq> None \<Longrightarrow>
    Suc (card (regular (m(reverseRegularKey k := None)))) = card (regular m)"
proof -
  assume "m (reverseRegularKey k) \<noteq> None"
  then have "regular (m(reverseRegularKey k := None)) = regular m - {reverseRegularKey k}"
    "reverseRegularKey k \<in> regular m" by (auto simp: regular_def)
  then show ?thesis using card_Suc_Diff1 [of "regular m" "reverseRegularKey k"] by simp
qed

lemma shortcuts_ok_regular:
  assumes "shortcuts_ok bs m" "length bs \<le> 2 ^ 31" "\<forall>k'. \<not> bit k' 0 \<longrightarrow> m' k' = m k'"
  shows "shortcuts_ok bs m'"
proof -
  have "m' (reverseDummyKey b) = m (reverseDummyKey b)" if "unat b < length bs" for b
    using dummy_not_bit0 [of b] that assms(2,3) by (simp add: reverseDummyKey_def)
  then show ?thesis using assms(1) by (simp add: shortcuts_ok_def)
qed

lemma ht_inv_len: "ht_inv t st m \<Longrightarrow> length (buckets st) \<le> 2 ^ 31"
  unfolding ht_inv_def using power_increasing [of _ 31 "2 :: nat"] by fastforce

lemma insertKey_spec:
  assumes "ht_inv t st m" "nodes_used st + 32 < max_slots"
  shows "\<exists>st' m'. insertKey t k v st = Some (ht_map m k = None, st') \<and> ht_inv t st' m'
    \<and> nodes_used st' \<le> nodes_used st + 33
    \<and> ht_map m' = (\<lambda>k'. if ht_map m k = None \<and> reverseRegularKey k' = reverseRegularKey k then Some v else ht_map m k')"
proof -
  have room: "nodes_used st + 31 < max_slots" using assms(2) by simp
  obtain p st1 m1 where
    u: "use_bucket t k st = Some (p, st1)" "ht_inv t st1 m1" "ht_map m1 = ht_map m"
      "hint m1 p (reverseRegularKey k)" "nodes_used st1 \<le> nodes_used st + 32" "nodes_used st1 < max_slots"
    by (rule use_bucket_spec [OF assms(1) room, of k])
  have rep: "lf_rep t (lockfreelist st1) m1" using u(2) by (simp add: ht_inv_def)
  from lfl.add_ok [OF rep u(4), of v] u(6) obtain l x where
    a: "lf_add t (reverseRegularKey k) v p (lockfreelist st1) = Some (m1 (reverseRegularKey k) = None, l)"
      "brk l \<le> Suc (nodes_used st1)"
      "lf_rep t l (if m1 (reverseRegularKey k) = None then m1(reverseRegularKey k \<mapsto> (x, Some v)) else m1)"
    by (auto simp: nodes_used_def)
  then obtain d where i: "lf_insert t (reverseRegularKey k) (Some v) p None (lockfreelist st1) = Some (m1 (reverseRegularKey k) = None, d, l)"
    by (auto simp: lf_add_def split: Option.bind_splits)
  have n: "ht_map m k = None \<longleftrightarrow> m1 (reverseRegularKey k) = None" using ht_map_None [OF u(2)] u(3) by simp
  show ?thesis
  proof (cases "m1 (reverseRegularKey k) = None")
    case False
    then have "lf_rep t l m1" using a(3) by (simp only: if_False)
    then have "ht_inv t (st1\<lparr>lockfreelist := l\<rparr>) m1" using u(2) by (simp add: ht_inv_def)
    with False n i u a(2) show ?thesis by (fastforce simp: insertKey_def nodes_used_def)
  next
    case True
    let ?m = "m1(reverseRegularKey k \<mapsto> (x, Some v))"
    obtain j where j: "1 \<le> j" "j \<le> 28" "tsize st1 = 2 ^ j" "length (buckets st1) = 2 ^ j" using u(2) by (auto simp: ht_inv_def)
    have sc: "shortcuts_ok (buckets st1) ?m"
      by (rule shortcuts_ok_regular [OF _ ht_inv_len [OF u(2)]]) (use u(2) in \<open>auto simp: ht_inv_def\<close>)
    have c: "card (regular ?m) = Suc (unat (count st1))" using regular_add [where m = m1, OF True] u(2) by (simp add: ht_inv_def)
    have g: "ht_inv t (grow_table (st1\<lparr>lockfreelist := l\<rparr>)) ?m \<and> nodes_used (grow_table (st1\<lparr>lockfreelist := l\<rparr>)) = brk l"
      by (rule grow_table_spec [OF _ sc _ j c]) (use a(3) True u(2) in \<open>auto simp: ht_inv_def\<close>)
    have "insertKey t k v st = Some (True, grow_table (st1\<lparr>lockfreelist := l\<rparr>))"
      using u(1) i True by (simp add: insertKey_def)
    moreover have "ht_map ?m = (\<lambda>k'. if ht_map m k = None \<and> reverseRegularKey k' = reverseRegularKey k then Some v else ht_map m k')"
      using True n u(3) by (auto simp: fun_eq_iff ht_map_upd)
    ultimately show ?thesis using g True n u(5) a(2) by fastforce
  qed
qed

lemma removeKey_spec:
  assumes "ht_inv t st m" "nodes_used st + 32 < max_slots"
  shows "\<exists>st' m'. removeKey t k st = Some (ht_map m k \<noteq> None, st') \<and> ht_inv t st' m'
    \<and> nodes_used st' \<le> nodes_used st + 32
    \<and> ht_map m' = (\<lambda>k'. if reverseRegularKey k' = reverseRegularKey k then None else ht_map m k')"
proof -
  have room: "nodes_used st + 31 < max_slots" using assms(2) by simp
  obtain p st1 m1 where
    u: "use_bucket t k st = Some (p, st1)" "ht_inv t st1 m1" "ht_map m1 = ht_map m"
      "hint m1 p (reverseRegularKey k)" "nodes_used st1 \<le> nodes_used st + 32"
    by (rule use_bucket_spec [OF assms(1) room, of k])
  have rep: "lf_rep t (lockfreelist st1) m1" using u(2) by (simp add: ht_inv_def)
  let ?m = "m1(reverseRegularKey k := None)"
  from lfl.del_ok [OF rep u(4)] obtain l where
    a: "lf_remove t (reverseRegularKey k) p (lockfreelist st1) = Some (m1 (reverseRegularKey k) \<noteq> None, l)"
      "brk l = nodes_used st1" "lf_rep t l ?m" by (auto simp: nodes_used_def)
  have n: "ht_map m k = None \<longleftrightarrow> m1 (reverseRegularKey k) = None" using ht_map_None [OF u(2)] u(3) by simp
  have hm: "ht_map ?m = (\<lambda>k'. if reverseRegularKey k' = reverseRegularKey k then None else ht_map m k')"
    using u(3) by (auto simp: fun_eq_iff ht_map_upd)
  show ?thesis
  proof (cases "m1 (reverseRegularKey k) = None")
    case True
    then have e: "?m = m1" by auto
    then have "ht_inv t (st1\<lparr>lockfreelist := l\<rparr>) m1" using u(2) a(3) by (simp add: ht_inv_def)
    with True n a(1,2) u hm e show ?thesis by (fastforce simp: removeKey_def nodes_used_def)
  next
    case False
    have uc: "unat (count st1) = Suc (card (regular ?m))"
      using regular_del [where m = m1, OF False] u(2) by (simp add: ht_inv_def)
    then have "count st1 \<noteq> 0" by auto
    with uc have c: "unat (count st1 - 1) = card (regular ?m)" by (simp add: unat_minus_one)
    have "shortcuts_ok (buckets st1) ?m"
      by (rule shortcuts_ok_regular [OF _ ht_inv_len [OF u(2)]]) (use u(2) in \<open>auto simp: ht_inv_def\<close>)
    with a(3) c u(2) have "ht_inv t (st1\<lparr>lockfreelist := l, count := count st1 - 1\<rparr>) ?m" by (auto simp: ht_inv_def)
    with False n a(1,2) u(1,5) hm show ?thesis by (fastforce simp: removeKey_def nodes_used_def)
  qed
qed

lemma findKey_spec:
  assumes "ht_inv t st m" "nodes_used st + 32 < max_slots"
  shows "\<exists>st' m'. findKey t k st = Some (ht_map m k \<noteq> None, ht_map m k, st') \<and> ht_inv t st' m'
    \<and> nodes_used st' \<le> nodes_used st + 32 \<and> ht_map m' = ht_map m"
proof -
  have room: "nodes_used st + 31 < max_slots" using assms(2) by simp
  obtain p st1 m1 where
    u: "use_bucket t k st = Some (p, st1)" "ht_inv t st1 m1" "ht_map m1 = ht_map m"
      "hint m1 p (reverseRegularKey k)" "nodes_used st1 \<le> nodes_used st + 32"
    by (rule use_bucket_spec [OF assms(1) room, of k])
  have rep: "lf_rep t (lockfreelist st1) m1" using u(2) by (simp add: ht_inv_def)
  from lfl.look_ok [OF rep u(4)] obtain l where
    a: "lf_lookup t (reverseRegularKey k) p (lockfreelist st1) = Some (m1 (reverseRegularKey k) \<noteq> None, ht_map m k, l)"
      "lf_rep t l m1" "brk l = nodes_used st1" using u(3) by (auto simp: nodes_used_def ht_map_def fun_eq_iff)
  have n: "ht_map m k = None \<longleftrightarrow> m1 (reverseRegularKey k) = None" using ht_map_None [OF u(2)] u(3) by simp
  have "ht_inv t (st1\<lparr>lockfreelist := l\<rparr>) m1" using u(2) a(2) by (simp add: ht_inv_def)
  with n a(1,3) u(1,3,5) show ?thesis by (fastforce simp: findKey_def nodes_used_def)
qed

section \<open>Construction\<close>

lemma ht_inv_empty:
  assumes "t < n" shows "ht_inv t (empty_table n mem) Map.empty"
proof -
  have "lf_rep t (new_LockFreeList n mem) (Map.empty :: node_map)"
    unfolding lf_rep_def using lf_inv_new [of n mem, where ?'a = u32] assms
    by (auto simp: new_LockFreeList_def new_HazardPointers_def intro!: exI [of _ "[]"])
  moreover have "shortcuts_ok (replicate 2 NULL) Map.empty" by (auto simp: shortcuts_ok_def)
  ultimately show ?thesis
    by (auto simp: ht_inv_def empty_table_def regular_def intro!: exI [of _ 1])
qed

lemma nodes_used_empty: "nodes_used (empty_table n mem) = 0"
  by (simp add: nodes_used_def empty_table_def new_LockFreeList_def)

lemma ht_map_empty [simp]: "ht_map (\<lambda>_. None) k = None"
  by (simp add: ht_map_def)

lemma new_table_spec:
  assumes "t < n"
  shows "\<exists>st m. new_LockFreeHashTable t n mem = Some st \<and> ht_inv t st m \<and> nodes_used st \<le> 33
    \<and> ht_map m = (\<lambda>k. if reverseRegularKey k = reverseRegularKey 0 then Some 0 else None)"
proof -
  have r: "nodes_used (empty_table n mem) + 32 < max_slots" by (simp add: nodes_used_empty max_slots_def)
  from insertKey_spec [OF ht_inv_empty [OF assms] r, of 0 0] show ?thesis
    unfolding new_LockFreeHashTable_def by (fastforce simp: nodes_used_empty cong: if_cong)
qed

section \<open>Properties\<close>

text \<open>
  C2. The hash table implements a map from keys (without their top bit) to values: on every
  well-formed table, \<^verbatim>\<open>findKey\<close> returns whether the key is present and its value,
  \<^verbatim>\<open>insertKey\<close> adds it iff absent, \<^verbatim>\<open>removeKey\<close> deletes it iff present; each returns, keeps the
  table well formed (the count is the number of keys, the size a power of two that never
  overflows, every shortcut leads to its marker) and leaves every other key alone, through bucket
  initialisation and resizing.
\<close>

theorem hash_table_implements_map:
  assumes "ht_inv t st m" "nodes_used st + 32 < max_slots"
  shows "(\<exists>st' m'. findKey t k st = Some (ht_map m k \<noteq> None, ht_map m k, st') \<and> ht_inv t st' m' \<and> ht_map m' = ht_map m)
    \<and> (\<exists>st' m'. insertKey t k v st = Some (ht_map m k = None, st') \<and> ht_inv t st' m'
         \<and> ht_map m' = (\<lambda>k'. if ht_map m k = None \<and> reverseRegularKey k' = reverseRegularKey k then Some v else ht_map m k'))
    \<and> (\<exists>st' m'. removeKey t k st = Some (ht_map m k \<noteq> None, st') \<and> ht_inv t st' m'
         \<and> ht_map m' = (\<lambda>k'. if reverseRegularKey k' = reverseRegularKey k then None else ht_map m k'))"
  using findKey_spec [OF assms, of k] insertKey_spec [OF assms, of k v] removeKey_spec [OF assms, of k] by blast

theorem hash_table_implements_map_witness:
  "\<exists>st' m'. insertKey 0 5 7 (empty_table 1 (\<lambda>_ _. 0)) = Some (True, st') \<and> ht_inv 0 st' m'
     \<and> ht_map m' = (\<lambda>k'. if reverseRegularKey k' = reverseRegularKey 5 then Some 7 else None)"
  using hash_table_implements_map [OF ht_inv_empty [of 0 1 "\<lambda>_ _. 0"], of 5 7]
  by (simp add: nodes_used_empty max_slots_def cong: if_cong)

text \<open>
  C38. The masks and shifts of \<^verbatim>\<open>reverse\<close> reverse the 32 bits of a word, so that applying it
  twice gives the word back.
\<close>

theorem reverse_reverses_bits:
  "(\<forall>n. bit (reverse x) n = (n < 32 \<and> bit x (31 - n))) \<and> reverse (reverse x) = x"
  by (simp add: bit_reverse)

text \<open>
  Bucket initialisation terminates and is consistent with the split ordering: the parent of a
  bucket other than 0 is a smaller bucket whose marker precedes the bucket's marker, and every key
  comes after the marker of its bucket for every table size the code can reach.
\<close>

theorem split_order:
  assumes "j \<le> 31"
  shows "reverseDummyKey (k mod 2 ^ j) < reverseRegularKey k
    \<and> (b \<noteq> 0 \<longrightarrow> getParent b < b \<and> reverseDummyKey (getParent b) < reverseDummyKey b)"
  using bucket_before_key [OF assms] parent_before_bucket getParent_less by blast

theorem split_order_witness:
  "reverseDummyKey (6 mod 2 ^ 1) < reverseRegularKey 6 \<and> getParent 6 < 6"
  using split_order [of 1 6 6] by simp

text \<open>
  Two keys that differ only in their top bit are one key to the table: \<^verbatim>\<open>reverseRegularKey\<close>
  sets that bit, so a lookup of a key that was never inserted returns the other key's value.
\<close>

theorem top_bit_ignored:
  assumes "ht_inv t st m" "nodes_used st + 65 < max_slots" "ht_map m k = None"
  shows "\<exists>st1 st2. insertKey t k v st = Some (True, st1) \<and> findKey t (k XOR push_bit 31 1) st1 = Some (True, Some v, st2)"
proof -
  have "nodes_used st + 32 < max_slots" using assms(2) by simp
  from insertKey_spec [OF assms(1) this, of k v] assms(3) obtain st1 m1 where
    i: "insertKey t k v st = Some (True, st1)" "ht_inv t st1 m1" "nodes_used st1 \<le> nodes_used st + 33"
      "ht_map m1 = (\<lambda>k'. if reverseRegularKey k' = reverseRegularKey k then Some v else ht_map m k')" by auto
  have "(k XOR push_bit 31 1) OR push_bit 31 1 = k OR push_bit 31 1"
    by (rule bit_eqI) (auto simp: bit_or_iff bit_xor_iff)
  then have "ht_map m1 (k XOR push_bit 31 1) = Some v" unfolding i(4) reverseRegularKey_def by simp
  moreover have "nodes_used st1 + 32 < max_slots" using i(3) assms(2) by simp
  ultimately show ?thesis using findKey_spec [OF i(2), of "k XOR push_bit 31 1"] i(1) by auto
qed

theorem top_bit_ignored_witness:
  "\<exists>st1 st2. insertKey 0 5 7 (empty_table 1 (\<lambda>_ _. 0)) = Some (True, st1)
     \<and> findKey 0 (5 XOR push_bit 31 1) st1 = Some (True, Some 7, st2)"
  using top_bit_ignored [OF ht_inv_empty [of 0 1 "\<lambda>_ _. 0"], of 5 7]
  by (simp only: nodes_used_empty max_slots_def ht_map_empty) simp

text \<open>
  A freshly constructed table is not empty: the constructor inserts the regular key 0 with
  value 0 instead of the marker its comment names, so that \<^verbatim>\<open>findKey(0)\<close> succeeds and
  \<^verbatim>\<open>insertKey(0, v)\<close> fails.
\<close>

theorem constructor_inserts_key_0:
  assumes "t < n"
  shows "\<exists>st m. new_LockFreeHashTable t n mem = Some st \<and> ht_inv t st m
    \<and> (\<exists>st'. findKey t 0 st = Some (True, Some 0, st')) \<and> (\<exists>st'. insertKey t 0 v st = Some (False, st'))"
proof -
  from new_table_spec [OF assms, of mem] obtain st m where
    n: "new_LockFreeHashTable t n mem = Some st" "ht_inv t st m" "nodes_used st \<le> 33" "ht_map m 0 = Some 0" by auto
  have "nodes_used st + 32 < max_slots" using n(3) by (simp add: max_slots_def)
  from findKey_spec [OF n(2) this, of 0] insertKey_spec [OF n(2) this, of 0 v] n show ?thesis by auto
qed

theorem constructor_inserts_key_0_witness:
  "\<exists>st st'. new_LockFreeHashTable 0 1 (\<lambda>_ _. 0) = Some st \<and> insertKey 0 0 10 st = Some (False, st')"
  using constructor_inserts_key_0 [of 0 1 "\<lambda>_ _. 0" 10] by auto

end
