(* ===== verification/State_Machine.thy ===== *)
theory State_Machine
  imports Prelude
begin

text \<open>
  Interleavings as sequences of labelled atomic actions: an action is a critical section or an
  atomic instruction of some thread, \<open>step\<close> performs it (\<open>None\<close>: the thread is blocked there), and a
  schedule is the list of actions in the order they happen. Invariants of every machine of the
  development are proved once, in the locale \<open>machine\<close>.
\<close>

fun exec :: "('l \<Rightarrow> 's \<Rightarrow> 's option) \<Rightarrow> 'l list \<Rightarrow> 's \<Rightarrow> 's option" where
  "exec step [] s = Some s"
| "exec step (l # ls) s = do { s' \<leftarrow> step l s; exec step ls s' }"

inductive reachable :: "('l \<Rightarrow> 's \<Rightarrow> 's option) \<Rightarrow> ('s \<Rightarrow> bool) \<Rightarrow> 's \<Rightarrow> bool" for step init where
  reach_init: "init s \<Longrightarrow> reachable step init s"
| reach_step: "reachable step init s \<Longrightarrow> step l s = Some s' \<Longrightarrow> reachable step init s'"

lemma exec_append: "exec step (xs @ ys) s = do { s' \<leftarrow> exec step xs s; exec step ys s' }"
  by (induction xs arbitrary: s) (simp_all split: Option.bind_splits)

lemma reachable_exec: "reachable step init s \<Longrightarrow> exec step ls s = Some s' \<Longrightarrow> reachable step init s'"
  by (induction ls arbitrary: s) (auto simp: Option.bind_eq_Some_conv intro: reach_step)

locale machine =
  fixes step :: "'l \<Rightarrow> 's \<Rightarrow> 's option" and init inv :: "'s \<Rightarrow> bool"
  assumes init_inv: "init s \<Longrightarrow> inv s"
    and step_inv: "inv s \<Longrightarrow> step l s = Some s' \<Longrightarrow> inv s'"
begin

lemma reachable_inv: "reachable step init s \<Longrightarrow> inv s"
  by (induction rule: reachable.induct) (auto intro: init_inv step_inv)

lemma exec_inv: "inv s \<Longrightarrow> exec step ls s = Some s' \<Longrightarrow> inv s'"
  by (induction ls arbitrary: s) (auto simp: Option.bind_eq_Some_conv dest: step_inv)

end

text \<open>Actions that lower a measure cannot go on for longer than the measure.\<close>

lemma exec_bounded:
  assumes "\<And>l s s'. I s \<Longrightarrow> P l \<Longrightarrow> step l s = Some s' \<Longrightarrow> I s' \<and> f s' < (f s :: nat)"
    and "I s" "list_all P ls" "exec step ls s = Some s'"
  shows "length ls + f s' \<le> f s"
  using assms(2-4)
proof (induction ls arbitrary: s)
  case (Cons l ls)
  then obtain s1 where s1: "step l s = Some s1" "exec step ls s1 = Some s'" by (auto simp: Option.bind_eq_Some_conv)
  with assms(1) [of s l s1] Cons have "I s1" "f s1 < f s" by auto
  with Cons.IH [of s1] Cons.prems s1 show ?case by auto
qed simp

end
