(* ===== verification/Lock_Free_Concurrent.thy ===== *)
theory Lock_Free_Concurrent
  imports Lock_Free_List_Correct State_Machine
begin

text \<open>
  The lock-free list (\<^verbatim>\<open>lock_free_list.hpp\<close>) and its hazard pointers (\<^verbatim>\<open>hazard_pointers.hpp\<close>) under
  every interleaving: each thread runs calls of \<^verbatim>\<open>insert\<close>, \<^verbatim>\<open>remove\<close> and \<^verbatim>\<open>lookup\<close>, and an action is one
  access to shared memory, that is to \<^verbatim>\<open>head_\<close>, to a field of a node, to a hazard pointer, or the
  deletion of a node. Memory is sequentially consistent, which the barriers of the code establish.
  The allocator may return any address that is not in use, those of deleted nodes included. A step
  of a thread that touches a node that is not allocated is \<open>None\<close>.

  A call may start at a node the list handed out before (\<^verbatim>\<open>start_\<close>), as the hash table does. Such
  nodes hold sentinel keys, the predicate \<open>sent\<close>, which are never removed.
\<close>

section \<open>State\<close>

text \<open>The flag of \<open>OpLookup\<close> says whether \<^verbatim>\<open>value\<close> is not NULL.\<close>

datatype op = OpInsert | OpRemove | OpLookup bool

text \<open>
  Where a thread is: \<open>PRet\<close> is outside of every call. The flag of the program points in \<^verbatim>\<open>retireNode\<close>
  says that \<^verbatim>\<open>lookupInternal\<close> called it, not \<^verbatim>\<open>remove\<close>. The hazard pointers are scanned in the order of
  \<open>q\<close>, where \<open>q\<close> stands for \<^verbatim>\<open>hazard_pointers[q mod 2]\<close> of thread \<open>q div 2\<close>.
\<close>

datatype pc = PRet
  | PNew | PLink | PInsCas | PDelete
  | PStart | PHp | PCheck1 | PNext | PUnlink | PKey | PCheck2 | PSwap0 | PSwap1 | PValue
  | PMark | PPhys
  | PRetire bool | PScan nat bool | PScanPut nat bool | PFree bool

text \<open>The parameters and local variables of the running call.\<close>

record 'k task =
  t_pc :: pc
  t_op :: op
  t_key :: 'k
  t_val :: "int option"
  t_start :: ptr
  t_dummy :: bool
  t_node :: ptr
  t_prev :: loc
  t_cur :: ptr
  t_next :: ptr
  t_ckey :: 'k
  t_temp :: ptr
  t_marked :: bool
  t_active :: "ptr list"
  t_rest :: "ptr list"
  t_res :: bool
  t_resval :: "int option"

record 'k cstate =
  c_heap :: "ptr \<Rightarrow> 'k Node option"
  c_head :: ptr
  c_hp :: "nat \<Rightarrow> nat \<Rightarrow> ptr"
  c_retired :: "nat \<Rightarrow> ptr list"
  c_task :: "nat \<Rightarrow> 'k task"
  c_dummies :: "(ptr \<times> 'k) list"

definition set_task :: "nat \<Rightarrow> 'k task \<Rightarrow> 'k cstate \<Rightarrow> 'k cstate" where
  "set_task t k s = s\<lparr>c_task := (c_task s)(t := k)\<rparr>"

definition put_hp :: "nat \<Rightarrow> nat \<Rightarrow> ptr \<Rightarrow> 'k cstate \<Rightarrow> 'k cstate" where
  "put_hp t j p s = s\<lparr>c_hp := (c_hp s)(t := (c_hp s t)(j := p))\<rparr>"

definition put_heap :: "ptr \<Rightarrow> 'k Node option \<Rightarrow> 'k cstate \<Rightarrow> 'k cstate" where
  "put_heap a v s = s\<lparr>c_heap := (c_heap s)(a := v)\<rparr>"

definition put_head :: "ptr \<Rightarrow> 'k cstate \<Rightarrow> 'k cstate" where
  "put_head p s = s\<lparr>c_head := p\<rparr>"

definition put_retired :: "nat \<Rightarrow> ptr list \<Rightarrow> 'k cstate \<Rightarrow> 'k cstate" where
  "put_retired t l s = s\<lparr>c_retired := (c_retired s)(t := l)\<rparr>"

definition hand_out :: "ptr \<Rightarrow> 'k task \<Rightarrow> 'k cstate \<Rightarrow> 'k cstate" where
  "hand_out a k s = (if t_dummy k then s\<lparr>c_dummies := (a, t_key k) # c_dummies s\<rparr> else s)"

section \<open>Access to memory\<close>

text \<open>
  \<^verbatim>\<open>*prev\<close>, where \<^verbatim>\<open>prev\<close> may point to the parameter \<^verbatim>\<open>start_\<close> of the thread's own call, and the
  compare-and-swap through \<^verbatim>\<open>prev\<close>.
\<close>

definition load :: "nat \<Rightarrow> loc \<Rightarrow> 'k cstate \<Rightarrow> ptr option" where
  "load t l s =
     (case l of HeadLoc \<Rightarrow> Some (c_head s) | StartLoc \<Rightarrow> Some (t_start (c_task s t))
      | NextLoc a \<Rightarrow> map_option node_next (c_heap s a))"

definition store :: "nat \<Rightarrow> loc \<Rightarrow> ptr \<Rightarrow> 'k cstate \<Rightarrow> 'k cstate" where
  "store t l p s =
     (case l of HeadLoc \<Rightarrow> put_head p s
      | StartLoc \<Rightarrow> set_task t ((c_task s t)\<lparr>t_start := p\<rparr>) s
      | NextLoc a \<Rightarrow>
          (case c_heap s a of None \<Rightarrow> s | Some n \<Rightarrow> put_heap a (Some (n\<lparr>node_next := p\<rparr>)) s))"

definition bool_cas :: "nat \<Rightarrow> loc \<Rightarrow> ptr \<Rightarrow> ptr \<Rightarrow> 'k cstate \<Rightarrow> (bool \<times> 'k cstate) option" where
  "bool_cas t l old new s =
     do { v \<leftarrow> load t l s; Some (if v = old then (True, store t l new s) else (False, s)) }"

section \<open>What a routine does after its last access\<close>

definition finish :: "bool \<Rightarrow> 'k task \<Rightarrow> 'k task" where
  "finish r k = k\<lparr>t_pc := PRet, t_res := r\<rparr>"

text \<open>
  \<^verbatim>\<open>lookupInternal\<close> returns \<open>r\<close> to its caller. The second call in \<^verbatim>\<open>remove\<close>, after the node has been
  marked (\<open>t_marked\<close>), only tidies up.
\<close>

definition lookup_return :: "bool \<Rightarrow> 'k task \<Rightarrow> 'k task" where
  "lookup_return r k =
     (case t_op k of
        OpLookup _ \<Rightarrow> finish r k
      | OpInsert \<Rightarrow> k\<lparr>t_pc := if r then PDelete else PLink\<rparr>
      | OpRemove \<Rightarrow> if t_marked k then finish True k else if r then k\<lparr>t_pc := PMark\<rparr> else finish False k)"

text \<open>The condition \<^verbatim>\<open>cur != NULL\<close> of the loop of \<^verbatim>\<open>lookupInternal\<close>.\<close>

definition loop_head :: "'k task \<Rightarrow> 'k task" where
  "loop_head k = (if t_cur k = NULL then lookup_return False k else k\<lparr>t_pc := PHp\<rparr>)"

definition resume :: "bool \<Rightarrow> 'k task \<Rightarrow> 'k task" where
  "resume b k = (if b then loop_head (k\<lparr>t_cur := unmark (t_next k)\<rparr>) else finish True k)"

definition start_loc :: "'k task \<Rightarrow> loc" where
  "start_loc k = (if t_start k \<noteq> NULL then StartLoc else HeadLoc)"

section \<open>The steps of a thread\<close>

definition again :: "nat \<Rightarrow> 'k cstate \<Rightarrow> 'k cstate" where
  "again t s = set_task t ((c_task s t)\<lparr>t_pc := PStart\<rparr>) s"

definition step_lookup :: "nat \<Rightarrow> ('k::linorder) cstate \<Rightarrow> 'k cstate option" where
  "step_lookup t s =
     (let k = c_task s t in
      case t_pc k of
        PStart \<Rightarrow> do { c \<leftarrow> load t (start_loc k) s;
                       Some (set_task t (loop_head (k\<lparr>t_prev := start_loc k, t_cur := c\<rparr>)) s) }
      | PHp \<Rightarrow> Some (set_task t (k\<lparr>t_pc := PCheck1\<rparr>) (put_hp t 0 (t_cur k) s))
      | PCheck1 \<Rightarrow> do { p \<leftarrow> load t (t_prev k) s;
                        Some (if p \<noteq> t_cur k then again t s else set_task t (k\<lparr>t_pc := PNext\<rparr>) s) }
      | PNext \<Rightarrow> do { n \<leftarrow> c_heap s (t_cur k);
                      Some (set_task t (k\<lparr>t_next := node_next n,
                              t_pc := if isMarked (node_next n) then PUnlink else PKey\<rparr>) s) }
      | PUnlink \<Rightarrow> do { (ok, s') \<leftarrow> bool_cas t (t_prev k) (t_cur k) (unmark (t_next k)) s;
                        Some (if \<not> ok then again t s' else set_task t ((c_task s' t)\<lparr>t_pc := PRetire True\<rparr>) s') }
      | PKey \<Rightarrow> do { n \<leftarrow> c_heap s (t_cur k);
                     Some (set_task t (k\<lparr>t_ckey := node_data n, t_pc := PCheck2\<rparr>) s) }
      | PCheck2 \<Rightarrow> do { p \<leftarrow> load t (t_prev k) s;
                        Some (if p \<noteq> t_cur k then again t s
                              else set_task t
                                (if t_ckey k \<ge> t_key k then
                                   if t_ckey k = t_key k then
                                     if t_op k = OpLookup True then k\<lparr>t_pc := PValue\<rparr> else lookup_return True k
                                   else lookup_return False k
                                 else k\<lparr>t_pc := PSwap0\<rparr>) s) }
      | PValue \<Rightarrow> do { n \<leftarrow> c_heap s (t_cur k);
                       Some (set_task t (lookup_return True (k\<lparr>t_resval := node_value n\<rparr>)) s) }
      | PSwap0 \<Rightarrow> Some (set_task t (k\<lparr>t_prev := NextLoc (t_cur k), t_temp := c_hp s t 0, t_pc := PSwap1\<rparr>)
                              (put_hp t 0 (c_hp s t 1) s))
      | PSwap1 \<Rightarrow> Some (set_task t (loop_head (k\<lparr>t_cur := t_next k\<rparr>)) (put_hp t 1 (t_temp k) s))
      | _ \<Rightarrow> None)"

text \<open>The loops over the threads and their hazard pointers are one loop over \<open>2 * n\<close> slots.\<close>

definition scan_next :: "nat \<Rightarrow> nat \<Rightarrow> bool \<Rightarrow> ptr list \<Rightarrow> 'k task \<Rightarrow> 'k task" where
  "scan_next n q b l k = (if Suc q < 2 * n then k\<lparr>t_pc := PScan (Suc q) b\<rparr> else k\<lparr>t_pc := PFree b, t_rest := l\<rparr>)"

definition step_retire :: "nat \<Rightarrow> nat \<Rightarrow> 'k cstate \<Rightarrow> 'k cstate option" where
  "step_retire n t s =
     (let k = c_task s t; l = c_retired s t in
      case t_pc k of
        PRetire b \<Rightarrow>
          (let l' = List.insert (t_cur k) l
           in Some (set_task t (if length l' > MAX_RETIRED_NODES_PER_THREAD
                                then k\<lparr>t_pc := PScan 0 b, t_active := []\<rparr> else resume b k)
                             (put_retired t l' s)))
      | PScan q b \<Rightarrow>
          Some (set_task t (if c_hp s (q div 2) (q mod 2) \<noteq> NULL then k\<lparr>t_pc := PScanPut q b\<rparr>
                            else scan_next n q b l k) s)
      | PScanPut q b \<Rightarrow>
          Some (set_task t (scan_next n q b l (k\<lparr>t_active := List.insert (c_hp s (q div 2) (q mod 2)) (t_active k)\<rparr>)) s)
      | PFree b \<Rightarrow>
          (case t_rest k of
             [] \<Rightarrow> Some (set_task t (resume b k) s)
           | a # r \<Rightarrow>
               if a \<in> set (t_active k) then Some (set_task t (k\<lparr>t_rest := r\<rparr>) s)
               else do { _ \<leftarrow> c_heap s a;
                         Some (set_task t (k\<lparr>t_rest := r\<rparr>) (put_retired t (remove1 a l) (put_heap a None s))) })
      | _ \<Rightarrow> None)"

definition step_insert :: "nat \<Rightarrow> 'k cstate \<Rightarrow> 'k cstate option" where
  "step_insert t s =
     (let k = c_task s t in
      case t_pc k of
        PLink \<Rightarrow> do { n \<leftarrow> c_heap s (t_node k);
                      Some (set_task t (k\<lparr>t_pc := PInsCas\<rparr>)
                              (put_heap (t_node k) (Some (n\<lparr>node_next := t_cur k\<rparr>)) s)) }
      | PInsCas \<Rightarrow> do { (ok, s') \<leftarrow> bool_cas t (t_prev k) (t_cur k) (t_node k) s;
                        Some (if \<not> ok then again t s'
                              else hand_out (t_node k) k
                                     (set_task t (finish True ((c_task s' t)\<lparr>t_node := NULL\<rparr>)) s')) }
      | PDelete \<Rightarrow> do { _ \<leftarrow> c_heap s (t_node k);
                        Some (hand_out (t_cur k) k
                                (set_task t (finish False (k\<lparr>t_node := NULL\<rparr>)) (put_heap (t_node k) None s))) }
      | _ \<Rightarrow> None)"

definition step_remove :: "nat \<Rightarrow> 'k cstate \<Rightarrow> 'k cstate option" where
  "step_remove t s =
     (let k = c_task s t in
      case t_pc k of
        PMark \<Rightarrow> do { (ok, s') \<leftarrow> bool_cas t (NextLoc (t_cur k)) (t_next k) (mark (t_next k)) s;
                      Some (if \<not> ok then again t s' else set_task t ((c_task s' t)\<lparr>t_marked := True, t_pc := PPhys\<rparr>) s') }
      | PPhys \<Rightarrow> do { (ok, s') \<leftarrow> bool_cas t (t_prev k) (t_cur k) (t_next k) s;
                      Some (if \<not> ok then again t s' else set_task t ((c_task s' t)\<lparr>t_pc := PRetire False\<rparr>) s') }
      | _ \<Rightarrow> None)"

definition step_thread :: "nat \<Rightarrow> nat \<Rightarrow> ('k::linorder) cstate \<Rightarrow> 'k cstate option" where
  "step_thread n t s =
     (case t_pc (c_task s t) of
        PRet \<Rightarrow> None | PNew \<Rightarrow> None
      | PLink \<Rightarrow> step_insert t s | PInsCas \<Rightarrow> step_insert t s | PDelete \<Rightarrow> step_insert t s
      | PMark \<Rightarrow> step_remove t s | PPhys \<Rightarrow> step_remove t s
      | PRetire _ \<Rightarrow> step_retire n t s | PScan _ _ \<Rightarrow> step_retire n t s
      | PScanPut _ _ \<Rightarrow> step_retire n t s | PFree _ \<Rightarrow> step_retire n t s
      | _ \<Rightarrow> step_lookup t s)"

section \<open>The machine\<close>

text \<open>
  A call from outside, the allocation of a node at an address the allocator chooses, or a step. The
  node of a call with \<^verbatim>\<open>dummyNode\<close> is allocated by the caller just before, with the same constructor.
\<close>

datatype 'k act = Call nat op 'k "int option" ptr bool | New nat ptr | Step nat

definition new_task :: "op \<Rightarrow> 'k \<Rightarrow> int option \<Rightarrow> ptr \<Rightarrow> bool \<Rightarrow> 'k task" where
  "new_task opn key val start dummy =
     \<lparr>t_pc = (if opn = OpInsert then PNew else PStart), t_op = opn, t_key = key, t_val = val, t_start = start,
      t_dummy = dummy, t_node = NULL, t_prev = HeadLoc, t_cur = NULL, t_next = NULL, t_ckey = key,
      t_temp = NULL, t_marked = False, t_active = [], t_rest = [], t_res = False, t_resval = None\<rparr>"

text \<open>
  What the callers keep to: sentinel keys are not removed, only a node with a sentinel key is handed
  out, and a call starts at the head or at a node that was handed out and does not come after the key.
\<close>

definition may_call :: "('k::linorder \<Rightarrow> bool) \<Rightarrow> op \<Rightarrow> 'k \<Rightarrow> ptr \<Rightarrow> bool \<Rightarrow> 'k cstate \<Rightarrow> bool" where
  "may_call sent opn key start dummy s \<longleftrightarrow>
     (opn = OpRemove \<longrightarrow> \<not> sent key) \<and> (dummy \<longrightarrow> opn = OpInsert \<and> sent key) \<and>
     (start = NULL \<or> list_ex (\<lambda>(a, k). a = start \<and> k \<le> key) (c_dummies s))"

fun lstep :: "nat \<Rightarrow> ('k::linorder \<Rightarrow> bool) \<Rightarrow> 'k act \<Rightarrow> 'k cstate \<Rightarrow> 'k cstate option" where
  "lstep n sent (Call t opn key val start dummy) s =
     (if t < n \<and> t_pc (c_task s t) = PRet \<and> may_call sent opn key start dummy s
      then Some (set_task t (new_task opn key val start dummy) s) else None)"
| "lstep n sent (New t a) s =
     (let k = c_task s t in
      if t_pc k = PNew \<and> a \<noteq> NULL \<and> aligned a \<and> c_heap s a = None
      then Some (set_task t (k\<lparr>t_node := a, t_pc := PStart\<rparr>)
                  (put_heap a (Some \<lparr>node_data = t_key k, node_value = t_val k, node_next = NULL\<rparr>) s))
      else None)"
| "lstep n sent (Step t) s = step_thread n t s"

definition idle_task :: "'k \<Rightarrow> 'k task" where
  "idle_task k = (new_task (OpLookup False) k None NULL False)\<lparr>t_pc := PRet\<rparr>"

text \<open>The constructor: an empty list, hazard pointers that hold whatever the memory \<open>mem\<close> held.\<close>

definition new_cstate :: "'k \<Rightarrow> (nat \<Rightarrow> nat \<Rightarrow> ptr) \<Rightarrow> 'k cstate" where
  "new_cstate k mem =
     \<lparr>c_heap = (\<lambda>_. None), c_head = NULL, c_hp = mem, c_retired = (\<lambda>_. []), c_task = (\<lambda>_. idle_task k), c_dummies = []\<rparr>"

text \<open>
  The two assignments that exchange \<^verbatim>\<open>hp[0]\<close> and \<^verbatim>\<open>hp[1]\<close> leave a window (\<open>PSwap1\<close>) in which neither
  slot holds the node the thread stands on. \<open>calm\<close> says of an action that it does not scan the first
  slot of a thread in that window.
\<close>

definition scans :: "pc \<Rightarrow> nat option" where
  "scans p = (case p of PScan q _ \<Rightarrow> Some q | PScanPut q _ \<Rightarrow> Some q | _ \<Rightarrow> None)"

fun calm :: "'k act \<Rightarrow> 'k cstate \<Rightarrow> bool" where
  "calm (Step t) s =
     (case scans (t_pc (c_task s t)) of None \<Rightarrow> True
      | Some q \<Rightarrow> q mod 2 = 0 \<longrightarrow> t_pc (c_task s (q div 2)) \<noteq> PSwap1)"
| "calm _ s = True"

definition calm_step :: "nat \<Rightarrow> ('k::linorder \<Rightarrow> bool) \<Rightarrow> 'k act \<Rightarrow> 'k cstate \<Rightarrow> 'k cstate option" where
  "calm_step n sent a s = (if calm a s then lstep n sent a s else None)"

section \<open>Abstraction\<close>

partial_function (option) walk :: "(ptr \<Rightarrow> 'k Node option) \<Rightarrow> ptr \<Rightarrow> ptr list option" where
  "walk h p =
     (if p = NULL then Some []
      else do { n \<leftarrow> h p; as \<leftarrow> walk h (unmark (node_next n)); Some (p # as) })"

declare walk.simps [code]

text \<open>The map a state stands for: the keys and values of the nodes on the list that are not marked.\<close>

definition contents :: "('k::linorder) cstate \<Rightarrow> 'k \<Rightarrow> int option option" where
  "contents s key =
     (case walk (c_heap s) (c_head s) of None \<Rightarrow> None
      | Some as \<Rightarrow> map_option snd (lf_map (c_heap s) as key))"

end
