(* ===== verification/Lock_Free_Protection.thy ===== *)
theory Lock_Free_Protection
  imports Lock_Free_Concurrent
begin

text \<open>
  The invariant of the lock-free list under interleavings and what hazard pointers protect. The
  invariant has a global part, on the chain of nodes and who owns which node, and one assertion per
  program point of every thread. A thread's assertion is kept by the steps of the others because the
  nodes it needs are protected by its hazard pointers; the proofs follow the kinds of steps, not their
  number.
\<close>

section \<open>Fields after a step\<close>

lemma set_task_fields [simp]:
  "c_heap (set_task t k s) = c_heap s" "c_head (set_task t k s) = c_head s" "c_hp (set_task t k s) = c_hp s"
  "c_retired (set_task t k s) = c_retired s" "c_dummies (set_task t k s) = c_dummies s"
  "c_task (set_task t k s) = (c_task s)(t := k)"
  by (simp_all add: set_task_def)

lemma put_hp_fields [simp]:
  "c_heap (put_hp t j p s) = c_heap s" "c_head (put_hp t j p s) = c_head s"
  "c_hp (put_hp t j p s) = (c_hp s)(t := (c_hp s t)(j := p))"
  "c_retired (put_hp t j p s) = c_retired s" "c_dummies (put_hp t j p s) = c_dummies s"
  "c_task (put_hp t j p s) = c_task s"
  by (simp_all add: put_hp_def)

lemma put_heap_fields [simp]:
  "c_heap (put_heap a v s) = (c_heap s)(a := v)" "c_head (put_heap a v s) = c_head s"
  "c_hp (put_heap a v s) = c_hp s" "c_retired (put_heap a v s) = c_retired s"
  "c_dummies (put_heap a v s) = c_dummies s" "c_task (put_heap a v s) = c_task s"
  by (simp_all add: put_heap_def)

lemma put_head_fields [simp]:
  "c_heap (put_head p s) = c_heap s" "c_head (put_head p s) = p"
  "c_hp (put_head p s) = c_hp s" "c_retired (put_head p s) = c_retired s"
  "c_dummies (put_head p s) = c_dummies s" "c_task (put_head p s) = c_task s"
  by (simp_all add: put_head_def)

lemma put_retired_fields [simp]:
  "c_heap (put_retired t l s) = c_heap s" "c_head (put_retired t l s) = c_head s"
  "c_hp (put_retired t l s) = c_hp s" "c_retired (put_retired t l s) = (c_retired s)(t := l)"
  "c_dummies (put_retired t l s) = c_dummies s" "c_task (put_retired t l s) = c_task s"
  by (simp_all add: put_retired_def)

lemma hand_out_fields [simp]:
  "c_heap (hand_out a k s) = c_heap s" "c_head (hand_out a k s) = c_head s"
  "c_hp (hand_out a k s) = c_hp s" "c_retired (hand_out a k s) = c_retired s"
  "c_dummies (hand_out a k s) = (if t_dummy k then [(a, t_key k)] else []) @ c_dummies s"
  "c_task (hand_out a k s) = c_task s"
  by (simp_all add: hand_out_def)

lemma store_fields [simp]:
  "c_hp (store t l p s) = c_hp s" "c_retired (store t l p s) = c_retired s"
  "c_dummies (store t l p s) = c_dummies s"
  "l \<noteq> StartLoc \<Longrightarrow> c_task (store t l p s) = c_task s"
  "u \<noteq> t \<Longrightarrow> c_task (store t l p s) u = c_task s u"
  by (auto simp: store_def split: loc.splits option.splits)

lemma task_after [simp]:
  "t_op (finish r k) = t_op k" "t_key (finish r k) = t_key k" "t_val (finish r k) = t_val k"
  "t_start (finish r k) = t_start k" "t_dummy (finish r k) = t_dummy k" "t_node (finish r k) = t_node k"
  "t_prev (finish r k) = t_prev k" "t_cur (finish r k) = t_cur k" "t_next (finish r k) = t_next k"
  "t_marked (finish r k) = t_marked k" "t_pc (finish r k) = PRet" "t_res (finish r k) = r"
  "t_resval (finish r k) = t_resval k" "t_active (finish r k) = t_active k"
  by (simp_all add: finish_def)

lemma task_return [simp]:
  "t_op (lookup_return r k) = t_op k" "t_key (lookup_return r k) = t_key k" "t_val (lookup_return r k) = t_val k"
  "t_start (lookup_return r k) = t_start k" "t_dummy (lookup_return r k) = t_dummy k"
  "t_node (lookup_return r k) = t_node k" "t_prev (lookup_return r k) = t_prev k"
  "t_cur (lookup_return r k) = t_cur k" "t_next (lookup_return r k) = t_next k"
  "t_marked (lookup_return r k) = t_marked k" "t_active (lookup_return r k) = t_active k"
  "t_resval (lookup_return r k) = t_resval k"
  by (simp_all add: lookup_return_def split: op.splits)

lemma task_loop_head [simp]:
  "t_op (loop_head k) = t_op k" "t_key (loop_head k) = t_key k" "t_val (loop_head k) = t_val k"
  "t_start (loop_head k) = t_start k" "t_dummy (loop_head k) = t_dummy k"
  "t_node (loop_head k) = t_node k" "t_prev (loop_head k) = t_prev k"
  "t_cur (loop_head k) = t_cur k" "t_next (loop_head k) = t_next k"
  "t_marked (loop_head k) = t_marked k" "t_active (loop_head k) = t_active k"
  "t_resval (loop_head k) = t_resval k"
  by (simp_all add: loop_head_def)

lemma task_resume [simp]:
  "t_op (resume b k) = t_op k" "t_key (resume b k) = t_key k" "t_val (resume b k) = t_val k"
  "t_start (resume b k) = t_start k" "t_dummy (resume b k) = t_dummy k"
  "t_node (resume b k) = t_node k" "t_prev (resume b k) = t_prev k"
  "t_next (resume b k) = t_next k" "t_marked (resume b k) = t_marked k" "t_active (resume b k) = t_active k"
  "t_resval (resume b k) = t_resval k"
  by (simp_all add: resume_def)

lemma task_scan_next [simp]:
  "t_op (scan_next n q b l k) = t_op k" "t_key (scan_next n q b l k) = t_key k" "t_val (scan_next n q b l k) = t_val k"
  "t_start (scan_next n q b l k) = t_start k" "t_dummy (scan_next n q b l k) = t_dummy k"
  "t_node (scan_next n q b l k) = t_node k" "t_prev (scan_next n q b l k) = t_prev k"
  "t_cur (scan_next n q b l k) = t_cur k" "t_next (scan_next n q b l k) = t_next k"
  "t_marked (scan_next n q b l k) = t_marked k" "t_active (scan_next n q b l k) = t_active k"
  "t_resval (scan_next n q b l k) = t_resval k"
  by (simp_all add: scan_next_def)

fun actor :: "'k act \<Rightarrow> nat" where
  "actor (Call t _ _ _ _ _) = t"
| "actor (New t _) = t"
| "actor (Step t) = t"

lemmas step_defs = step_thread_def step_lookup_def step_retire_def step_insert_def step_remove_def
  again_def bool_cas_def Let_def

lemma step_frame:
  assumes "lstep n sent a s = Some s'" "u \<noteq> actor a"
  shows "c_task s' u = c_task s u" "c_hp s' u = c_hp s u" "c_retired s' u = c_retired s u"
  using assms
  by (cases a; force simp: step_defs Let_def split: if_splits pc.splits list.splits Option.bind_splits)+

section \<open>The invariant\<close>

definition scan_pos :: "nat \<Rightarrow> 'k task \<Rightarrow> nat option" where
  "scan_pos n k = (case t_pc k of PScan q _ \<Rightarrow> Some q | PScanPut q _ \<Rightarrow> Some q | PFree _ \<Rightarrow> Some (2 * n) | _ \<Rightarrow> None)"

text \<open>
  Whoever has retired \<open>p\<close> and has scanned slot \<open>j\<close> of thread \<open>t\<close> has found \<open>p\<close> in use.
\<close>

definition guarded :: "nat \<Rightarrow> 'k cstate \<Rightarrow> nat \<Rightarrow> nat \<Rightarrow> ptr \<Rightarrow> bool" where
  "guarded n s t j p \<longleftrightarrow>
     (\<forall>u q. p \<in> set (c_retired s u) \<and> scan_pos n (c_task s u) = Some q \<and> 2 * t + j < q \<longrightarrow> p \<in> set (t_active (c_task s u)))"

definition unowned :: "'k cstate \<Rightarrow> ptr \<Rightarrow> bool" where
  "unowned s p \<longleftrightarrow> p \<in> dom (c_heap s) \<and> (\<forall>u. t_node (c_task s u) \<noteq> p)"

definition prot :: "nat \<Rightarrow> 'k cstate \<Rightarrow> nat \<Rightarrow> nat \<Rightarrow> ptr \<Rightarrow> bool" where
  "prot n s t j p \<longleftrightarrow> unowned s p \<and> c_hp s t j = p \<and> guarded n s t j p"

text \<open>What a thread owns: the nodes it has retired, the one it is about to retire, the one it is about to insert.\<close>

definition retiring :: "'k task \<Rightarrow> ptr set" where
  "retiring k = (case t_pc k of PRetire _ \<Rightarrow> {t_cur k} | _ \<Rightarrow> {})"

definition limbo :: "'k cstate \<Rightarrow> nat \<Rightarrow> ptr set" where
  "limbo s u = set (c_retired s u) \<union> retiring (c_task s u)"

definition held :: "'k cstate \<Rightarrow> nat \<Rightarrow> ptr set" where
  "held s u = limbo s u \<union> ({t_node (c_task s u)} - {NULL})"

text \<open>Every node is on the list or owned by one thread, and never both.\<close>

definition owns :: "'a set \<Rightarrow> 'a set \<Rightarrow> ('b \<Rightarrow> 'a set) \<Rightarrow> bool" where
  "owns D A h \<longleftrightarrow> D = A \<union> (\<Union>v. h v) \<and> (\<forall>v. h v \<inter> A = {}) \<and> (\<forall>v w. v \<noteq> w \<longrightarrow> h v \<inter> h w = {})"

lemma owns_update:
  assumes "owns D A h" "A' \<union> X \<subseteq> A \<union> h u \<union> F" "F \<inter> D = {}" "A' \<inter> X = {}" "D' = (D - (A \<union> h u)) \<union> A' \<union> X"
  shows "owns D' A' (h(u := X))"
proof -
  from assms(1) have D: "D = A \<union> (\<Union>v. h v)" and A: "\<And>v. h v \<inter> A = {}" and d: "\<And>v w. v \<noteq> w \<Longrightarrow> h v \<inter> h w = {}"
    by (simp_all add: owns_def)
  have o: "h v \<inter> (A' \<union> X) = {}" if "v \<noteq> u" for v
    using assms(2,3) D A [of v] d [OF that] by blast
  have "D' = A' \<union> (\<Union>v. (h(u := X)) v)"
  proof (rule set_eqI)
    fix x
    have "x \<notin> A \<union> h u" if "v \<noteq> u" "x \<in> h v" for v using A [of v] d [OF that(1)] that(2) by blast
    then have "x \<in> D - (A \<union> h u) \<longleftrightarrow> (\<exists>v. v \<noteq> u \<and> x \<in> h v)" unfolding D by auto
    then show "x \<in> D' \<longleftrightarrow> x \<in> A' \<union> (\<Union>v. (h(u := X)) v)" using assms(5) by auto
  qed
  moreover have "(h(u := X)) v \<inter> A' = {}" for v using o [of v] assms(4) by auto
  moreover have "(h(u := X)) v \<inter> (h(u := X)) w = {}" if "v \<noteq> w" for v w using o [of v] o [of w] d [OF that] that by auto
  ultimately show ?thesis unfolding owns_def by blast
qed

definition glob :: "('k::linorder \<Rightarrow> bool) \<Rightarrow> 'k cstate \<Rightarrow> ptr list \<Rightarrow> bool" where
  "glob sent s as \<longleftrightarrow>
     chain (c_heap s) (c_head s) as \<and> sorted_wrt (<) (map (node_key (c_heap s)) as) \<and>
     (\<forall>a \<in> dom (c_heap s). a \<noteq> NULL \<and> aligned a \<and> (sent (node_key (c_heap s) a) \<longrightarrow> live (c_heap s) a)) \<and>
     owns (dom (c_heap s)) (set as) (held s) \<and>
     (\<forall>u. distinct (c_retired s u) \<and> retiring (c_task s u) \<inter> set (c_retired s u) = {} \<and> t_node (c_task s u) \<notin> limbo s u) \<and>
     (\<forall>u. \<forall>a \<in> limbo s u. \<not> live (c_heap s) a) \<and>
     (\<forall>(a, k) \<in> set (c_dummies s). a \<in> set as \<and> node_key (c_heap s) a = k \<and> sent k)"

definition prev_ok :: "nat \<Rightarrow> ('k::linorder) cstate \<Rightarrow> nat \<Rightarrow> bool" where
  "prev_ok n s t \<longleftrightarrow>
     (case t_prev (c_task s t) of HeadLoc \<Rightarrow> True | StartLoc \<Rightarrow> t_start (c_task s t) \<noteq> NULL
      | NextLoc p \<Rightarrow> prot n s t 1 p \<and> node_key (c_heap s) p < t_key (c_task s t))"

abbreviation cur_ok :: "nat \<Rightarrow> 'k cstate \<Rightarrow> nat \<Rightarrow> bool" where
  "cur_ok n s t \<equiv> prot n s t 0 (t_cur (c_task s t))"

abbreviation entered :: "('k::linorder) task \<Rightarrow> bool" where
  "entered k \<equiv> t_prev k = StartLoc \<longrightarrow> t_cur k = t_start k"

text \<open>Between \<^verbatim>\<open>prev\<close> and \<^verbatim>\<open>cur\<close> is the place of the key.\<close>

definition placed_at :: "nat \<Rightarrow> ('k::linorder) cstate \<Rightarrow> nat \<Rightarrow> bool" where
  "placed_at n s t \<longleftrightarrow>
     (let k = c_task s t in t_op k = OpInsert \<and> prev_ok n s t \<and> t_prev k \<noteq> StartLoc \<and> aligned (t_cur k) \<and>
        (t_cur k \<noteq> NULL \<longrightarrow> cur_ok n s t \<and> t_key k < node_key (c_heap s) (t_cur k)))"

definition at_pc :: "nat \<Rightarrow> ('k::linorder) cstate \<Rightarrow> nat \<Rightarrow> bool" where
  "at_pc n s t \<longleftrightarrow>
     (let k = c_task s t; h = c_heap s in
      case t_pc k of
        PRet \<Rightarrow> True
      | PNew \<Rightarrow> t_op k = OpInsert
      | PLink \<Rightarrow> placed_at n s t
      | PInsCas \<Rightarrow> placed_at n s t \<and> node_next (the (h (t_node k))) = t_cur k
      | PDelete \<Rightarrow> t_op k = OpInsert \<and> cur_ok n s t \<and> node_key h (t_cur k) = t_key k
      | PStart \<Rightarrow> True
      | PHp \<Rightarrow> prev_ok n s t \<and> t_cur k \<noteq> NULL \<and> aligned (t_cur k)
      | PCheck1 \<Rightarrow> prev_ok n s t \<and> t_cur k \<noteq> NULL \<and> aligned (t_cur k) \<and> c_hp s t 0 = t_cur k
      | PNext \<Rightarrow> prev_ok n s t \<and> cur_ok n s t \<and> entered k
      | PUnlink \<Rightarrow> prev_ok n s t \<and> cur_ok n s t \<and> t_prev k \<noteq> StartLoc \<and> \<not> live h (t_cur k)
                  \<and> node_next (the (h (t_cur k))) = t_next k
      | PKey \<Rightarrow> prev_ok n s t \<and> cur_ok n s t \<and> entered k \<and> aligned (t_next k)
      | PCheck2 \<Rightarrow> prev_ok n s t \<and> cur_ok n s t \<and> entered k \<and> aligned (t_next k) \<and> t_ckey k = node_key h (t_cur k)
      | PSwap0 \<Rightarrow> cur_ok n s t \<and> aligned (t_next k) \<and> node_key h (t_cur k) < t_key k
      | PSwap1 \<Rightarrow> t_prev k = NextLoc (t_temp k) \<and> unowned s (t_temp k) \<and> guarded n s t 0 (t_temp k)
                  \<and> node_key h (t_temp k) < t_key k \<and> aligned (t_next k)
      | PValue \<Rightarrow> t_op k = OpLookup True \<and> cur_ok n s t \<and> node_key h (t_cur k) = t_key k
      | PMark \<Rightarrow> t_op k = OpRemove \<and> \<not> t_marked k \<and> prev_ok n s t \<and> t_prev k \<noteq> StartLoc \<and> cur_ok n s t
                  \<and> node_key h (t_cur k) = t_key k \<and> aligned (t_next k)
      | PPhys \<Rightarrow> t_op k = OpRemove \<and> t_marked k \<and> prev_ok n s t \<and> t_prev k \<noteq> StartLoc \<and> cur_ok n s t
                  \<and> node_next (the (h (t_cur k))) = mark (t_next k) \<and> aligned (t_next k)
      | PRetire b \<Rightarrow> if b then prev_ok n s t \<and> t_prev k \<noteq> StartLoc else t_op k = OpRemove \<and> t_marked k
      | PScan q b \<Rightarrow> q < 2 * n \<and> (if b then prev_ok n s t \<and> t_prev k \<noteq> StartLoc else t_op k = OpRemove \<and> t_marked k)
      | PScanPut q b \<Rightarrow> q < 2 * n \<and> (if b then prev_ok n s t \<and> t_prev k \<noteq> StartLoc else t_op k = OpRemove \<and> t_marked k)
      | PFree b \<Rightarrow> distinct (t_rest k) \<and> set (t_rest k) \<subseteq> set (c_retired s t)
                  \<and> (if b then prev_ok n s t \<and> t_prev k \<noteq> StartLoc else t_op k = OpRemove \<and> t_marked k))"

text \<open>What holds at every point of a call.\<close>

definition call_ok :: "nat \<Rightarrow> ('k::linorder \<Rightarrow> bool) \<Rightarrow> 'k cstate \<Rightarrow> nat \<Rightarrow> bool" where
  "call_ok n sent s t \<longleftrightarrow>
     (let k = c_task s t in
      (t_pc k \<noteq> PRet \<longrightarrow> t < n \<and> (t_start k = NULL \<or> (\<exists>k'. (t_start k, k') \<in> set (c_dummies s) \<and> k' \<le> t_key k))) \<and>
      (t_node k \<noteq> NULL \<longleftrightarrow> t_op k = OpInsert \<and> t_pc k \<noteq> PNew \<and> t_pc k \<noteq> PRet) \<and>
      (t_node k \<noteq> NULL \<longrightarrow> live (c_heap s) (t_node k) \<and> node_key (c_heap s) (t_node k) = t_key k
         \<and> node_value (the (c_heap s (t_node k))) = t_val k) \<and>
      (t_op k = OpRemove \<longrightarrow> \<not> sent (t_key k)) \<and> (t_dummy k \<longrightarrow> t_op k = OpInsert \<and> sent (t_key k)) \<and>
      (t_marked k \<longrightarrow> t_op k = OpRemove))"

definition cinv :: "nat \<Rightarrow> ('k::linorder \<Rightarrow> bool) \<Rightarrow> 'k cstate \<Rightarrow> bool" where
  "cinv n sent s \<longleftrightarrow> (\<exists>as. glob sent s as) \<and> (\<forall>t. call_ok n sent s t \<and> at_pc n s t)"

section \<open>Protection\<close>

lemma scan_pos_simps [simp]:
  "t_pc k = PScan q b \<Longrightarrow> scan_pos n k = Some q" "t_pc k = PScanPut q b \<Longrightarrow> scan_pos n k = Some q"
  "t_pc k = PFree b \<Longrightarrow> scan_pos n k = Some (2 * n)"
  by (simp_all add: scan_pos_def)

lemma scan_pos_scan_next [simp]: "q < 2 * n \<Longrightarrow> scan_pos n (scan_next n q b l k) = Some (Suc q)"
  by (auto simp: scan_next_def scan_pos_def)

lemma scan_pos_none [simp]:
  "scan_pos n (finish r k) = None" "scan_pos n (lookup_return r k) = None"
  "scan_pos n (loop_head k) = None" "scan_pos n (resume b k) = None"
  by (auto simp: scan_pos_def lookup_return_def loop_head_def resume_def split: op.splits)

text \<open>How a step moves the actor's scan.\<close>

lemma scan_moves:
  assumes "lstep n sent a s = Some s'" "u = actor a" "at_pc n s u"
  shows "scan_pos n (c_task s' u) = None \<or> scan_pos n (c_task s' u) = Some 0
    \<or> (scan_pos n (c_task s' u) = scan_pos n (c_task s u) \<and> t_active (c_task s' u) = t_active (c_task s u)
        \<and> set (c_retired s' u) \<subseteq> set (c_retired s u))
    \<or> (\<exists>q. scan_pos n (c_task s u) = Some q \<and> scans (t_pc (c_task s u)) = Some q \<and> scan_pos n (c_task s' u) = Some (Suc q)
        \<and> c_retired s' u = c_retired s u
        \<and> set (t_active (c_task s' u)) \<union> {NULL} = insert (c_hp s (q div 2) (q mod 2)) (set (t_active (c_task s u))) \<union> {NULL})"
proof (cases a)
  case (Step v)
  with assms have s': "step_thread n u s = Some s'" "a = Step u" by auto
  show ?thesis
  proof (cases "t_pc (c_task s u)")
    case (PScan q b)
    with s' assms(3) show ?thesis by (auto simp: step_defs at_pc_def scans_def split: if_splits)
  next
    case (PScanPut q b)
    with s' assms(3) show ?thesis by (auto simp: step_defs at_pc_def scans_def)
  next
    case (PFree b)
    with s' show ?thesis
      by (auto simp: step_defs split: list.splits if_splits Option.bind_splits dest: set_mp [OF set_remove1_subset])
  next
    case (PRetire b)
    with s' have "scan_pos n (c_task s' u) = None \<or> scan_pos n (c_task s' u) = Some 0"
      by (cases "MAX_RETIRED_NODES_PER_THREAD < length (List.insert (t_cur (c_task s u)) (c_retired s u))")
        (auto simp: step_defs)
    then show ?thesis by blast
  qed (use s' in \<open>auto simp: step_defs scan_pos_def lookup_return_def loop_head_def split: if_splits Option.bind_splits op.splits\<close>)
qed (use assms in \<open>auto simp: new_task_def scan_pos_def Let_def split: if_splits\<close>)

lemma guarded_step:
  assumes "lstep n sent a s = Some s'" "calm a s" "at_pc n s (actor a)" "guarded n s t j p" "p \<noteq> NULL" "j < 2"
    and "c_hp s t j = p \<or> j = 0 \<and> t_pc (c_task s t) = PSwap1"
  shows "guarded n s' t j p"
  unfolding guarded_def
proof (intro allI impI, elim conjE)
  fix u q assume u: "p \<in> set (c_retired s' u)" "scan_pos n (c_task s' u) = Some q" "2 * t + j < q"
  show "p \<in> set (t_active (c_task s' u))"
  proof (cases "u = actor a")
    case False
    with u assms(4) step_frame [OF assms(1) False] show ?thesis by (auto simp: guarded_def)
  next
    case True
    from scan_moves [OF assms(1) True] assms(3) True u consider
      (stay) "scan_pos n (c_task s u) = Some q" "t_active (c_task s' u) = t_active (c_task s u)"
        "set (c_retired s' u) \<subseteq> set (c_retired s u)"
    | (move) r where "scan_pos n (c_task s u) = Some r" "q = Suc r" "c_retired s' u = c_retired s u"
        "scans (t_pc (c_task s u)) = Some r"
        "set (t_active (c_task s' u)) \<union> {NULL} = insert (c_hp s (r div 2) (r mod 2)) (set (t_active (c_task s u))) \<union> {NULL}"
      by fastforce
    then show ?thesis
    proof cases
      case stay
      with u assms(4) show ?thesis by (auto simp: guarded_def)
    next
      case move
      have "a = Step u" using True move(4) assms(1) by (cases a) (auto simp: scans_def Let_def split: if_splits)
      then have calm: "r mod 2 = 0 \<longrightarrow> t_pc (c_task s (r div 2)) \<noteq> PSwap1" using assms(2) move(4) by simp
      show ?thesis
      proof (cases "2 * t + j = r")
        case True
        then have "r div 2 = t" "r mod 2 = j" using assms(6) by auto
        with calm assms(7) have "c_hp s (r div 2) (r mod 2) = p" by auto
        with move(5) assms(5) show ?thesis by blast
      next
        case False
        with u move have "p \<in> set (t_active (c_task s u))" using assms(4) by (auto simp: guarded_def)
        with move(5) assms(5) show ?thesis by blast
      qed
    qed
  qed
qed

section \<open>Kinds of steps\<close>

text \<open>A step that leaves the nodes, and who owns them, as they are.\<close>

definition quiet :: "'k cstate \<Rightarrow> 'k cstate \<Rightarrow> bool" where
  "quiet s s' \<longleftrightarrow> c_heap s' = c_heap s \<and> c_head s' = c_head s \<and> c_dummies s' = c_dummies s \<and> c_retired s' = c_retired s
     \<and> (\<forall>u. t_node (c_task s' u) = t_node (c_task s u) \<and> retiring (c_task s' u) = retiring (c_task s u))"

lemma retiring_simps [simp]:
  "retiring (finish r k) = {}" "retiring (lookup_return r k) = {}" "retiring (loop_head k) = {}"
  "retiring (resume b k) = {}" "retiring (scan_next n q b l k) = {}"
  by (auto simp: retiring_def lookup_return_def loop_head_def resume_def scan_next_def split: op.splits)

lemma retiring_pc: "\<forall>b. t_pc k \<noteq> PRetire b \<Longrightarrow> retiring k = {}"
  by (auto simp: retiring_def split: pc.splits)

lemma step_quiet:
  assumes "step_thread n t s = Some s'" "k = c_task s t" "\<forall>b. t_pc k \<noteq> PRetire b \<and> t_pc k \<noteq> PFree b"
    and "t_pc k \<notin> {PLink, PInsCas, PDelete, PUnlink, PMark, PPhys}"
  shows "quiet s s'"
  using assms
  by (cases "t_pc k") (auto simp: step_defs quiet_def retiring_pc split: Option.bind_splits if_splits)

lemma step_cases:
  assumes "lstep n sent a s = Some s'" "call_ok n sent s (actor a)" "at_pc n s (actor a)" "k = c_task s t" "t = actor a"
  obtains (quiet) "quiet s s'"
  | (alloc) x where "a = New t x" "t_pc k = PNew" "x \<noteq> NULL" "aligned x" "c_heap s x = None"
      "s' = set_task t (k\<lparr>t_node := x, t_pc := PStart\<rparr>)
              (put_heap x (Some \<lparr>node_data = t_key k, node_value = t_val k, node_next = NULL\<rparr>) s)"
  | (link) nd where "t_pc k = PLink" "c_heap s (t_node k) = Some nd"
      "s' = set_task t (k\<lparr>t_pc := PInsCas\<rparr>) (put_heap (t_node k) (Some (nd\<lparr>node_next := t_cur k\<rparr>)) s)"
  | (publish) "t_pc k = PInsCas" "load t (t_prev k) s = Some (t_cur k)"
      "s' = hand_out (t_node k) k (set_task t (finish True (k\<lparr>t_node := NULL\<rparr>)) (store t (t_prev k) (t_node k) s))"
  | (discard) "t_pc k = PDelete" "t_node k \<in> dom (c_heap s)"
      "s' = hand_out (t_cur k) k (set_task t (finish False (k\<lparr>t_node := NULL\<rparr>)) (put_heap (t_node k) None s))"
  | (unlink) b where "t_pc k = PUnlink \<and> b \<or> t_pc k = PPhys \<and> \<not> b" "load t (t_prev k) s = Some (t_cur k)"
      "s' = set_task t (k\<lparr>t_pc := PRetire b\<rparr>) (store t (t_prev k) (unmark (t_next k)) s)"
  | (marks) nd where "t_pc k = PMark" "c_heap s (t_cur k) = Some nd" "node_next nd = t_next k"
      "s' = set_task t (k\<lparr>t_marked := True, t_pc := PPhys\<rparr>) (put_heap (t_cur k) (Some (nd\<lparr>node_next := mark (t_next k)\<rparr>)) s)"
  | (retire) b k' where "t_pc k = PRetire b"
      "k' = (if length (List.insert (t_cur k) (c_retired s t)) > MAX_RETIRED_NODES_PER_THREAD
             then k\<lparr>t_pc := PScan 0 b, t_active := []\<rparr> else resume b k)"
      "s' = set_task t k' (put_retired t (List.insert (t_cur k) (c_retired s t)) s)"
  | (free) b x r where "t_pc k = PFree b" "t_rest k = x # r" "x \<notin> set (t_active k)"
      "s' = set_task t (k\<lparr>t_rest := r\<rparr>) (put_retired t (remove1 x (c_retired s t)) (put_heap x None s))"
proof (cases a)
  case (Call t' opn key val start dummy)
  with assms(1,2) have "t_node (c_task s t') = NULL" "t_pc (c_task s t') = PRet"
    "s' = set_task t' (new_task opn key val start dummy) s"
    by (auto simp: call_ok_def Let_def split: if_splits)
  then show thesis by (intro quiet) (auto simp: quiet_def new_task_def retiring_def)
next
  case (New t' x)
  with assms(1,4,5) show thesis by (intro alloc [of x]) (auto simp: Let_def split: if_splits)
next
  case (Step t')
  with assms have s': "step_thread n t s = Some s'" "at_pc n s t" by auto
  show thesis
  proof (cases "t_pc k")
    case PLink
    with s' assms(4) show thesis by (auto simp: step_defs split: Option.bind_splits intro: link)
  next
    case PInsCas
    with s' assms(4) have "t_prev k \<noteq> StartLoc" by (simp add: at_pc_def placed_at_def Let_def)
    with PInsCas s' assms(4) show thesis
      by (auto simp: step_defs quiet_def retiring_def split: Option.bind_splits if_splits intro: publish quiet)
  next
    case PDelete
    with s' assms(4) show thesis by (auto simp: step_defs split: Option.bind_splits intro: discard)
  next
    case PUnlink
    with s' assms(4) have "t_prev k \<noteq> StartLoc" by (simp add: at_pc_def Let_def)
    with PUnlink s' assms(4) show thesis
      by (auto simp: step_defs quiet_def retiring_def split: Option.bind_splits if_splits intro: unlink [of True] quiet)
  next
    case PPhys
    with s' assms(4) have "t_prev k \<noteq> StartLoc" "unmark (t_next k) = t_next k"
      by (auto simp: at_pc_def Let_def mb.clear_clean)
    with PPhys s' assms(4) show thesis
      by (auto simp: step_defs quiet_def retiring_def split: Option.bind_splits if_splits intro: unlink [of False] quiet)
  next
    case PMark
    with s' assms(4) show thesis
      by (auto simp: step_defs load_def store_def quiet_def retiring_def split: Option.bind_splits if_splits intro: marks quiet)
  next
    case (PRetire b)
    with s' assms(4) show thesis by (auto simp: step_defs intro: retire)
  next
    case (PFree b)
    with s' assms(4) show thesis
      by (auto simp: step_defs quiet_def retiring_pc split: list.splits if_splits Option.bind_splits intro: free quiet)
  qed (use step_quiet [OF s'(1) assms(4)] quiet in auto)
qed

section \<open>The nodes a thread relies on\<close>

lemma globD:
  assumes "glob sent s as"
  shows "chain (c_heap s) (c_head s) as" "sorted_wrt (<) (map (node_key (c_heap s)) as)"
    "a \<in> dom (c_heap s) \<Longrightarrow> a \<noteq> NULL" "a \<in> dom (c_heap s) \<Longrightarrow> aligned a"
    "a \<in> dom (c_heap s) \<Longrightarrow> sent (node_key (c_heap s) a) \<Longrightarrow> live (c_heap s) a"
    "dom (c_heap s) = set as \<union> (\<Union>u. held s u)" "held s u \<inter> set as = {}" "u \<noteq> v \<Longrightarrow> held s u \<inter> held s v = {}"
    "distinct (c_retired s u)" "retiring (c_task s u) \<inter> set (c_retired s u) = {}" "t_node (c_task s u) \<notin> limbo s u"
    "a \<in> limbo s u \<Longrightarrow> \<not> live (c_heap s) a"
    "(a, k) \<in> set (c_dummies s) \<Longrightarrow> a \<in> set as \<and> node_key (c_heap s) a = k \<and> sent k"
proof -
  note g = assms [unfolded glob_def]
  from g show "chain (c_heap s) (c_head s) as" by (elim conjE)
  from g show "sorted_wrt (<) (map (node_key (c_heap s)) as)" by (elim conjE)
  from g have n: "\<forall>a \<in> dom (c_heap s). a \<noteq> NULL \<and> aligned a \<and> (sent (node_key (c_heap s) a) \<longrightarrow> live (c_heap s) a)" by (elim conjE)
  show "a \<in> dom (c_heap s) \<Longrightarrow> a \<noteq> NULL" "a \<in> dom (c_heap s) \<Longrightarrow> aligned a"
    "a \<in> dom (c_heap s) \<Longrightarrow> sent (node_key (c_heap s) a) \<Longrightarrow> live (c_heap s) a"
    using n by blast+
  from g have "owns (dom (c_heap s)) (set as) (held s)" by (elim conjE)
  then show "dom (c_heap s) = set as \<union> (\<Union>u. held s u)" "held s u \<inter> set as = {}" "u \<noteq> v \<Longrightarrow> held s u \<inter> held s v = {}"
    unfolding owns_def by simp_all
  from g have "\<forall>u. distinct (c_retired s u) \<and> retiring (c_task s u) \<inter> set (c_retired s u) = {} \<and> t_node (c_task s u) \<notin> limbo s u"
    by (elim conjE)
  then show "distinct (c_retired s u)" "retiring (c_task s u) \<inter> set (c_retired s u) = {}" "t_node (c_task s u) \<notin> limbo s u"
    by simp_all
  from g have "\<forall>u. \<forall>a \<in> limbo s u. \<not> live (c_heap s) a" by (elim conjE)
  then show "a \<in> limbo s u \<Longrightarrow> \<not> live (c_heap s) a" by simp
  from g have "\<forall>(a, k) \<in> set (c_dummies s). a \<in> set as \<and> node_key (c_heap s) a = k \<and> sent k" by (elim conjE)
  then show "(a, k) \<in> set (c_dummies s) \<Longrightarrow> a \<in> set as \<and> node_key (c_heap s) a = k \<and> sent k" by fast
qed

lemma limbo_held: "limbo s u \<subseteq> held s u"
  by (auto simp: held_def)

lemma unowned_iff:
  assumes "glob sent s as"
  shows "unowned s p \<longleftrightarrow> p \<in> set as \<or> (\<exists>u. p \<in> limbo s u)"
proof
  assume p: "unowned s p"
  then have "p \<in> set as \<or> (\<exists>u. p \<in> held s u)" using globD(6) [OF assms] unfolding unowned_def by blast
  with p show "p \<in> set as \<or> (\<exists>u. p \<in> limbo s u)" by (auto simp: held_def unowned_def)
next
  assume p: "p \<in> set as \<or> (\<exists>u. p \<in> limbo s u)"
  then have d: "p \<in> dom (c_heap s)" using globD(6) [OF assms] limbo_held by blast
  then have "p \<noteq> NULL" by (rule globD(3) [OF assms])
  have "t_node (c_task s v) \<noteq> p" for v
  proof
    assume e: "t_node (c_task s v) = p"
    with \<open>p \<noteq> NULL\<close> have "p \<in> held s v" by (simp add: held_def)
    show False
    proof (cases "p \<in> set as")
      case True
      with \<open>p \<in> held s v\<close> globD(7) [OF assms, of v] show False by blast
    next
      case False
      with p obtain u where u: "p \<in> limbo s u" by blast
      with e globD(11) [OF assms, of v] have "u \<noteq> v" by blast
      with u \<open>p \<in> held s v\<close> globD(8) [OF assms, of u v] limbo_held [of s u] show False by blast
    qed
  qed
  with d show "unowned s p" by (simp add: unowned_def)
qed

lemma live_on_list: "glob sent s as \<Longrightarrow> unowned s p \<Longrightarrow> live (c_heap s) p \<Longrightarrow> p \<in> set as"
  by (auto simp: unowned_iff dest: globD(12))

text \<open>A compare-and-swap through \<^verbatim>\<open>prev\<close> writes to the head or to a node that is not marked.\<close>

lemma store_heap:
  assumes "load t l s = Some c" "aligned c"
  shows "c_heap (store t l x s) a = c_heap s a
    \<or> (\<exists>nd. l = NextLoc a \<and> c_heap s a = Some nd \<and> \<not> isMarked (node_next nd) \<and> c_heap (store t l x s) a = Some (nd\<lparr>node_next := x\<rparr>))"
  using assms by (auto simp: store_def load_def isMarked_aligned split: loc.splits if_splits)

definition keeps :: "'k cstate \<Rightarrow> 'k cstate \<Rightarrow> ptr \<Rightarrow> bool" where
  "keeps s s' p \<longleftrightarrow> p \<in> dom (c_heap s') \<and> node_key (c_heap s') p = node_key (c_heap s) p
     \<and> node_value (the (c_heap s' p)) = node_value (the (c_heap s p)) \<and> (\<not> live (c_heap s) p \<longrightarrow> c_heap s' p = c_heap s p)"

lemma keeps_same: "c_heap s' p = c_heap s p \<Longrightarrow> p \<in> dom (c_heap s) \<Longrightarrow> keeps s s' p"
  unfolding keeps_def node_key_def by (metis domI domIff)

lemma keeps_next: "c_heap s p = Some nd \<Longrightarrow> \<not> isMarked (node_next nd) \<Longrightarrow> c_heap s' p = Some (nd\<lparr>node_next := x\<rparr>) \<Longrightarrow> keeps s s' p"
  by (auto simp: keeps_def node_key_def live_def)

lemma keeps_store:
  "load t l s = Some c \<Longrightarrow> aligned c \<Longrightarrow> p \<in> dom (c_heap s) \<Longrightarrow> c_heap s' = c_heap (store t l x s) \<Longrightarrow> keeps s s' p"
  using store_heap [of t l s c x p] keeps_same [of s' p s] keeps_next [of s p _ s' x] by auto

lemma cur_aligned: "glob sent s as \<Longrightarrow> prot n s t j p \<Longrightarrow> aligned p \<and> p \<noteq> NULL \<and> p \<in> dom (c_heap s)"
  using globD(3,4) [of sent s as p] unfolding prot_def unowned_def by blast

text \<open>A node that is guarded for some thread survives every step.\<close>

lemma keeps_step:
  assumes "cinv n sent s" "lstep n sent a s = Some s'" "unowned s p" "guarded n s t j p" "t < n" "j < 2"
  shows "keeps s s' p \<and> unowned s' p"
proof -
  let ?u = "actor a"
  define k where "k = c_task s ?u"
  from assms(1) obtain as where g: "glob sent s as" and c: "call_ok n sent s ?u" and at: "at_pc n s ?u"
    by (auto simp: cinv_def)
  have d: "p \<in> dom (c_heap s)" "\<And>v. t_node (c_task s v) \<noteq> p" "p \<noteq> t_node k" using assms(3) by (auto simp: unowned_def k_def)
  have nn: "p \<noteq> NULL" using d(1) by (rule globD(3) [OF g])
  have tasks: "unowned s' p" if "keeps s s' p" "t_node (c_task s' ?u) \<noteq> p"
    unfolding unowned_def
  proof (intro conjI allI)
    show "p \<in> dom (c_heap s')" using that(1) by (simp add: keeps_def)
    show "t_node (c_task s' v) \<noteq> p" for v using that(2) step_frame(1) [OF assms(2), of v] d(2) by (cases "v = ?u") auto
  qed
  from assms(2) c at k_def refl have "keeps s s' p \<and> t_node (c_task s' ?u) \<noteq> p"
  proof (cases rule: step_cases)
    case quiet
    then show ?thesis using d keeps_same [of s' p s] by (simp add: quiet_def)
  next
    case (alloc x)
    then have "x \<noteq> p" using d(1) by auto
    with alloc show ?thesis using d keeps_same [of s' p s] by auto
  next
    case (link nd)
    then show ?thesis using d keeps_same [of s' p s] by auto
  next
    case publish
    with at have "aligned (t_cur k)" by (simp add: at_pc_def placed_at_def k_def Let_def)
    with publish nn show ?thesis using keeps_store [of ?u _ s _ p s'] d by auto
  next
    case discard
    then show ?thesis using d keeps_same [of s' p s] nn by auto
  next
    case (unlink b)
    with at have "cur_ok n s ?u" by (auto simp: at_pc_def k_def Let_def)
    with cur_aligned [OF g] have "aligned (t_cur k)" by (simp add: k_def)
    with unlink show ?thesis using keeps_store [of ?u _ s _ p s'] d k_def by auto
  next
    case (marks nd)
    with at have "\<not> isMarked (node_next nd)" by (auto simp: at_pc_def k_def Let_def isMarked_aligned)
    with marks show ?thesis using d keeps_same [of s' p s] keeps_next [of s p nd s'] k_def by (cases "p = t_cur k") auto
  next
    case (retire b k')
    then show ?thesis using d keeps_same [of s' p s] k_def by auto
  next
    case (free b x r)
    with at have x: "x \<in> set (c_retired s ?u)" by (auto simp: at_pc_def k_def Let_def)
    have "p \<in> set (t_active (c_task s ?u))" if "p \<in> set (c_retired s ?u)"
      using assms(4-6) that free(1) by (auto simp: guarded_def k_def)
    with x free(3) have "x \<noteq> p" by (auto simp: k_def)
    with free show ?thesis using d keeps_same [of s' p s] k_def by auto
  qed
  with tasks show ?thesis by blast
qed

lemma prot_step:
  assumes "cinv n sent s" "lstep n sent a s = Some s'" "calm a s" "prot n s t j p" "t < n" "j < 2" "c_hp s' t j = c_hp s t j"
  shows "prot n s' t j p \<and> keeps s s' p"
proof -
  from assms(1) obtain as where g: "glob sent s as" and at: "at_pc n s (actor a)" by (auto simp: cinv_def)
  have "p \<noteq> NULL" using cur_aligned [OF g assms(4)] by simp
  with guarded_step [OF assms(2,3) at] assms keeps_step [OF assms(1,2)] show ?thesis by (auto simp: prot_def)
qed

lemma prev_ok_step:
  assumes "cinv n sent s" "lstep n sent a s = Some s'" "calm a s" "prev_ok n s t" "t < n" "c_hp s' t 1 = c_hp s t 1"
    and "t_prev (c_task s' t) = t_prev (c_task s t)" "t_key (c_task s' t) = t_key (c_task s t)"
      "t_start (c_task s' t) = t_start (c_task s t)"
  shows "prev_ok n s' t"
proof (cases "t_prev (c_task s t)")
  case (NextLoc p)
  with assms(4) have "prot n s t 1 p" "node_key (c_heap s) p < t_key (c_task s t)" by (auto simp: prev_ok_def)
  with prot_step [OF assms(1-3) this(1) assms(5) _ assms(6)] NextLoc assms(7,8) show ?thesis
    by (auto simp: prev_ok_def keeps_def)
qed (use assms(4,7,9) in \<open>auto simp: prev_ok_def\<close>)

lemma step_dummies:
  assumes "lstep n sent a s = Some s'" "call_ok n sent s (actor a)" "at_pc n s (actor a)"
  shows "set (c_dummies s) \<subseteq> set (c_dummies s')"
  using assms(1-3) refl refl by (cases rule: step_cases) (auto simp: quiet_def)

text \<open>What a thread owns is not touched by the others.\<close>

lemma held_step:
  assumes "cinv n sent s" "lstep n sent a s = Some s'" "v \<noteq> actor a" "x \<in> held s v"
  shows "c_heap s' x = c_heap s x"
proof -
  let ?u = "actor a"
  define k where "k = c_task s ?u"
  from assms(1) obtain as where g: "glob sent s as" and c: "call_ok n sent s ?u" and at: "at_pc n s ?u"
    by (auto simp: cinv_def)
  have x: "x \<in> dom (c_heap s)" "x \<notin> set as" "x \<notin> held s ?u"
    using assms(3,4) globD(6) [OF g] globD(7) [OF g, of v] globD(8) [OF g, of v ?u] by blast+
  have nd: "x \<noteq> t_node k" if "t_node k \<noteq> NULL" using x(3) that by (auto simp: held_def k_def)
  have li: "x \<noteq> y" if "unowned s y" "live (c_heap s) y" for y using live_on_list [OF g that] x(2) by auto
  have st: "c_heap (store ?u (t_prev k) q s) x = c_heap s x"
    if ld: "load ?u (t_prev k) s = Some c" "aligned c" and pv: "prev_ok n s ?u" for q c
  proof (rule ccontr)
    assume ne: "c_heap (store ?u (t_prev k) q s) x \<noteq> c_heap s x"
    with store_heap [OF ld, of q x] obtain y where y: "t_prev k = NextLoc x" "c_heap s x = Some y" "\<not> isMarked (node_next y)" by auto
    with pv have "unowned s x" by (auto simp: prev_ok_def prot_def k_def)
    moreover have "live (c_heap s) x" using y by (simp add: live_def)
    ultimately show False using li by blast
  qed
  from assms(2) c at k_def refl show ?thesis
  proof (cases rule: step_cases)
    case quiet
    then show ?thesis by (simp add: quiet_def)
  next
    case (alloc y)
    then show ?thesis using x(1) by auto
  next
    case (link y)
    then have "t_node k \<noteq> NULL" using globD(3) [OF g, of "t_node k"] by auto
    with link nd show ?thesis by auto
  next
    case publish
    with at st show ?thesis by (auto simp: at_pc_def placed_at_def k_def Let_def)
  next
    case discard
    then have "t_node k \<noteq> NULL" using globD(3) [OF g, of "t_node k"] by auto
    with discard nd show ?thesis by auto
  next
    case (unlink b)
    with at have "cur_ok n s ?u" "prev_ok n s ?u" by (auto simp: at_pc_def k_def Let_def)
    with unlink st cur_aligned [OF g this(1)] show ?thesis by (auto simp: k_def)
  next
    case (marks y)
    with at have "unowned s (t_cur k)" "aligned (node_next y)" by (auto simp: at_pc_def k_def Let_def prot_def)
    with marks li [of "t_cur k"] show ?thesis by (auto simp: live_def isMarked_aligned)
  next
    case (retire b k')
    then show ?thesis by simp
  next
    case (free b y r)
    with at have "y \<in> held s ?u" by (auto simp: at_pc_def k_def Let_def held_def limbo_def)
    with free x(3) show ?thesis by auto
  qed
qed

lemma other_call_ok:
  assumes "cinv n sent s" "lstep n sent a s = Some s'" "t \<noteq> actor a"
  shows "call_ok n sent s' t"
proof -
  from assms(1) have c: "call_ok n sent s t" and ca: "call_ok n sent s (actor a)" "at_pc n s (actor a)"
    by (auto simp: cinv_def)
  note f = step_frame [OF assms(2,3)]
  have "c_heap s' (t_node (c_task s t)) = c_heap s (t_node (c_task s t))" if "t_node (c_task s t) \<noteq> NULL"
    using held_step [OF assms(1-3)] that by (simp add: held_def)
  then show ?thesis
    using c step_dummies [OF assms(2) ca] by (auto simp: call_ok_def f Let_def live_def node_key_def)
qed

lemma other_at_pc:
  assumes "cinv n sent s" "lstep n sent a s = Some s'" "calm a s" "t \<noteq> actor a"
  shows "at_pc n s' t"
proof (cases "t_pc (c_task s t) = PRet")
  case True
  then show ?thesis by (simp add: at_pc_def step_frame [OF assms(2,4)])
next
  case False
  from assms(1) have at: "at_pc n s t" and c: "call_ok n sent s t" and ata: "at_pc n s (actor a)" by (auto simp: cinv_def)
  from assms(1) obtain as where g: "glob sent s as" by (auto simp: cinv_def)
  note f = step_frame [OF assms(2,4)]
  have t: "t < n" using c False by (simp add: call_ok_def Let_def)
  have prev: "prev_ok n s' t" if "prev_ok n s t"
    using prev_ok_step [OF assms(1-3) that t] by (simp add: f)
  have cur: "prot n s' t 0 p \<and> keeps s s' p" if "prot n s t 0 p" for p
    using prot_step [OF assms(1-3) that t] by (simp add: f)
  have win: "unowned s' p \<and> guarded n s' t 0 p \<and> keeps s s' p"
    if "unowned s p" "guarded n s t 0 p" "t_pc (c_task s t) = PSwap1" for p
    using that keeps_step [OF assms(1,2) that(1,2) t] guarded_step [OF assms(2,3) ata that(2)] globD(3) [OF g, of p]
    by (auto simp: unowned_def)
  have node: "c_heap s' (t_node (c_task s t)) = c_heap s (t_node (c_task s t))" if "t_op (c_task s t) = OpInsert" "t_pc (c_task s t) \<noteq> PNew"
    using held_step [OF assms(1,2,4)] c False that by (simp add: held_def call_ok_def Let_def)
  have placed: "placed_at n s' t" if "placed_at n s t"
    using that prev cur unfolding placed_at_def by (auto simp: f Let_def keeps_def)
  show ?thesis
  proof (cases "t_pc (c_task s t)")
    case PInsCas
    then show ?thesis using at placed node by (auto simp: at_pc_def f Let_def placed_at_def)
  next
    case PUnlink
    with at have "prot n s t 0 (t_cur (c_task s t))" "\<not> live (c_heap s) (t_cur (c_task s t))" by (auto simp: at_pc_def Let_def)
    with cur have "c_heap s' (t_cur (c_task s t)) = c_heap s (t_cur (c_task s t))" by (auto simp: keeps_def)
    with PUnlink show ?thesis using at prev cur by (auto simp: at_pc_def f Let_def live_def)
  next
    case PPhys
    with at have "prot n s t 0 (t_cur (c_task s t))" "\<not> live (c_heap s) (t_cur (c_task s t))" by (auto simp: at_pc_def Let_def live_def)
    with cur have "c_heap s' (t_cur (c_task s t)) = c_heap s (t_cur (c_task s t))" by (auto simp: keeps_def)
    with PPhys show ?thesis using at prev cur by (auto simp: at_pc_def f Let_def)
  next
    case PSwap1
    then show ?thesis using at win [of "t_temp (c_task s t)"] by (auto simp: at_pc_def f Let_def keeps_def)
  qed (use at prev cur placed in \<open>auto simp: at_pc_def f Let_def keeps_def\<close>)
qed

end
