(* ===== verification/Lock_Free_Concurrent_Correct.thy ===== *)
theory Lock_Free_Concurrent_Correct
  imports Lock_Free_Protection
begin

text \<open>
  Every step of the machine keeps the invariant: the global part per kind of step, the assertion of
  the thread that moves per program point.
\<close>

section \<open>The list after a step\<close>

lemma held_frame:
  assumes "lstep n sent a s = Some s'"
  shows "held s' = (held s)(actor a := held s' (actor a))"
  using step_frame [OF assms] by (auto simp: held_def limbo_def fun_eq_iff)

lemma globI:
  assumes "glob sent s as" "lstep n sent a s = Some s'" "t = actor a"
    and "chain (c_heap s') (c_head s') as'" "sorted_wrt (<) (map (node_key (c_heap s')) as')"
    and "\<And>x. x \<in> dom (c_heap s') \<Longrightarrow> x \<noteq> NULL \<and> aligned x \<and> (sent (node_key (c_heap s') x) \<longrightarrow> live (c_heap s') x)"
    and "set as' \<union> held s' t \<subseteq> set as \<union> held s t \<union> F" "F \<inter> dom (c_heap s) = {}"
      "set as' \<inter> held s' t = {}"
      "dom (c_heap s') = (dom (c_heap s) - (set as \<union> held s t)) \<union> set as' \<union> held s' t"
    and "distinct (c_retired s' t)" "retiring (c_task s' t) \<inter> set (c_retired s' t) = {}"
      "t_node (c_task s' t) \<notin> limbo s' t"
    and "\<And>u x. x \<in> limbo s' u \<Longrightarrow> \<not> live (c_heap s') x"
    and "\<And>x k. (x, k) \<in> set (c_dummies s') \<Longrightarrow> x \<in> set as' \<and> node_key (c_heap s') x = k \<and> sent k"
  shows "glob sent s' as'"
proof -
  have "owns (dom (c_heap s)) (set as) (held s)" using assms(1) unfolding glob_def by (elim conjE)
  from owns_update [OF this assms(7-10)] have o: "owns (dom (c_heap s')) (set as') (held s')"
    by (subst held_frame [OF assms(2)]) (simp add: assms(3))
  have "distinct (c_retired s' u) \<and> retiring (c_task s' u) \<inter> set (c_retired s' u) = {} \<and> t_node (c_task s' u) \<notin> limbo s' u" for u
  proof (cases "u = t")
    case False
    then have f: "u \<noteq> actor a" using assms(3) by simp
    show ?thesis using globD(9-11) [OF assms(1), of u] by (simp add: step_frame [OF assms(2) f] limbo_def)
  qed (use assms(11-13) in simp)
  with o assms(4-6,14,15) show ?thesis unfolding glob_def by blast
qed

text \<open>Where \<^verbatim>\<open>prev\<close> stands when \<^verbatim>\<open>*prev\<close> is a pointer without mark: on the list, just before that pointer.\<close>

definition seq_view :: "'k cstate \<Rightarrow> 'k LockFreeList" where
  "seq_view s = \<lparr>heap = c_heap s, head = c_head s, hps = new_HazardPointers 0 2 (\<lambda>_ _. NULL), brk = 0, start_arg = NULL\<rparr>"

lemma place:
  assumes "glob sent s as" "prev_ok n s t" "t_prev (c_task s t) \<noteq> StartLoc" "load t (t_prev (c_task s t)) s = Some c" "aligned c"
  obtains pre suf where "as = pre @ suf" "at_loc (seq_view s) pre (t_prev (c_task s t))" "first suf = c" "chain (c_heap s) c suf"
    "\<forall>a \<in> set pre. node_key (c_heap s) a < t_key (c_task s t)"
proof (cases "t_prev (c_task s t)")
  case HeadLoc
  with assms(4) have "c_head s = c" by (simp add: load_def)
  with that [of "[]" as] HeadLoc globD(1) [OF assms(1)] chain_first [OF globD(1) [OF assms(1)]] show thesis by (auto simp: at_loc_def)
next
  case (NextLoc p)
  with assms(4) obtain nd where nd: "c_heap s p = Some nd" "node_next nd = c" by (auto simp: load_def)
  from NextLoc assms(2) have p: "unowned s p" "node_key (c_heap s) p < t_key (c_task s t)" by (auto simp: prev_ok_def prot_def)
  have l: "live (c_heap s) p" using nd assms(5) by (simp add: live_def isMarked_aligned)
  from live_on_list [OF assms(1) p(1) l] obtain pre suf where as: "as = pre @ p # suf" by (auto simp: in_set_conv_decomp)
  from globD(1) [OF assms(1)] as nd assms(5) have ch: "chain (c_heap s) c suf" by (auto elim!: chain_node simp: mb.clear_clean)
  have "\<forall>a \<in> set (pre @ [p]). node_key (c_heap s) a < t_key (c_task s t)"
    using globD(2) [OF assms(1)] as p(2) by (auto simp: sorted_wrt_append)
  then show thesis using that [of "pre @ [p]" suf] as NextLoc l ch chain_first [OF ch] by (auto simp: at_loc_def seq_view_def)
qed (use assms(3) in simp)

lemma store_chain:
  assumes "glob sent s (pre @ suf)" "at_loc (seq_view s) pre l" "chain (c_heap s) (first as2) as2" "set as2 \<inter> set pre = {}"
    and "s' = store t l (first as2) s"
  shows "chain (c_heap s') (c_head s') (pre @ as2)" "same_nodes UNIV (c_heap s) (c_heap s')" "dom (c_heap s') = dom (c_heap s)"
proof -
  have "l \<noteq> StartLoc" using assms(2) by (auto simp: at_loc_def split: if_splits)
  moreover have "distinct pre" using sorted_keys_distinct [OF globD(2) [OF assms(1)]] by simp
  with write_at [of "seq_view s" pre suf l as2] assms(2-4) globD(1) [OF assms(1)] obtain st' where
    st: "write_loc l (first as2) (seq_view s) = Some st'" "chain (heap st') (head st') (pre @ as2)"
      "same_nodes UNIV (c_heap s) (heap st')" "dom (heap st') = dom (c_heap s)"
    by (auto simp: seq_view_def)
  ultimately have "heap st' = c_heap s'" "head st' = c_head s'"
    using assms(5) st(1) by (auto simp: store_def write_loc_def seq_view_def split: loc.splits option.splits)
  with st show "chain (c_heap s') (c_head s') (pre @ as2)" "same_nodes UNIV (c_heap s) (c_heap s')" "dom (c_heap s') = dom (c_heap s)"
    by simp_all
qed

lemma glob_quiet:
  assumes "glob sent s as" "quiet s s'"
  shows "glob sent s' as"
proof -
  have "held s' = held s" "limbo s' = limbo s" using assms(2) by (auto simp: quiet_def held_def limbo_def fun_eq_iff)
  with assms show ?thesis by (simp add: glob_def quiet_def)
qed

lemma glob_off_list:
  assumes "glob sent s as" "\<forall>x \<in> set as. c_heap s' x = c_heap s x" "c_head s' = c_head s"
  shows "chain (c_heap s') (c_head s') as" "sorted_wrt (<) (map (node_key (c_heap s')) as)"
proof -
  show "chain (c_heap s') (c_head s') as" using chain_cong [OF globD(1) [OF assms(1)] assms(2)] assms(3) by simp
  have "map (node_key (c_heap s')) as = map (node_key (c_heap s)) as" using assms(2) by (auto simp: node_key_def)
  then show "sorted_wrt (<) (map (node_key (c_heap s')) as)" using globD(2) [OF assms(1)] by (simp only:)
qed

lemma dummies_off_list:
  assumes "glob sent s as" "\<forall>x \<in> set as. c_heap s' x = c_heap s x" "(y, k) \<in> set (c_dummies s)"
  shows "y \<in> set as \<and> node_key (c_heap s') y = k \<and> sent k"
  using globD(13) [OF assms(1,3)] assms(2) by (simp add: node_key_def)

lemma held_dom: "glob sent s as \<Longrightarrow> held s u \<subseteq> dom (c_heap s)"
  using globD(6) by blast

lemma list_dom: "glob sent s as \<Longrightarrow> set as \<subseteq> dom (c_heap s)"
  using globD(6) by blast

lemma limbo_dom: "glob sent s as \<Longrightarrow> x \<in> limbo s u \<Longrightarrow> x \<in> dom (c_heap s)"
  using held_dom limbo_held by blast

lemma node_apart:
  assumes "glob sent s as" "t_node (c_task s t) \<noteq> NULL"
  shows "t_node (c_task s t) \<in> dom (c_heap s)" "t_node (c_task s t) \<notin> set as" "t_node (c_task s t) \<notin> limbo s u"
proof -
  have x: "t_node (c_task s t) \<in> held s t" using assms(2) by (simp add: held_def)
  then show "t_node (c_task s t) \<in> dom (c_heap s)" "t_node (c_task s t) \<notin> set as"
    using held_dom [OF assms(1)] globD(7) [OF assms(1), of t] by blast+
  show "t_node (c_task s t) \<notin> limbo s u"
  proof (cases "u = t")
    case True
    then show ?thesis using globD(11) [OF assms(1), of t] by simp
  next
    case False
    then show ?thesis using x globD(8) [OF assms(1), of u t] limbo_held [of s u] by blast
  qed
qed

lemma null_limbo: "glob sent s as \<Longrightarrow> NULL \<notin> limbo s u"
  using limbo_dom globD(3) by blast

lemma glob_alloc:
  assumes g: "glob sent s as" and l: "lstep n sent a s = Some s'" and n: "t_node (c_task s t) = NULL"
    and a: "t = actor a" "k = c_task s t" "t_pc k = PNew" "x \<noteq> NULL" "aligned x" "c_heap s x = None"
      "s' = set_task t (k\<lparr>t_node := x, t_pc := PStart\<rparr>)
              (put_heap x (Some \<lparr>node_data = t_key k, node_value = t_val k, node_next = NULL\<rparr>) s)"
  shows "glob sent s' as"
proof -
  have x: "x \<notin> dom (c_heap s)" using a by auto
  have xl: "x \<notin> set as" using x list_dom [OF g] by blast
  have h: "held s' t = insert x (held s t)" using a n by (auto simp: held_def limbo_def retiring_def)
  have lim: "limbo s' = limbo s" using a by (auto simp: limbo_def retiring_def fun_eq_iff)
  have on: "\<forall>y \<in> set as. c_heap s' y = c_heap s y" using a xl by auto
  show ?thesis
  proof (rule globI [OF g l a(1) glob_off_list [OF g on], where F = "{x}"])
    show "c_head s' = c_head s" "c_head s' = c_head s" using a by simp_all
    show "y \<noteq> NULL \<and> aligned y \<and> (sent (node_key (c_heap s') y) \<longrightarrow> live (c_heap s') y)" if "y \<in> dom (c_heap s')" for y
      using that globD(3-5) [OF g, of y] a by (cases "y = x") (auto simp: node_key_def live_def isMarked_aligned)
    show "set as \<union> held s' t \<subseteq> set as \<union> held s t \<union> {x}" unfolding h by blast
    show "{x} \<inter> dom (c_heap s) = {}" using x by simp
    show "set as \<inter> held s' t = {}" unfolding h using xl globD(7) [OF g, of t] by blast
    have "dom (c_heap s') = insert x (dom (c_heap s))" using a by simp
    then show "dom (c_heap s') = dom (c_heap s) - (set as \<union> held s t) \<union> set as \<union> held s' t"
      unfolding h using held_dom [OF g, of t] list_dom [OF g] by blast
    show "t_node (c_task s' t) \<notin> limbo s' t" using lim a x limbo_dom [OF g, of x t] by auto
    show "\<not> live (c_heap s') y" if "y \<in> limbo s' u" for u y
    proof -
      have y: "y \<in> limbo s u" using that by (simp add: lim)
      with x limbo_dom [OF g] have "y \<noteq> x" by blast
      with a(7) globD(12) [OF g y] show ?thesis by (simp add: live_def)
    qed
    show "y \<in> set as \<and> node_key (c_heap s') y = k' \<and> sent k'" if "(y, k') \<in> set (c_dummies s')" for y k'
      using dummies_off_list [OF g on, of y k'] that a(7) by simp
  qed (use a globD(9,10) [OF g, of t] in \<open>auto simp: retiring_def\<close>)
qed

lemma glob_own_node:
  assumes g: "glob sent s as" and l: "lstep n sent a s = Some s'"
    and a: "t = actor a" "k = c_task s t" "t_pc k = PLink" "c_heap s (t_node k) = Some nd" "t_node k \<noteq> NULL" "aligned (t_cur k)"
      "s' = set_task t (k\<lparr>t_pc := PInsCas\<rparr>) (put_heap (t_node k) (Some (nd\<lparr>node_next := t_cur k\<rparr>)) s)"
  shows "glob sent s' as"
proof -
  let ?x = "t_node k"
  have x: "?x \<in> held s t" using a by (simp add: held_def)
  have xl: "?x \<notin> set as" using x globD(7) [OF g, of t] by blast
  have h: "held s' = held s" and lim: "limbo s' = limbo s" using a by (auto simp: held_def limbo_def retiring_def fun_eq_iff)
  have on: "\<forall>y \<in> set as. c_heap s' y = c_heap s y" using a xl by auto
  have nl: "?x \<notin> limbo s u" for u using node_apart(3) [OF g, of t u] a by simp
  show ?thesis
  proof (rule globI [OF g l a(1) glob_off_list [OF g on], where F = "{}"])
    show "y \<noteq> NULL \<and> aligned y \<and> (sent (node_key (c_heap s') y) \<longrightarrow> live (c_heap s') y)" if "y \<in> dom (c_heap s')" for y
    proof (cases "y = ?x")
      case True
      then show ?thesis using globD(3,4) [OF g, of ?x] a by (auto simp: live_def isMarked_aligned)
    next
      case False
      then show ?thesis using that globD(3-5) [OF g, of y] a by (auto simp: node_key_def live_def)
    qed
    show "set as \<inter> held s' t = {}" unfolding h using globD(7) [OF g, of t] by blast
    have "dom (c_heap s') = dom (c_heap s)" using a by auto
    then show "dom (c_heap s') = dom (c_heap s) - (set as \<union> held s t) \<union> set as \<union> held s' t"
      unfolding h using held_dom [OF g, of t] list_dom [OF g] by blast
    show "\<not> live (c_heap s') y" if "y \<in> limbo s' u" for u y
    proof -
      have y: "y \<in> limbo s u" using that by (simp add: lim)
      with nl have "y \<noteq> ?x" by blast
      with a(7) globD(12) [OF g y] show ?thesis by (simp add: live_def)
    qed
    show "y \<in> set as \<and> node_key (c_heap s') y = k' \<and> sent k'" if "(y, k') \<in> set (c_dummies s')" for y k'
      using dummies_off_list [OF g on, of y k'] that a(7) by simp
  qed (use a h lim globD(9-11) [OF g, of t] in \<open>auto simp: retiring_def\<close>)
qed

lemma glob_delete:
  assumes g: "glob sent s as" and l: "lstep n sent a s = Some s'" "t = actor a"
    and x: "x \<in> held s t" "c_heap s' = (c_heap s)(x := None)" "c_head s' = c_head s" "held s' t = held s t - {x}"
    and o: "distinct (c_retired s' t)" "retiring (c_task s' t) \<inter> set (c_retired s' t) = {}" "t_node (c_task s' t) \<notin> limbo s' t"
      "limbo s' t \<subseteq> limbo s t"
    and d: "\<And>y k. (y, k) \<in> set (c_dummies s') \<Longrightarrow> y \<in> set as \<and> node_key (c_heap s) y = k \<and> sent k"
  shows "glob sent s' as"
proof -
  have xl: "x \<notin> set as" using x(1) globD(7) [OF g, of t] by blast
  have on: "\<forall>y \<in> set as. c_heap s' y = c_heap s y" using x(2) xl by auto
  have lim: "limbo s' u \<subseteq> limbo s u - {x}" for u
  proof (cases "u = t")
    case True
    then show ?thesis using o(4) limbo_held [of s' t, unfolded x(4)] by blast
  next
    case False
    with l have "limbo s' u = limbo s u" by (simp add: limbo_def step_frame [OF l(1)])
    then show ?thesis using globD(8) [OF g False] x(1) limbo_held [of s u] by blast
  qed
  show ?thesis
  proof (rule globI [OF g l glob_off_list [OF g on x(3)], where F = "{}"])
    show "y \<noteq> NULL \<and> aligned y \<and> (sent (node_key (c_heap s') y) \<longrightarrow> live (c_heap s') y)" if "y \<in> dom (c_heap s')" for y
      using that globD(3-5) [OF g, of y] by (auto simp: x(2) node_key_def live_def split: if_splits)
    show "set as \<inter> held s' t = {}" unfolding x(4) using globD(7) [OF g, of t] by blast
    have dm: "dom (c_heap s') = dom (c_heap s) - {x}" by (simp add: x(2))
    show "dom (c_heap s') = dom (c_heap s) - (set as \<union> held s t) \<union> set as \<union> held s' t"
      unfolding dm x(4) using held_dom [OF g, of t] list_dom [OF g] x(1) xl by blast
    show "\<not> live (c_heap s') y" if "y \<in> limbo s' u" for u y
    proof -
      have "y \<in> limbo s u" "y \<noteq> x" using that lim [of u] by auto
      with globD(12) [OF g] show ?thesis by (simp add: live_def x(2))
    qed
    show "y \<in> set as \<and> node_key (c_heap s') y = k' \<and> sent k'" if "(y, k') \<in> set (c_dummies s')" for y k'
      using d [OF that] on by (simp add: node_key_def)
  qed (use o x(4) in auto)
qed

lemma glob_publish:
  assumes g: "glob sent s as" and l: "lstep n sent a s = Some s'" and c: "call_ok n sent s t" and at: "at_pc n s t"
    and a: "t = actor a" "k = c_task s t" "t_pc k = PInsCas" "load t (t_prev k) s = Some (t_cur k)"
      "s' = hand_out (t_node k) k (set_task t (finish True (k\<lparr>t_node := NULL\<rparr>)) (store t (t_prev k) (t_node k) s))"
  obtains pre suf where "as = pre @ suf" "glob sent s' (pre @ t_node k # suf)" "same_nodes UNIV (c_heap s) (c_heap s')"
    "\<forall>x \<in> set pre. node_key (c_heap s) x < t_key k" "\<forall>x \<in> set suf. t_key k < node_key (c_heap s) x"
proof -
  let ?x = "t_node k"
  from at a have p: "t_op k = OpInsert" "prev_ok n s t" "t_prev k \<noteq> StartLoc" "aligned (t_cur k)"
    "t_cur k \<noteq> NULL \<longrightarrow> t_key k < node_key (c_heap s) (t_cur k)" "node_next (the (c_heap s ?x)) = t_cur k"
    by (auto simp: at_pc_def placed_at_def Let_def)
  from c a p(1) have x0: "?x \<noteq> NULL" and kx: "live (c_heap s) ?x" "node_key (c_heap s) ?x = t_key k"
    and du: "t_dummy k \<longrightarrow> sent (t_key k)"
    by (auto simp: call_ok_def Let_def)
  note apart = node_apart [OF g, of t, folded a(2), OF x0]
  from place [OF g p(2) p(3) [unfolded a(2)] a(4) [unfolded a(2)] p(4) [unfolded a(2)]] obtain pre suf where
    as: "as = pre @ suf" and loc: "at_loc (seq_view s) pre (t_prev k)" and f: "first suf = t_cur k"
      "chain (c_heap s) (t_cur k) suf" and pre: "\<forall>y \<in> set pre. node_key (c_heap s) y < t_key k"
    by (auto simp: a(2))
  have suf: "\<forall>y \<in> set suf. t_key k < node_key (c_heap s) y"
  proof (cases suf)
    case (Cons y ys)
    with f g have "y = t_cur k" "y \<noteq> NULL" by auto
    with p(5) Cons globD(2) [OF g] as show ?thesis by (auto simp: sorted_wrt_append)
  qed simp
  obtain nd where nd: "c_heap s ?x = Some nd" "node_next nd = t_cur k" using apart(1) p(6) by auto
  have ch: "chain (c_heap s) (first (?x # suf)) (?x # suf)"
    using nd f(2) x0 globD(4) [OF g apart(1)] p(4) by (simp add: mb.clear_clean)
  have dis: "set (?x # suf) \<inter> set pre = {}"
    using apart(2) as sorted_keys_distinct [OF globD(2) [OF g]] by auto
  have heap: "c_heap s' = c_heap (store t (t_prev k) (first (?x # suf)) s)" "c_head s' = c_head (store t (t_prev k) (first (?x # suf)) s)"
    by (simp_all add: a(5))
  note st = store_chain [OF g [unfolded as] loc ch dis refl, of t, folded heap]
  have key: "node_key (c_heap s') = node_key (c_heap s)" "live (c_heap s') = live (c_heap s)"
    using st(2) by (auto simp: same_nodes_def)
  have fs: "c_task s' = (c_task s)(t := finish True (k\<lparr>t_node := NULL\<rparr>))" "c_retired s' = c_retired s"
    using p(3) by (simp_all add: a(5))
  have lim: "limbo s' = limbo s" using a(2,3) by (auto simp: limbo_def fs retiring_pc fun_eq_iff)
  have h: "held s' t = held s t - {?x}" using apart(3) [of t] a(2) by (auto simp: held_def lim fs)
  have "glob sent s' (pre @ ?x # suf)"
  proof (rule globI [OF g l a(1) st(1), where F = "{}"])
    show "sorted_wrt (<) (map (node_key (c_heap s')) (pre @ ?x # suf))"
      using globD(2) [OF g] pre suf kx(2) by (auto simp: key as sorted_wrt_append)
    show "set (pre @ ?x # suf) \<union> held s' t \<subseteq> set as \<union> held s t \<union> {}" unfolding h using as x0 a(2) by (auto simp: held_def)
    show "set (pre @ ?x # suf) \<inter> held s' t = {}" unfolding h using as globD(7) [OF g, of t] by auto
    show "dom (c_heap s') = dom (c_heap s) - (set as \<union> held s t) \<union> set (pre @ ?x # suf) \<union> held s' t"
      unfolding h st(3) using held_dom [OF g, of t] list_dom [OF g] as apart(1) by auto
    show "y \<in> set (pre @ ?x # suf) \<and> node_key (c_heap s') y = k' \<and> sent k'" if "(y, k') \<in> set (c_dummies s')" for y k'
    proof -
      have "(y, k') = (?x, t_key k) \<and> t_dummy k \<or> (y, k') \<in> set (c_dummies s)" using that a(5) by (auto split: if_splits)
      then show ?thesis using globD(13) [OF g, of y k'] as kx(2) du by (auto simp: key)
    qed
    show "t_node (c_task s' t) \<notin> limbo s' t" using null_limbo [OF g] by (simp add: lim fs)
    show "distinct (c_retired s' t)" "retiring (c_task s' t) \<inter> set (c_retired s' t) = {}" using globD(9) [OF g] by (simp_all add: fs)
  qed (use globD(3-5,12) [OF g] in \<open>auto simp: key st(3) lim\<close>)
  with as st(2) pre suf that show thesis by blast
qed

lemma glob_discard:
  assumes g: "glob sent s as" and l: "lstep n sent a s = Some s'" and c: "call_ok n sent s t" and at: "at_pc n s t"
    and a: "t = actor a" "k = c_task s t" "t_pc k = PDelete"
      "s' = hand_out (t_cur k) k (set_task t (finish False (k\<lparr>t_node := NULL\<rparr>)) (put_heap (t_node k) None s))"
  shows "glob sent s' as"
proof -
  from at a have p: "t_op k = OpInsert" "cur_ok n s t" "node_key (c_heap s) (t_cur k) = t_key k" by (auto simp: at_pc_def Let_def)
  from c a p(1) have x0: "t_node k \<noteq> NULL" and du: "t_dummy k \<longrightarrow> sent (t_key k)" by (auto simp: call_ok_def Let_def)
  have cur: "t_cur k \<in> set as" if "t_dummy k"
    using live_on_list [OF g, of "t_cur k"] globD(5) [OF g, of "t_cur k"] p(2,3) du that a(2) by (auto simp: prot_def unowned_def)
  have nl: "t_node k \<notin> limbo s t" using node_apart(3) [OF g, of t t] x0 a(2) by simp
  have fs: "c_task s' t = finish False (k\<lparr>t_node := NULL\<rparr>)" "c_retired s' = c_retired s" by (simp_all add: a(4))
  have lim: "limbo s' t = limbo s t" using a(2,3) by (simp add: limbo_def fs retiring_pc)
  show ?thesis
  proof (rule glob_delete [OF g l a(1)])
    show "t_node k \<in> held s t" using x0 a(2) by (simp add: held_def)
    show "c_heap s' = (c_heap s)(t_node k := None)" "c_head s' = c_head s" by (simp_all add: a(4))
    show "held s' t = held s t - {t_node k}" using nl a(2) by (auto simp: held_def lim fs)
    show "t_node (c_task s' t) \<notin> limbo s' t" using null_limbo [OF g] by (simp add: lim fs)
    show "y \<in> set as \<and> node_key (c_heap s) y = k' \<and> sent k'" if "(y, k') \<in> set (c_dummies s')" for y k'
    proof -
      have "(y, k') = (t_cur k, t_key k) \<and> t_dummy k \<or> (y, k') \<in> set (c_dummies s)" using that a(4) by (auto split: if_splits)
      then show ?thesis using globD(13) [OF g, of y k'] cur p(3) du by auto
    qed
  qed (use globD(9) [OF g, of t] lim in \<open>simp_all add: fs\<close>)
qed

lemma glob_free:
  assumes g: "glob sent s as" and l: "lstep n sent a s = Some s'" and at: "at_pc n s t"
    and a: "t = actor a" "k = c_task s t" "t_pc k = PFree b" "t_rest k = x # r"
      "s' = set_task t (k\<lparr>t_rest := r\<rparr>) (put_retired t (remove1 x (c_retired s t)) (put_heap x None s))"
  shows "glob sent s' as"
proof -
  have x: "x \<in> set (c_retired s t)" using at a by (auto simp: at_pc_def Let_def)
  then have xl: "x \<in> limbo s t" by (simp add: limbo_def)
  have d: "distinct (c_retired s t)" by (rule globD(9) [OF g])
  have fs: "c_task s' t = k\<lparr>t_rest := r\<rparr>" "c_retired s' t = remove1 x (c_retired s t)" by (simp_all add: a(5))
  have ret: "retiring (c_task s' t) = {}" "retiring (c_task s t) = {}" using a(2,3) by (simp_all add: fs retiring_pc)
  have lim: "limbo s' t = limbo s t - {x}" using d by (auto simp: limbo_def ret fs(2))
  show ?thesis
  proof (rule glob_delete [OF g l a(1)])
    show "x \<in> held s t" using xl limbo_held by blast
    show "c_heap s' = (c_heap s)(x := None)" "c_head s' = c_head s" by (simp_all add: a(5))
    show "held s' t = held s t - {x}" using xl globD(11) [OF g, of t] a(2) by (auto simp: held_def lim fs(1))
    show "t_node (c_task s' t) \<notin> limbo s' t" using globD(11) [OF g, of t] a(2) by (simp add: lim fs(1))
    show "y \<in> set as \<and> node_key (c_heap s) y = k' \<and> sent k'" if "(y, k') \<in> set (c_dummies s')" for y k'
      using globD(13) [OF g, of y k'] that by (simp add: a(5))
    show "retiring (c_task s' t) \<inter> set (c_retired s' t) = {}" by (simp add: ret)
    show "distinct (c_retired s' t)" using d by (simp add: fs(2))
  qed (use lim in auto)
qed

lemma glob_retire:
  assumes g: "glob sent s as" and l: "lstep n sent a s = Some s'"
    and a: "t = actor a" "k = c_task s t" "t_pc k = PRetire b"
      "k' = (if length (List.insert (t_cur k) (c_retired s t)) > MAX_RETIRED_NODES_PER_THREAD
             then k\<lparr>t_pc := PScan 0 b, t_active := []\<rparr> else resume b k)"
      "s' = set_task t k' (put_retired t (List.insert (t_cur k) (c_retired s t)) s)"
  shows "glob sent s' as"
proof -
  have r: "retiring k' = {}" "t_node k' = t_node k" by (simp_all add: a(4) retiring_pc)
  have fs: "c_task s' t = k'" "c_retired s' t = List.insert (t_cur k) (c_retired s t)" "c_heap s' = c_heap s" "c_head s' = c_head s"
    "c_dummies s' = c_dummies s" by (simp_all add: a(5))
  have "retiring (c_task s t) = {t_cur k}" using a(2,3) by (simp add: retiring_def)
  then have lim: "limbo s' t = limbo s t" by (auto simp: limbo_def fs r)
  have lims: "limbo s' u = limbo s u" for u
    using lim step_frame [OF l, of u] a(1) by (cases "u = t") (simp_all add: limbo_def)
  have h: "held s' t = held s t" using a(2) by (simp add: held_def lim fs r)
  show ?thesis
  proof (rule globI [OF g l a(1), where F = "{}"])
    show "set as \<inter> held s' t = {}" unfolding h using globD(7) [OF g, of t] by blast
    have dm: "dom (c_heap s') = dom (c_heap s)" by (simp add: fs)
    show "dom (c_heap s') = dom (c_heap s) - (set as \<union> held s t) \<union> set as \<union> held s' t"
      unfolding dm h using held_dom [OF g, of t] list_dom [OF g] by blast
    show "\<not> live (c_heap s') y" if "y \<in> limbo s' u" for u y using that globD(12) [OF g, of y u] by (simp add: lims fs)
    show "t_node (c_task s' t) \<notin> limbo s' t" using globD(11) [OF g, of t] a(2) by (simp add: lim fs r)
    show "set as \<union> held s' t \<subseteq> set as \<union> held s t \<union> {}" by (simp add: h)
  qed (use globD(1-5,9,13) [OF g] in \<open>auto simp: fs r\<close>)
qed

lemma chain_same_next:
  "chain h p as \<Longrightarrow> \<forall>a \<in> set as. \<forall>n. h a = Some n \<longrightarrow> (\<exists>n'. h' a = Some n' \<and> unmark (node_next n') = unmark (node_next n)) \<Longrightarrow> chain h' p as"
  by (induction as arbitrary: p) (auto split: option.splits)

lemma glob_marks:
  assumes g: "glob sent s as" and l: "lstep n sent a s = Some s'" and c: "call_ok n sent s t" and at: "at_pc n s t"
    and a: "t = actor a" "k = c_task s t" "t_pc k = PMark" "c_heap s (t_cur k) = Some nd" "node_next nd = t_next k"
      "s' = set_task t (k\<lparr>t_marked := True, t_pc := PPhys\<rparr>) (put_heap (t_cur k) (Some (nd\<lparr>node_next := mark (t_next k)\<rparr>)) s)"
  shows "glob sent s' as"
proof -
  from at a c have p: "aligned (t_next k)" "node_key (c_heap s) (t_cur k) = t_key k" "\<not> sent (t_key k)"
    by (auto simp: at_pc_def call_ok_def Let_def)
  have key: "node_key (c_heap s') = node_key (c_heap s)" using a(4) by (auto simp: node_key_def a(6))
  have live: "live (c_heap s') y \<longleftrightarrow> live (c_heap s) y \<and> y \<noteq> t_cur k" for y by (auto simp: live_def a(6))
  have dm: "dom (c_heap s') = dom (c_heap s)" using a(4) by (auto simp: a(6))
  have fs: "c_task s' = (c_task s)(t := k\<lparr>t_marked := True, t_pc := PPhys\<rparr>)" "c_retired s' = c_retired s" "c_dummies s' = c_dummies s"
    by (simp_all add: a(6))
  have lim: "limbo s' = limbo s" using a(2,3) by (auto simp: limbo_def fs retiring_pc fun_eq_iff)
  have h: "held s' = held s" using a(2) by (auto simp: held_def lim fs fun_eq_iff)
  show ?thesis
  proof (rule globI [OF g l a(1), where F = "{}"])
    show "chain (c_heap s') (c_head s') as"
      using chain_same_next [OF globD(1) [OF g], of "c_heap s'"] a(4,5) by (auto simp: a(6))
    show "y \<noteq> NULL \<and> aligned y \<and> (sent (node_key (c_heap s') y) \<longrightarrow> live (c_heap s') y)" if "y \<in> dom (c_heap s')" for y
      using that globD(3-5) [OF g, of y] p by (auto simp: key live dm)
    show "set as \<inter> held s' t = {}" unfolding h using globD(7) [OF g, of t] by blast
    show "dom (c_heap s') = dom (c_heap s) - (set as \<union> held s t) \<union> set as \<union> held s' t"
      unfolding dm h using held_dom [OF g, of t] list_dom [OF g] by blast
    show "retiring (c_task s' t) \<inter> set (c_retired s' t) = {}" by (simp add: retiring_pc fs)
    show "t_node (c_task s' t) \<notin> limbo s' t" using globD(11) [OF g, of t] a(2) by (simp add: lim fs)
    show "\<not> live (c_heap s') y" if "y \<in> limbo s' u" for u y using that globD(12) [OF g, of y u] by (simp add: lim live)
    show "y \<in> set as \<and> node_key (c_heap s') y = k' \<and> sent k'" if "(y, k') \<in> set (c_dummies s')" for y k'
      using globD(13) [OF g, of y k'] that by (simp add: fs key)
  qed (use globD(2,9) [OF g] in \<open>simp_all add: key h fs\<close>)
qed

lemma glob_unlink:
  assumes g: "glob sent s as" and l: "lstep n sent a s = Some s'" and at: "at_pc n s t"
    and a: "t = actor a" "k = c_task s t" "t_pc k = PUnlink \<and> b \<or> t_pc k = PPhys \<and> \<not> b" "load t (t_prev k) s = Some (t_cur k)"
      "s' = set_task t (k\<lparr>t_pc := PRetire b\<rparr>) (store t (t_prev k) (unmark (t_next k)) s)"
  obtains pre suf where "as = pre @ t_cur k # suf" "glob sent s' (pre @ suf)" "same_nodes UNIV (c_heap s) (c_heap s')"
    "\<forall>x \<in> set pre. node_key (c_heap s) x < t_key k" "first suf = unmark (t_next k)" "\<not> live (c_heap s) (t_cur k)"
proof -
  let ?c = "t_cur k"
  from at a have p: "prev_ok n s t" "t_prev k \<noteq> StartLoc" "cur_ok n s t" "\<not> live (c_heap s) ?c"
    "unmark (node_next (the (c_heap s ?c))) = unmark (t_next k)"
    by (auto simp: at_pc_def Let_def live_def)
  note cur = cur_aligned [OF g p(3), folded a(2)]
  have al: "aligned (t_cur (c_task s t))" using cur a(2) by simp
  from place [OF g p(1) p(2) [unfolded a(2)] a(4) [unfolded a(2)] al] obtain pre suf' where
    as': "as = pre @ suf'" and loc: "at_loc (seq_view s) pre (t_prev k)" and f: "first suf' = ?c"
      and "chain (c_heap s) ?c suf'" and pre: "\<forall>y \<in> set pre. node_key (c_heap s) y < t_key k"
    by (auto simp: a(2))
  obtain suf where suf: "suf' = ?c # suf" using f cur by (cases suf') auto
  have as: "as = pre @ ?c # suf" using as' suf by simp
  from globD(1) [OF g] as p(5) have ch: "chain (c_heap s) (unmark (t_next k)) suf" by (auto elim!: chain_node)
  have fst: "first suf = unmark (t_next k)" using chain_first [OF ch] by simp
  have dis: "distinct as" using sorted_keys_distinct [OF globD(2) [OF g]] .
  have heap: "c_heap s' = c_heap (store t (t_prev k) (first suf) s)" "c_head s' = c_head (store t (t_prev k) (first suf) s)"
    by (simp_all add: a(5) fst)
  note st = store_chain [OF g [unfolded as'] loc ch [folded fst] _ refl, of t, folded heap]
  have st': "chain (c_heap s') (c_head s') (pre @ suf)" "same_nodes UNIV (c_heap s) (c_heap s')" "dom (c_heap s') = dom (c_heap s)"
    using st dis as by auto
  have key: "node_key (c_heap s') = node_key (c_heap s)" "live (c_heap s') = live (c_heap s)"
    using st'(2) by (auto simp: same_nodes_def)
  have fs: "c_task s' = (c_task s)(t := k\<lparr>t_pc := PRetire b\<rparr>)" "c_retired s' = c_retired s" "c_dummies s' = c_dummies s"
    using p(2) by (simp_all add: a(5))
  have lim: "limbo s' u = (if u = t then insert ?c (limbo s t) else limbo s u)" for u
    using a(2,3) by (auto simp: limbo_def fs retiring_def)
  have h: "held s' t = insert ?c (held s t)" using a(2) by (auto simp: held_def lim fs)
  have c: "?c \<in> set as" "?c \<notin> held s u" "?c \<notin> limbo s u" for u
    using as globD(7) [OF g, of u] limbo_held [of s u] by auto
  have nd: "t_node k \<noteq> ?c" using p(3) a(2) by (auto simp: prot_def unowned_def)
  have "glob sent s' (pre @ suf)"
  proof (rule globI [OF g l a(1) st'(1), where F = "{}"])
    show "sorted_wrt (<) (map (node_key (c_heap s')) (pre @ suf))"
      using globD(2) [OF g] by (auto simp: key as sorted_wrt_append)
    show "set (pre @ suf) \<union> held s' t \<subseteq> set as \<union> held s t \<union> {}" unfolding h using as by auto
    show "set (pre @ suf) \<inter> held s' t = {}" unfolding h using as dis globD(7) [OF g, of t] by auto
    show "dom (c_heap s') = dom (c_heap s) - (set as \<union> held s t) \<union> set (pre @ suf) \<union> held s' t"
      unfolding h st'(3) using held_dom [OF g, of t] list_dom [OF g] as by auto
    show "retiring (c_task s' t) \<inter> set (c_retired s' t) = {}" using c(3) [of t] by (auto simp: fs retiring_def limbo_def)
    show "t_node (c_task s' t) \<notin> limbo s' t" using globD(11) [OF g, of t] nd a(2) by (simp add: lim fs)
    show "\<not> live (c_heap s') y" if "y \<in> limbo s' u" for u y
      using that globD(12) [OF g, of y u] p(4) by (auto simp: lim key split: if_splits)
    show "y \<in> set (pre @ suf) \<and> node_key (c_heap s') y = k' \<and> sent k'" if "(y, k') \<in> set (c_dummies s')" for y k'
      using that globD(13) [OF g, of y k'] globD(5) [OF g, of y] list_dom [OF g] as p(4) by (auto simp: key fs)
  qed (use globD(3-5,9) [OF g] in \<open>auto simp: key st'(3) fs\<close>)
  with as st'(2) pre fst p(4) that show thesis by blast
qed

lemma glob_step:
  assumes "cinv n sent s" "lstep n sent a s = Some s'"
  shows "\<exists>as. glob sent s' as"
proof -
  define t where "t = actor a"
  define k where "k = c_task s t"
  from assms(1) obtain as where g: "glob sent s as" and c: "call_ok n sent s t" and at: "at_pc n s t"
    by (auto simp: cinv_def)
  have n: "t_pc k = PNew \<longrightarrow> t_node (c_task s t) = NULL" "t_pc k = PLink \<longrightarrow> t_node k \<noteq> NULL \<and> aligned (t_cur k)"
    using c at by (auto simp: call_ok_def at_pc_def placed_at_def Let_def k_def)
  from assms(2) c [unfolded t_def] at [unfolded t_def] k_def t_def show ?thesis
  proof (cases rule: step_cases)
    case quiet
    with glob_quiet [OF g] show ?thesis by blast
  next
    case (alloc x)
    with glob_alloc [OF g assms(2) _ t_def k_def] n show ?thesis by blast
  next
    case (link nd)
    with glob_own_node [OF g assms(2) t_def k_def] n show ?thesis by blast
  next
    case publish
    with glob_publish [OF g assms(2) c at t_def k_def] show ?thesis by metis
  next
    case discard
    with glob_discard [OF g assms(2) c at t_def k_def] show ?thesis by blast
  next
    case (unlink b)
    with glob_unlink [OF g assms(2) at t_def k_def] show ?thesis by metis
  next
    case (marks nd)
    with glob_marks [OF g assms(2) c at t_def k_def] show ?thesis by blast
  next
    case (retire b k')
    with glob_retire [OF g assms(2) t_def k_def] show ?thesis by blast
  next
    case (free b x r)
    with glob_free [OF g assms(2) at t_def k_def] show ?thesis by blast
  qed
qed

section \<open>The thread that moves\<close>

lemma pc_return:
  "t_op k = OpInsert \<Longrightarrow> t_pc (lookup_return r k) = (if r then PDelete else PLink)"
  "t_op k = OpLookup w \<Longrightarrow> t_pc (lookup_return r k) = PRet"
  "t_op k = OpRemove \<Longrightarrow> t_pc (lookup_return r k) = (if t_marked k \<or> \<not> r then PRet else PMark)"
  by (simp_all add: lookup_return_def)

lemma pc_return_insert: "t_op k = OpInsert \<Longrightarrow> t_pc (lookup_return r k) \<noteq> PRet"
  by (simp add: pc_return)

lemma pc_return_new: "t_pc (lookup_return r k) \<noteq> PNew"
  by (cases "t_op k") (simp_all add: pc_return)

lemma pc_loop_head: "t_op k = OpInsert \<Longrightarrow> t_pc (loop_head k) \<noteq> PRet"
  by (simp add: loop_head_def pc_return)

lemma pc_loop_head_new: "t_pc (loop_head k) \<noteq> PNew"
  by (auto simp: loop_head_def lookup_return_def split: op.splits)

lemma pc_scan_next: "t_pc (scan_next n q b l k) \<noteq> PNew" "t_pc (scan_next n q b l k) \<noteq> PRet"
  by (simp_all add: scan_next_def)

lemma at_loop_head:
  assumes "c_task s t = loop_head k" "prev_ok n s t" "t_prev k \<noteq> StartLoc \<or> t_cur k \<noteq> NULL" "aligned (t_cur k)"
  shows "at_pc n s t"
proof (cases "t_cur k = NULL")
  case True
  with assms have "c_task s t = lookup_return False k" by (simp add: loop_head_def)
  with assms(2-4) True show ?thesis by (cases "t_op k") (auto simp: at_pc_def placed_at_def pc_return Let_def)
next
  case False
  with assms(1) have "c_task s t = k\<lparr>t_pc := PHp\<rparr>" by (simp add: loop_head_def)
  with assms(2-4) False show ?thesis by (simp add: at_pc_def Let_def)
qed

lemma at_resume:
  assumes "c_task s t = resume b k" "if b then prev_ok n s t \<and> t_prev k \<noteq> StartLoc else t_op k = OpRemove"
  shows "at_pc n s t"
proof (cases b)
  case True
  with assms show ?thesis by (intro at_loop_head [of _ _ "k\<lparr>t_cur := unmark (t_next k)\<rparr>"]) (auto simp: resume_def)
next
  case False
  with assms show ?thesis by (simp add: resume_def at_pc_def Let_def)
qed

text \<open>The private node keeps its key, value and mark through the steps of its owner.\<close>

lemma own_node_step:
  assumes "cinv n sent s" "lstep n sent a s = Some s'" "t = actor a" "t_node (c_task s t) \<noteq> NULL"
    "t_node (c_task s' t) = t_node (c_task s t)" "y = t_node (c_task s t)"
  shows "node_key (c_heap s') y = node_key (c_heap s) y \<and> node_value (the (c_heap s' y)) = node_value (the (c_heap s y))
    \<and> live (c_heap s') y = live (c_heap s) y"
proof -
  define k where "k = c_task s t"
  from assms(1) obtain as where g: "glob sent s as" and c: "call_ok n sent s t" and at: "at_pc n s t"
    by (auto simp: cinv_def)
  note apart = node_apart [OF g assms(4), folded assms(6)]
  have lv: "live (c_heap s) y" using c assms(4,6) by (auto simp: call_ok_def Let_def)
  from assms(2) c [unfolded assms(3)] at [unfolded assms(3)] k_def assms(3) show ?thesis
  proof (cases rule: step_cases)
    case (alloc x)
    then have "x \<noteq> y" using apart(1) by auto
    with alloc show ?thesis by (simp add: node_key_def live_def)
  next
    case (link nd)
    with at have "aligned (t_cur k)" by (simp add: at_pc_def placed_at_def Let_def k_def)
    with link lv show ?thesis by (auto simp: node_key_def live_def isMarked_aligned assms(6) k_def)
  next
    case (unlink b)
    from glob_unlink [OF g assms(2) at assms(3) k_def unlink] have "same_nodes UNIV (c_heap s) (c_heap s')" by metis
    then show ?thesis by (simp add: same_nodes_def)
  next
    case (marks nd)
    with at c assms(4) show ?thesis by (auto simp: at_pc_def call_ok_def Let_def k_def)
  next
    case (free b x r)
    with at have "x \<in> limbo s t" by (auto simp: at_pc_def Let_def k_def limbo_def)
    with apart(3) have "x \<noteq> y" by blast
    with free show ?thesis by (simp add: node_key_def live_def)
  qed (use assms(4,5) in \<open>auto simp: quiet_def k_def\<close>)
qed

text \<open>Fields a thread's own step does not change, and its program point, during a call.\<close>

lemma own_fields:
  assumes "step_thread n t s = Some s'" "at_pc n s t" "k = c_task s t" "k' = c_task s' t"
  shows "t_op k' = t_op k" "t_key k' = t_key k" "t_val k' = t_val k" "t_start k' = t_start k" "t_dummy k' = t_dummy k"
    "t_node k' = t_node k \<or> t_node k' = NULL \<and> t_pc k' = PRet" "t_pc k' \<noteq> PNew" "t_pc k \<noteq> PRet" "t_pc k \<noteq> PNew"
    "t_pc k' = PRet \<Longrightarrow> t_op k = OpInsert \<Longrightarrow> t_node k' = NULL"
    "t_marked k' \<Longrightarrow> t_marked k \<or> t_op k = OpRemove"
proof -
  have "t_op k' = t_op k \<and> t_key k' = t_key k \<and> t_val k' = t_val k \<and> t_start k' = t_start k \<and> t_dummy k' = t_dummy k
    \<and> (t_node k' = t_node k \<or> t_node k' = NULL \<and> t_pc k' = PRet) \<and> t_pc k' \<noteq> PNew \<and> t_pc k \<noteq> PRet \<and> t_pc k \<noteq> PNew
    \<and> (t_pc k' = PRet \<longrightarrow> t_op k = OpInsert \<longrightarrow> t_node k' = NULL) \<and> (t_marked k' \<longrightarrow> t_marked k \<or> t_op k = OpRemove)"
  proof (cases "t_pc k")
    case (PRetire b)
    with assms have "k' = k\<lparr>t_pc := PScan 0 b, t_active := []\<rparr> \<or> k' = resume b k" by (auto simp: step_defs)
    with assms(2,3) PRetire show ?thesis
      by (cases b) (auto simp: at_pc_def resume_def pc_loop_head pc_loop_head_new)
  next
    case (PFree b)
    with assms show ?thesis
      by (cases b) (auto simp: step_defs at_pc_def resume_def pc_loop_head pc_loop_head_new split: list.splits if_splits Option.bind_splits)
  next
    case PInsCas
    with assms(2,3) have "t_prev k \<noteq> StartLoc" by (simp add: at_pc_def placed_at_def Let_def)
    with assms(1,3,4) PInsCas show ?thesis by (auto simp: step_defs split: Option.bind_splits if_splits)
  next
    case PUnlink
    with assms(2,3) have "t_prev k \<noteq> StartLoc" by (simp add: at_pc_def Let_def)
    with assms(1,3,4) PUnlink show ?thesis by (auto simp: step_defs split: Option.bind_splits if_splits)
  next
    case PPhys
    with assms(2,3) have "t_prev k \<noteq> StartLoc" "t_op k = OpRemove" by (simp_all add: at_pc_def Let_def)
    with assms(1,3,4) PPhys show ?thesis by (auto simp: step_defs split: Option.bind_splits if_splits)
  next
    case PMark
    with assms(2,3) have "t_op k = OpRemove" by (simp add: at_pc_def Let_def)
    with assms(1,3,4) PMark show ?thesis by (auto simp: step_defs split: Option.bind_splits if_splits)
  next
    case (PScan q b)
    with assms(1,3,4) have "k' = k\<lparr>t_pc := PScanPut q b\<rparr> \<or> k' = scan_next n q b (c_retired s t) k" by (auto simp: step_defs)
    with PScan show ?thesis by (auto simp: pc_scan_next)
  next
    case (PScanPut q b)
    with assms(1,3,4) show ?thesis by (auto simp: step_defs pc_scan_next)
  qed (use assms(1,3,4) in \<open>auto simp: step_defs pc_loop_head pc_loop_head_new pc_return_insert pc_return_new
      split: Option.bind_splits if_splits\<close>)
  then show "t_op k' = t_op k" "t_key k' = t_key k" "t_val k' = t_val k" "t_start k' = t_start k" "t_dummy k' = t_dummy k"
    "t_node k' = t_node k \<or> t_node k' = NULL \<and> t_pc k' = PRet" "t_pc k' \<noteq> PNew" "t_pc k \<noteq> PRet" "t_pc k \<noteq> PNew"
    "t_pc k' = PRet \<Longrightarrow> t_op k = OpInsert \<Longrightarrow> t_node k' = NULL"
    "t_marked k' \<Longrightarrow> t_marked k \<or> t_op k = OpRemove"
    by simp_all
qed

lemma actor_call_ok:
  assumes "cinv n sent s" "lstep n sent a s = Some s'" "t = actor a"
  shows "call_ok n sent s' t"
proof -
  from assms(1) have c: "call_ok n sent s t" and at: "at_pc n s t" by (auto simp: cinv_def)
  show ?thesis
  proof (cases a)
    case (Call t' opn key val start dummy)
    with assms(2,3) have "t < n" "may_call sent opn key start dummy s" "s' = set_task t (new_task opn key val start dummy) s"
      by (auto split: if_splits)
    then show ?thesis by (auto simp: call_ok_def new_task_def may_call_def list_ex_iff Let_def)
  next
    case (New t' x)
    with assms(2,3) have "t_pc (c_task s t) = PNew" "x \<noteq> NULL"
      "s' = set_task t ((c_task s t)\<lparr>t_node := x, t_pc := PStart\<rparr>)
              (put_heap x (Some \<lparr>node_data = t_key (c_task s t), node_value = t_val (c_task s t), node_next = NULL\<rparr>) s)"
      by (auto simp: Let_def split: if_splits)
    with c at show ?thesis by (auto simp: call_ok_def at_pc_def Let_def node_key_def live_def isMarked_aligned)
  next
    case (Step t')
    with assms(2,3) have s': "step_thread n t s = Some s'" by simp
    note f = own_fields [OF s' at refl refl]
    have d: "set (c_dummies s) \<subseteq> set (c_dummies s')" using step_dummies [OF assms(2)] c at assms(3) by simp
    show ?thesis
    proof (cases "t_node (c_task s' t) = t_node (c_task s t)")
      case True
      have "t_node (c_task s t) \<noteq> NULL \<longleftrightarrow> t_op (c_task s t) = OpInsert \<and> t_pc (c_task s' t) \<noteq> PRet"
        using c f(8-10) True by (auto simp: call_ok_def Let_def)
      with own_node_step [OF assms _ True refl] True c f d show ?thesis by (auto simp: call_ok_def Let_def)
    next
      case False
      with f(6) have "t_node (c_task s' t) = NULL" "t_pc (c_task s' t) = PRet" by auto
      with c f show ?thesis by (auto simp: call_ok_def Let_def)
    qed
  qed
qed

text \<open>A node on the list is protected as soon as a hazard pointer holds it.\<close>

lemma prot_on_list:
  assumes "glob sent s as" "p \<in> set as" "c_hp s t j = p"
  shows "prot n s t j p"
proof -
  have "p \<notin> set (c_retired s u)" for u
    using assms(2) globD(7) [OF assms(1), of u] limbo_held [of s u] by (auto simp: limbo_def)
  then show ?thesis using assms unowned_iff [OF assms(1)] by (auto simp: prot_def guarded_def)
qed

lemma quiet_prot: "quiet s s' \<Longrightarrow> unowned s' p = unowned s p"
  by (simp add: quiet_def unowned_def)

text \<open>What \<^verbatim>\<open>*prev == cur\<close> says.\<close>

lemma validated:
  assumes "glob sent s as" "call_ok n sent s t" "prev_ok n s t" "t_pc (c_task s t) \<noteq> PRet"
    "load t (t_prev (c_task s t)) s = Some (t_cur (c_task s t))" "t_cur (c_task s t) \<noteq> NULL" "aligned (t_cur (c_task s t))"
  shows "t_cur (c_task s t) \<in> set as \<and> entered (c_task s t)"
proof (cases "t_prev (c_task s t) = StartLoc")
  case True
  with assms have "t_start (c_task s t) = t_cur (c_task s t)" by (simp add: load_def)
  with assms globD(13) [OF assms(1)] show ?thesis by (auto simp: call_ok_def Let_def)
next
  case False
  from place [OF assms(1,3) False assms(5,7)] obtain pre suf where "as = pre @ suf" "first suf = t_cur (c_task s t)" by metis
  with False assms(6) show ?thesis by (cases suf) auto
qed

text \<open>A thread that entered at a sentinel stands on a node that is not marked and does not come after the key.\<close>

lemma at_sentinel:
  assumes "glob sent s as" "call_ok n sent s t" "prev_ok n s t" "t_pc (c_task s t) \<noteq> PRet" "t_prev (c_task s t) = StartLoc"
    "t_cur (c_task s t) = t_start (c_task s t)"
  shows "live (c_heap s) (t_cur (c_task s t)) \<and> node_key (c_heap s) (t_cur (c_task s t)) \<le> t_key (c_task s t)
    \<and> (node_key (c_heap s) (t_cur (c_task s t)) = t_key (c_task s t) \<longrightarrow> t_op (c_task s t) \<noteq> OpRemove)"
proof -
  from assms obtain k where k: "(t_cur (c_task s t), k) \<in> set (c_dummies s)" "k \<le> t_key (c_task s t)"
    by (auto simp: call_ok_def prev_ok_def Let_def)
  with globD(13) [OF assms(1) k(1)] globD(5) [OF assms(1), of "t_cur (c_task s t)"] list_dom [OF assms(1)] assms(2) show ?thesis
    by (auto simp: call_ok_def Let_def)
qed

lemma lookup_first_half:
  assumes inv: "cinv n sent s" and l: "lstep n sent (Step t) s = Some s'" "calm (Step t) s"
    and pc: "t_pc (c_task s t) \<in> {PStart, PHp, PCheck1, PNext}"
  shows "at_pc n s' t"
proof -
  let ?k = "c_task s t"
  from inv obtain as where g: "glob sent s as" and c: "call_ok n sent s t" and at: "at_pc n s t" by (auto simp: cinv_def)
  have t: "t < n" and st: "step_thread n t s = Some s'" using c pc l by (auto simp: call_ok_def Let_def)
  note prev = prev_ok_step [OF inv l _ t]
  from pc consider "t_pc ?k = PStart" | "t_pc ?k = PHp" | "t_pc ?k = PCheck1" | "t_pc ?k = PNext" by auto
  then show ?thesis
  proof cases
    case 1
    with st obtain p where p: "load t (start_loc ?k) s = Some p"
      "s' = set_task t (loop_head (?k\<lparr>t_prev := start_loc ?k, t_cur := p\<rparr>)) s" by (auto simp: step_defs split: Option.bind_splits)
    have "aligned p \<and> (start_loc ?k = StartLoc \<longrightarrow> p \<noteq> NULL)"
    proof (cases "t_start ?k = NULL")
      case True
      then show ?thesis using p(1) chain_aligned [OF globD(1) [OF g]] by (auto simp: start_loc_def load_def)
    next
      case False
      with c 1 obtain k where "(t_start ?k, k) \<in> set (c_dummies s)" by (auto simp: call_ok_def Let_def)
      with globD(13) [OF g] list_dom [OF g] globD(4) [OF g] have "aligned (t_start ?k)" by blast
      with False p(1) show ?thesis by (auto simp: start_loc_def load_def)
    qed
    then show ?thesis
      by (intro at_loop_head [of _ _ "?k\<lparr>t_prev := start_loc ?k, t_cur := p\<rparr>"]) (auto simp: p(2) prev_ok_def start_loc_def)
  next
    case 2
    with st have "s' = set_task t (?k\<lparr>t_pc := PCheck1\<rparr>) (put_hp t 0 (t_cur ?k) s)" by (simp add: step_defs)
    with prev at 2 show ?thesis by (simp add: at_pc_def Let_def)
  next
    case 3
    with st obtain p where p: "load t (t_prev ?k) s = Some p"
      "s' = (if p \<noteq> t_cur ?k then again t s else set_task t (?k\<lparr>t_pc := PNext\<rparr>) s)" by (auto simp: step_defs split: Option.bind_splits)
    show ?thesis
    proof (cases "p = t_cur ?k")
      case True
      with p have s': "s' = set_task t (?k\<lparr>t_pc := PNext\<rparr>) s" by simp
      with 3 have q: "quiet s s'" by (simp add: quiet_def retiring_pc)
      from at 3 have a: "prev_ok n s t" "t_cur ?k \<noteq> NULL" "aligned (t_cur ?k)" "c_hp s t 0 = t_cur ?k" by (auto simp: at_pc_def Let_def)
      from validated [OF g c a(1) _ _ a(2,3)] p(1) True 3 have v: "t_cur ?k \<in> set as" "entered ?k" by auto
      from prot_on_list [OF glob_quiet [OF g q] v(1)] a(4) have "prot n s' t 0 (t_cur ?k)" by (simp add: s')
      with v(2) prev a(1) show ?thesis by (simp add: at_pc_def s' Let_def)
    next
      case False
      with p show ?thesis by (simp add: again_def at_pc_def Let_def)
    qed
  next
    case 4
    with st obtain nd where nd: "c_heap s (t_cur ?k) = Some nd"
      "s' = set_task t (?k\<lparr>t_next := node_next nd, t_pc := if isMarked (node_next nd) then PUnlink else PKey\<rparr>) s"
      by (auto simp: step_defs split: Option.bind_splits)
    from at 4 have a: "prev_ok n s t" "prot n s t 0 (t_cur ?k)" "entered ?k" by (auto simp: at_pc_def Let_def)
    from prot_step [OF inv l a(2) t] nd(2) have cur: "prot n s' t 0 (t_cur ?k)" by simp
    have "t_prev ?k \<noteq> StartLoc" if "isMarked (node_next nd)"
      using at_sentinel [OF g c a(1)] a(3) that nd(1) 4 by (auto simp: live_def)
    with cur prev a(1,3) nd(1) show ?thesis by (auto simp: at_pc_def nd(2) Let_def live_def mb.clean_iff)
  qed
qed

lemma lookup_second_half:
  assumes inv: "cinv n sent s" and l: "lstep n sent (Step t) s = Some s'" "calm (Step t) s"
    and pc: "t_pc (c_task s t) \<in> {PKey, PCheck2, PSwap0, PSwap1, PValue}"
  shows "at_pc n s' t"
proof -
  let ?k = "c_task s t"
  from inv obtain as where g: "glob sent s as" and c: "call_ok n sent s t" and at: "at_pc n s t" by (auto simp: cinv_def)
  have t: "t < n" and st: "step_thread n t s = Some s'" using c pc l by (auto simp: call_ok_def Let_def)
  note prev = prev_ok_step [OF inv l _ t]
  note cur = prot_step [OF inv l _ t]
  from pc consider "t_pc ?k = PKey" | "t_pc ?k = PCheck2" | "t_pc ?k = PSwap0" | "t_pc ?k = PSwap1" | "t_pc ?k = PValue" by auto
  then show ?thesis
  proof cases
    case 1
    with st obtain nd where nd: "c_heap s (t_cur ?k) = Some nd"
      "s' = set_task t (?k\<lparr>t_ckey := node_data nd, t_pc := PCheck2\<rparr>) s" by (auto simp: step_defs split: Option.bind_splits)
    with at 1 prev cur [of 0 "t_cur ?k"] show ?thesis by (auto simp: at_pc_def nd(2) Let_def node_key_def)
  next
    case 2
    from at 2 have a: "prev_ok n s t" "prot n s t 0 (t_cur ?k)" "entered ?k" "aligned (t_next ?k)" "t_ckey ?k = node_key (c_heap s) (t_cur ?k)"
      by (auto simp: at_pc_def Let_def)
    from 2 st obtain p where "load t (t_prev ?k) s = Some p" "c_hp s' = c_hp s" "c_heap s' = c_heap s" and
      c': "c_task s' t = (if p \<noteq> t_cur ?k then ?k\<lparr>t_pc := PStart\<rparr>
        else if t_ckey ?k \<ge> t_key ?k then if t_ckey ?k = t_key ?k then if t_op ?k = OpLookup True then ?k\<lparr>t_pc := PValue\<rparr> else lookup_return True ?k
             else lookup_return False ?k else ?k\<lparr>t_pc := PSwap0\<rparr>)"
      by (auto simp: step_defs split: Option.bind_splits)
    note same = this(2,3)
    have f: "t_prev (c_task s' t) = t_prev ?k" "t_key (c_task s' t) = t_key ?k" "t_start (c_task s' t) = t_start ?k"
      "t_cur (c_task s' t) = t_cur ?k" by (auto simp: c')
    have prev': "prev_ok n s' t" and cur': "prot n s' t 0 (t_cur ?k)" using prev [OF a(1)] cur [OF a(2)] same f by auto
    have ne: "t_prev ?k \<noteq> StartLoc" if "t_key ?k < t_ckey ?k \<or> t_key ?k = t_ckey ?k \<and> t_op ?k = OpRemove"
      using at_sentinel [OF g c a(1)] a(3,5) that 2 by auto
    have al: "aligned (t_cur ?k)" using cur_aligned [OF g a(2)] by simp
    consider (again) "c_task s' t = ?k\<lparr>t_pc := PStart\<rparr>" | (val) "c_task s' t = ?k\<lparr>t_pc := PValue\<rparr>" "t_op ?k = OpLookup True" "t_ckey ?k = t_key ?k"
      | (found) "c_task s' t = lookup_return True ?k" "t_ckey ?k = t_key ?k" | (absent) "c_task s' t = lookup_return False ?k" "t_key ?k < t_ckey ?k"
      | (go) "c_task s' t = ?k\<lparr>t_pc := PSwap0\<rparr>" "t_ckey ?k < t_key ?k" using c' by (fastforce split: if_splits)
    then show ?thesis
    proof cases
      case again
      then show ?thesis by (simp add: at_pc_def)
    next
      case val
      with cur' a(5) show ?thesis by (simp add: at_pc_def same Let_def)
    next
      case found
      with cur' prev' ne a(4,5) f show ?thesis by (cases "t_op ?k") (auto simp: at_pc_def pc_return same Let_def)
    next
      case absent
      with cur' prev' ne al a(5) f show ?thesis by (cases "t_op ?k") (auto simp: at_pc_def placed_at_def pc_return same Let_def)
    next
      case go
      with cur' a(4,5) show ?thesis by (simp add: at_pc_def same Let_def)
    qed
  next
    case 3
    with at have a: "prot n s t 0 (t_cur ?k)" "aligned (t_next ?k)" "node_key (c_heap s) (t_cur ?k) < t_key ?k" by (auto simp: at_pc_def Let_def)
    from 3 st have s': "s' = set_task t (?k\<lparr>t_prev := NextLoc (t_cur ?k), t_temp := c_hp s t 0, t_pc := PSwap1\<rparr>) (put_hp t 0 (c_hp s t 1) s)"
      by (simp add: step_defs)
    from a(1) cur_aligned [OF g a(1)] guarded_step [OF l] at have "guarded n s' t 0 (t_cur ?k)" by (auto simp: prot_def)
    with keeps_step [OF inv l(1), of "t_cur ?k" t 0] a t show ?thesis by (auto simp: prot_def at_pc_def s' Let_def)
  next
    case 4
    with at have a: "t_prev ?k = NextLoc (t_temp ?k)" "unowned s (t_temp ?k)" "guarded n s t 0 (t_temp ?k)"
      "node_key (c_heap s) (t_temp ?k) < t_key ?k" "aligned (t_next ?k)" by (auto simp: at_pc_def Let_def)
    from 4 st have s': "s' = set_task t (loop_head (?k\<lparr>t_cur := t_next ?k\<rparr>)) (put_hp t 1 (t_temp ?k) s)" by (simp add: step_defs)
    have nn: "t_temp ?k \<noteq> NULL" using a(2) globD(3) [OF g] by (auto simp: unowned_def)
    have "guarded n s' t 0 (t_temp ?k)" using guarded_step [OF l _ a(3) nn] at 4 by simp
    then have "guarded n s' t 1 (t_temp ?k)" by (auto simp: guarded_def)
    with keeps_step [OF inv l(1) a(2,3) t] have "prot n s' t 1 (t_temp ?k)" by (simp add: prot_def s')
    with a(1,4) have "prev_ok n s' t" by (simp add: prev_ok_def s')
    then show ?thesis by (intro at_loop_head [of _ _ "?k\<lparr>t_cur := t_next ?k\<rparr>"]) (auto simp: s' a)
  next
    case 5
    with at have "t_op ?k = OpLookup True" by (simp add: at_pc_def Let_def)
    with 5 st show ?thesis by (auto simp: step_defs at_pc_def pc_return split: Option.bind_splits)
  qed
qed

lemma reclaiming:
  assumes inv: "cinv n sent s" and l: "lstep n sent (Step t) s = Some s'" "calm (Step t) s" and at: "at_pc n s t" and t: "t < n"
    and pc: "t_pc (c_task s t) = PRetire b \<or> (\<exists>q. t_pc (c_task s t) = PScan q b \<or> t_pc (c_task s t) = PScanPut q b) \<or> t_pc (c_task s t) = PFree b"
  shows "at_pc n s' t"
proof -
  let ?k = "c_task s t"
  let ?cont = "\<lambda>s. if b then prev_ok n s t \<and> t_prev (c_task s t) \<noteq> StartLoc else t_op (c_task s t) = OpRemove \<and> t_marked (c_task s t)"
  have st: "step_thread n t s = Some s'" using l by simp
  from at pc have cont: "?cont s" by (auto simp: at_pc_def Let_def split: if_splits)
  have cont': "?cont s'" if "t_prev (c_task s' t) = t_prev ?k" "t_op (c_task s' t) = t_op ?k" "t_marked (c_task s' t) = t_marked ?k"
    "t_key (c_task s' t) = t_key ?k" "t_start (c_task s' t) = t_start ?k" "c_hp s' = c_hp s"
    using that prev_ok_step [OF inv l _ t] cont by (auto split: if_splits)
  from inv obtain as where g: "glob sent s as" by (auto simp: cinv_def)
  from pc consider "t_pc ?k = PRetire b" | q where "t_pc ?k = PScan q b" | q where "t_pc ?k = PScanPut q b" | "t_pc ?k = PFree b" by auto
  then show ?thesis
  proof cases
    case 1
    with st have c': "c_task s' t = ?k\<lparr>t_pc := PScan 0 b, t_active := []\<rparr> \<or> c_task s' t = resume b ?k" "c_hp s' = c_hp s"
      by (auto simp: step_defs)
    then have b': "?cont s'" by (intro cont') auto
    from c'(1) show ?thesis
    proof
      assume "c_task s' t = resume b ?k"
      with b' show ?thesis by (intro at_resume [of _ _ b ?k]) (auto split: if_splits)
    qed (use b' t in \<open>auto simp: at_pc_def Let_def split: if_splits\<close>)
  next
    case (2 q)
    with st have c': "c_task s' t = ?k\<lparr>t_pc := PScanPut q b\<rparr> \<or> c_task s' t = scan_next n q b (c_retired s t) ?k"
      "c_hp s' = c_hp s" "c_retired s' = c_retired s" by (auto simp: step_defs)
    then have "?cont s'" by (intro cont') auto
    with c' 2 at globD(9) [OF g, of t] show ?thesis by (auto simp: at_pc_def Let_def scan_next_def split: if_splits)
  next
    case (3 q)
    with st have c': "c_task s' t = scan_next n q b (c_retired s t) (?k\<lparr>t_active := List.insert (c_hp s (q div 2) (q mod 2)) (t_active ?k)\<rparr>)"
      "c_hp s' = c_hp s" "c_retired s' = c_retired s" by (auto simp: step_defs)
    then have "?cont s'" by (intro cont') auto
    with c' 3 at globD(9) [OF g, of t] show ?thesis by (auto simp: at_pc_def Let_def scan_next_def split: if_splits)
  next
    case 4
    show ?thesis
    proof (cases "t_rest ?k")
      case Nil
      with 4 st have c': "c_task s' t = resume b ?k" "c_hp s' = c_hp s" by (auto simp: step_defs)
      then have "?cont s'" by (intro cont') auto
      with c'(1) show ?thesis by (intro at_resume [of _ _ b ?k]) (auto split: if_splits)
    next
      case (Cons x r)
      with 4 st have c': "c_task s' t = ?k\<lparr>t_rest := r\<rparr>" "c_hp s' = c_hp s" "c_retired s' t = c_retired s t \<or> c_retired s' t = remove1 x (c_retired s t)"
        by (auto simp: step_defs split: if_splits Option.bind_splits)
      then have "?cont s'" by (intro cont') auto
      with c' 4 Cons at globD(9) [OF g, of t] show ?thesis by (auto simp: at_pc_def Let_def split: if_splits)
    qed
  qed
qed

lemma updating:
  assumes inv: "cinv n sent s" and l: "lstep n sent (Step t) s = Some s'" "calm (Step t) s" and at: "at_pc n s t" and t: "t < n"
    and pc: "t_pc (c_task s t) \<in> {PLink, PInsCas, PDelete, PUnlink, PMark, PPhys}"
  shows "at_pc n s' t"
proof -
  let ?k = "c_task s t"
  have st: "step_thread n t s = Some s'" using l by simp
  note prev = prev_ok_step [OF inv l _ t]
  note cur = prot_step [OF inv l _ t]
  from pc consider "t_pc ?k = PLink" | "t_pc ?k = PInsCas" | "t_pc ?k = PDelete" | "t_pc ?k = PUnlink" | "t_pc ?k = PMark" | "t_pc ?k = PPhys"
    by auto
  then show ?thesis
  proof cases
    case 1
    with at have a: "placed_at n s t" by (simp add: at_pc_def Let_def)
    from 1 st obtain nd where s': "s' = set_task t (?k\<lparr>t_pc := PInsCas\<rparr>) (put_heap (t_node ?k) (Some (nd\<lparr>node_next := t_cur ?k\<rparr>)) s)"
      by (auto simp: step_defs split: Option.bind_splits)
    have "c_hp s' = c_hp s" "c_task s' t = ?k\<lparr>t_pc := PInsCas\<rparr>" "node_next (the (c_heap s' (t_node ?k))) = t_cur ?k" by (simp_all add: s')
    with a prev cur [of 0 "t_cur ?k"] show ?thesis by (auto simp: at_pc_def placed_at_def keeps_def Let_def)
  next
    case 2
    with at have "t_prev ?k \<noteq> StartLoc" by (simp add: at_pc_def placed_at_def Let_def)
    with 2 st show ?thesis by (auto simp: step_defs at_pc_def split: Option.bind_splits if_splits)
  next
    case 3
    with st show ?thesis by (auto simp: step_defs at_pc_def split: Option.bind_splits)
  next
    case 4
    with at have a: "prev_ok n s t" "t_prev ?k \<noteq> StartLoc" by (auto simp: at_pc_def Let_def)
    with 4 st have c': "c_task s' t = ?k\<lparr>t_pc := PStart\<rparr> \<or> c_task s' t = ?k\<lparr>t_pc := PRetire True\<rparr>" "c_hp s' = c_hp s"
      by (auto simp: step_defs split: Option.bind_splits if_splits)
    with prev [OF a(1)] have "prev_ok n s' t" by auto
    with c' a(2) show ?thesis by (auto simp: at_pc_def Let_def)
  next
    case 5
    with at have a: "t_op ?k = OpRemove" "prev_ok n s t" "t_prev ?k \<noteq> StartLoc" "prot n s t 0 (t_cur ?k)" "aligned (t_next ?k)"
      by (auto simp: at_pc_def Let_def)
    from 5 st consider "c_task s' t = ?k\<lparr>t_pc := PStart\<rparr>"
      | "c_task s' t = ?k\<lparr>t_marked := True, t_pc := PPhys\<rparr>" "c_hp s' = c_hp s" "node_next (the (c_heap s' (t_cur ?k))) = mark (t_next ?k)"
      by (auto simp: step_defs load_def store_def split: Option.bind_splits if_splits)
    then show ?thesis
    proof cases
      case 2
      with prev [OF a(2)] cur [OF a(4)] have "prev_ok n s' t" "prot n s' t 0 (t_cur ?k)" by auto
      with 2 a show ?thesis by (simp add: at_pc_def Let_def)
    qed (simp add: at_pc_def)
  next
    case 6
    with at have "t_prev ?k \<noteq> StartLoc" "t_op ?k = OpRemove" "t_marked ?k" by (auto simp: at_pc_def Let_def)
    with 6 st show ?thesis by (auto simp: step_defs at_pc_def split: Option.bind_splits if_splits)
  qed
qed

lemma actor_at_pc:
  assumes inv: "cinv n sent s" and l: "lstep n sent a s = Some s'" "calm a s"
  shows "at_pc n s' (actor a)"
proof (cases a)
  case (Call t opn key val start dummy)
  with l show ?thesis by (auto simp: at_pc_def new_task_def split: if_splits)
next
  case (New t x)
  with l show ?thesis by (auto simp: at_pc_def Let_def split: if_splits)
next
  case (Step t)
  with inv l have at: "at_pc n s t" and c: "call_ok n sent s t" and st: "step_thread n t s = Some s'" by (auto simp: cinv_def)
  then have t: "t < n" by (auto simp: call_ok_def step_thread_def Let_def)
  note l' = l [unfolded Step]
  show ?thesis
  proof (cases "\<exists>b q. t_pc (c_task s t) = PRetire b \<or> t_pc (c_task s t) = PScan q b \<or> t_pc (c_task s t) = PScanPut q b \<or> t_pc (c_task s t) = PFree b")
    case True
    then show ?thesis using reclaiming [OF inv l' at t] Step by auto
  next
    case False
    then have "t_pc (c_task s t) \<in> {PStart, PHp, PCheck1, PNext} \<or> t_pc (c_task s t) \<in> {PKey, PCheck2, PSwap0, PSwap1, PValue}
      \<or> t_pc (c_task s t) \<in> {PLink, PInsCas, PDelete, PUnlink, PMark, PPhys}"
      using st by (cases "t_pc (c_task s t)") (auto simp: step_thread_def)
    then show ?thesis
      using lookup_first_half [OF inv l'] lookup_second_half [OF inv l'] updating [OF inv l' at t] Step by auto
  qed
qed

lemma cinv_step:
  assumes "cinv n sent s" "calm_step n sent a s = Some s'"
  shows "cinv n sent s'"
proof -
  from assms(2) have l: "lstep n sent a s = Some s'" "calm a s" by (auto simp: calm_step_def split: if_splits)
  have "call_ok n sent s' t \<and> at_pc n s' t" for t
    using actor_call_ok [OF assms(1) l(1) refl] actor_at_pc [OF assms(1) l] other_call_ok [OF assms(1) l(1)] other_at_pc [OF assms(1) l]
    by (cases "t = actor a") auto
  with glob_step [OF assms(1) l(1)] show ?thesis by (simp add: cinv_def)
qed

lemma cinv_new: "cinv n sent (new_cstate k mem)"
proof -
  have "glob sent (new_cstate k mem) []"
    by (auto simp: glob_def owns_def new_cstate_def held_def limbo_def retiring_def idle_task_def new_task_def)
  moreover have "call_ok n sent (new_cstate k mem) t \<and> at_pc n (new_cstate k mem) t" for t
    by (simp add: call_ok_def at_pc_def new_cstate_def idle_task_def new_task_def)
  ultimately show ?thesis by (auto simp: cinv_def)
qed

interpretation conc: machine "calm_step n sent" "\<lambda>s. \<exists>k mem. s = new_cstate k mem" "cinv n sent" for n sent
  by unfold_locales (auto intro: cinv_new cinv_step)

end
