(* ===== verification/Lock_Free_Linearizable.thy ===== *)
theory Lock_Free_Linearizable
  imports Lock_Free_Concurrent_Correct
begin

text \<open>
  The operations of the lock-free list take effect at one moment between call and return. The map a
  state stands for changes only at the compare-and-swap that links a new node and at the one that marks
  a node; an observer beside the machine records, for every running call, which bindings its key had
  since the call began and how often the call changed the map, and every result is explained by them.
\<close>

section \<open>No step touches freed memory\<close>

lemma load_defined: "glob sent s as \<Longrightarrow> prev_ok n s t \<Longrightarrow> \<exists>p. load t (t_prev (c_task s t)) s = Some p"
  by (cases "t_prev (c_task s t)") (auto simp: load_def prev_ok_def prot_def unowned_def)

lemma thread_defined:
  assumes "cinv n sent s" "t_pc (c_task s t) \<noteq> PRet" "t_pc (c_task s t) \<noteq> PNew"
  shows "\<exists>s'. step_thread n t s = Some s'"
proof -
  let ?k = "c_task s t"
  from assms(1) obtain as where g: "glob sent s as" and c: "call_ok n sent s t" and at: "at_pc n s t"
    by (auto simp: cinv_def)
  note ld = load_defined [OF g, of n t]
  have cur: "\<exists>nd. c_heap s (t_cur ?k) = Some nd" if "prot n s t 0 (t_cur ?k)" using cur_aligned [OF g that] by auto
  have node: "\<exists>nd. c_heap s (t_node ?k) = Some nd" if "t_op ?k = OpInsert"
    using node_apart(1) [OF g, of t] c that assms(2,3) by (auto simp: call_ok_def Let_def)
  show ?thesis
  proof (cases "t_pc ?k")
    case PStart
    then show ?thesis by (auto simp: step_defs start_loc_def load_def)
  next
    case PMark
    with at cur show ?thesis by (auto simp: step_defs at_pc_def load_def)
  next
    case (PFree b)
    have "\<exists>nd. c_heap s x = Some nd" if "x \<in> set (c_retired s t)" for x
      using limbo_dom [OF g, of x t] that by (auto simp: limbo_def)
    with PFree at show ?thesis by (cases "t_rest ?k") (fastforce simp: step_defs at_pc_def)+
  next
    case PInsCas
    with at ld obtain p where "load t (t_prev ?k) s = Some p" by (auto simp: at_pc_def placed_at_def Let_def)
    with PInsCas show ?thesis by (auto simp: step_defs)
  next
    case PLink
    with at node show ?thesis by (auto simp: step_defs at_pc_def placed_at_def)
  qed (use assms at cur node ld in \<open>auto simp: step_defs at_pc_def\<close>)
qed

section \<open>The map a state stands for\<close>

lemma walk_chain: "chain h p as \<Longrightarrow> walk h p = Some as"
proof (induction as arbitrary: p)
  case Nil
  then show ?case by (subst walk.simps) simp
next
  case (Cons a as)
  then show ?case by (subst walk.simps) (auto split: option.splits)
qed

lemma contents_eq: "glob sent s as \<Longrightarrow> contents s key = map_option snd (lf_map (c_heap s) as key)"
  by (simp add: contents_def walk_chain [OF globD(1)])

lemma contents_again: "contents (again t s) = contents s"
  by (simp add: fun_eq_iff contents_def again_def split: option.split)

lemma contents_Some:
  assumes "glob sent s as" "a \<in> set as" "live (c_heap s) a"
  shows "contents s (node_key (c_heap s) a) = Some (node_value (the (c_heap s a)))"
proof -
  let ?f = "\<lambda>a. (node_key (c_heap s) a, (a, node_value (the (c_heap s a))))"
  have "distinct (map (node_key (c_heap s)) (filter (live (c_heap s)) as))"
    using globD(2) [OF assms(1)] by (meson distinct_map_filter strict_sorted_iff)
  then have "distinct (map fst (map ?f (filter (live (c_heap s)) as)))" by (simp add: comp_def)
  moreover have "?f a \<in> set (map ?f (filter (live (c_heap s)) as))" using assms(2,3) by auto
  ultimately have "lf_map (c_heap s) as (node_key (c_heap s) a) = Some (a, node_value (the (c_heap s a)))"
    unfolding lf_map_def by (rule map_of_is_SomeI)
  then show ?thesis by (simp add: contents_eq [OF assms(1)])
qed

lemma contents_None:
  assumes "glob sent s as" "\<forall>a \<in> set as. node_key (c_heap s) a \<noteq> key"
  shows "contents s key = None"
  by (simp add: contents_eq [OF assms(1)] lf_map_absent [OF assms(2)])

text \<open>A node that points to nothing is the last of the list.\<close>

lemma last_on_list:
  assumes "glob sent s as" "x \<in> set as" "c_heap s x = Some nd" "unmark (node_next nd) = NULL" "y \<in> set as"
  shows "node_key (c_heap s) y \<le> node_key (c_heap s) x"
proof -
  obtain pre suf where as: "as = pre @ x # suf" using assms(2) by (auto simp: in_set_conv_decomp)
  with globD(1) [OF assms(1)] assms(3,4) have "chain (c_heap s) NULL suf" by (auto elim!: chain_node)
  then have "suf = []" by (cases suf) auto
  with as assms(5) globD(2) [OF assms(1)] show ?thesis by (auto simp: sorted_wrt_append less_imp_le)
qed

lemma contents_same_nodes:
  assumes "glob sent s as" "glob sent s' as" "\<forall>x \<in> set as. c_heap s' x = c_heap s x"
  shows "contents s' = contents s"
  using same_nodes_map [OF same_nodesI [OF assms(3)]] by (auto simp: contents_eq [OF assms(1)] contents_eq [OF assms(2)])

text \<open>The two steps that change the map.\<close>

definition links :: "'k act \<Rightarrow> ('k::linorder) cstate \<Rightarrow> 'k cstate \<Rightarrow> bool" where
  "links a s s' \<longleftrightarrow> a = Step (actor a) \<and> t_pc (c_task s (actor a)) = PInsCas \<and> t_pc (c_task s' (actor a)) = PRet
     \<and> (let k = c_task s (actor a) in contents s (t_key k) = None \<and> contents s' = (contents s)(t_key k \<mapsto> t_val k))"

definition unlinks :: "'k act \<Rightarrow> ('k::linorder) cstate \<Rightarrow> 'k cstate \<Rightarrow> bool" where
  "unlinks a s s' \<longleftrightarrow> a = Step (actor a) \<and> t_pc (c_task s (actor a)) = PMark \<and> t_pc (c_task s' (actor a)) = PPhys
     \<and> (let k = c_task s (actor a) in contents s (t_key k) \<noteq> None \<and> contents s' = (contents s)(t_key k := None))"

lemma step_of: "lstep n sent a s = Some s' \<Longrightarrow> t_pc (c_task s (actor a)) \<notin> {PNew, PRet} \<Longrightarrow> a = Step (actor a)"
  by (cases a) (auto simp: Let_def split: if_splits)

lemma contents_publish:
  assumes "glob sent s (pre @ suf)" "glob sent s' (pre @ x # suf)" "same_nodes UNIV (c_heap s) (c_heap s')"
    "\<forall>y \<in> set pre. node_key (c_heap s) y < key" "\<forall>y \<in> set suf. key < node_key (c_heap s) y"
    "node_key (c_heap s) x = key" "live (c_heap s) x"
  shows "contents s key = None \<and> contents s' = (contents s)(key \<mapsto> node_value (the (c_heap s x)))"
proof -
  have e: "lf_map (c_heap s') as = lf_map (c_heap s) as" for as
    by (rule same_nodes_map [OF same_nodes_subset [OF assms(3)]]) simp
  have x: "node_key (c_heap s') x = key" "live (c_heap s') x" "node_value (the (c_heap s' x)) = node_value (the (c_heap s x))"
    using assms(3,6,7) by (auto simp: same_nodes_def)
  have n: "lf_map (c_heap s) pre key = None" "lf_map (c_heap s) suf key = None"
    using assms(4,5) by (auto intro!: lf_map_absent)
  have "contents s' q = ((contents s)(key \<mapsto> node_value (the (c_heap s x)))) q" for q
    using n by (auto simp: contents_eq [OF assms(1)] contents_eq [OF assms(2)] lf_map_append lf_map_Cons x e map_add_def split: option.splits)
  moreover have "contents s key = None" using n by (simp add: contents_eq [OF assms(1)] lf_map_append map_add_def)
  ultimately show ?thesis by (simp add: fun_eq_iff)
qed

lemma contents_marks:
  assumes "glob sent s as" "glob sent s' as" "x \<in> set as" "c_heap s x = Some nd"
    "c_heap s' = (c_heap s)(x \<mapsto> nd\<lparr>node_next := mark p\<rparr>)"
  shows "contents s' = (contents s)(node_key (c_heap s) x := None)"
proof
  fix q
  obtain pre suf where as: "as = pre @ x # suf" using assms(3) by (auto simp: in_set_conv_decomp)
  have keys: "\<forall>y \<in> set pre \<union> set suf. node_key (c_heap s) y \<noteq> node_key (c_heap s) x \<and> y \<noteq> x"
    using globD(2) [OF assms(1)] as by (auto simp: sorted_wrt_append)
  have e: "lf_map (c_heap s') pre = lf_map (c_heap s) pre" "lf_map (c_heap s') suf = lf_map (c_heap s) suf"
    using keys by (auto intro!: same_nodes_map same_nodesI simp: assms(5))
  have n: "lf_map (c_heap s) pre (node_key (c_heap s) x) = None" "lf_map (c_heap s) suf (node_key (c_heap s) x) = None"
    using keys by (auto intro!: lf_map_absent)
  have x: "\<not> live (c_heap s') x" by (simp add: live_def assms(5))
  show "contents s' q = ((contents s)(node_key (c_heap s) x := None)) q"
    using n by (auto simp: contents_eq [OF assms(1)] contents_eq [OF assms(2)] as lf_map_append lf_map_Cons x e map_add_def split: option.splits)
qed

text \<open>The two compare-and-swaps change it when they succeed.\<close>

lemma links_publish:
  assumes "cinv n sent s" "lstep n sent (Step t) s = Some s'" "t_pc (c_task s t) = PInsCas"
    "load t (t_prev (c_task s t)) s = Some (t_cur (c_task s t))"
  shows "links (Step t) s s'"
proof -
  let ?k = "c_task s t"
  from assms(1) obtain as where g: "glob sent s as" and c: "call_ok n sent s t" and at: "at_pc n s t" by (auto simp: cinv_def)
  have k: "t_prev ?k \<noteq> StartLoc" "node_key (c_heap s) (t_node ?k) = t_key ?k" "live (c_heap s) (t_node ?k)" "node_value (the (c_heap s (t_node ?k))) = t_val ?k"
    using c at assms(3) by (auto simp: call_ok_def at_pc_def placed_at_def Let_def)
  have s': "s' = hand_out (t_node ?k) ?k (set_task t (finish True (?k\<lparr>t_node := NULL\<rparr>)) (store t (t_prev ?k) (t_node ?k) s))"
    using assms(2-4) k(1) by (simp add: step_defs)
  from glob_publish [OF g assms(2) c at _ refl assms(3,4) s'] obtain pre suf where
    p: "as = pre @ suf" "glob sent s' (pre @ t_node ?k # suf)" "same_nodes UNIV (c_heap s) (c_heap s')"
      "\<forall>x \<in> set pre. node_key (c_heap s) x < t_key ?k" "\<forall>x \<in> set suf. t_key ?k < node_key (c_heap s) x" by auto
  from contents_publish [OF _ p(2-5) k(2,3)] g p(1) k(4) assms(3) s' show ?thesis by (simp add: links_def Let_def)
qed

lemma unlinks_marks:
  assumes "cinv n sent s" "lstep n sent (Step t) s = Some s'" "t_pc (c_task s t) = PMark" "t_pc (c_task s' t) = PPhys"
  shows "unlinks (Step t) s s'"
proof -
  let ?k = "c_task s t"
  from assms(1) obtain as where g: "glob sent s as" and c: "call_ok n sent s t" and at: "at_pc n s t" by (auto simp: cinv_def)
  from assms(2-4) obtain nd where nd: "c_heap s (t_cur ?k) = Some nd" "node_next nd = t_next ?k"
    "s' = set_task t (?k\<lparr>t_marked := True, t_pc := PPhys\<rparr>) (put_heap (t_cur ?k) (Some (nd\<lparr>node_next := mark (t_next ?k)\<rparr>)) s)"
    by (auto simp: step_defs load_def store_def split: Option.bind_splits if_splits)
  note g' = glob_marks [OF g assms(2) c at _ refl assms(3) nd]
  from at assms(3) have p: "unowned s (t_cur ?k)" "node_key (c_heap s) (t_cur ?k) = t_key ?k" "aligned (t_next ?k)"
    by (auto simp: at_pc_def Let_def prot_def)
  have l: "live (c_heap s) (t_cur ?k)" using nd(1,2) p(3) by (simp add: live_def isMarked_aligned)
  have on: "t_cur ?k \<in> set as" by (rule live_on_list [OF g p(1) l])
  have "contents s' = (contents s)(t_key ?k := None)" using contents_marks [OF g g' on nd(1)] nd(3) p(2) by simp
  with contents_Some [OF g on l] p(2) assms(3) nd(3) show ?thesis by (simp add: unlinks_def Let_def)
qed

text \<open>No other step does.\<close>

lemma contents_step:
  assumes "cinv n sent s" "lstep n sent a s = Some s'"
  shows "contents s' = contents s \<or> links a s s' \<or> unlinks a s s'"
proof -
  define t where "t = actor a"
  define k where "k = c_task s t"
  from assms(1) obtain as where g: "glob sent s as" and c: "call_ok n sent s t" and at: "at_pc n s t"
    by (auto simp: cinv_def)
  have n: "t_pc k = PNew \<longrightarrow> t_node (c_task s t) = NULL" "t_pc k = PLink \<longrightarrow> t_node k \<noteq> NULL \<and> aligned (t_cur k)"
    "t_pc k = PDelete \<longrightarrow> t_node k \<noteq> NULL"
    using c at by (auto simp: call_ok_def at_pc_def placed_at_def Let_def k_def)
  note off = contents_same_nodes [OF g]
  have node: "t_node k \<notin> set as" if "t_node k \<noteq> NULL" using node_apart(2) [OF g, of t] that by (simp add: k_def)
  from assms(2) c [unfolded t_def] at [unfolded t_def] k_def t_def show ?thesis
  proof (cases rule: step_cases)
    case quiet
    with off [OF glob_quiet [OF g quiet]] show ?thesis by (simp add: quiet_def)
  next
    case (alloc x)
    with list_dom [OF g] have "x \<notin> set as" by auto
    with off [OF glob_alloc [OF g assms(2) _ t_def k_def alloc(2-)]] n(1) alloc(2,6) show ?thesis by auto
  next
    case (link nd)
    with node n(2) off [OF glob_own_node [OF g assms(2) t_def k_def link(1,2) _ _ link(3)]] show ?thesis by auto
  next
    case publish
    then have e: "a = Step t" using step_of [OF assms(2)] by (simp add: k_def t_def)
    from links_publish [OF assms(1) assms(2) [unfolded e]] publish(1,2) e show ?thesis by (simp add: k_def)
  next
    case discard
    with node n(3) off [OF glob_discard [OF g assms(2) c at t_def k_def discard(1,3)]] show ?thesis by auto
  next
    case (unlink b)
    from glob_unlink [OF g assms(2) at t_def k_def unlink] obtain pre suf where
      p: "as = pre @ t_cur k # suf" "glob sent s' (pre @ suf)" "same_nodes UNIV (c_heap s) (c_heap s')" "\<not> live (c_heap s) (t_cur k)" by metis
    have "lf_map (c_heap s') (pre @ suf) = lf_map (c_heap s) as"
      unfolding p(1) lf_map_unlink [OF p(4)] by (rule same_nodes_map [OF same_nodes_subset [OF p(3)]]) simp
    then show ?thesis by (simp add: fun_eq_iff contents_eq [OF p(2)] contents_eq [OF g])
  next
    case (marks nd)
    then have e: "a = Step t" using step_of [OF assms(2)] by (simp add: k_def t_def)
    from unlinks_marks [OF assms(1) assms(2) [unfolded e]] marks(1,4) e show ?thesis by (simp add: k_def)
  next
    case (retire b k')
    with off [OF glob_retire [OF g assms(2) t_def k_def retire]] show ?thesis by simp
  next
    case (free b x r)
    with at have "x \<in> held s t" by (auto simp: at_pc_def k_def Let_def held_def limbo_def)
    with globD(7) [OF g, of t] have "x \<notin> set as" by blast
    with off [OF glob_free [OF g assms(2) at t_def k_def free(1,2,4)]] free(4) show ?thesis by auto
  qed
qed

section \<open>The observer\<close>

text \<open>
  For every thread, the bindings its key has had since its last call began, up to its return, and the
  number of times the call has changed that binding.
\<close>

record watch =
  seen :: "nat \<Rightarrow> int option option set"
  changes :: "nat \<Rightarrow> nat"

fun begins :: "'k act \<Rightarrow> nat \<Rightarrow> bool" where
  "begins (Call t _ _ _ _ _) u = (u = t)"
| "begins _ u = False"

definition observe :: "'k act \<Rightarrow> ('k::linorder) cstate \<Rightarrow> 'k cstate \<Rightarrow> watch \<Rightarrow> watch" where
  "observe a s s' w =
     \<lparr>seen = (\<lambda>u. if begins a u then {contents s' (t_key (c_task s' u))}
                  else if t_pc (c_task s u) = PRet then seen w u
                  else insert (contents s' (t_key (c_task s u))) (seen w u)),
      changes = (\<lambda>u. if begins a u then 0
                     else if u = actor a \<and> contents s' (t_key (c_task s u)) \<noteq> contents s (t_key (c_task s u))
                     then Suc (changes w u) else changes w u)\<rparr>"

definition watched :: "nat \<Rightarrow> ('k::linorder \<Rightarrow> bool) \<Rightarrow> 'k act \<Rightarrow> 'k cstate \<times> watch \<Rightarrow> ('k cstate \<times> watch) option" where
  "watched n sent a sw = (case sw of (s, w) \<Rightarrow> do { s' \<leftarrow> calm_step n sent a s; Some (s', observe a s s' w) })"

definition new_watch :: watch where
  "new_watch = \<lparr>seen = (\<lambda>_. {None}), changes = (\<lambda>_. 0)\<rparr>"

text \<open>
  What a result means: an operation that says it changed the map did so, exactly once; one that says it
  did not has not, and there was a moment at which its key was bound, or was not, as the result says; a
  value that was looked up was the value of the key at such a moment.
\<close>

definition explained :: "'k task \<Rightarrow> int option option set \<Rightarrow> nat \<Rightarrow> bool" where
  "explained k S c \<longleftrightarrow>
     (case t_op k of
        OpInsert \<Rightarrow> if t_res k then c = 1 else c = 0 \<and> (\<exists>v. Some v \<in> S)
      | OpRemove \<Rightarrow> if t_res k then c = 1 else c = 0 \<and> None \<in> S
      | OpLookup wanted \<Rightarrow> c = 0 \<and> (if t_res k then \<exists>v. Some v \<in> S \<and> (wanted \<longrightarrow> t_resval k = v) else None \<in> S))"

text \<open>What a thread in the middle of a call already knows.\<close>

definition knows :: "pc \<Rightarrow> bool \<Rightarrow> bool \<Rightarrow> bool \<Rightarrow> bool \<Rightarrow> bool" where
  "knows p cmp found at_end past_end \<longleftrightarrow>
     (case p of
        PKey \<Rightarrow> cmp | PCheck2 \<Rightarrow> cmp
      | PValue \<Rightarrow> found | PDelete \<Rightarrow> found
      | PSwap0 \<Rightarrow> at_end | PSwap1 \<Rightarrow> at_end
      | PRetire b \<Rightarrow> b \<longrightarrow> past_end | PScan _ b \<Rightarrow> b \<longrightarrow> past_end
      | PScanPut _ b \<Rightarrow> b \<longrightarrow> past_end | PFree b \<Rightarrow> b \<longrightarrow> past_end
      | _ \<Rightarrow> True)"

definition sees :: "(ptr \<Rightarrow> ('k::linorder) Node option) \<Rightarrow> 'k task \<Rightarrow> int option option set \<Rightarrow> bool" where
  "sees h k S \<longleftrightarrow>
     knows (t_pc k)
       ((node_key h (t_cur k) = t_key k \<longrightarrow> Some (node_value (the (h (t_cur k)))) \<in> S)
          \<and> (node_key h (t_cur k) < t_key k \<and> t_next k = NULL \<longrightarrow> None \<in> S))
       (Some (node_value (the (h (t_cur k)))) \<in> S)
       (t_next k = NULL \<longrightarrow> None \<in> S) (unmark (t_next k) = NULL \<longrightarrow> None \<in> S)"

definition good :: "('k::linorder) cstate \<Rightarrow> watch \<Rightarrow> nat \<Rightarrow> bool" where
  "good s w t \<longleftrightarrow>
     (let k = c_task s t in
      if t_pc k = PRet then explained k (seen w t) (changes w t)
      else contents s (t_key k) \<in> seen w t \<and> changes w t = (if t_marked k then 1 else 0) \<and> sees (c_heap s) k (seen w t))"

definition winv :: "nat \<Rightarrow> ('k::linorder \<Rightarrow> bool) \<Rightarrow> 'k cstate \<times> watch \<Rightarrow> bool" where
  "winv n sent sw \<longleftrightarrow> (case sw of (s, w) \<Rightarrow> cinv n sent s \<and> (\<forall>t. good s w t))"

lemma knows_mono:
  assumes "knows p a b c d" "p = PKey \<or> p = PCheck2 \<Longrightarrow> a \<Longrightarrow> a'" "p = PValue \<or> p = PDelete \<Longrightarrow> b \<Longrightarrow> b'" "c \<Longrightarrow> c'" "d \<Longrightarrow> d'"
  shows "knows p a' b' c' d'"
  using assms by (cases p) (auto simp: knows_def)

lemma sees_mono:
  assumes "sees h k S" "S \<subseteq> S'" "t_pc k \<in> {PKey, PCheck2, PValue, PDelete} \<Longrightarrow>
    node_key h' (t_cur k) = node_key h (t_cur k) \<and> node_value (the (h' (t_cur k))) = node_value (the (h (t_cur k)))"
  shows "sees h' k S'"
  unfolding sees_def
  by (rule knows_mono [OF assms(1) [unfolded sees_def]]) (use assms(2,3) in auto)

lemma good_other:
  assumes "cinv n sent s" "lstep n sent a s = Some s'" "calm a s" "good s w t" "t \<noteq> actor a"
  shows "good s' (observe a s s' w) t"
proof (cases "t_pc (c_task s t) = PRet")
  case True
  have b: "\<not> begins a t" using assms(5) by (cases a) auto
  with True assms(4,5) step_frame [OF assms(2,5)] show ?thesis by (simp add: good_def observe_def)
next
  case False
  let ?k = "c_task s t"
  have b: "\<not> begins a t" using assms(5) by (cases a) auto
  note f = step_frame [OF assms(2,5)]
  from assms(1) have c: "call_ok n sent s t" and at: "at_pc n s t" by (auto simp: cinv_def)
  have t: "t < n" using c False by (simp add: call_ok_def Let_def)
  have "keeps s s' (t_cur ?k)" if "t_pc ?k \<in> {PKey, PCheck2, PValue, PDelete}"
  proof -
    have "prot n s t 0 (t_cur ?k)" using at that by (auto simp: at_pc_def Let_def)
    from prot_step [OF assms(1-3) this t] show ?thesis by (simp add: f)
  qed
  then have k: "node_key (c_heap s') (t_cur ?k) = node_key (c_heap s) (t_cur ?k)
      \<and> node_value (the (c_heap s' (t_cur ?k))) = node_value (the (c_heap s (t_cur ?k)))" if "t_pc ?k \<in> {PKey, PCheck2, PValue, PDelete}"
    using that by (simp add: keeps_def)
  have "sees (c_heap s) ?k (seen w t)" using assms(4) False by (simp add: good_def Let_def)
  from sees_mono [OF this _ k] have "sees (c_heap s') ?k (insert (contents s' (t_key ?k)) (seen w t))" by blast
  with False b f assms(4,5) show ?thesis by (simp add: good_def observe_def Let_def)
qed

text \<open>The cases in which \<^verbatim>\<open>lookupInternal\<close> returns.\<close>

lemma good_return:
  assumes "c_task s t = lookup_return r k" "contents s (t_key k) \<in> seen w t" "changes w t = (if t_marked k then 1 else 0)"
    "t_marked k \<longrightarrow> t_op k = OpRemove" "\<not> r \<longrightarrow> None \<in> seen w t"
    "r \<longrightarrow> Some v \<in> seen w t \<and> (t_op k = OpLookup True \<longrightarrow> t_resval k = v) \<and> (t_op k = OpInsert \<longrightarrow> node_value (the (c_heap s (t_cur k))) = v)"
  shows "good s w t"
proof (cases "t_op k")
  case OpInsert
  with assms show ?thesis by (auto simp: good_def lookup_return_def sees_def knows_def Let_def)
next
  case OpRemove
  with assms show ?thesis by (auto simp: good_def lookup_return_def sees_def knows_def explained_def Let_def)
next
  case (OpLookup wanted)
  with assms show ?thesis by (auto simp: good_def lookup_return_def explained_def Let_def intro: exI [of _ v])
qed

lemma good_loop_head:
  assumes "c_task s t = loop_head k" "contents s (t_key k) \<in> seen w t" "changes w t = (if t_marked k then 1 else 0)"
    "t_marked k \<longrightarrow> t_op k = OpRemove" "t_cur k = NULL \<longrightarrow> None \<in> seen w t"
  shows "good s w t"
proof (cases "t_cur k = NULL")
  case True
  with assms have "c_task s t = lookup_return False k" by (simp add: loop_head_def)
  from good_return [OF this assms(2-4)] assms(5) True show ?thesis by simp
next
  case False
  with assms(1) have "c_task s t = k\<lparr>t_pc := PHp\<rparr>" by (simp add: loop_head_def)
  with assms(2,3) show ?thesis by (simp add: good_def sees_def knows_def Let_def)
qed

lemma observed:
  assumes "cinv n sent s" "lstep n sent (Step t) s = Some s'" "good s w t" "k = c_task s t" "w' = observe (Step t) s s' w"
    "t_pc k \<noteq> PInsCas" "t_pc k \<noteq> PMark"
  shows "contents s' = contents s" "contents s (t_key k) \<in> seen w' t" "changes w' t = (if t_marked k then 1 else 0)"
    "seen w t \<subseteq> seen w' t" "sees (c_heap s) k (seen w t)" "t_marked k \<longrightarrow> t_op k = OpRemove" "t_pc k \<noteq> PRet"
proof -
  show pc: "t_pc k \<noteq> PRet" using assms(2,4) by (auto simp: step_thread_def)
  show e: "contents s' = contents s" using contents_step [OF assms(1,2)] assms(4,6,7) by (auto simp: links_def unlinks_def)
  show "contents s (t_key k) \<in> seen w' t" "seen w t \<subseteq> seen w' t" using pc assms(4,5) e by (auto simp: observe_def)
  show "changes w' t = (if t_marked k then 1 else 0)" "sees (c_heap s) k (seen w t)"
    using assms(3-5) pc e by (simp_all add: good_def observe_def Let_def)
  show "t_marked k \<longrightarrow> t_op k = OpRemove" using assms(1,4) by (simp add: cinv_def call_ok_def Let_def)
qed

lemma good_at:
  assumes "c_task s t = k" "t_pc k \<noteq> PRet" "contents s (t_key k) \<in> seen w t" "changes w t = (if t_marked k then 1 else 0)"
    "sees (c_heap s) k (seen w t)"
  shows "good s w t"
  using assms by (simp add: good_def)

lemma good_first_half:
  assumes "cinv n sent s" "lstep n sent (Step t) s = Some s'" "good s w t" "w' = observe (Step t) s s' w"
    and pc: "t_pc (c_task s t) \<in> {PStart, PHp, PCheck1, PNext, PKey, PLink, PPhys}"
  shows "good s' w' t"
proof -
  let ?k = "c_task s t"
  note o = observed [OF assms(1-3) refl assms(4)]
  have st: "step_thread n t s = Some s'" using assms(2) by simp
  from assms(1) obtain as where g: "glob sent s as" and c: "call_ok n sent s t" and at: "at_pc n s t" by (auto simp: cinv_def)
  have triv: "good s' w' t" if "c_task s' t = k'" "t_pc k' \<in> {PHp, PStart, PCheck1, PNext, PInsCas, PRetire False, PUnlink}" "t_key k' = t_key ?k" "t_marked k' = t_marked ?k" for k'
    using that o pc by (intro good_at [OF that(1)]) (auto simp: sees_def knows_def)
  from pc consider "t_pc ?k = PStart" | "t_pc ?k = PHp" | "t_pc ?k = PCheck1" | "t_pc ?k = PNext" | "t_pc ?k = PKey" | "t_pc ?k = PLink" | "t_pc ?k = PPhys" by auto
  then show ?thesis
  proof cases
    case 1
    with st obtain p where p: "load t (start_loc ?k) s = Some p"
      "s' = set_task t (loop_head (?k\<lparr>t_prev := start_loc ?k, t_cur := p\<rparr>)) s" by (auto simp: step_defs split: Option.bind_splits)
    have "contents s (t_key ?k) = None" if "p = NULL"
    proof -
      have "c_head s = NULL" using p(1) that by (auto simp: start_loc_def load_def split: if_splits)
      with globD(1) [OF g] have "as = []" by (cases as) auto
      with g show ?thesis by (intro contents_None [OF g]) simp
    qed
    with o 1 p(2) show ?thesis by (intro good_loop_head [of _ _ "?k\<lparr>t_prev := start_loc ?k, t_cur := p\<rparr>"]) auto
  next
    case 2
    with st have "c_task s' t = ?k\<lparr>t_pc := PCheck1\<rparr>" by (auto simp: step_defs)
    then show ?thesis by (rule triv) auto
  next
    case 3
    with st have "c_task s' t = ?k\<lparr>t_pc := PNext\<rparr> \<or> c_task s' t = ?k\<lparr>t_pc := PStart\<rparr>" by (auto simp: step_defs split: Option.bind_splits)
    then show ?thesis using triv by fastforce
  next
    case 4
    with st obtain nd where nd: "c_heap s (t_cur ?k) = Some nd"
      "s' = set_task t (?k\<lparr>t_next := node_next nd, t_pc := if isMarked (node_next nd) then PUnlink else PKey\<rparr>) s"
      by (auto simp: step_defs split: Option.bind_splits)
    show ?thesis
    proof (cases "isMarked (node_next nd)")
      case True
      with nd have "c_task s' t = ?k\<lparr>t_next := node_next nd, t_pc := PUnlink\<rparr>" by simp
      then show ?thesis by (rule triv) auto
    next
      case False
      from at 4 have u: "unowned s (t_cur ?k)" by (simp add: at_pc_def prot_def Let_def)
      have lv: "live (c_heap s) (t_cur ?k)" using False nd(1) by (simp add: live_def)
      have on: "t_cur ?k \<in> set as" by (rule live_on_list [OF g u lv])
      have "contents s (t_key ?k) = None" if "node_key (c_heap s) (t_cur ?k) < t_key ?k" "node_next nd = NULL"
        using last_on_list [OF g on nd(1)] that by (intro contents_None [OF g]) (fastforce simp: unmark_id isMarked_aligned)
      with contents_Some [OF g on lv] o 4 nd False show ?thesis
        by (intro good_at [of _ _ "?k\<lparr>t_next := node_next nd, t_pc := PKey\<rparr>"]) (auto simp: sees_def knows_def)
    qed
  next
    case 5
    with st obtain nd where "c_heap s (t_cur ?k) = Some nd" "s' = set_task t (?k\<lparr>t_ckey := node_data nd, t_pc := PCheck2\<rparr>) s" by (auto simp: step_defs split: Option.bind_splits)
    with 5 o show ?thesis by (intro good_at [of _ _ "?k\<lparr>t_ckey := node_data nd, t_pc := PCheck2\<rparr>"]) (auto simp: sees_def knows_def)
  next
    case 6
    with st have "c_task s' t = ?k\<lparr>t_pc := PInsCas\<rparr>" by (auto simp: step_defs split: Option.bind_splits)
    then show ?thesis by (rule triv) auto
  next
    case 7
    with at have "t_prev ?k \<noteq> StartLoc" by (simp add: at_pc_def Let_def)
    with 7 st have "c_task s' t = ?k\<lparr>t_pc := PRetire False\<rparr> \<or> c_task s' t = ?k\<lparr>t_pc := PStart\<rparr>" by (auto simp: step_defs split: Option.bind_splits if_splits)
    then show ?thesis using triv by fastforce
  qed
qed

lemma good_second_half:
  assumes "cinv n sent s" "lstep n sent (Step t) s = Some s'" "good s w t" "w' = observe (Step t) s s' w"
    and pc: "t_pc (c_task s t) \<in> {PCheck2, PSwap0, PSwap1, PValue}"
  shows "good s' w' t"
proof -
  let ?k = "c_task s t"
  note o = observed [OF assms(1-3) refl assms(4)]
  have st: "step_thread n t s = Some s'" using assms(2) by simp
  from assms(1) obtain as where g: "glob sent s as" and c: "call_ok n sent s t" and at: "at_pc n s t" by (auto simp: cinv_def)
  from pc consider "t_pc ?k = PCheck2" | "t_pc ?k = PSwap0" | "t_pc ?k = PSwap1" | "t_pc ?k = PValue" by auto
  then show ?thesis
  proof cases
    case 1
    from at 1 have a: "prev_ok n s t" "prot n s t 0 (t_cur ?k)" "entered ?k" "t_ckey ?k = node_key (c_heap s) (t_cur ?k)"
      by (auto simp: at_pc_def Let_def)
    have cur: "aligned (t_cur ?k)" "t_cur ?k \<noteq> NULL" using cur_aligned [OF g a(2)] by auto
    have ne: "t_prev ?k \<noteq> StartLoc" if "t_key ?k < t_ckey ?k" using at_sentinel [OF g c a(1)] a(3,4) that 1 by auto
    from o 1 have kn: "t_ckey ?k = t_key ?k \<longrightarrow> Some (node_value (the (c_heap s (t_cur ?k)))) \<in> seen w' t"
      "t_ckey ?k < t_key ?k \<and> t_next ?k = NULL \<longrightarrow> None \<in> seen w' t" by (auto simp: sees_def knows_def a(4))
    from 1 st obtain p where p: "load t (t_prev ?k) s = Some p" and h: "c_heap s' = c_heap s" and
      c': "c_task s' t = (if p \<noteq> t_cur ?k then ?k\<lparr>t_pc := PStart\<rparr>
        else if t_ckey ?k \<ge> t_key ?k then if t_ckey ?k = t_key ?k then if t_op ?k = OpLookup True then ?k\<lparr>t_pc := PValue\<rparr> else lookup_return True ?k
             else lookup_return False ?k else ?k\<lparr>t_pc := PSwap0\<rparr>)"
      by (auto simp: step_defs split: Option.bind_splits)
    have none: "contents s (t_key ?k) = None" if "p = t_cur ?k" "t_key ?k < t_ckey ?k"
    proof -
      from place [OF g a(1) ne _ cur(1)] p that obtain pre suf where
        ps: "as = pre @ suf" "first suf = t_cur ?k" "\<forall>x \<in> set pre. node_key (c_heap s) x < t_key ?k" by metis
      with cur(2) obtain suf' where "suf = t_cur ?k # suf'" by (cases suf) auto
      with ps globD(2) [OF g] that a(4) have "\<forall>x \<in> set as. node_key (c_heap s) x \<noteq> t_key ?k" by (fastforce simp: sorted_wrt_append)
      then show ?thesis by (rule contents_None [OF g])
    qed
    from c' consider "c_task s' t = ?k\<lparr>t_pc := PStart\<rparr>" | "c_task s' t = ?k\<lparr>t_pc := PValue\<rparr>" "t_ckey ?k = t_key ?k"
      | "c_task s' t = lookup_return True ?k" "t_ckey ?k = t_key ?k" "t_op ?k \<noteq> OpLookup True"
      | "c_task s' t = lookup_return False ?k" "p = t_cur ?k" "t_key ?k < t_ckey ?k"
      | "c_task s' t = ?k\<lparr>t_pc := PSwap0\<rparr>" "t_ckey ?k < t_key ?k" by (fastforce split: if_splits)
    then show ?thesis
    proof cases
      case 1
      show ?thesis using o pc \<open>t_pc ?k = PCheck2\<close> by (intro good_at [OF 1]) (auto simp: sees_def knows_def)
    next
      case 2
      show ?thesis using o kn 2(2) \<open>t_pc ?k = PCheck2\<close> by (intro good_at [OF 2(1)]) (auto simp: sees_def knows_def h)
    next
      case 3
      with o kn(1) \<open>t_pc ?k = PCheck2\<close> show ?thesis by (intro good_return [of _ _ True ?k _ "node_value (the (c_heap s (t_cur ?k)))"]) (auto simp: h)
    next
      case 4
      with o none \<open>t_pc ?k = PCheck2\<close> show ?thesis by (intro good_return [of _ _ False ?k]) auto
    next
      case 5
      show ?thesis using o kn 5(2) \<open>t_pc ?k = PCheck2\<close> by (intro good_at [OF 5(1)]) (auto simp: sees_def knows_def)
    qed
  next
    case 2
    with st have c': "c_task s' t = ?k\<lparr>t_prev := NextLoc (t_cur ?k), t_temp := c_hp s t 0, t_pc := PSwap1\<rparr>" by (auto simp: step_defs)
    show ?thesis using o 2 by (intro good_at [OF c']) (auto simp: sees_def knows_def)
  next
    case 3
    with st have "c_task s' t = loop_head (?k\<lparr>t_cur := t_next ?k\<rparr>)" by (auto simp: step_defs)
    with o 3 show ?thesis by (intro good_loop_head [of _ _ "?k\<lparr>t_cur := t_next ?k\<rparr>"]) (auto simp: sees_def knows_def)
  next
    case 4
    with at have op: "t_op ?k = OpLookup True" by (simp add: at_pc_def Let_def)
    from 4 st obtain nd where nd: "c_heap s (t_cur ?k) = Some nd" "c_task s' t = lookup_return True (?k\<lparr>t_resval := node_value nd\<rparr>)"
      by (auto simp: step_defs split: Option.bind_splits)
    with o 4 op show ?thesis
      by (intro good_return [of _ _ True "?k\<lparr>t_resval := node_value nd\<rparr>" _ "node_value nd"]) (auto simp: sees_def knows_def)
  qed
qed

lemma good_reclaiming:
  assumes "cinv n sent s" "lstep n sent (Step t) s = Some s'" "good s w t" "w' = observe (Step t) s s' w"
    and pc: "t_pc (c_task s t) = PRetire b \<or> (\<exists>q. t_pc (c_task s t) = PScan q b \<or> t_pc (c_task s t) = PScanPut q b) \<or> t_pc (c_task s t) = PFree b"
  shows "good s' w' t"
proof -
  let ?k = "c_task s t"
  have st: "step_thread n t s = Some s'" using assms(2) by simp
  have ne: "t_pc ?k \<noteq> PInsCas" "t_pc ?k \<noteq> PMark" using pc by auto
  note o = observed [OF assms(1-3) refl assms(4) ne]
  from o pc have e: "b \<and> unmark (t_next ?k) = NULL \<longrightarrow> None \<in> seen w' t" by (auto simp: sees_def knows_def)
  have at: "at_pc n s t" using assms(1) by (simp add: cinv_def)
  then have rm: "\<not> b \<longrightarrow> t_op ?k = OpRemove \<and> t_marked ?k" using pc by (auto simp: at_pc_def Let_def)
  have res: "good s' w' t" if "c_task s' t = resume b ?k"
  proof (cases b)
    case True
    with that o e show ?thesis by (intro good_loop_head [of _ _ "?k\<lparr>t_cur := unmark (t_next ?k)\<rparr>"]) (auto simp: resume_def)
  next
    case False
    with that o rm show ?thesis by (auto simp: resume_def good_def explained_def Let_def)
  qed
  have stay: "good s' w' t" if "c_task s' t = k'" "t_key k' = t_key ?k" "t_next k' = t_next ?k" "t_marked k' = t_marked ?k"
    "t_pc k' = PFree b \<or> (\<exists>q. t_pc k' = PScan q b \<or> t_pc k' = PScanPut q b)" for k'
    using that o e by (intro good_at [of _ _ k']) (auto simp: sees_def knows_def)
  have scn: "t_pc (scan_next n q b l k) = PFree b \<or> (\<exists>q'. t_pc (scan_next n q b l k) = PScan q' b)" for q l and k :: "'a task"
    by (simp add: scan_next_def)
  from pc consider "t_pc ?k = PRetire b" | q where "t_pc ?k = PScan q b" | q where "t_pc ?k = PScanPut q b" | "t_pc ?k = PFree b" by auto
  then show ?thesis
  proof cases
    case 1
    with st have "c_task s' t = ?k\<lparr>t_pc := PScan 0 b, t_active := []\<rparr> \<or> c_task s' t = resume b ?k" by (auto simp: step_defs)
    then show ?thesis
    proof
      assume r: "c_task s' t = ?k\<lparr>t_pc := PScan 0 b, t_active := []\<rparr>"
      show ?thesis by (rule stay [OF r]) simp_all
    qed (rule res)
  next
    case (2 q)
    with st have "c_task s' t = ?k\<lparr>t_pc := PScanPut q b\<rparr> \<or> c_task s' t = scan_next n q b (c_retired s t) ?k" by (auto simp: step_defs)
    then show ?thesis using stay [of "?k\<lparr>t_pc := PScanPut q b\<rparr>"] stay [of "scan_next n q b (c_retired s t) ?k"] scn [of q _ ?k] by auto
  next
    case (3 q)
    let ?k1 = "?k\<lparr>t_active := List.insert (c_hp s (q div 2) (q mod 2)) (t_active ?k)\<rparr>"
    from 3 st have "c_task s' t = scan_next n q b (c_retired s t) ?k1" by (auto simp: step_defs)
    then show ?thesis using scn [of q "c_retired s t" ?k1] by (intro stay [of "scan_next n q b (c_retired s t) ?k1"]) auto
  next
    case 4
    with st have "c_task s' t = resume b ?k \<or> (\<exists>r. c_task s' t = ?k\<lparr>t_rest := r\<rparr>)"
      by (auto simp: step_defs split: list.splits if_splits Option.bind_splits)
    then show ?thesis
    proof
      assume "\<exists>r. c_task s' t = ?k\<lparr>t_rest := r\<rparr>"
      then obtain r where r: "c_task s' t = ?k\<lparr>t_rest := r\<rparr>" ..
      show ?thesis by (rule stay [OF r]) (simp_all add: 4)
    qed (rule res)
  qed
qed

lemma good_updating:
  assumes "cinv n sent s" "lstep n sent (Step t) s = Some s'" "good s w t" "w' = observe (Step t) s s' w"
    and pc: "t_pc (c_task s t) \<in> {PUnlink, PInsCas, PDelete, PMark}"
  shows "good s' w' t"
proof -
  let ?k = "c_task s t"
  note o = observed [OF assms(1-3) refl assms(4)]
  have st: "step_thread n t s = Some s'" using assms(2) by simp
  from assms(1) obtain as where g: "glob sent s as" and c: "call_ok n sent s t" and at: "at_pc n s t" by (auto simp: cinv_def)
  have cs: "contents s' = contents s \<or> links (Step t) s s' \<or> unlinks (Step t) s s'" by (rule contents_step [OF assms(1,2)])
  from pc consider "t_pc ?k = PUnlink" | "t_pc ?k = PInsCas" | "t_pc ?k = PDelete" | "t_pc ?k = PMark" by auto
  then show ?thesis
  proof cases
    case 1
    with at have pv: "t_prev ?k \<noteq> StartLoc" by (simp add: at_pc_def Let_def)
    show ?thesis
    proof (cases "load t (t_prev ?k) s = Some (t_cur ?k)")
      case True
      with 1 st pv have s': "s' = set_task t (?k\<lparr>t_pc := PRetire True\<rparr>) (store t (t_prev ?k) (unmark (t_next ?k)) s)" by (simp add: step_defs)
      from 1 have b: "t_pc ?k = PUnlink \<and> True \<or> t_pc ?k = PPhys \<and> \<not> True" by simp
      have ac: "t = actor (Step t)" by simp
      obtain pre suf where "as = pre @ t_cur ?k # suf" and
        p: "glob sent s' (pre @ suf)" "same_nodes UNIV (c_heap s) (c_heap s')" "\<forall>x \<in> set pre. node_key (c_heap s) x < t_key ?k"
          "first suf = unmark (t_next ?k)" and "\<not> live (c_heap s) (t_cur ?k)"
        by (rule glob_unlink [OF g assms(2) at ac refl b True s'])
      have "contents s' (t_key ?k) = None" if "unmark (t_next ?k) = NULL"
      proof -
        have "NULL \<notin> set suf" using chain_nonnull [OF globD(1) [OF p(1)]] by auto
        with p(4) that have "suf = []" by (cases suf) auto
        moreover have "node_key (c_heap s') x \<noteq> t_key ?k" if "x \<in> set pre" for x
          using p(2,3) that by (auto simp: same_nodes_def)
        ultimately show ?thesis by (intro contents_None [OF p(1)]) simp
      qed
      with o 1 s' show ?thesis by (intro good_at [of _ _ "?k\<lparr>t_pc := PRetire True\<rparr>"]) (auto simp: sees_def knows_def)
    next
      case False
      with 1 st have c': "c_task s' t = ?k\<lparr>t_pc := PStart\<rparr>" by (auto simp: step_defs split: Option.bind_splits)
      show ?thesis using o 1 by (intro good_at [OF c']) (auto simp: sees_def knows_def)
    qed
  next
    case 2
    with at c have op: "t_op ?k = OpInsert" "\<not> t_marked ?k" "t_prev ?k \<noteq> StartLoc" by (auto simp: at_pc_def placed_at_def call_ok_def Let_def)
    from assms(3) 2 op have old: "contents s (t_key ?k) \<in> seen w t" "changes w t = 0" by (auto simp: good_def Let_def)
    show ?thesis
    proof (cases "load t (t_prev ?k) s = Some (t_cur ?k)")
      case True
      with 2 st op(3) have c': "c_task s' t = finish True (?k\<lparr>t_node := NULL\<rparr>)" by (auto simp: step_defs)
      have "links (Step t) s s'"
        using links_publish [OF assms(1,2)] 2 True by simp
      then have "contents s (t_key ?k) = None" "contents s' (t_key ?k) = Some (t_val ?k)" by (auto simp: links_def Let_def)
      with old 2 op show ?thesis by (simp add: good_def c' explained_def observe_def assms(4))
    next
      case False
      with 2 st have s': "s' = again t s" by (auto simp: step_defs split: Option.bind_splits)
      then have "contents s' = contents s" by (simp add: contents_again)
      with old 2 op s' show ?thesis
        by (intro good_at [of _ _ "?k\<lparr>t_pc := PStart\<rparr>"]) (auto simp: observe_def assms(4) sees_def knows_def again_def)
    qed
  next
    case 3
    with at c have op: "t_op ?k = OpInsert" "\<not> t_marked ?k" by (auto simp: at_pc_def call_ok_def Let_def)
    from 3 st have "c_task s' t = finish False (?k\<lparr>t_node := NULL\<rparr>)" by (auto simp: step_defs split: Option.bind_splits)
    with o 3 op show ?thesis by (auto simp: good_def explained_def sees_def knows_def Let_def)
  next
    case 4
    with at have op: "t_op ?k = OpRemove" "\<not> t_marked ?k" by (auto simp: at_pc_def Let_def)
    from assms(3) 4 op have old: "contents s (t_key ?k) \<in> seen w t" "changes w t = 0" by (auto simp: good_def Let_def)
    from 4 st consider "s' = again t s" | "c_task s' t = ?k\<lparr>t_marked := True, t_pc := PPhys\<rparr>" "unlinks (Step t) s s'"
      using unlinks_marks [OF assms(1,2)] by (auto simp: step_defs load_def store_def split: Option.bind_splits if_splits)
    then show ?thesis
    proof cases
      case 1
      then have "contents s' = contents s" by (simp add: contents_again)
      with old 4 op 1 show ?thesis
        by (intro good_at [of _ _ "?k\<lparr>t_pc := PStart\<rparr>"]) (auto simp: observe_def assms(4) sees_def knows_def again_def)
    next
      case 2
      then have "contents s (t_key ?k) \<noteq> None" "contents s' (t_key ?k) = None" by (auto simp: unlinks_def Let_def)
      with old 4 op show ?thesis by (intro good_at [OF 2(1)]) (auto simp: observe_def assms(4) sees_def knows_def)
    qed
  qed
qed

lemma good_actor:
  assumes "cinv n sent s" "lstep n sent a s = Some s'" "good s w t" "t = actor a"
  shows "good s' (observe a s s' w) t"
proof (cases a)
  case (Call t' opn key val start dummy)
  with assms(2,4) have "c_task s' t = new_task opn key val start dummy" by (auto split: if_splits)
  with Call assms(4) show ?thesis
    by (intro good_at) (auto simp: new_task_def observe_def sees_def knows_def split: if_splits)
next
  case (New t' x)
  with assms(2,4) have k: "t_pc (c_task s t) = PNew" "c_task s' t = (c_task s t)\<lparr>t_node := x, t_pc := PStart\<rparr>"
    by (auto simp: Let_def split: if_splits)
  have "contents s' = contents s" using contents_step [OF assms(1,2)] New by (auto simp: links_def unlinks_def)
  with k assms(3) New show ?thesis
    by (intro good_at [OF k(2)]) (auto simp: good_def observe_def sees_def knows_def Let_def)
next
  case (Step t')
  with assms(4) have a: "a = Step t" by simp
  note l = assms(2) [unfolded a]
  have st: "step_thread n t s = Some s'" using l by simp
  show ?thesis unfolding a
  proof (cases "\<exists>b q. t_pc (c_task s t) = PRetire b \<or> t_pc (c_task s t) = PScan q b \<or> t_pc (c_task s t) = PScanPut q b \<or> t_pc (c_task s t) = PFree b")
    case True
    then show "good s' (observe (Step t) s s' w) t" using good_reclaiming [OF assms(1) l assms(3) refl] by blast
  next
    case False
    then have "t_pc (c_task s t) \<in> {PStart, PHp, PCheck1, PNext, PKey, PLink, PPhys} \<or> t_pc (c_task s t) \<in> {PCheck2, PSwap0, PSwap1, PValue}
      \<or> t_pc (c_task s t) \<in> {PUnlink, PInsCas, PDelete, PMark}"
      using st by (cases "t_pc (c_task s t)") (auto simp: step_thread_def)
    then show "good s' (observe (Step t) s s' w) t"
      using good_first_half [OF assms(1) l assms(3) refl] good_second_half [OF assms(1) l assms(3) refl]
        good_updating [OF assms(1) l assms(3) refl] by blast
  qed
qed

lemma winv_step:
  assumes "winv n sent sw" "watched n sent a sw = Some sw'"
  shows "winv n sent sw'"
proof -
  obtain s w where sw: "sw = (s, w)" by fastforce
  with assms(2) obtain s' where s': "calm_step n sent a s = Some s'" "sw' = (s', observe a s s' w)"
    by (auto simp: watched_def split: Option.bind_splits)
  then have l: "lstep n sent a s = Some s'" "calm a s" by (auto simp: calm_step_def split: if_splits)
  from assms(1) sw have c: "cinv n sent s" and gd: "\<And>t. good s w t" by (auto simp: winv_def)
  have "good s' (observe a s s' w) t" for t
    using good_actor [OF c l(1) gd refl] good_other [OF c l gd] by (cases "t = actor a") auto
  with cinv_step [OF c s'(1)] s'(2) show ?thesis by (auto simp: winv_def)
qed

lemma winv_new: "winv n sent (new_cstate k mem, new_watch)"
proof -
  have "good (new_cstate k mem) new_watch t" for t
    by (simp add: good_def new_cstate_def idle_task_def new_task_def explained_def new_watch_def)
  with cinv_new show ?thesis by (auto simp: winv_def)
qed

interpretation observed_list: machine "watched n sent" "\<lambda>sw. \<exists>k mem. sw = (new_cstate k mem, new_watch)" "winv n sent" for n sent
  by unfold_locales (auto intro: winv_new winv_step)

text \<open>Observing does not restrict the machine.\<close>

lemma exec_watched:
  "exec (calm_step n sent) as s = Some s' \<Longrightarrow> \<exists>w'. exec (watched n sent) as (s, w) = Some (s', w')"
  by (induction as arbitrary: s w) (auto simp: watched_def Option.bind_eq_Some_conv)

section \<open>Properties\<close>

text \<open>
  C5. As long as no thread scans the first hazard pointer of a thread that is between the two
  assignments of the exchange, every interleaving of any number of threads is safe: no step touches a
  node that is not allocated or deletes one twice; the chain from \<^verbatim>\<open>head_\<close> is finite and strictly
  sorted; and every allocated node is on the list or owned by exactly one thread, which is about to
  insert it, about to retire it, or has it in its retired list.
\<close>

theorem concurrent_list_safe:
  assumes "reachable (calm_step n sent) (\<lambda>s. \<exists>k mem. s = new_cstate k mem) s"
  shows "(\<forall>t. t_pc (c_task s t) \<noteq> PRet \<and> t_pc (c_task s t) \<noteq> PNew \<longrightarrow> (\<exists>s'. step_thread n t s = Some s'))
    \<and> (\<exists>as. chain (c_heap s) (c_head s) as \<and> sorted_wrt (<) (map (node_key (c_heap s)) as)
         \<and> dom (c_heap s) = set as \<union> (\<Union>t. held s t) \<and> (\<forall>t. held s t \<inter> set as = {})
         \<and> (\<forall>t u. t \<noteq> u \<longrightarrow> held s t \<inter> held s u = {}) \<and> (\<forall>(a, k) \<in> set (c_dummies s). a \<in> set as))"
proof -
  have inv: "cinv n sent s" by (rule conc.reachable_inv [OF assms])
  then obtain as where g: "glob sent s as" by (auto simp: cinv_def)
  have "\<forall>(a, k) \<in> set (c_dummies s). a \<in> set as" using globD(13) [OF g] by fast
  with thread_defined [OF inv] globD(1,2,6-8) [OF g] show ?thesis by blast
qed

text \<open>Two threads: thread 0 inserts the key 5 with the value 7 and starts to remove it, thread 1 looks it up meanwhile.\<close>

definition example_schedule :: "nat act list" where
  "example_schedule =
     [Call 0 OpInsert 5 (Some 7) NULL False, Call 1 (OpLookup True) 5 None NULL False, New 0 16, Step 0, Step 0, Step 0,
      Call 0 OpRemove 5 None NULL False, Step 1, Step 0, Step 1, Step 0, Step 1, Step 0, Step 1, Step 0, Step 1, Step 0,
      Step 1, Step 0, Step 0, Step 1]"

lemma example_runs:
  "case exec (calm_step 2 (\<lambda>_. False)) example_schedule (new_cstate 0 (\<lambda>_ _. NULL)) of None \<Rightarrow> False
   | Some s \<Rightarrow> t_pc (c_task s 0) = PPhys \<and> t_pc (c_task s 1) = PRet \<and> t_res (c_task s 1) \<and> t_resval (c_task s 1) = Some 7
       \<and> contents s 5 = None \<and> c_heap s 16 \<noteq> None \<and> t_op (c_task s 1) = OpLookup True"
  by code_simp

theorem concurrent_list_safe_witness:
  "\<exists>s. exec (calm_step 2 (\<lambda>_. False)) example_schedule (new_cstate 0 (\<lambda>_ _. NULL)) = Some s \<and> t_pc (c_task s 0) = PPhys
     \<and> (\<exists>s'. step_thread 2 0 s = Some s') \<and> (\<exists>as. chain (c_heap s) (c_head s) as)"
proof -
  obtain s where s: "exec (calm_step 2 (\<lambda>_. False)) example_schedule (new_cstate 0 (\<lambda>_ _. NULL)) = Some s" "t_pc (c_task s 0) = PPhys"
    using example_runs by (auto split: option.splits)
  have "reachable (calm_step 2 (\<lambda>_. False)) (\<lambda>s. \<exists>k mem. s = new_cstate k mem) s"
    by (rule reachable_exec [OF reach_init s(1)]) auto
  from concurrent_list_safe [OF this] s show ?thesis by auto
qed

text \<open>
  C3. The list is linearizable under the same interleavings. Every call that has returned is explained by
  a moment between its beginning and its return: an insertion or removal that returns true has changed
  the binding of its key exactly once, one that returns false has changed nothing and its key was bound,
  or unbound, at some moment of the call; a lookup changes nothing and returns what was true, value
  included, at some moment of the call. And the map changes in no other way: a step that changes it is the
  compare-and-swap of an insertion, which binds an unbound key to its value, or the one of a removal that
  marks the node, which unbinds a bound key.
\<close>

theorem concurrent_list_linearizable:
  assumes "reachable (watched n sent) (\<lambda>sw. \<exists>k mem. sw = (new_cstate k mem, new_watch)) (s, w)"
  shows "(\<forall>t. t_pc (c_task s t) = PRet \<longrightarrow>
           (let k = c_task s t in
            case t_op k of
              OpInsert \<Rightarrow> if t_res k then changes w t = 1 else changes w t = 0 \<and> (\<exists>v. Some v \<in> seen w t)
            | OpRemove \<Rightarrow> if t_res k then changes w t = 1 else changes w t = 0 \<and> None \<in> seen w t
            | OpLookup wanted \<Rightarrow> changes w t = 0
                \<and> (if t_res k then \<exists>v. Some v \<in> seen w t \<and> (wanted \<longrightarrow> t_resval k = v) else None \<in> seen w t)))
    \<and> (\<forall>a s'. lstep n sent a s = Some s' \<and> contents s' \<noteq> contents s \<longrightarrow>
           (\<exists>t. a = Step t \<and>
              (let k = c_task s t in
               t_pc k = PInsCas \<and> contents s (t_key k) = None \<and> contents s' = (contents s)(t_key k \<mapsto> t_val k)
               \<or> t_pc k = PMark \<and> contents s (t_key k) \<noteq> None \<and> contents s' = (contents s)(t_key k := None))))"
proof -
  from observed_list.reachable_inv [OF assms] have c: "cinv n sent s" and gd: "\<And>t. good s w t" by (auto simp: winv_def)
  have "explained (c_task s t) (seen w t) (changes w t)" if "t_pc (c_task s t) = PRet" for t
    using gd [of t] that by (simp add: good_def)
  moreover have "\<exists>t. a = Step t \<and> (let k = c_task s t in
      t_pc k = PInsCas \<and> contents s (t_key k) = None \<and> contents s' = (contents s)(t_key k \<mapsto> t_val k)
      \<or> t_pc k = PMark \<and> contents s (t_key k) \<noteq> None \<and> contents s' = (contents s)(t_key k := None))"
    if "lstep n sent a s = Some s'" "contents s' \<noteq> contents s" for a s'
    using contents_step [OF c that(1)] that(2)
    by (intro exI [of _ "actor a"]) (auto simp: links_def unlinks_def Let_def)
  ultimately show ?thesis unfolding explained_def Let_def by blast
qed

theorem concurrent_list_linearizable_witness:
  "\<exists>s w. exec (watched 2 (\<lambda>_. False)) example_schedule (new_cstate 0 (\<lambda>_ _. NULL), new_watch) = Some (s, w)
     \<and> t_res (c_task s 1) \<and> contents s 5 = None \<and> Some (Some 7) \<in> seen w 1 \<and> changes w 1 = 0"
proof -
  obtain s where s: "exec (calm_step 2 (\<lambda>_. False)) example_schedule (new_cstate 0 (\<lambda>_ _. NULL)) = Some s"
    "t_pc (c_task s 1) = PRet" "t_res (c_task s 1)" "t_resval (c_task s 1) = Some 7" "contents s 5 = None" "t_op (c_task s 1) = OpLookup True"
    using example_runs by (auto split: option.splits)
  from exec_watched [OF s(1)] obtain w where w: "exec (watched 2 (\<lambda>_. False)) example_schedule (new_cstate 0 (\<lambda>_ _. NULL), new_watch) = Some (s, w)"
    by blast
  have "reachable (watched 2 (\<lambda>_. False)) (\<lambda>sw. \<exists>k mem. sw = (new_cstate k mem, new_watch)) (s, w)"
    by (rule reachable_exec [OF reach_init w]) auto
  from concurrent_list_linearizable [OF this] s(2-4,6) have "changes w 1 = 0" "Some (Some 7) \<in> seen w 1"
    by (auto simp: Let_def dest!: spec [of _ "1 :: nat"])
  with w s show ?thesis by blast
qed

end
