(* ===== verification/Hash_Table_Concurrent.thy ===== *)
theory Hash_Table_Concurrent
  imports Hash_Table_Correct Lock_Free_Linearizable
begin

text \<open>
  The hash table (\<^verbatim>\<open>lock_free_hash_table.cpp\<close>) under every interleaving of its calls: the machine of the
  lock-free list, and around it the accesses of the table's own operations to \<^verbatim>\<open>buckets_\<close>, \<^verbatim>\<open>count_\<close> and
  \<^verbatim>\<open>size_\<close>, one per action. Each \<^verbatim>\<open>at\<close>, assignment and \<^verbatim>\<open>push_back\<close> on the vector is one action here; the
  standard library promises this only while no thread is growing the vector.
\<close>

section \<open>State\<close>

text \<open>
  Where a thread is, in the order of the code: \<open>HSize\<close> to \<open>HRun\<close> are common to the three operations,
  \<open>HParent\<close> to \<open>HStore\<close> are \<^verbatim>\<open>initialize_bucket\<close>, \<open>HInsert\<close> and \<open>HRun\<close> are inside a call of the list,
  \<open>HCsize\<close> to \<open>HCas\<close> the end of \<^verbatim>\<open>insertKey\<close>, \<open>HSub\<close> the end of \<^verbatim>\<open>removeKey\<close>.
\<close>

datatype hpc = HRet | HSize | HCheck | HParent | HMarker | HInsert | HStore | HStart | HRun
  | HCsize | HAdd | HLoad | HGrow | HPush | HCas | HSub

text \<open>\<open>h_stack\<close> holds the buckets of the nested calls of \<^verbatim>\<open>initialize_bucket\<close>, the innermost first.\<close>

record htask =
  h_pc :: hpc
  h_op :: op
  h_data :: u32
  h_val :: "int option"
  h_bucket :: u32
  h_stack :: "u32 list"
  h_dummy :: ptr
  h_csize :: u32
  h_i :: nat
  h_res :: bool
  h_resval :: "int option"

record hstate =
  h_list :: "u32 cstate"
  h_buckets :: "ptr list"
  h_count :: u32
  h_size :: u32
  h_task :: "nat \<Rightarrow> htask"

definition set_htask :: "nat \<Rightarrow> htask \<Rightarrow> hstate \<Rightarrow> hstate" where
  "set_htask t k s = s\<lparr>h_task := (h_task s)(t := k)\<rparr>"

definition put_list :: "u32 cstate \<Rightarrow> hstate \<Rightarrow> hstate" where
  "put_list l s = s\<lparr>h_list := l\<rparr>"

definition at_bucket :: "hstate \<Rightarrow> u32 \<Rightarrow> ptr option" where
  "at_bucket s b = dq_at (h_buckets s) (unat b)"

text \<open>The keys of the markers are those without the lowest bit.\<close>

definition marker_key :: "u32 \<Rightarrow> bool" where
  "marker_key k \<longleftrightarrow> \<not> bit k 0"

section \<open>The steps of a thread\<close>

definition enter_init :: "u32 \<Rightarrow> u32 list \<Rightarrow> htask \<Rightarrow> htask" where
  "enter_init b r k = k\<lparr>h_stack := b # r, h_pc := if b = 0 then HMarker else HParent\<rparr>"

definition parent_of :: "u32 \<Rightarrow> u32" where
  "parent_of b = (if b = 0 then 0 else getParent b)"

text \<open>
  \<^verbatim>\<open>initialize_bucket\<close>. The marker is allocated by the action \<open>New\<close> of the list's machine, right after the
  entry of the parent's bucket has been read. The node that \<^verbatim>\<open>insert\<close> stores to \<^verbatim>\<open>dummy\<close> is the last one
  the list has handed out.
\<close>

definition step_init :: "nat \<Rightarrow> nat \<Rightarrow> hstate \<Rightarrow> hstate option" where
  "step_init n t s =
     (let k = h_task s t in
      case h_stack k of [] \<Rightarrow> None
      | b # r \<Rightarrow>
         (case h_pc k of
            HParent \<Rightarrow>
              do { p \<leftarrow> at_bucket s (getParent b);
                   Some (set_htask t (if p = NULL then enter_init (getParent b) (b # r) k else k\<lparr>h_pc := HMarker\<rparr>) s) }
          | HMarker \<Rightarrow>
              do { p \<leftarrow> at_bucket s (parent_of b);
                   l \<leftarrow> lstep n marker_key (Call t OpInsert (reverseDummyKey b) None p True) (h_list s);
                   Some (set_htask t (k\<lparr>h_pc := HInsert\<rparr>) (put_list l s)) }
          | HInsert \<Rightarrow>
              do { l \<leftarrow> lstep n marker_key (Step t) (h_list s);
                   Some (set_htask t (if t_pc (c_task l t) = PRet
                                      then k\<lparr>h_dummy := fst (hd (c_dummies l)), h_pc := HStore\<rparr> else k) (put_list l s)) }
          | HStore \<Rightarrow>
              do { bs \<leftarrow> dq_set (h_buckets s) (unat b) (h_dummy k);
                   Some (set_htask t (k\<lparr>h_stack := r, h_pc := if r = [] then HStart else HMarker\<rparr>) (s\<lparr>h_buckets := bs\<rparr>)) }
          | _ \<Rightarrow> None))"

text \<open>The first lines of an operation, up to the return of the list's operation.\<close>

definition list_returned :: "htask \<Rightarrow> u32 task \<Rightarrow> htask" where
  "list_returned k c =
     k\<lparr>h_res := t_res c, h_resval := t_resval c,
       h_pc := if t_res c then (case h_op k of OpInsert \<Rightarrow> HCsize | OpRemove \<Rightarrow> HSub | _ \<Rightarrow> HRet) else HRet\<rparr>"

definition step_common :: "nat \<Rightarrow> nat \<Rightarrow> hstate \<Rightarrow> hstate option" where
  "step_common n t s =
     (let k = h_task s t in
      case h_pc k of
        HSize \<Rightarrow> Some (set_htask t (k\<lparr>h_bucket := h_data k mod h_size s, h_pc := HCheck\<rparr>) s)
      | HCheck \<Rightarrow>
          do { p \<leftarrow> at_bucket s (h_bucket k);
               Some (set_htask t (if p = NULL then enter_init (h_bucket k) [] k else k\<lparr>h_pc := HStart\<rparr>) s) }
      | HStart \<Rightarrow>
          do { p \<leftarrow> at_bucket s (h_bucket k);
               l \<leftarrow> lstep n marker_key (Call t (h_op k) (reverseRegularKey (h_data k)) (h_val k) p False) (h_list s);
               Some (set_htask t (k\<lparr>h_pc := HRun\<rparr>) (put_list l s)) }
      | HRun \<Rightarrow>
          do { l \<leftarrow> lstep n marker_key (Step t) (h_list s);
               Some (set_htask t (if t_pc (c_task l t) = PRet then list_returned k (c_task l t) else k) (put_list l s)) }
      | _ \<Rightarrow> None)"

text \<open>The end of \<^verbatim>\<open>insertKey\<close>, where \<^verbatim>\<open>loadFactor_\<close> is 10, and of \<^verbatim>\<open>removeKey\<close>.\<close>

definition step_count :: "nat \<Rightarrow> hstate \<Rightarrow> hstate option" where
  "step_count t s =
     (let k = h_task s t in
      case h_pc k of
        HCsize \<Rightarrow> Some (set_htask t (k\<lparr>h_csize := h_size s, h_pc := HAdd\<rparr>) s)
      | HAdd \<Rightarrow> Some (set_htask t (k\<lparr>h_pc := HLoad\<rparr>) (s\<lparr>h_count := h_count s + 1\<rparr>))
      | HLoad \<Rightarrow> Some (set_htask t (if h_count s div h_csize k > 10 then k\<lparr>h_i := 0, h_pc := HGrow\<rparr> else k\<lparr>h_pc := HRet\<rparr>) s)
      | HGrow \<Rightarrow> Some (set_htask t (k\<lparr>h_pc := if int (h_i k) < sint (h_size s) then HPush else HCas\<rparr>) s)
      | HPush \<Rightarrow> Some (set_htask t (k\<lparr>h_i := Suc (h_i k), h_pc := HGrow\<rparr>) (s\<lparr>h_buckets := h_buckets s @ [NULL]\<rparr>))
      | HCas \<Rightarrow> Some (set_htask t (k\<lparr>h_pc := HRet\<rparr>) (if h_size s = h_csize k then s\<lparr>h_size := 2 * h_csize k\<rparr> else s))
      | HSub \<Rightarrow> Some (set_htask t (k\<lparr>h_pc := HRet\<rparr>) (s\<lparr>h_count := h_count s - 1\<rparr>))
      | _ \<Rightarrow> None)"

section \<open>The machine\<close>

datatype hact = HCall nat op u32 "int option" | HNew nat ptr | HStep nat

definition new_htask :: "op \<Rightarrow> u32 \<Rightarrow> int option \<Rightarrow> htask" where
  "new_htask opn data val =
     \<lparr>h_pc = HSize, h_op = opn, h_data = data, h_val = val, h_bucket = 0, h_stack = [], h_dummy = NULL, h_csize = 0, h_i = 0,
      h_res = False, h_resval = None\<rparr>"

fun hstep :: "nat \<Rightarrow> hact \<Rightarrow> hstate \<Rightarrow> hstate option" where
  "hstep n (HCall t opn data val) s =
     (if t < n \<and> h_pc (h_task s t) = HRet \<and> (opn = OpInsert \<longrightarrow> val \<noteq> None)
      then Some (set_htask t (new_htask opn data val) s) else None)"
| "hstep n (HNew t a) s =
     do { l \<leftarrow> lstep n marker_key (New t a) (h_list s); Some (put_list l s) }"
| "hstep n (HStep t) s =
     (case h_pc (h_task s t) of
        HRet \<Rightarrow> None
      | HParent \<Rightarrow> step_init n t s | HMarker \<Rightarrow> step_init n t s | HInsert \<Rightarrow> step_init n t s | HStore \<Rightarrow> step_init n t s
      | HSize \<Rightarrow> step_common n t s | HCheck \<Rightarrow> step_common n t s | HStart \<Rightarrow> step_common n t s | HRun \<Rightarrow> step_common n t s
      | _ \<Rightarrow> step_count t s)"

text \<open>
  The constructor up to its last line: two empty buckets. Its last line is the call \<open>HCall t OpInsert 0 (Some 0)\<close>, which the
  machine may run before all others.
\<close>

definition new_hstate :: "(nat \<Rightarrow> nat \<Rightarrow> ptr) \<Rightarrow> hstate" where
  "new_hstate mem =
     \<lparr>h_list = new_cstate 0 mem, h_buckets = [NULL, NULL], h_count = 0, h_size = 2,
      h_task = (\<lambda>_. (new_htask (OpLookup False) 0 None)\<lparr>h_pc := HRet\<rparr>)\<rparr>"

text \<open>The action of the list's machine, if any, that an action of the table performs.\<close>

fun list_act :: "hact \<Rightarrow> hstate \<Rightarrow> u32 act option" where
  "list_act (HCall _ _ _ _) s = None"
| "list_act (HNew t a) s = Some (New t a)"
| "list_act (HStep t) s =
     (let k = h_task s t in
      case h_pc k of
        HMarker \<Rightarrow> (case h_stack k of [] \<Rightarrow> None
           | b # r \<Rightarrow> map_option (\<lambda>p. Call t OpInsert (reverseDummyKey b) None p True) (at_bucket s (parent_of b)))
      | HInsert \<Rightarrow> Some (Step t)
      | HStart \<Rightarrow> map_option (\<lambda>p. Call t (h_op k) (reverseRegularKey (h_data k)) (h_val k) p False) (at_bucket s (h_bucket k))
      | HRun \<Rightarrow> Some (Step t)
      | _ \<Rightarrow> None)"

text \<open>As for the list: no scan meets the window in the exchange of two hazard pointers.\<close>

definition hcalm :: "hact \<Rightarrow> hstate \<Rightarrow> bool" where
  "hcalm a s = (case list_act a s of None \<Rightarrow> True | Some b \<Rightarrow> calm b (h_list s))"

text \<open>The map a state stands for.\<close>

definition table_map :: "hstate \<Rightarrow> u32 \<Rightarrow> int option option" where
  "table_map s data = contents (h_list s) (reverseRegularKey data)"

text \<open>
  An observer of the table: the bindings the key of a call has had since the call began, up to its
  return, and how often the call has changed that binding.
\<close>

fun hactor :: "hact \<Rightarrow> nat" where
  "hactor (HCall t _ _ _) = t"
| "hactor (HNew t _) = t"
| "hactor (HStep t) = t"

fun hbegins :: "hact \<Rightarrow> nat \<Rightarrow> bool" where
  "hbegins (HCall t _ _ _) u = (u = t)"
| "hbegins _ u = False"

definition hobserve :: "hact \<Rightarrow> hstate \<Rightarrow> hstate \<Rightarrow> watch \<Rightarrow> watch" where
  "hobserve a s s' v =
     \<lparr>seen = (\<lambda>u. if hbegins a u then {table_map s' (h_data (h_task s' u))}
                  else if h_pc (h_task s u) = HRet then seen v u
                  else insert (table_map s' (h_data (h_task s u))) (seen v u)),
      changes = (\<lambda>u. if hbegins a u then 0
                     else if u = hactor a \<and> table_map s' (h_data (h_task s u)) \<noteq> table_map s (h_data (h_task s u))
                     then Suc (changes v u) else changes v u)\<rparr>"

definition hwatched :: "nat \<Rightarrow> hact \<Rightarrow> hstate \<times> watch \<Rightarrow> (hstate \<times> watch) option" where
  "hwatched n a sv =
     (case sv of (s, v) \<Rightarrow> if hcalm a s then do { s' \<leftarrow> hstep n a s; Some (s', hobserve a s s' v) } else None)"

end
