(* ===== verification/Hash_Table_Concurrent_Correct.thy ===== *)
theory Hash_Table_Concurrent_Correct
  imports Hash_Table_Concurrent
begin

text \<open>
  The concurrent hash table. Every action of the table is an action of the list's machine or leaves the
  list alone, and it keeps to the rules of the list's callers, so that the list's invariant and
  observer carry over.
\<close>

section \<open>Actions of the table and of the list\<close>

lemma htask_fields [simp]:
  "h_list (set_htask t k s) = h_list s" "h_buckets (set_htask t k s) = h_buckets s" "h_count (set_htask t k s) = h_count s"
  "h_size (set_htask t k s) = h_size s" "h_task (set_htask t k s) = (h_task s)(t := k)"
  by (simp_all add: set_htask_def)

lemma put_list_fields [simp]:
  "h_list (put_list l s) = l" "h_buckets (put_list l s) = h_buckets s" "h_count (put_list l s) = h_count s"
  "h_size (put_list l s) = h_size s" "h_task (put_list l s) = h_task s"
  by (simp_all add: put_list_def)

lemmas hstep_defs = step_init_def step_common_def step_count_def Let_def at_bucket_def dq_at_def dq_set_def

lemma hstep_frame: "hstep n a s = Some s' \<Longrightarrow> u \<noteq> hactor a \<Longrightarrow> h_task s' u = h_task s u"
  by (cases a; cases "h_pc (h_task s (hactor a))")
    (auto simp: hstep_defs split: if_splits list.splits Option.bind_splits)

lemma hstep_list:
  assumes "hstep n a s = Some s'"
  shows "case list_act a s of None \<Rightarrow> h_list s' = h_list s
    | Some b \<Rightarrow> lstep n marker_key b (h_list s) = Some (h_list s') \<and> actor b = hactor a
        \<and> h_buckets s' = h_buckets s \<and> h_count s' = h_count s \<and> h_size s' = h_size s"
  using assms
  by (cases a; cases "h_pc (h_task s (hactor a))")
    (auto simp: hstep_defs simp del: lstep.simps split: if_splits list.splits Option.bind_splits)

section \<open>What the table relies on\<close>

text \<open>The insertion of a marker returns the node it has handed out.\<close>

lemma marker_returned:
  assumes "cinv n sent l" "lstep n sent (Step t) l = Some l'" "t_op (c_task l t) = OpInsert" "t_dummy (c_task l t)"
    "t_pc (c_task l' t) = PRet"
  shows "(fst (hd (c_dummies l')), t_key (c_task l t)) \<in> set (c_dummies l')"
proof -
  let ?k = "c_task l t"
  have st: "step_thread n t l = Some l'" and at: "at_pc n l t" using assms(1,2) by (auto simp: cinv_def)
  have "\<exists>a. c_dummies l' = (a, t_key ?k) # c_dummies l"
  proof (cases "t_pc ?k")
    case PInsCas
    with at have "t_prev ?k \<noteq> StartLoc" by (simp add: at_pc_def placed_at_def Let_def)
    with st assms(4,5) PInsCas show ?thesis by (auto simp: step_defs split: Option.bind_splits if_splits)
  next
    case PDelete
    with st assms(4) show ?thesis by (auto simp: step_defs split: Option.bind_splits)
  next
    case (PRetire b)
    with st at assms(3,5) show ?thesis by (cases b) (auto simp: step_defs at_pc_def resume_def pc_loop_head split: if_splits)
  next
    case (PFree b)
    with st at assms(3,5) show ?thesis
      by (cases b) (auto simp: step_defs at_pc_def resume_def pc_loop_head split: if_splits list.splits Option.bind_splits)
  qed (use st at assms(3,5) in \<open>auto simp: step_defs pc_loop_head pc_return_insert pc_scan_next at_pc_def split: Option.bind_splits if_splits\<close>)
  then show ?thesis by auto
qed

text \<open>
  What an action \<open>b\<close> of the list's machine does, as far as the table is concerned: the list's invariant and
  its observer go on, nodes that were handed out stay, other threads and the parameters of a call are not touched.
\<close>

lemma list_step:
  assumes "winv n sent (l, w)" "calm b l" "lstep n sent b l = Some l'"
  shows "winv n sent (l', observe b l l' w)" "set (c_dummies l) \<subseteq> set (c_dummies l')"
    and "\<And>u. u \<noteq> actor b \<Longrightarrow> c_task l' u = c_task l u"
proof -
  show "winv n sent (l', observe b l l' w)"
    using observed_list.step_inv [OF assms(1), of b "(l', observe b l l' w)"] assms(2,3) by (simp add: watched_def calm_step_def)
  from assms(1) have "call_ok n sent l (actor b)" "at_pc n l (actor b)" by (auto simp: winv_def cinv_def)
  from step_dummies [OF assms(3) this] show "set (c_dummies l) \<subseteq> set (c_dummies l')" .
  show "\<And>u. u \<noteq> actor b \<Longrightarrow> c_task l' u = c_task l u" using step_frame(1) [OF assms(3)] .
qed

lemma list_step_own:
  assumes "winv n sent (l, w)" "lstep n sent (Step t) l = Some l'"
  shows "t_op (c_task l' t) = t_op (c_task l t)" "t_key (c_task l' t) = t_key (c_task l t)" "t_val (c_task l' t) = t_val (c_task l t)"
    "t_dummy (c_task l' t) = t_dummy (c_task l t)"
proof -
  from assms(1) have "at_pc n l t" by (auto simp: winv_def cinv_def)
  with own_fields [of n t l l' "c_task l t" "c_task l' t"] assms(2)
  show "t_op (c_task l' t) = t_op (c_task l t)" "t_key (c_task l' t) = t_key (c_task l t)" "t_val (c_task l' t) = t_val (c_task l t)"
    "t_dummy (c_task l' t) = t_dummy (c_task l t)" by simp_all
qed

section \<open>Invariant of the table\<close>

text \<open>The table itself: every entry that is not NULL is the marker of its bucket; the size is a power of two.\<close>

definition entries_ok :: "ptr list \<Rightarrow> u32 cstate \<Rightarrow> bool" where
  "entries_ok bs l \<longleftrightarrow>
     (\<forall>b. unat b < length bs \<longrightarrow> bs ! unat b \<noteq> NULL \<longrightarrow> (bs ! unat b, reverseDummyKey b) \<in> set (c_dummies l))"

definition pow2 :: "nat \<Rightarrow> u32 \<Rightarrow> bool" where
  "pow2 m z \<longleftrightarrow> (\<exists>i. 1 \<le> i \<and> i \<le> m \<and> z = 2 ^ i)"

definition size_ok :: "u32 \<Rightarrow> nat \<Rightarrow> bool" where
  "size_ok z len \<longleftrightarrow> pow2 29 z \<and> unat z \<le> len"

text \<open>A thread: the bucket it works on, the buckets it initialises, and the call of the list it makes.\<close>

definition bucket_ok :: "nat \<Rightarrow> htask \<Rightarrow> bool" where
  "bucket_ok len k \<longleftrightarrow> (\<exists>z. size_ok z len \<and> h_bucket k = h_data k mod z)"

definition stack_ok :: "nat \<Rightarrow> u32 list \<Rightarrow> bool" where
  "stack_ok len st \<longleftrightarrow> st \<noteq> [] \<and> (\<forall>b \<in> set st. unat b < len \<and> unat b < 2 ^ 29)"

definition runs :: "htask \<Rightarrow> u32 task \<Rightarrow> bool" where
  "runs k c \<longleftrightarrow> t_op c = h_op k \<and> t_key c = reverseRegularKey (h_data k) \<and> t_val c = h_val k"

text \<open>Where a thread may resize, \<open>h_csize\<close> is a size the table had, and \<open>h_i\<close> entries have been added since if it still has it.\<close>

definition growth_ok :: "u32 \<Rightarrow> nat \<Rightarrow> htask \<Rightarrow> bool" where
  "growth_ok z len k \<longleftrightarrow> h_csize k \<le> z \<and> pow2 28 (h_csize k) \<and> (h_csize k = z \<longrightarrow> unat z + h_i k \<le> len)"

definition hok :: "nat \<Rightarrow> hstate \<Rightarrow> nat \<Rightarrow> bool" where
  "hok n s t \<longleftrightarrow>
     (let k = h_task s t; c = c_task (h_list s) t; len = length (h_buckets s); z = h_size s in
      (h_pc k \<noteq> HRet \<longrightarrow> t < n) \<and> (h_pc k \<notin> {HInsert, HRun} \<longrightarrow> t_pc c = PRet) \<and>
      (case h_pc k of
         HCheck \<Rightarrow> bucket_ok len k
       | HStart \<Rightarrow> bucket_ok len k
       | HParent \<Rightarrow> bucket_ok len k \<and> stack_ok len (h_stack k) \<and> hd (h_stack k) \<noteq> 0
       | HMarker \<Rightarrow> bucket_ok len k \<and> stack_ok len (h_stack k)
       | HInsert \<Rightarrow> bucket_ok len k \<and> stack_ok len (h_stack k) \<and> t_pc c \<noteq> PRet \<and> t_op c = OpInsert
                    \<and> t_key c = reverseDummyKey (hd (h_stack k)) \<and> t_dummy c
       | HStore \<Rightarrow> bucket_ok len k \<and> stack_ok len (h_stack k)
                    \<and> (h_dummy k, reverseDummyKey (hd (h_stack k))) \<in> set (c_dummies (h_list s))
       | HRun \<Rightarrow> t_pc c \<noteq> PRet \<and> runs k c
       | HCsize \<Rightarrow> h_op k = OpInsert \<and> runs k c \<and> h_res k
       | HAdd \<Rightarrow> h_op k = OpInsert \<and> runs k c \<and> h_res k \<and> h_csize k \<le> z \<and> pow2 29 (h_csize k)
       | HLoad \<Rightarrow> h_csize k \<le> z \<and> pow2 29 (h_csize k)
       | HGrow \<Rightarrow> growth_ok z len k
       | HPush \<Rightarrow> growth_ok z len k
       | HCas \<Rightarrow> growth_ok z len k \<and> (h_csize k = z \<longrightarrow> unat z \<le> h_i k)
       | HSub \<Rightarrow> h_op k = OpRemove \<and> runs k c \<and> h_res k
       | _ \<Rightarrow> True))"

definition table_ok :: "nat \<Rightarrow> hstate \<Rightarrow> bool" where
  "table_ok n s \<longleftrightarrow> entries_ok (h_buckets s) (h_list s) \<and> size_ok (h_size s) (length (h_buckets s)) \<and> (\<forall>t. hok n s t)"

lemma local_changes [simp]:
  "bucket_ok len (k\<lparr>h_pc := p\<rparr>) = bucket_ok len k" "bucket_ok len (k\<lparr>h_stack := st\<rparr>) = bucket_ok len k"
  "bucket_ok len (k\<lparr>h_dummy := a\<rparr>) = bucket_ok len k" "growth_ok z len (k\<lparr>h_pc := p\<rparr>) = growth_ok z len k"
  "runs (k\<lparr>h_pc := p\<rparr>) c = runs k c" "runs (k\<lparr>h_csize := z\<rparr>) c = runs k c"
  by (simp_all add: bucket_ok_def growth_ok_def runs_def)

lemma bucket_ok_mono: "bucket_ok len k \<Longrightarrow> len \<le> len' \<Longrightarrow> bucket_ok len' k"
  by (auto simp: bucket_ok_def size_ok_def)

lemma stack_ok_mono: "stack_ok len st \<Longrightarrow> len \<le> len' \<Longrightarrow> stack_ok len' st"
  by (auto simp: stack_ok_def)

lemma growth_ok_mono: "growth_ok z len k \<Longrightarrow> len \<le> len' \<Longrightarrow> z' = z \<or> z < z' \<Longrightarrow> growth_ok z' len' k"
  by (auto simp: growth_ok_def)

text \<open>What other threads do to the table does not disturb a thread.\<close>

lemma hok_other:
  assumes "hok n s t" "h_task s' t = h_task s t" "c_task (h_list s') t = c_task (h_list s) t"
    "length (h_buckets s) \<le> length (h_buckets s')" "h_size s' = h_size s \<or> h_size s < h_size s'"
    "set (c_dummies (h_list s)) \<subseteq> set (c_dummies (h_list s'))"
  shows "hok n s' t"
proof -
  note mono = bucket_ok_mono [OF _ assms(4)] stack_ok_mono [OF _ assms(4)] growth_ok_mono [OF _ assms(4,5)]
  have le: "h_csize (h_task s t) \<le> h_size s \<Longrightarrow> h_csize (h_task s t) \<le> h_size s'" using assms(5) by auto
  have eq: "growth_ok (h_size s) len (h_task s t) \<Longrightarrow> h_csize (h_task s t) = h_size s' \<Longrightarrow> h_size s' = h_size s" for len
    using assms(5) by (auto simp: growth_ok_def)
  show ?thesis
  proof (cases "h_pc (h_task s t) = HCas")
    case True
    with assms(1) mono(3) show ?thesis unfolding hok_def Let_def assms(2,3) by simp (metis eq)
  next
    case False
    with assms(1) show ?thesis
      unfolding hok_def Let_def assms(2,3) by (cases "h_pc (h_task s t)") (use mono assms(6) le in \<open>auto 0 3\<close>)
  qed
qed

section \<open>Arithmetic of sizes\<close>

lemma pow2_unat: "pow2 m z \<Longrightarrow> m \<le> 29 \<Longrightarrow> 0 < unat z \<and> unat z \<le> 2 ^ 29 \<and> sint z = int (unat z)"
proof -
  assume "pow2 m z" and m: "m \<le> 29"
  then obtain i where "i \<le> m" and z: "z = 2 ^ i" by (auto simp: pow2_def)
  with m have i: "i \<le> 29" "z = 2 ^ i" by simp_all
  have u: "unat z = 2 ^ i" using i unat_power [of i] by simp
  have "nat (sint z) = 2 ^ i" using i sint_power [of i] by simp
  moreover have "(0 :: nat) < 2 ^ i" by simp
  ultimately have "sint z = int (2 ^ i)" by (metis nat_eq_iff2 less_irrefl)
  moreover have "(2 :: nat) ^ i \<le> 2 ^ 29" using i(1) by (rule power_increasing) simp
  ultimately show ?thesis using u by simp
qed

lemma bucket_ok_stack: "bucket_ok len k \<Longrightarrow> stack_ok len [h_bucket k]"
proof -
  assume "bucket_ok len k"
  then obtain z where z: "pow2 29 z" "unat z \<le> len" "h_bucket k = h_data k mod z" by (auto simp: bucket_ok_def size_ok_def)
  have "unat (h_bucket k) < unat z" using pow2_unat [OF z(1)] z(3) by (simp add: unat_mod)
  with pow2_unat [OF z(1)] z(2) show ?thesis by (simp add: stack_ok_def)
qed

lemma stack_ok_parent: "stack_ok len (b # r) \<Longrightarrow> b \<noteq> 0 \<Longrightarrow> stack_ok len (getParent b # b # r)"
  using getParent_less [of b] by (auto simp: stack_ok_def word_less_nat_alt)

lemma stack_ok_tl: "stack_ok len (b # r) \<Longrightarrow> r \<noteq> [] \<Longrightarrow> stack_ok len r"
  by (auto simp: stack_ok_def)

text \<open>A table whose size would overflow is never found too full.\<close>

lemma load_bound: "pow2 29 z \<Longrightarrow> (10 :: u32) < c div z \<Longrightarrow> pow2 28 z"
proof -
  assume "pow2 29 z" and c: "10 < c div z"
  then obtain i where i: "1 \<le> i" "i \<le> 29" "z = 2 ^ i" by (auto simp: pow2_def)
  have "10 < unat c div 2 ^ i" using c i by (simp add: word_less_nat_alt unat_div unat_power)
  then have "\<not> unat c < 11 * 2 ^ i" using less_mult_imp_div_less [of "unat c" 11 "2 ^ i"] by auto
  moreover have "unat c < 2 ^ 32" using unsigned_less [of c] by simp
  ultimately have "i \<noteq> 29" by auto
  with i show ?thesis by (auto simp: pow2_def intro!: exI [of _ i])
qed

lemma double_pow2: "pow2 28 z \<Longrightarrow> pow2 29 (2 * z) \<and> z < 2 * z \<and> unat (2 * z) = 2 * unat z"
proof -
  assume "pow2 28 z"
  then obtain i where i: "1 \<le> i" "i \<le> 28" "z = 2 ^ i" by (auto simp: pow2_def)
  then have "unat (2 ^ Suc i :: u32) = 2 ^ Suc i" "unat (2 ^ i :: u32) = 2 ^ i" by (intro unat_power; simp)+
  moreover have "pow2 29 (2 ^ Suc i)" using i by (auto simp: pow2_def intro!: exI [of _ "Suc i"])
  ultimately show ?thesis by (simp add: word_less_nat_alt i(3))
qed

section \<open>The invariant is kept\<close>

lemma hok_run_list:
  assumes "table_ok n s" "winv n marker_key (h_list s, w)" "hstep n (HStep t) s = Some s'" "h_pc (h_task s t) \<in> {HMarker, HInsert, HStart, HRun}"
  shows "hok n s' t"
proof -
  let ?k = "h_task s t"
  from assms(1) have h: "hok n s t" by (simp add: table_ok_def)
  have c: "cinv n marker_key (h_list s)" using assms(2) by (simp add: winv_def)
  from assms(4) consider "h_pc ?k = HMarker" | "h_pc ?k = HInsert" | "h_pc ?k = HStart" | "h_pc ?k = HRun" by auto
  then show ?thesis
  proof cases
    case 1
    with h obtain b r where st: "h_stack ?k = b # r" by (cases "h_stack ?k") (auto simp: hok_def stack_ok_def)
    from 1 st assms(3) h show ?thesis
      by (auto simp: hok_def step_init_def Let_def new_task_def split: Option.bind_splits if_splits)
  next
    case 2
    with h obtain b r where st: "h_stack ?k = b # r" by (cases "h_stack ?k") (auto simp: hok_def stack_ok_def)
    from 2 st assms(3) obtain l where l: "lstep n marker_key (Step t) (h_list s) = Some l" and
      s': "s' = set_htask t (if t_pc (c_task l t) = PRet then ?k\<lparr>h_dummy := fst (hd (c_dummies l)), h_pc := HStore\<rparr> else ?k) (put_list l s)"
      by (auto simp: step_init_def Let_def simp del: lstep.simps split: Option.bind_splits)
    have k: "t_op (c_task (h_list s) t) = OpInsert" "t_dummy (c_task (h_list s) t)" "t_key (c_task (h_list s) t) = reverseDummyKey b"
      using h 2 st by (auto simp: hok_def Let_def)
    from h 2 st marker_returned [OF c l k(1,2)] list_step_own [OF assms(2) l] k show ?thesis
      by (cases "t_pc (c_task l t) = PRet") (auto simp: s' hok_def Let_def)
  next
    case 3
    with assms(3) h show ?thesis
      by (auto simp: hok_def step_common_def Let_def new_task_def runs_def split: Option.bind_splits if_splits)
  next
    case 4
    with assms(3) obtain l where l: "lstep n marker_key (Step t) (h_list s) = Some l" and
      s': "s' = set_htask t (if t_pc (c_task l t) = PRet then list_returned ?k (c_task l t) else ?k) (put_list l s)"
      by (auto simp: step_common_def Let_def simp del: lstep.simps split: Option.bind_splits)
    from h 4 list_step_own [OF assms(2) l] show ?thesis
      by (cases "t_pc (c_task l t) = PRet") (auto simp: s' hok_def Let_def list_returned_def runs_def split: op.splits)
  qed
qed

lemma hok_run_table:
  assumes "table_ok n s" "hstep n (HStep t) s = Some s'" "h_pc (h_task s t) \<in> {HSize, HCheck, HParent, HStore, HCsize, HAdd, HLoad, HGrow, HPush, HCas, HSub}"
  shows "hok n s' t"
proof -
  let ?k = "h_task s t" and ?len = "length (h_buckets s)"
  from assms(1) have h: "hok n s t" by (simp add: table_ok_def)
  from assms(1) have j: "pow2 29 (h_size s)" and z: "unat (h_size s) \<le> ?len" by (auto simp: table_ok_def size_ok_def)
  note sz = pow2_unat [OF j order_refl]
  from assms(3) consider "h_pc ?k \<in> {HSize, HCsize, HAdd, HSub}" | "h_pc ?k = HCheck" | "h_pc ?k \<in> {HParent, HStore}" | "h_pc ?k = HLoad"
    | "h_pc ?k \<in> {HGrow, HPush, HCas}" by auto
  then show ?thesis
  proof cases
    case 1
    have "bucket_ok ?len (?k\<lparr>h_bucket := h_data ?k mod h_size s\<rparr>)"
      using j z by (auto simp: bucket_ok_def size_ok_def intro!: exI [of _ "h_size s"])
    with 1 h assms(2) j z show ?thesis
      by (auto simp: hok_def step_common_def step_count_def Let_def runs_def)
  next
    case 2
    with h have b: "bucket_ok ?len ?k" by (simp add: hok_def Let_def)
    with 2 h assms(2) b bucket_ok_stack [OF b] show ?thesis
      by (auto simp: hok_def step_common_def Let_def enter_init_def split: Option.bind_splits)
  next
    case 3
    with h obtain b r where st: "h_stack ?k = b # r" by (cases "h_stack ?k") (auto simp: hok_def stack_ok_def)
    have so: "stack_ok ?len (b # r)" using 3 h st by (auto simp: hok_def Let_def)
    with 3 h assms(2) st stack_ok_parent [OF so] stack_ok_tl [OF so] show ?thesis
      by (auto simp: hok_def step_init_def Let_def enter_init_def dq_set_def split: Option.bind_splits if_splits)
  next
    case 4
    with load_bound [of "h_csize ?k" "h_count s"] h assms(2) z show ?thesis
      by (auto simp: hok_def step_count_def Let_def growth_ok_def)
  next
    case 5
    have "int (h_i ?k) < sint (h_size s) \<longleftrightarrow> h_i ?k < unat (h_size s)" using sz by (metis of_nat_less_iff)
    with 5 h assms(2) show ?thesis
      by (auto simp: hok_def step_count_def Let_def growth_ok_def)
  qed
qed

text \<open>The entries of the table and its size.\<close>

lemma entries_ok_more:
  "entries_ok bs l \<Longrightarrow> set (c_dummies l) \<subseteq> set (c_dummies l') \<Longrightarrow> entries_ok bs l'"
  "entries_ok bs l \<Longrightarrow> entries_ok (bs @ [NULL]) l"
  by (auto simp: entries_ok_def nth_append less_Suc_eq)

lemma entries_ok_store: "entries_ok bs l \<Longrightarrow> (p, reverseDummyKey b) \<in> set (c_dummies l) \<Longrightarrow> entries_ok (bs[unat b := p]) l"
  unfolding entries_ok_def by (metis length_list_update nth_list_update_eq nth_list_update_neq unsigned_word_eqI)

lemma entries_step:
  assumes "table_ok n s" "winv n marker_key (h_list s, w)" "hcalm a s" "hstep n a s = Some s'"
  shows "entries_ok (h_buckets s') (h_list s')" "length (h_buckets s) \<le> length (h_buckets s')"
    "h_size s' = h_size s \<or> h_size s < h_size s'" "size_ok (h_size s') (length (h_buckets s'))"
proof -
  have e: "entries_ok (h_buckets s) (h_list s)" and z: "size_ok (h_size s) (length (h_buckets s))" and h: "\<And>t. hok n s t"
    using assms(1) by (auto simp: table_ok_def)
  have "entries_ok (h_buckets s') (h_list s') \<and> length (h_buckets s) \<le> length (h_buckets s')
    \<and> (h_size s' = h_size s \<or> h_size s < h_size s') \<and> size_ok (h_size s') (length (h_buckets s'))"
  proof (cases "list_act a s")
    case (Some b)
    with hstep_list [OF assms(4)] have l: "lstep n marker_key b (h_list s) = Some (h_list s')" and
      same: "h_buckets s' = h_buckets s" "h_size s' = h_size s" by auto
    have "calm b (h_list s)" using assms(3) Some by (simp add: hcalm_def)
    from list_step(2) [OF assms(2) this l] entries_ok_more(1) [OF e] same z show ?thesis by simp
  next
    case None
    with hstep_list [OF assms(4)] have l: "h_list s' = h_list s" by simp
    show ?thesis
    proof (cases a)
      case (HStep t)
      from h [of t] show ?thesis
      proof (cases "h_pc (h_task s t)")
        case HStore
        with h [of t] obtain b r where st: "h_stack (h_task s t) = b # r" by (cases "h_stack (h_task s t)") (auto simp: hok_def stack_ok_def)
        with h [of t] HStore have "(h_dummy (h_task s t), reverseDummyKey b) \<in> set (c_dummies (h_list s))" by (simp add: hok_def Let_def)
        from entries_ok_store [OF e this] z HStore st HStep assms(4) show ?thesis
          by (cases r) (auto simp: step_init_def Let_def dq_set_def split: if_splits)
      next
        case HCas
        with h [of t] have g: "growth_ok (h_size s) (length (h_buckets s)) (h_task s t)" "h_csize (h_task s t) = h_size s \<longrightarrow> unat (h_size s) \<le> h_i (h_task s t)"
          by (auto simp: hok_def Let_def)
        with double_pow2 [of "h_csize (h_task s t)"] z e HCas HStep assms(4) show ?thesis
          by (auto simp: step_count_def Let_def growth_ok_def size_ok_def split: if_splits)
      next
        case HPush
        with entries_ok_more(2) [OF e] z HStep assms(4) show ?thesis by (auto simp: step_count_def Let_def size_ok_def)
      qed (use e z HStep assms(4) None in \<open>auto simp: hstep_defs simp del: lstep.simps split: list.splits Option.bind_splits if_splits\<close>)
    qed (use e z l None assms(4) in \<open>auto split: if_splits\<close>)
  qed
  then show "entries_ok (h_buckets s') (h_list s')" "length (h_buckets s) \<le> length (h_buckets s')"
    "h_size s' = h_size s \<or> h_size s < h_size s'" "size_ok (h_size s') (length (h_buckets s'))" by blast+
qed

lemma table_ok_step:
  assumes "table_ok n s" "winv n marker_key (h_list s, w)" "hcalm a s" "hstep n a s = Some s'"
  shows "table_ok n s'"
proof -
  have h: "\<And>t. hok n s t" using assms(1) by (simp add: table_ok_def)
  note e = entries_step [OF assms]
  have lst: "set (c_dummies (h_list s)) \<subseteq> set (c_dummies (h_list s'))" "u \<noteq> hactor a \<Longrightarrow> c_task (h_list s') u = c_task (h_list s) u" for u
    using hstep_list [OF assms(4)] list_step(2,3) [OF assms(2)] assms(3) by (fastforce simp: hcalm_def split: option.splits)+
  have "hok n s' t" for t
  proof (cases "t = hactor a")
    case False
    from hok_other [OF h hstep_frame [OF assms(4) False] lst(2) [OF False] e(2,3) lst(1)] show ?thesis .
  next
    case True
    show ?thesis
    proof (cases a)
      case (HCall u opn data val)
      with assms(4) h [of t] True show ?thesis by (auto simp: hok_def Let_def new_htask_def split: if_splits)
    next
      case (HNew u x)
      with assms(4) h [of t] True show ?thesis
        by (cases "h_pc (h_task s t)") (auto simp: hok_def Let_def runs_def split: if_splits)
    next
      case (HStep u)
      with True assms(4) hok_run_list [OF assms(1,2)] hok_run_table [OF assms(1)] show ?thesis
        by (cases "h_pc (h_task s t)") (auto simp del: hstep.simps, simp)
    qed
  qed
  with e(1,4) show ?thesis by (simp add: table_ok_def)
qed

end
