(* ===== verification/Hash_Table_Linearizable.thy ===== *)
theory Hash_Table_Linearizable
  imports Hash_Table_Concurrent_Correct
begin

unbundle bit_operations_syntax

text \<open>
  The concurrent hash table seen from its callers: it is linearizable, no thread gets stuck or reaches
  freed memory, and when no call is running the item count is the number of keys.
\<close>

section \<open>Keys\<close>

text \<open>Two keys are the same to the table if they agree without their top bit.\<close>

lemma same_key: "reverseRegularKey e = reverseRegularKey d \<longleftrightarrow> take_bit 31 e = take_bit 31 d"
proof -
  have "e OR push_bit 31 1 = d OR push_bit 31 1 \<longleftrightarrow> take_bit 31 e = take_bit 31 d"
    (is "?l \<longleftrightarrow> ?r")
  proof
    assume ?l
    then have b: "bit (e OR push_bit 31 1) i = bit (d OR push_bit 31 1) i" for i by simp
    show ?r
    proof (rule bit_eqI)
      fix i show "bit (take_bit 31 e) i = bit (take_bit 31 d) i"
        using b [of i] unfolding bit_or_iff bit_top bit_take_bit_iff by auto
    qed
  next
    assume ?r
    then have b: "bit (take_bit 31 e) i = bit (take_bit 31 d) i" for i by simp
    show ?l
    proof (rule bit_eqI)
      fix i :: nat assume "possible_bit TYPE(u32) i"
      then have "i < 31 \<or> i = 31" by (auto simp: possible_bit_word)
      with b [of i] show "bit (e OR push_bit 31 1) i = bit (d OR push_bit 31 1) i"
        unfolding bit_or_iff bit_top bit_take_bit_iff by auto
    qed
  qed
  then show ?thesis by (simp add: reverseRegularKey_def)
qed

definition stored :: "hstate \<Rightarrow> u32 set" where
  "stored s = {d. unat d < 2 ^ 31 \<and> table_map s d \<noteq> None}"

lemma take_31: "unat (d :: u32) < 2 ^ 31 \<longleftrightarrow> take_bit 31 d = d"
proof
  assume "unat d < 2 ^ 31"
  then have "take_bit 31 (unat d) = unat d" by (rule take_bit_nat_eq_self)
  then show "take_bit 31 d = d" by (metis unsigned_take_bit_eq unsigned_word_eqI)
next
  assume "take_bit 31 d = d"
  then show "unat d < 2 ^ 31" by (metis take_bit_nat_less_exp unsigned_take_bit_eq)
qed

lemma stored_alt: "stored s = {d. take_bit 31 d = d \<and> table_map s d \<noteq> None}"
  unfolding stored_def take_31 ..

lemma table_map_same: "take_bit 31 e = take_bit 31 d \<Longrightarrow> table_map s e = table_map s d"
  by (simp add: table_map_def same_key [symmetric])

lemma stored_iff: "take_bit 31 d \<in> stored s \<longleftrightarrow> table_map s d \<noteq> None"
  by (simp add: stored_alt table_map_same [of "take_bit 31 d" d])

text \<open>How the map changes when a key is bound or unbound.\<close>

definition rebinds :: "hstate \<Rightarrow> hstate \<Rightarrow> u32 \<Rightarrow> int option option \<Rightarrow> bool" where
  "rebinds s s' d v \<longleftrightarrow> (\<forall>e. table_map s' e = (if take_bit 31 e = take_bit 31 d then v else table_map s e))"

lemma stored_bind: "rebinds s s' d (Some v) \<Longrightarrow> stored s' = insert (take_bit 31 d) (stored s)"
  by (auto simp: rebinds_def stored_alt)

lemma stored_unbind: "rebinds s s' d None \<Longrightarrow> stored s' = stored s - {take_bit 31 d}"
  by (auto simp: rebinds_def stored_alt)

lemma table_step:
  assumes "table_ok n s" "winv n marker_key (h_list s, w)" "hcalm a s" "hstep n a s = Some s'"
  shows "table_map s' = table_map s
    \<or> (\<exists>t. a = HStep t \<and> h_pc (h_task s t) = HRun \<and>
         (let k = h_task s t in
          h_op k = OpInsert \<and> table_map s (h_data k) = None \<and> rebinds s s' (h_data k) (Some (h_val k))
          \<or> h_op k = OpRemove \<and> table_map s (h_data k) \<noteq> None \<and> rebinds s s' (h_data k) None))"
proof (cases "list_act a s")
  case None
  with hstep_list [OF assms(4)] show ?thesis by (simp add: table_map_def fun_eq_iff)
next
  case (Some b)
  let ?l = "h_list s" and ?l' = "h_list s'"
  from Some hstep_list [OF assms(4)] have l: "lstep n marker_key b ?l = Some ?l'" "actor b = hactor a" by auto
  have c: "cinv n marker_key ?l" and cl: "calm b ?l" using assms(2,3) Some by (auto simp: winv_def hcalm_def)
  define t where "t = hactor a"
  let ?k = "h_task s t" and ?c = "c_task ?l t"
  have h: "hok n s t" and at: "at_pc n ?l t" using assms(1) c by (auto simp: table_ok_def cinv_def)
  show ?thesis
  proof (cases "contents ?l' = contents ?l")
    case True
    then show ?thesis by (simp add: table_map_def fun_eq_iff)
  next
    case False
    from contents_step [OF c l(1)] False l(2) have lk: "links b ?l ?l' \<or> unlinks b ?l ?l'" by blast
    have op: "links b ?l ?l' \<Longrightarrow> t_op ?c = OpInsert" "unlinks b ?l ?l' \<Longrightarrow> t_op ?c = OpRemove"
      using at by (auto simp: links_def unlinks_def l(2) t_def at_pc_def placed_at_def Let_def)
    from lk have bt: "b = Step t" by (auto simp: links_def unlinks_def l(2) t_def)
    then have pc: "a = HStep t" "h_pc ?k = HInsert \<or> h_pc ?k = HRun"
      using Some by (cases a; auto simp: t_def Let_def split: hpc.splits list.splits)+
    have e: "reverseRegularKey d \<noteq> reverseDummyKey b'" if "unat b' < 2 ^ 29" for d b'
    proof -
      have "unat b' < 2 ^ 31" using that by simp
      from dummy_not_bit0 [OF this] show ?thesis by (metis reverseDummyKey_def reverseRegularKey_bit0)
    qed
    from pc(2) show ?thesis
    proof
      assume p: "h_pc ?k = HInsert"
      with h have k: "t_key ?c = reverseDummyKey (hd (h_stack ?k))" "t_op ?c = OpInsert" "stack_ok (length (h_buckets s)) (h_stack ?k)"
        by (auto simp: hok_def Let_def)
      then have "unat (hd (h_stack ?k)) < 2 ^ 29" by (auto simp: stack_ok_def)
      with lk k op(2) e have "table_map s' = table_map s"
        by (auto simp: links_def l(2) t_def [symmetric] Let_def table_map_def fun_eq_iff)
      then show ?thesis by simp
    next
      assume p: "h_pc ?k = HRun"
      with h have k: "t_key ?c = reverseRegularKey (h_data ?k)" "t_op ?c = h_op ?k" "t_val ?c = h_val ?k"
        by (auto simp: hok_def runs_def Let_def)
      from lk op k have "h_op ?k = OpInsert \<and> table_map s (h_data ?k) = None \<and> rebinds s s' (h_data ?k) (Some (h_val ?k))
          \<or> h_op ?k = OpRemove \<and> table_map s (h_data ?k) \<noteq> None \<and> rebinds s s' (h_data ?k) None"
        by (auto simp: links_def unlinks_def l(2) t_def [symmetric] Let_def rebinds_def table_map_def same_key)
      with pc(1) p show ?thesis unfolding Let_def by blast
    qed
  qed
qed

section \<open>The observer\<close>

text \<open>What the result of a call means, as for the list.\<close>

definition hexplained :: "htask \<Rightarrow> int option option set \<Rightarrow> nat \<Rightarrow> bool" where
  "hexplained k S c \<longleftrightarrow>
     (case h_op k of
        OpInsert \<Rightarrow> if h_res k then c = 1 else c = 0 \<and> (\<exists>v. Some v \<in> S)
      | OpRemove \<Rightarrow> if h_res k then c = 1 else c = 0 \<and> None \<in> S
      | OpLookup wanted \<Rightarrow> c = 0 \<and> (if h_res k then \<exists>v. Some v \<in> S \<and> (wanted \<longrightarrow> h_resval k = v) else None \<in> S))"

text \<open>
  The observer \<open>v\<close> of the table and the observer \<open>w\<close> of the list: before its call of the list a thread has
  changed nothing, during it the list's observer has seen no more than the table's, afterwards the
  result is explained.
\<close>

definition obs_ok :: "hstate \<Rightarrow> watch \<Rightarrow> watch \<Rightarrow> nat \<Rightarrow> bool" where
  "obs_ok s w v t \<longleftrightarrow>
     (let k = h_task s t in
      if h_pc k \<in> {HSize, HCheck, HParent, HMarker, HInsert, HStore, HStart} then changes v t = 0
      else if h_pc k = HRun then seen w t \<subseteq> seen v t \<and> changes v t = changes w t
      else hexplained k (seen v t) (changes v t))"

lemma hexplained_mono: "hexplained k S c \<Longrightarrow> S \<subseteq> S' \<Longrightarrow> hexplained k S' c"
  unfolding hexplained_def by (auto split: op.splits if_splits)

lemma hexplained_same: "hexplained k S c \<Longrightarrow> h_op k' = h_op k \<Longrightarrow> h_res k' = h_res k \<Longrightarrow> h_resval k' = h_resval k \<Longrightarrow> hexplained k' S c"
  by (auto simp: hexplained_def split: op.splits)

lemma hexplained_returned:
  "explained c S m \<Longrightarrow> runs k c \<Longrightarrow> S \<subseteq> S' \<Longrightarrow> hexplained (list_returned k c) S' m"
  unfolding explained_def hexplained_def list_returned_def runs_def by (auto split: op.splits if_splits)

text \<open>The list's observer after an action of the table.\<close>

definition watch_after :: "hact \<Rightarrow> hstate \<Rightarrow> hstate \<Rightarrow> watch \<Rightarrow> watch" where
  "watch_after a s s' w = (case list_act a s of None \<Rightarrow> w | Some b \<Rightarrow> observe b (h_list s) (h_list s') w)"

lemma winv_after:
  assumes "winv n marker_key (h_list s, w)" "hcalm a s" "hstep n a s = Some s'"
  shows "winv n marker_key (h_list s', watch_after a s s' w)"
proof (cases "list_act a s")
  case None
  with hstep_list [OF assms(3)] assms(1) show ?thesis by (simp add: watch_after_def)
next
  case (Some b)
  with hstep_list [OF assms(3)] assms(2) list_step(1) [OF assms(1)] show ?thesis by (simp add: watch_after_def hcalm_def)
qed

text \<open>During the call of the list the two observers go along with each other, whoever acts.\<close>

lemma obs_run:
  assumes "obs_ok s w v t" "hok n s t" "h_pc (h_task s t) = HRun" "hstep n a s = Some s'" "\<not> hbegins a t"
    "\<And>b. list_act a s = Some b \<Longrightarrow> \<not> begins b t"
  shows "seen (watch_after a s s' w) t \<subseteq> seen (hobserve a s s' v) t \<and> changes (hobserve a s s' v) t = changes (watch_after a s s' w) t"
proof -
  let ?d = "h_data (h_task s t)"
  from assms(1,3) have o: "seen w t \<subseteq> seen v t" "changes v t = changes w t" by (auto simp: obs_ok_def Let_def)
  from assms(2,3) have key: "t_key (c_task (h_list s) t) = reverseRegularKey ?d" by (simp add: hok_def runs_def Let_def)
  have S: "seen (hobserve a s s' v) t = insert (table_map s' ?d) (seen v t)" using assms(3,5) by (simp add: hobserve_def)
  show ?thesis
  proof (cases "list_act a s")
    case None
    with hstep_list [OF assms(4)] have "h_list s' = h_list s" by simp
    then have "changes (hobserve a s s' v) t = changes v t" using assms(5) by (simp add: hobserve_def table_map_def)
    with None o S show ?thesis by (auto simp: watch_after_def)
  next
    case (Some b)
    with hstep_list [OF assms(4)] assms(6) have b: "actor b = hactor a" "\<not> begins b t" by auto
    have "seen (watch_after a s s' w) t \<subseteq> insert (table_map s' ?d) (seen w t)"
      using Some b by (auto simp: watch_after_def observe_def key table_map_def)
    moreover have "changes (hobserve a s s' v) t = changes (watch_after a s s' w) t"
      using Some b assms(5) o(2) by (auto simp: watch_after_def observe_def hobserve_def key table_map_def)
    ultimately show ?thesis using o(1) S by auto
  qed
qed

lemma obs_kept:
  assumes "obs_ok s w v t" "hok n s t" "hstep n a s = Some s'" "h_task s' t = h_task s t" "\<not> hbegins a t"
    "\<And>b. list_act a s = Some b \<Longrightarrow> \<not> begins b t" "h_pc (h_task s t) \<noteq> HRun \<Longrightarrow> changes (hobserve a s s' v) t = changes v t"
  shows "obs_ok s' (watch_after a s s' w) (hobserve a s s' v) t"
proof (cases "h_pc (h_task s t) = HRun")
  case True
  with obs_run [OF assms(1,2) True assms(3,5,6)] show ?thesis by (simp add: obs_ok_def assms(4))
next
  case False
  have "seen v t \<subseteq> seen (hobserve a s s' v) t" using assms(5) by (auto simp: hobserve_def)
  with False assms(1,7) hexplained_mono show ?thesis by (auto simp: obs_ok_def Let_def assms(4))
qed

lemma obs_other:
  assumes "obs_ok s w v t" "hok n s t" "hstep n a s = Some s'" "t \<noteq> hactor a"
  shows "obs_ok s' (watch_after a s s' w) (hobserve a s s' v) t"
proof (rule obs_kept [OF assms(1-3) hstep_frame [OF assms(3,4)]])
  show nb: "\<not> hbegins a t" using assms(4) by (cases a) auto
  show "\<not> begins b t" if "list_act a s = Some b" for b using hstep_list [OF assms(3)] that assms(4) by (cases b) auto
  show "changes (hobserve a s s' v) t = changes v t" using assms(4) by (cases a) (simp_all add: hobserve_def)
qed

lemma obs_actor:
  assumes "obs_ok s w v t" "table_ok n s" "winv n marker_key (h_list s, w)" "hcalm (HStep t) s" "hstep n (HStep t) s = Some s'"
  shows "obs_ok s' (watch_after (HStep t) s s' w) (hobserve (HStep t) s s' v) t"
proof -
  let ?k = "h_task s t" and ?w = "watch_after (HStep t) s s' w" and ?v = "hobserve (HStep t) s s' v"
  have h: "hok n s t" using assms(2) by (simp add: table_ok_def)
  have win: "winv n marker_key (h_list s', ?w)" using winv_after [OF assms(3-5)] .
  show ?thesis
  proof (cases "h_pc ?k = HRun")
    case True
    have r: "seen ?w t \<subseteq> seen ?v t \<and> changes ?v t = changes ?w t"
      by (rule obs_run [OF assms(1) h True assms(5)]) (use True in \<open>auto simp: Let_def\<close>)
    from True assms(5) obtain l where l: "lstep n marker_key (Step t) (h_list s) = Some l" and
      s': "s' = set_htask t (if t_pc (c_task l t) = PRet then list_returned ?k (c_task l t) else ?k) (put_list l s)"
      by (auto simp: step_common_def Let_def simp del: lstep.simps split: Option.bind_splits)
    show ?thesis
    proof (cases "t_pc (c_task l t) = PRet")
      case False
      with r True show ?thesis by (simp add: s' obs_ok_def)
    next
      case ret: True
      from win ret have "explained (c_task l t) (seen ?w t) (changes ?w t)"
        by (auto simp: winv_def good_def s' Let_def dest!: spec [of _ t])
      moreover have "runs ?k (c_task l t)" using h True list_step_own [OF assms(3) l] by (simp add: hok_def runs_def Let_def)
      ultimately have "hexplained (list_returned ?k (c_task l t)) (seen ?v t) (changes ?v t)"
        using hexplained_returned r by metis
      moreover have "h_pc (list_returned ?k (c_task l t)) \<in> {HRet, HCsize, HSub}" by (simp add: list_returned_def split: op.splits)
      ultimately show ?thesis using ret by (auto simp: s' obs_ok_def)
    qed
  next
    case False
    from table_step [OF assms(2-5)] False have m: "table_map s' = table_map s" by auto
    then have c: "changes ?v t = changes v t" by (simp add: hobserve_def)
    have S: "seen v t \<subseteq> seen ?v t" by (auto simp: hobserve_def)
    show ?thesis
    proof (cases "h_pc ?k = HStart")
      case True
      with assms(5) obtain p l where p: "at_bucket s (h_bucket ?k) = Some p" and
        l: "lstep n marker_key (Call t (h_op ?k) (reverseRegularKey (h_data ?k)) (h_val ?k) p False) (h_list s) = Some l" and
        s': "s' = set_htask t (?k\<lparr>h_pc := HRun\<rparr>) (put_list l s)"
        by (auto simp: step_common_def Let_def simp del: lstep.simps split: Option.bind_splits)
      from l have "t_key (c_task l t) = reverseRegularKey (h_data ?k)" by (auto simp: new_task_def split: if_splits)
      with True p have "seen ?w t = {table_map s' (h_data ?k)}" "changes ?w t = 0"
        by (simp_all add: watch_after_def observe_def table_map_def s' Let_def)
      moreover have "table_map s' (h_data ?k) \<in> seen ?v t" using True by (simp add: hobserve_def)
      moreover have "changes v t = 0" using assms(1) True by (simp add: obs_ok_def Let_def)
      ultimately show ?thesis using c by (simp add: obs_ok_def s')
    next
      case nostart: False
      show ?thesis
      proof (cases "h_pc ?k \<in> {HSize, HCheck, HParent, HMarker, HInsert, HStore}")
        case True
        with assms(5) have "h_pc (h_task s' t) \<in> {HSize, HCheck, HParent, HMarker, HInsert, HStore, HStart}"
          by (auto simp: step_common_def step_init_def Let_def enter_init_def simp del: lstep.simps split: Option.bind_splits list.splits if_splits)
        with True assms(1) c show ?thesis by (auto simp: obs_ok_def Let_def)
      next
        case False
        with nostart \<open>h_pc ?k \<noteq> HRun\<close> assms(1,5) have post: "hexplained ?k (seen v t) (changes v t)" and pc: "h_pc ?k \<in> {HCsize, HAdd, HLoad, HGrow, HPush, HCas, HSub}"
          by (cases "h_pc ?k"; auto simp: obs_ok_def Let_def)+
        from pc assms(5) have "h_pc (h_task s' t) \<in> {HRet, HAdd, HLoad, HGrow, HPush, HCas}"
          "h_op (h_task s' t) = h_op ?k" "h_res (h_task s' t) = h_res ?k" "h_resval (h_task s' t) = h_resval ?k"
          by (auto simp: step_count_def Let_def split: if_splits)
        moreover from hexplained_same [OF hexplained_mono [OF post S] this(2-4)] c
        have "hexplained (h_task s' t) (seen ?v t) (changes ?v t)" by simp
        ultimately show ?thesis by (auto simp: obs_ok_def Let_def)
      qed
    qed
  qed
qed

lemma obs_step:
  assumes "\<And>t. obs_ok s w v t" "table_ok n s" "winv n marker_key (h_list s, w)" "hcalm a s" "hstep n a s = Some s'"
  shows "obs_ok s' (watch_after a s s' w) (hobserve a s s' v) t"
proof (cases "t = hactor a")
  case False
  with obs_other [OF assms(1) _ assms(5)] assms(2) show ?thesis by (simp add: table_ok_def)
next
  case True
  show ?thesis
  proof (cases a)
    case (HCall u opn d val)
    with True assms(5) show ?thesis by (auto simp: obs_ok_def hobserve_def new_htask_def split: if_splits)
  next
    case (HNew u x)
    from table_step [OF assms(2-5)] HNew have "table_map s' = table_map s" by auto
    with HNew assms(2,5) True show ?thesis
      by (intro obs_kept [OF assms(1) _ assms(5)]) (auto simp: table_ok_def hobserve_def split: Option.bind_splits)
  next
    case (HStep u)
    with True obs_actor [OF assms(1-3)] assms(4,5) show ?thesis by simp
  qed
qed

section \<open>The item count\<close>

text \<open>What the running call of a thread has changed in the table but not yet counted.\<close>

definition weight :: "op \<Rightarrow> nat \<Rightarrow> u32" where
  "weight opn c = (case opn of OpInsert \<Rightarrow> of_nat c | OpRemove \<Rightarrow> - of_nat c | OpLookup _ \<Rightarrow> 0)"

definition uncounted :: "hstate \<Rightarrow> watch \<Rightarrow> nat \<Rightarrow> u32" where
  "uncounted s v t = (if h_pc (h_task s t) \<in> {HRun, HCsize, HAdd, HSub} then weight (h_op (h_task s t)) (changes v t) else 0)"

lemma weight_simps [simp]:
  "weight OpInsert c = of_nat c" "weight OpRemove c = - of_nat c" "weight (OpLookup b) c = 0" "weight opn 0 = 0"
  by (simp_all add: weight_def split: op.splits)

definition count_ok :: "nat \<Rightarrow> hstate \<Rightarrow> watch \<Rightarrow> bool" where
  "count_ok n s v \<longleftrightarrow> of_nat (card (stored s)) = h_count s + (\<Sum>t<n. uncounted s v t)"

lemma sum_one_changed:
  fixes f f' :: "nat \<Rightarrow> u32"
  assumes "u < n" "\<And>t. t \<noteq> u \<Longrightarrow> f' t = f t"
  shows "(\<Sum>t<n. f' t) = (\<Sum>t<n. f t) - f u + f' u"
proof -
  have "(\<Sum>t<n. g t) = g u + (\<Sum>t \<in> {..<n} - {u}. g t)" for g :: "nat \<Rightarrow> u32"
    using assms(1) by (simp add: sum.remove)
  moreover have "(\<Sum>t \<in> {..<n} - {u}. f' t) = (\<Sum>t \<in> {..<n} - {u}. f t)" by (rule sum.cong) (auto simp: assms(2))
  ultimately show ?thesis by simp
qed

lemma changes_other: "t \<noteq> hactor a \<Longrightarrow> changes (hobserve a s s' v) t = changes v t"
  by (cases a) (simp_all add: hobserve_def)

lemma uncounted_other: "hstep n a s = Some s' \<Longrightarrow> t \<noteq> hactor a \<Longrightarrow> uncounted s' (hobserve a s s' v) t = uncounted s v t"
  by (simp add: uncounted_def changes_other hstep_frame)

text \<open>The steps that neither change the count nor belong to the part of a call between the change and the count.\<close>

lemma uncounting_steps:
  assumes "hstep n (HStep t) s = Some s'" "h_pc (h_task s t) \<notin> {HRun, HCsize, HAdd, HSub}"
  shows "h_count s' = h_count s \<and> (h_pc (h_task s' t) \<in> {HRun, HCsize, HAdd, HSub} \<longrightarrow> h_pc (h_task s t) = HStart)"
proof -
  from assms consider "h_pc (h_task s t) \<in> {HParent, HMarker, HInsert, HStore}" | "h_pc (h_task s t) \<in> {HSize, HCheck, HStart}"
    | "h_pc (h_task s t) \<in> {HLoad, HGrow, HPush, HCas}" by (cases "h_pc (h_task s t)") auto
  then show ?thesis
  proof cases
    case 1
    with assms(1) show ?thesis
      by (auto simp: step_init_def Let_def enter_init_def simp del: lstep.simps split: Option.bind_splits list.splits if_splits)
  next
    case 2
    with assms(1) show ?thesis
      by (auto simp: step_common_def Let_def enter_init_def simp del: lstep.simps split: Option.bind_splits if_splits)
  next
    case 3
    with assms(1) show ?thesis by (auto simp: step_count_def Let_def split: if_splits)
  qed
qed

text \<open>An action changes the number of keys by what it counts and what it leaves to be counted.\<close>

lemma count_balance:
  assumes "\<And>t. obs_ok s w v t" "table_ok n s" "winv n marker_key (h_list s, w)" "hcalm a s" "hstep n a s = Some s'"
  defines "u \<equiv> hactor a"
  shows "of_nat (card (stored s')) - of_nat (card (stored s)) = h_count s' - h_count s
    + (uncounted s' (hobserve a s s' v) u - uncounted s v u) \<and> u < n"
proof -
  let ?k = "h_task s u" and ?v = "hobserve a s s' v"
  have h: "hok n s u" using assms(2) by (simp add: table_ok_def)
  have o: "obs_ok s w v u" "obs_ok s' (watch_after a s s' w) ?v u" using assms(1) obs_step [OF assms(1-5)] by auto
  have un: "u < n"
  proof (cases a)
    case (HNew t x)
    with assms(5) have "t_pc (c_task (h_list s) u) = PNew" by (auto simp: u_def Let_def split: if_splits Option.bind_splits)
    with h show ?thesis by (auto simp: hok_def Let_def)
  next
    case (HStep t)
    with assms(5) h show ?thesis by (cases "h_pc ?k = HRet") (auto simp: hok_def Let_def u_def)
  qed (use assms(5) in \<open>auto simp: u_def split: if_splits\<close>)
  show ?thesis
  proof (cases "table_map s' = table_map s")
    case same: True
    then have st: "stored s' = stored s" by (simp add: stored_def)
    have "h_count s' - h_count s + (uncounted s' ?v u - uncounted s v u) = 0"
    proof (cases a)
      case (HCall t opn d val)
      with assms(5) show ?thesis by (auto simp: uncounted_def u_def new_htask_def split: if_splits)
    next
      case (HNew t x)
      with assms(5) same show ?thesis by (auto simp: uncounted_def u_def hobserve_def split: Option.bind_splits)
    next
      case (HStep t)
      then have t: "t = u" by (simp add: u_def)
      have c: "changes ?v u = changes v u" using HStep same by (simp add: hobserve_def)
      show ?thesis
      proof (cases "h_pc ?k \<in> {HRun, HCsize, HAdd, HSub}")
        case True
        then consider "h_pc ?k = HRun" | "h_pc ?k = HCsize" | "h_pc ?k = HAdd" | "h_pc ?k = HSub" by blast
        then show ?thesis
        proof cases
          case 1
          with HStep t assms(5) obtain l where
            s': "s' = set_htask u (if t_pc (c_task l u) = PRet then list_returned ?k (c_task l u) else ?k) (put_list l s)"
            by (auto simp: step_common_def Let_def simp del: lstep.simps split: Option.bind_splits)
          then have kt: "h_task s' u = (if t_pc (c_task l u) = PRet then list_returned ?k (c_task l u) else ?k)"
            and cnt: "h_count s' = h_count s" by simp_all
          have "weight (h_op ?k) (changes v u) = 0" if "t_pc (c_task l u) = PRet" "h_pc (h_task s' u) = HRet"
          proof -
            from o(2) that(2) c have "hexplained (h_task s' u) (seen ?v u) (changes v u)" by (simp add: obs_ok_def Let_def)
            with that kt show ?thesis
              by (cases "h_op ?k") (auto simp: hexplained_def list_returned_def split: if_splits)
          qed
          moreover have "h_pc (list_returned ?k (c_task l u)) \<in> {HRet, HCsize, HSub}" "h_op (list_returned ?k (c_task l u)) = h_op ?k"
            by (simp_all add: list_returned_def split: op.splits)
          ultimately show ?thesis using 1 c kt cnt by (auto simp: uncounted_def split: if_splits)
        next
          case 2
          with HStep t assms(5) c show ?thesis by (auto simp: uncounted_def step_count_def Let_def)
        next
          case 3
          with o(1) h have "changes v u = 1" "h_op ?k = OpInsert" by (auto simp: obs_ok_def hok_def hexplained_def Let_def)
          with 3 HStep t assms(5) show ?thesis by (auto simp: uncounted_def step_count_def Let_def)
        next
          case 4
          with o(1) h have "changes v u = 1" "h_op ?k = OpRemove" by (auto simp: obs_ok_def hok_def hexplained_def Let_def)
          with 4 HStep t assms(5) show ?thesis by (auto simp: uncounted_def step_count_def Let_def)
        qed
      next
        case False
        with uncounting_steps [of n u s s'] HStep t assms(5)
        have f: "h_count s' = h_count s" "h_pc (h_task s' u) \<in> {HRun, HCsize, HAdd, HSub} \<longrightarrow> h_pc ?k = HStart" by auto
        have "changes ?v u = 0" if "h_pc ?k = HStart" using o(1) c that by (simp add: obs_ok_def Let_def)
        with False f show ?thesis by (auto simp: uncounted_def)
      qed
    qed
    then show ?thesis using st un by simp
  next
    case False
    from table_step [OF assms(2-5)] False have a: "a = HStep u" "h_pc ?k = HRun" and
      ch: "h_op ?k = OpInsert \<and> table_map s (h_data ?k) = None \<and> rebinds s s' (h_data ?k) (Some (h_val ?k))
        \<or> h_op ?k = OpRemove \<and> table_map s (h_data ?k) \<noteq> None \<and> rebinds s s' (h_data ?k) None"
      by (auto simp: u_def Let_def)
    from ch have ne: "table_map s' (h_data ?k) \<noteq> table_map s (h_data ?k)" by (auto simp: rebinds_def)
    then have c: "changes ?v u = Suc (changes v u)" using a by (simp add: hobserve_def)
    have op: "h_op (h_task s' u) = h_op ?k" and n: "h_count s' = h_count s" and pc: "h_pc (h_task s' u) \<in> {HRun, HCsize, HSub, HRet}"
      using a assms(5) by (auto simp: step_common_def Let_def list_returned_def simp del: lstep.simps split: Option.bind_splits op.splits if_splits)
    have "h_pc (h_task s' u) \<noteq> HRet"
    proof
      assume r: "h_pc (h_task s' u) = HRet"
      with o(2) have "hexplained (h_task s' u) (seen ?v u) (changes ?v u)" by (simp add: obs_ok_def Let_def)
      with c op ch have "h_res (h_task s' u)" by (auto simp: hexplained_def split: if_splits)
      with r a ch assms(5) show False
        by (auto simp: step_common_def Let_def list_returned_def simp del: lstep.simps split: Option.bind_splits if_splits)
    qed
    with pc c op a have d: "uncounted s' ?v u - uncounted s v u = weight (h_op ?k) (Suc (changes v u)) - weight (h_op ?k) (changes v u)"
      by (auto simp: uncounted_def)
    have fin: "finite (stored s)" by simp
    from ch show ?thesis
    proof
      assume b: "h_op ?k = OpInsert \<and> table_map s (h_data ?k) = None \<and> rebinds s s' (h_data ?k) (Some (h_val ?k))"
      then have "take_bit 31 (h_data ?k) \<notin> stored s" by (simp add: stored_iff)
      with stored_bind [of s s' "h_data ?k" "h_val ?k"] b fin have "card (stored s') = Suc (card (stored s))" by simp
      with b d n un show ?thesis by simp
    next
      assume b: "h_op ?k = OpRemove \<and> table_map s (h_data ?k) \<noteq> None \<and> rebinds s s' (h_data ?k) None"
      then have "take_bit 31 (h_data ?k) \<in> stored s" by (simp add: stored_iff)
      with stored_unbind [of s s' "h_data ?k"] b have "Suc (card (stored s')) = card (stored s)"
        using card.remove [OF fin] by simp
      then have "(of_nat (card (stored s)) :: u32) = of_nat (card (stored s')) + 1" by (metis of_nat_Suc add.commute)
      with b d n un show ?thesis by simp
    qed
  qed
qed

lemma count_ok_step:
  assumes "\<And>t. obs_ok s w v t" "table_ok n s" "winv n marker_key (h_list s, w)" "hcalm a s" "hstep n a s = Some s'" "count_ok n s v"
  shows "count_ok n s' (hobserve a s s' v)"
proof -
  let ?u = "hactor a" and ?v = "hobserve a s s' v"
  from count_balance [OF assms(1-5)] have b: "of_nat (card (stored s')) = of_nat (card (stored s)) + (h_count s' - h_count s)
    + (uncounted s' ?v ?u - uncounted s v ?u)" and u: "?u < n" by (simp_all add: algebra_simps)
  from sum_one_changed [OF u, of "uncounted s' ?v" "uncounted s v"] uncounted_other [OF assms(5)]
  have "(\<Sum>t<n. uncounted s' ?v t) = (\<Sum>t<n. uncounted s v t) - uncounted s v ?u + uncounted s' ?v ?u" by blast
  with b assms(6) show ?thesis by (simp add: count_ok_def)
qed

section \<open>The invariant of the watched table\<close>

definition hinv :: "nat \<Rightarrow> hstate \<times> watch \<Rightarrow> bool" where
  "hinv n sv \<longleftrightarrow>
     (case sv of (s, v) \<Rightarrow>
        table_ok n s \<and> count_ok n s v \<and> (\<exists>w. winv n marker_key (h_list s, w) \<and> (\<forall>t. obs_ok s w v t)))"

lemma hinv_new: "hinv n (new_hstate mem, new_watch)"
proof -
  let ?s = "new_hstate mem"
  have w: "winv n marker_key (h_list ?s, new_watch)"
    using observed_list.init_inv [of "(h_list ?s, new_watch)" n marker_key] by (auto simp: new_hstate_def)
  have m: "table_map ?s d = None" for d
    by (simp add: table_map_def contents_def new_hstate_def new_cstate_def walk.simps lf_map_def)
  have "table_ok n ?s"
    by (auto simp: table_ok_def entries_ok_def size_ok_def pow2_def hok_def new_hstate_def new_cstate_def idle_task_def less_Suc_eq Let_def
        intro!: exI [of _ "1 :: nat"])
  moreover have "count_ok n ?s new_watch" using m by (simp add: count_ok_def stored_def uncounted_def new_hstate_def)
  moreover have "obs_ok ?s new_watch new_watch t" for t
    by (simp add: obs_ok_def hexplained_def new_hstate_def new_htask_def new_watch_def)
  ultimately show ?thesis using w by (auto simp: hinv_def)
qed

lemma hinv_step: "hinv n sv \<Longrightarrow> hwatched n a sv = Some sv' \<Longrightarrow> hinv n sv'"
proof -
  assume "hinv n sv" "hwatched n a sv = Some sv'"
  then obtain s v s' w where sv: "sv = (s, v)" "hcalm a s" "hstep n a s = Some s'" "sv' = (s', hobserve a s s' v)"
    and i: "table_ok n s" "count_ok n s v" "winv n marker_key (h_list s, w)" "\<And>t. obs_ok s w v t"
    by (cases sv) (auto simp: hinv_def hwatched_def split: if_splits Option.bind_splits)
  from table_ok_step [OF i(1,3) sv(2,3)] count_ok_step [OF i(4,1,3) sv(2,3) i(2)] winv_after [OF i(3) sv(2,3)] obs_step [OF i(4,1,3) sv(2,3)]
  show ?thesis unfolding hinv_def sv(4) by blast
qed

interpretation observed_table: machine "hwatched n" "\<lambda>sv. \<exists>mem. sv = (new_hstate mem, new_watch)" "hinv n" for n
  by unfold_locales (auto intro: hinv_new hinv_step)

text \<open>Every call the table makes of the list is one the list allows, so that no thread gets stuck.\<close>

lemma start_allowed:
  assumes "table_ok n s" "at_bucket s b = Some p" "reverseDummyKey b \<le> key" "opn = OpRemove \<longrightarrow> \<not> marker_key key"
    "dm \<longrightarrow> opn = OpInsert \<and> marker_key key"
  shows "may_call marker_key opn key p dm (h_list s)"
proof -
  from assms(1,2) have "p = NULL \<or> (p, reverseDummyKey b) \<in> set (c_dummies (h_list s))"
    by (auto simp: table_ok_def entries_ok_def at_bucket_def dq_at_Some)
  with assms(3-5) show ?thesis by (auto simp: may_call_def list_ex_iff)
qed

lemma not_stuck:
  assumes "table_ok n s" "winv n marker_key (h_list s, w)" "h_pc (h_task s t) \<noteq> HRet" "t_pc (c_task (h_list s) t) \<noteq> PNew"
  shows "\<exists>s'. hstep n (HStep t) s = Some s'"
proof -
  let ?k = "h_task s t" and ?len = "length (h_buckets s)"
  from assms(1) have h: "hok n s t" by (simp add: table_ok_def)
  have c: "cinv n marker_key (h_list s)" using assms(2) by (simp add: winv_def)
  have run: "\<exists>l. lstep n marker_key (Step t) (h_list s) = Some l" if "t_pc (c_task (h_list s) t) \<noteq> PRet"
    using thread_defined [OF c that assms(4)] by simp
  consider "h_pc ?k \<in> {HParent, HMarker, HInsert, HStore}" | "h_pc ?k = HRun" | "h_pc ?k = HStart" | "h_pc ?k = HCheck"
    | "h_pc ?k \<in> {HSize, HCsize, HAdd, HLoad, HGrow, HPush, HCas, HSub}" using assms(3) by (cases "h_pc ?k") auto
  then show ?thesis
  proof cases
    case 1
    with h obtain b r where st: "h_stack ?k = b # r" by (cases "h_stack ?k") (auto simp: hok_def stack_ok_def)
    with 1 h have b: "unat b < ?len" "unat b < 2 ^ 29" by (auto simp: hok_def stack_ok_def Let_def)
    have p: "unat (parent_of b) < ?len" "reverseDummyKey (parent_of b) \<le> reverseDummyKey b" "b \<noteq> 0 \<Longrightarrow> unat (getParent b) < ?len"
      using b(1) getParent_less [of b] parent_before_bucket [of b] by (auto simp: parent_of_def word_less_nat_alt [of "getParent b"] less_imp_le)
    have mk: "marker_key (reverseDummyKey b)" using dummy_not_bit0 [of b] b(2) by (simp add: marker_key_def reverseDummyKey_def)
    from 1 consider "h_pc ?k = HParent" | "h_pc ?k = HMarker" | "h_pc ?k = HInsert" | "h_pc ?k = HStore" by blast
    then show ?thesis
    proof cases
      case 1
      with h st p(3) show ?thesis by (simp add: step_init_def at_bucket_def hok_def Let_def)
    next
      case 2
      then have "at_bucket s (parent_of b) = Some (h_buckets s ! unat (parent_of b))" using p(1) by (simp add: at_bucket_def)
      moreover from start_allowed [OF assms(1) this p(2)] mk
      have "may_call marker_key OpInsert (reverseDummyKey b) (h_buckets s ! unat (parent_of b)) True (h_list s)" by simp
      ultimately show ?thesis using 2 h st by (simp add: step_init_def hok_def Let_def)
    next
      case 3
      with h st run show ?thesis by (auto simp: step_init_def hok_def Let_def simp del: lstep.simps)
    next
      case 4
      with h st b(1) show ?thesis by (simp add: step_init_def Let_def)
    qed
  next
    case 2
    with h run show ?thesis by (auto simp: step_common_def hok_def Let_def simp del: lstep.simps)
  next
    case 3
    with h have "bucket_ok ?len ?k" by (simp add: hok_def Let_def)
    then obtain i where i: "i \<le> 29" "h_bucket ?k = h_data ?k mod 2 ^ i" and len: "unat (h_bucket ?k) < ?len"
      using bucket_ok_stack by (fastforce simp: bucket_ok_def size_ok_def pow2_def stack_ok_def)
    have "reverseDummyKey (h_bucket ?k) \<le> reverseRegularKey (h_data ?k)" using bucket_before_key [of i "h_data ?k"] i by simp
    moreover have at: "at_bucket s (h_bucket ?k) = Some (h_buckets s ! unat (h_bucket ?k))" using len by (simp add: at_bucket_def)
    ultimately have "may_call marker_key (h_op ?k) (reverseRegularKey (h_data ?k)) (h_buckets s ! unat (h_bucket ?k)) False (h_list s)"
      using start_allowed [OF assms(1) at] by (simp add: marker_key_def)
    with 3 h at show ?thesis by (simp add: step_common_def hok_def Let_def)
  next
    case 4
    with h bucket_ok_stack [of ?len ?k] show ?thesis by (simp add: step_common_def at_bucket_def hok_def stack_ok_def Let_def)
  next
    case 5
    then show ?thesis by (auto simp: step_common_def step_count_def Let_def)
  qed
qed

section \<open>Properties\<close>

text \<open>
  C1. The hash table is linearizable under every interleaving of its calls by any number of threads in
  which no scan of the hazard pointers meets the window of their exchange. A call that has returned is
  explained by a moment between its beginning and its return: an \<^verbatim>\<open>insertKey\<close> or \<^verbatim>\<open>removeKey\<close> that returns
  true has changed the binding of its key exactly once, one that returns false has changed nothing and its
  key was bound, or unbound, at some moment of the call; a \<^verbatim>\<open>findKey\<close> changes nothing and returns what was
  true, value included, at some moment of the call. The map changes in no other way, whatever buckets are
  initialised and however the table grows meanwhile. Keys that differ in their top bit only are the same.
\<close>

theorem concurrent_table_linearizable:
  assumes "reachable (hwatched n) (\<lambda>sv. \<exists>mem. sv = (new_hstate mem, new_watch)) (s, v)"
  shows "(\<forall>t. h_pc (h_task s t) = HRet \<longrightarrow>
           (let k = h_task s t in
            case h_op k of
              OpInsert \<Rightarrow> if h_res k then changes v t = 1 else changes v t = 0 \<and> (\<exists>x. Some x \<in> seen v t)
            | OpRemove \<Rightarrow> if h_res k then changes v t = 1 else changes v t = 0 \<and> None \<in> seen v t
            | OpLookup wanted \<Rightarrow> changes v t = 0
                \<and> (if h_res k then \<exists>x. Some x \<in> seen v t \<and> (wanted \<longrightarrow> h_resval k = x) else None \<in> seen v t)))
    \<and> (\<forall>a s'. hcalm a s \<and> hstep n a s = Some s' \<and> table_map s' \<noteq> table_map s \<longrightarrow>
           (\<exists>t. a = HStep t \<and>
              (let k = h_task s t; upd = \<lambda>x e. if take_bit 31 e = take_bit 31 (h_data k) then x else table_map s e in
               h_op k = OpInsert \<and> table_map s (h_data k) = None \<and> table_map s' = upd (Some (h_val k))
               \<or> h_op k = OpRemove \<and> table_map s (h_data k) \<noteq> None \<and> table_map s' = upd None)))"
proof -
  from observed_table.reachable_inv [OF assms] obtain w where
    i: "table_ok n s" "winv n marker_key (h_list s, w)" "\<And>t. obs_ok s w v t" by (auto simp: hinv_def)
  have "hexplained (h_task s t) (seen v t) (changes v t)" if "h_pc (h_task s t) = HRet" for t
    using i(3) [of t] that by (simp add: obs_ok_def Let_def)
  moreover have "\<exists>t. a = HStep t \<and>
      (let k = h_task s t; upd = \<lambda>x e. if take_bit 31 e = take_bit 31 (h_data k) then x else table_map s e in
       h_op k = OpInsert \<and> table_map s (h_data k) = None \<and> table_map s' = upd (Some (h_val k))
       \<or> h_op k = OpRemove \<and> table_map s (h_data k) \<noteq> None \<and> table_map s' = upd None)"
    if "hcalm a s" "hstep n a s = Some s'" "table_map s' \<noteq> table_map s" for a s'
    using table_step [OF i(1,2) that(1,2)] that(3) by (auto simp: rebinds_def Let_def fun_eq_iff)
  ultimately show ?thesis unfolding hexplained_def Let_def by blast
qed

text \<open>
  C7. Under the same interleavings no call gets stuck: each thread inside a call has a defined next step, or
  waits for the allocator, so no index into \<^verbatim>\<open>buckets_\<close> is out of range, no freed node is read, and each
  call of the list starts at a marker that does not come after its key. The size is a power of two, the
  table has an entry for each bucket, and an entry that is set is the node of its bucket's marker and is in the list.
\<close>

theorem concurrent_table_safe:
  assumes "reachable (hwatched n) (\<lambda>sv. \<exists>mem. sv = (new_hstate mem, new_watch)) (s, v)"
  shows "(\<forall>t. h_pc (h_task s t) \<noteq> HRet \<and> t_pc (c_task (h_list s) t) \<noteq> PNew \<longrightarrow> (\<exists>s'. hstep n (HStep t) s = Some s'))
    \<and> (\<exists>j. 1 \<le> j \<and> j \<le> 29 \<and> h_size s = 2 ^ j \<and> 2 ^ j \<le> length (h_buckets s))
    \<and> (\<forall>b p. at_bucket s b = Some p \<and> p \<noteq> NULL \<longrightarrow>
         (\<exists>as. chain (c_heap (h_list s)) (c_head (h_list s)) as \<and> p \<in> set as \<and> node_key (c_heap (h_list s)) p = reverseDummyKey b))"
proof -
  from observed_table.reachable_inv [OF assms] obtain w where
    i: "table_ok n s" "winv n marker_key (h_list s, w)" by (auto simp: hinv_def)
  then obtain as where g: "glob marker_key (h_list s) as" by (auto simp: winv_def cinv_def)
  have "\<exists>j. 1 \<le> j \<and> j \<le> 29 \<and> h_size s = 2 ^ j \<and> 2 ^ j \<le> length (h_buckets s)"
    using i(1) unat_power by (fastforce simp: table_ok_def size_ok_def pow2_def)
  moreover have "p \<in> set as \<and> node_key (c_heap (h_list s)) p = reverseDummyKey b" if "at_bucket s b = Some p" "p \<noteq> NULL" for b p
    using i(1) that globD(13) [OF g] by (auto simp: table_ok_def entries_ok_def at_bucket_def dq_at_Some)
  ultimately show ?thesis using not_stuck [OF i] globD(1) [OF g] by blast
qed

text \<open>
  C14. Whenever no call is running, \<^verbatim>\<open>getCount\<close> is the number of keys in the table, whatever calls of
  however many threads came before and however they were interleaved.
\<close>

theorem concurrent_count_exact:
  assumes "reachable (hwatched n) (\<lambda>sv. \<exists>mem. sv = (new_hstate mem, new_watch)) (s, v)"
    and "\<forall>t < n. h_pc (h_task s t) = HRet"
  shows "unat (h_count s) = card {d. unat d < 2 ^ 31 \<and> table_map s d \<noteq> None}"
proof -
  from observed_table.reachable_inv [OF assms(1)] have "count_ok n s v" by (auto simp: hinv_def)
  moreover have "(\<Sum>t<n. uncounted s v t) = 0" using assms(2) by (intro sum.neutral) (auto simp: uncounted_def)
  ultimately have "h_count s = of_nat (card (stored s))" by (simp add: count_ok_def)
  moreover have "card (stored s) < 2 ^ 32"
  proof -
    have "card (stored s) = card (unat ` stored s)" by (intro card_image [symmetric] inj_onI) (simp add: unsigned_word_eqI)
    also have "\<dots> \<le> card {..< 2 ^ 31 :: nat}" by (intro card_mono) (auto simp only: stored_def finite_lessThan lessThan_iff mem_Collect_eq)
    finally show ?thesis by simp
  qed
  ultimately have "unat (h_count s) = card (stored s)" by (simp add: unat_of_nat take_bit_nat_eq_self)
  then show ?thesis unfolding stored_def .
qed

text \<open>
  Two threads on a new table: thread 0 makes the constructor's call, the insertion of the key 0, while thread 1
  looks the key up. Both find the first bucket empty and initialise it.
\<close>

definition calm_hstep :: "nat \<Rightarrow> hact \<Rightarrow> hstate \<Rightarrow> hstate option" where
  "calm_hstep n a s = (if hcalm a s then hstep n a s else None)"

definition table_schedule :: "hact list" where
  "table_schedule =
     [HCall 0 OpInsert 0 (Some 0), HCall 1 (OpLookup True) 0 None,
      HStep 0, HStep 1, HStep 0, HStep 1, HStep 0, HStep 1, HNew 0 16, HNew 1 32,
      HStep 0, HStep 1, HStep 0, HStep 1, HStep 0, HStep 1, HStep 0, HStep 1, HStep 0, HStep 1, HNew 0 48, HStep 1,
      HStep 0, HStep 1, HStep 0, HStep 1, HStep 0, HStep 1, HStep 0, HStep 1, HStep 0, HStep 1, HStep 0, HStep 1,
      HStep 0, HStep 1, HStep 0, HStep 1, HStep 0, HStep 1, HStep 0, HStep 1, HStep 0, HStep 1, HStep 0, HStep 1, HStep 0,
      HStep 1, HStep 1, HStep 1, HStep 1, HStep 1, HStep 1, HStep 1, HStep 1]"

lemma exec_hwatched:
  "exec (calm_hstep n) as s = Some s' \<Longrightarrow> \<exists>v'. exec (hwatched n) as (s, v) = Some (s', v')"
  by (induction as arbitrary: s v) (auto simp: hwatched_def calm_hstep_def Option.bind_eq_Some_conv split: if_splits)

lemma table_runs:
  "case exec (calm_hstep 2) table_schedule (new_hstate (\<lambda>_ _. NULL)) of None \<Rightarrow> False
   | Some s \<Rightarrow> h_pc (h_task s 0) = HRet \<and> h_pc (h_task s 1) = HRet \<and> h_op (h_task s 0) = OpInsert \<and> h_res (h_task s 0)
       \<and> h_op (h_task s 1) = OpLookup True \<and> h_res (h_task s 1) \<and> h_resval (h_task s 1) = Some 0
       \<and> h_count s = 1 \<and> h_size s = 2 \<and> at_bucket s 0 = Some 16 \<and> table_map s 0 = Some (Some 0)"
  by code_simp

lemma table_reaches:
  obtains s v where "exec (calm_hstep 2) table_schedule (new_hstate (\<lambda>_ _. NULL)) = Some s"
    "reachable (hwatched 2) (\<lambda>sv. \<exists>mem. sv = (new_hstate mem, new_watch)) (s, v)"
    "h_pc (h_task s 0) = HRet" "h_pc (h_task s 1) = HRet" "h_op (h_task s 0) = OpInsert" "h_res (h_task s 0)"
    "h_op (h_task s 1) = OpLookup True" "h_res (h_task s 1)" "h_resval (h_task s 1) = Some 0"
    "h_count s = 1" "h_size s = 2" "at_bucket s 0 = Some 16" "table_map s 0 = Some (Some 0)"
proof -
  obtain s where s: "exec (calm_hstep 2) table_schedule (new_hstate (\<lambda>_ _. NULL)) = Some s"
    using table_runs by (auto split: option.splits)
  from exec_hwatched [OF s] obtain v where v: "exec (hwatched 2) table_schedule (new_hstate (\<lambda>_ _. NULL), new_watch) = Some (s, v)" by blast
  have "reachable (hwatched 2) (\<lambda>sv. \<exists>mem. sv = (new_hstate mem, new_watch)) (s, v)"
    by (rule reachable_exec [OF reach_init v]) auto
  with s table_runs that show thesis by auto
qed

theorem concurrent_table_linearizable_witness:
  "\<exists>s. \<exists>v :: watch. exec (calm_hstep 2) table_schedule (new_hstate (\<lambda>_ _. NULL)) = Some s \<and> h_res (h_task s 0) \<and> changes v 0 = 1
     \<and> h_res (h_task s 1) \<and> changes v 1 = 0 \<and> Some (Some 0) \<in> seen v 1"
proof -
  obtain s v where s: "exec (calm_hstep 2) table_schedule (new_hstate (\<lambda>_ _. NULL)) = Some s"
    "reachable (hwatched 2) (\<lambda>sv. \<exists>mem. sv = (new_hstate mem, new_watch)) (s, v)"
    "h_pc (h_task s 0) = HRet" "h_pc (h_task s 1) = HRet" "h_op (h_task s 0) = OpInsert" "h_res (h_task s 0)"
    "h_op (h_task s 1) = OpLookup True" "h_res (h_task s 1)" "h_resval (h_task s 1) = Some 0" by (rule table_reaches)
  from concurrent_table_linearizable [OF s(2)] have
    "\<forall>t. h_pc (h_task s t) = HRet \<longrightarrow>
           (let k = h_task s t in
            case h_op k of
              OpInsert \<Rightarrow> if h_res k then changes v t = 1 else changes v t = 0 \<and> (\<exists>x. Some x \<in> seen v t)
            | OpRemove \<Rightarrow> if h_res k then changes v t = 1 else changes v t = 0 \<and> None \<in> seen v t
            | OpLookup wanted \<Rightarrow> changes v t = 0
                \<and> (if h_res k then \<exists>x. Some x \<in> seen v t \<and> (wanted \<longrightarrow> h_resval k = x) else None \<in> seen v t))" ..
  from this [rule_format, OF s(3)] this [rule_format, OF s(4)] s have "changes v 0 = 1" "changes v 1 = 0" "Some (Some 0) \<in> seen v 1"
    by (auto simp: Let_def)
  with s show ?thesis by blast
qed

theorem concurrent_table_safe_witness:
  "\<exists>s. exec (calm_hstep 2) table_schedule (new_hstate (\<lambda>_ _. NULL)) = Some s \<and> at_bucket s 0 = Some 16
     \<and> node_key (c_heap (h_list s)) 16 = reverseDummyKey 0"
proof -
  obtain s v where s: "exec (calm_hstep 2) table_schedule (new_hstate (\<lambda>_ _. NULL)) = Some s"
    "reachable (hwatched 2) (\<lambda>sv. \<exists>mem. sv = (new_hstate mem, new_watch)) (s, v)" "at_bucket s 0 = Some 16" by (rule table_reaches)
  have "\<exists>as. chain (c_heap (h_list s)) (c_head (h_list s)) as \<and> 16 \<in> set as \<and> node_key (c_heap (h_list s)) 16 = reverseDummyKey 0"
    by (rule concurrent_table_safe [OF s(2), THEN conjunct2, THEN conjunct2, rule_format]) (simp add: s(3))
  with s(1,3) show ?thesis by blast
qed

theorem concurrent_count_exact_witness:
  "\<exists>s. exec (calm_hstep 2) table_schedule (new_hstate (\<lambda>_ _. NULL)) = Some s \<and> table_map s 0 = Some (Some 0)
     \<and> card {d. unat d < 2 ^ 31 \<and> table_map s d \<noteq> None} = 1"
proof -
  obtain s v where s: "exec (calm_hstep 2) table_schedule (new_hstate (\<lambda>_ _. NULL)) = Some s"
    "reachable (hwatched 2) (\<lambda>sv. \<exists>mem. sv = (new_hstate mem, new_watch)) (s, v)"
    "h_pc (h_task s 0) = HRet" "h_pc (h_task s 1) = HRet" "h_count s = 1" "table_map s 0 = Some (Some 0)" by (rule table_reaches)
  have "\<forall>t < 2. h_pc (h_task s t) = HRet" using s(3,4) by (auto simp: less_2_cases_iff)
  from concurrent_count_exact [OF s(2) this] s(1,5,6) show ?thesis by simp
qed

end
