(* ===== verification/Lock_Free_Race.thy ===== *)
theory Lock_Free_Race
  imports Lock_Free_Concurrent_Correct
begin

text \<open>
  An execution of the lock-free list in which a thread reads a node that has been freed. The exchange
  of the two hazard pointers in \<^verbatim>\<open>lookupInternal\<close> overwrites \<^verbatim>\<open>hp[0]\<close> before it sets \<^verbatim>\<open>hp[1]\<close>; a thread that
  is stopped in between stands on a node no hazard pointer holds. Another thread removes that node,
  retires ten more, and frees them all.
\<close>

section \<open>Pieces of the execution\<close>

text \<open>Two threads, no sentinel keys. Thread 1 changes the list, thread 0 looks up a key.\<close>

abbreviation mutate :: "nat act list \<Rightarrow> nat cstate \<Rightarrow> nat cstate option" where
  "mutate \<equiv> exec (lstep 2 (\<lambda>_. False))"

definition race_insert :: "nat \<Rightarrow> nat \<Rightarrow> ptr \<Rightarrow> nat \<Rightarrow> nat act list" where
  "race_insert t key a m = [Call t OpInsert key None NULL False, New t a] @ replicate m (Step t)"

definition race_remove :: "nat \<Rightarrow> nat \<Rightarrow> nat \<Rightarrow> nat act list" where
  "race_remove t key m = Call t OpRemove key None NULL False # replicate m (Step t)"

lemmas run_defs = race_insert_def race_remove_def numeral_eq_Suc step_defs may_call_def new_task_def load_def store_def
  loop_head_def lookup_return_def start_loc_def finish_def

lemma insert_round:
  fixes s :: "nat cstate"
  assumes "t_pc (c_task s 1) = PRet" "c_head s = b" "b \<noteq> NULL" "c_heap s b = Some nd" "node_data nd = 9" "\<not> isMarked (node_next nd)"
    "c_heap s a = None" "a \<noteq> NULL" "aligned a"
  shows "\<exists>s'. mutate (race_insert 1 1 a 8) s = Some s' \<and> c_head s' = a
    \<and> c_heap s' = (c_heap s)(a \<mapsto> \<lparr>node_data = 1, node_value = None, node_next = b\<rparr>)
    \<and> t_pc (c_task s' 1) = PRet \<and> c_task s' 0 = c_task s 0 \<and> c_hp s' = (c_hp s)(1 := (c_hp s 1)(0 := b)) \<and> c_retired s' = c_retired s"
proof -
  have "a \<noteq> b" using assms by auto
  with assms show ?thesis by (simp add: run_defs)
qed

lemma remove_round:
  fixes s :: "nat cstate"
  assumes "t_pc (c_task s 1) = PRet" "c_head s = a" "a \<noteq> NULL" "aligned b"
    "c_heap s a = Some \<lparr>node_data = 1, node_value = None, node_next = b\<rparr>" "a \<notin> set (c_retired s 1)"
  shows "\<exists>s'. mutate (race_remove 1 1 9) s = Some s' \<and> c_head s' = b
    \<and> c_heap s' = (c_heap s)(a \<mapsto> \<lparr>node_data = 1, node_value = None, node_next = mark b\<rparr>)
    \<and> c_task s' 0 = c_task s 0 \<and> c_hp s' = (c_hp s)(1 := (c_hp s 1)(0 := a)) \<and> c_retired s' = (c_retired s)(1 := a # c_retired s 1)
    \<and> (if length (c_retired s 1) < 10 then t_pc (c_task s' 1) = PRet else t_pc (c_task s' 1) = PScan 0 False \<and> t_active (c_task s' 1) = [])"
  using assms by (simp add: run_defs resume_def MAX_RETIRED_NODES_PER_THREAD_def isMarked_aligned)

lemma free_run:
  fixes s :: "nat cstate"
  assumes "t_pc (c_task s 1) = PFree b" "t_rest (c_task s 1) = r" "distinct r" "set r \<subseteq> dom (c_heap s)"
  shows "\<exists>s'. mutate (replicate (length r) (Step 1)) s = Some s' \<and> c_task s' 0 = c_task s 0
    \<and> (\<forall>x. c_heap s' x = (if x \<in> set r - set (t_active (c_task s 1)) then None else c_heap s x)) \<and> c_hp s' = c_hp s"
  using assms
proof (induction r arbitrary: s)
  case (Cons x r)
  let ?k = "c_task s 1"
  show ?case
  proof (cases "x \<in> set (t_active ?k)")
    case True
    let ?s = "set_task 1 (?k\<lparr>t_rest := r\<rparr>) s"
    from Cons.IH [of ?s] Cons.prems obtain s' where "mutate (replicate (length r) (Step 1)) ?s = Some s'" "c_task s' 0 = c_task s 0"
      "\<forall>y. c_heap s' y = (if y \<in> set r - set (t_active ?k) then None else c_heap s y)" "c_hp s' = c_hp s" by auto
    with Cons.prems True show ?thesis by (auto simp: step_defs)
  next
    case False
    let ?s = "set_task 1 (?k\<lparr>t_rest := r\<rparr>) (put_retired 1 (remove1 x (c_retired s 1)) (put_heap x None s))"
    have s: "t_pc (c_task ?s 1) = PFree b" "t_rest (c_task ?s 1) = r" "distinct r" "set r \<subseteq> dom (c_heap ?s)" using Cons.prems by auto
    from Cons.IH [OF s] obtain s' where "mutate (replicate (length r) (Step 1)) ?s = Some s'" "c_task s' 0 = c_task s 0"
      "\<forall>y. c_heap s' y = (if y \<in> set r - set (t_active ?k) then None else ((c_heap s)(x := None)) y)" "c_hp s' = c_hp s" by auto
    with Cons.prems False show ?thesis by (auto simp: step_defs)
  qed
qed auto

text \<open>The list holds the key 9 only, and the second thread has retired the nodes \<open>l\<close>.\<close>

definition resting :: "nat task \<Rightarrow> ptr list \<Rightarrow> nat cstate \<Rightarrow> bool" where
  "resting k l s \<longleftrightarrow> t_pc (c_task s 1) = PRet \<and> c_head s = 160 \<and> c_heap s 160 = Some \<lparr>node_data = 9, node_value = None, node_next = NULL\<rparr>
     \<and> c_hp s 0 = (\<lambda>_. NULL) \<and> c_hp s 1 1 = NULL \<and> c_retired s 1 = l \<and> c_task s 0 = k \<and> dom (c_heap s) = insert 160 (set l)"

lemma one_round:
  assumes "resting k l s" "length l \<le> 10" "a \<notin> insert 160 (set l)" "a \<noteq> NULL" "aligned a" "aligned 160"
  shows "\<exists>s'. mutate (race_insert 1 1 a 8 @ race_remove 1 1 9) s = Some s'
    \<and> (if length l < 10 then resting k (a # l) s'
       else t_pc (c_task s' 1) = PScan 0 False \<and> t_active (c_task s' 1) = [] \<and> c_hp s' 0 = (\<lambda>_. NULL) \<and> c_hp s' 1 0 = a \<and> c_hp s' 1 1 = NULL
         \<and> c_retired s' 1 = a # l \<and> c_task s' 0 = k \<and> dom (c_heap s') = insert 160 (set (a # l)))"
proof -
  have h: "c_heap s a = None" using assms(1,3) by (auto simp: resting_def)
  from assms h insert_round [of s 160 _ a] obtain s1 where
    s1: "mutate (race_insert 1 1 a 8) s = Some s1" "c_head s1 = a"
      "c_heap s1 = (c_heap s)(a \<mapsto> \<lparr>node_data = 1, node_value = None, node_next = 160\<rparr>)"
      "t_pc (c_task s1 1) = PRet" "c_task s1 0 = c_task s 0" "c_hp s1 = (c_hp s)(1 := (c_hp s 1)(0 := 160))" "c_retired s1 = c_retired s"
    by (auto simp: resting_def isMarked_aligned)
  from s1 assms remove_round [of s1 a 160] obtain s2 where
    s2: "mutate (race_remove 1 1 9) s1 = Some s2" "c_head s2 = 160"
      "c_heap s2 = (c_heap s1)(a \<mapsto> \<lparr>node_data = 1, node_value = None, node_next = mark 160\<rparr>)"
      "c_task s2 0 = c_task s1 0" "c_hp s2 = (c_hp s1)(1 := (c_hp s1 1)(0 := a))" "c_retired s2 = (c_retired s1)(1 := a # c_retired s1 1)"
      "if length (c_retired s1 1) < 10 then t_pc (c_task s2 1) = PRet else t_pc (c_task s2 1) = PScan 0 False \<and> t_active (c_task s2 1) = []"
    by (auto simp: resting_def)
  show ?thesis
    using assms s1 s2 by (intro exI [of _ s2]) (auto simp: exec_append resting_def split: if_splits)
qed

lemma rounds:
  assumes "resting k l s" "length l + length as \<le> 10" "distinct (as @ l)" "160 \<notin> set as" "\<forall>a \<in> set as. a \<noteq> NULL \<and> aligned a" "aligned 160"
  shows "\<exists>s'. mutate (concat (map (\<lambda>a. race_insert 1 1 a 8 @ race_remove 1 1 9) as)) s = Some s' \<and> resting k (rev as @ l) s'"
  using assms
proof (induction as arbitrary: l s)
  case (Cons a as)
  with one_round [OF Cons.prems(1), of a] obtain s1 where s1: "mutate (race_insert 1 1 a 8 @ race_remove 1 1 9) s = Some s1" "resting k (a # l) s1" by auto
  with Cons.IH [OF s1(2)] Cons.prems obtain s2 where
    "mutate (concat (map (\<lambda>a. race_insert 1 1 a 8 @ race_remove 1 1 9) as)) s1 = Some s2" "resting k (rev as @ a # l) s2" by auto
  with s1(1) show ?case by (auto simp: exec_append Option.bind_eq_Some_conv)
qed simp

text \<open>The last round, in which the second thread scans the hazard pointers and frees what it retired.\<close>

lemma last_round:
  assumes "resting k l s" "length l = 10" "distinct l" "a \<notin> insert 160 (set l)" "a \<noteq> NULL" "aligned a" "aligned 160"
  shows "\<exists>s'. mutate ((race_insert 1 1 a 8 @ race_remove 1 1 9) @ replicate 5 (Step 1) @ replicate 11 (Step 1)) s = Some s'
    \<and> (\<forall>x \<in> set l. c_heap s' x = None) \<and> c_task s' 0 = k"
proof -
  from one_round [OF assms(1), of a] assms obtain s1 where
    s1: "mutate (race_insert 1 1 a 8 @ race_remove 1 1 9) s = Some s1"
      "t_pc (c_task s1 1) = PScan 0 False" "t_active (c_task s1 1) = []" "c_hp s1 0 = (\<lambda>_. NULL)" "c_hp s1 1 0 = a" "c_hp s1 1 1 = NULL"
      "c_retired s1 1 = a # l" "c_task s1 0 = k" "dom (c_heap s1) = insert 160 (set (a # l))" by auto
  have dm: "Suc (Suc (Suc 0)) div Suc (Suc 0) = Suc 0" "Suc (Suc (Suc 0)) mod Suc (Suc 0) = Suc 0" by (simp_all flip: numeral_3_eq_3 numeral_2_eq_2)
  obtain s2 where s2: "mutate (replicate 5 (Step 1)) s1 = Some s2" "t_pc (c_task s2 1) = PFree False" "t_rest (c_task s2 1) = a # l"
    "t_active (c_task s2 1) = [a]" "c_task s2 0 = k" "c_heap s2 = c_heap s1"
    using s1(2-8) assms(5) by (simp add: numeral_eq_Suc step_defs scan_next_def dm)
  have r: "distinct (a # l)" "set (a # l) \<subseteq> dom (c_heap s2)" using assms(3,4) s1(9) s2(6) by auto
  from free_run [OF s2(2,3) r] assms(2,4) s2(4) obtain s3 where
    "mutate (replicate 11 (Step 1)) s2 = Some s3" "c_task s3 0 = k" "\<forall>x \<in> set l. c_heap s3 x = None" using s2(5) by auto
  moreover have "mutate ((race_insert 1 1 a 8 @ race_remove 1 1 9) @ replicate 5 (Step 1) @ replicate 11 (Step 1)) s = Some s3"
    unfolding exec_append [of _ "race_insert 1 1 a 8 @ race_remove 1 1 9"] s1(1) Option.bind_lunit
    unfolding exec_append s2(1) Option.bind_lunit by (rule \<open>mutate (replicate 11 (Step 1)) s2 = Some s3\<close>)
  ultimately show ?thesis by blast
qed

definition race :: "nat act list" where
  "race = (race_insert 1 9 160 3 @ race_insert 1 1 16 8
       @ (Call 0 (OpLookup False) 10 None NULL False # replicate 7 (Step 0)) @ race_remove 1 1 9)
     @ concat (map (\<lambda>a. race_insert 1 1 a 8 @ race_remove 1 1 9) [176, 192, 208, 224, 240, 256, 272, 288, 304])
     @ ((race_insert 1 1 320 8 @ race_remove 1 1 9) @ replicate 5 (Step 1) @ replicate 11 (Step 1))
     @ [Step 0, Step 0]"

lemma first_insert:
  fixes s :: "nat cstate"
  assumes "t_pc (c_task s 1) = PRet" "c_head s = NULL" "c_heap s b = None" "b \<noteq> NULL" "aligned b"
  shows "\<exists>s'. mutate (race_insert 1 9 b 3) s = Some s' \<and> c_head s' = b
    \<and> c_heap s' = (c_heap s)(b \<mapsto> \<lparr>node_data = 9, node_value = None, node_next = NULL\<rparr>)
    \<and> t_pc (c_task s' 1) = PRet \<and> c_task s' 0 = c_task s 0 \<and> c_hp s' = c_hp s \<and> c_retired s' = c_retired s"
  using assms by (simp add: run_defs)

text \<open>The first thread looks for the key 10 and stops between the two assignments of the exchange.\<close>

lemma enter_window:
  fixes s :: "nat cstate"
  assumes "t_pc (c_task s 0) = PRet" "c_head s = a" "a \<noteq> NULL" "aligned b" "c_hp s 0 = (\<lambda>_. NULL)"
    "c_heap s a = Some \<lparr>node_data = 1, node_value = None, node_next = b\<rparr>"
  shows "\<exists>s'. mutate (Call 0 (OpLookup False) 10 None NULL False # replicate 7 (Step 0)) s = Some s' \<and> c_head s' = a
    \<and> c_heap s' = c_heap s \<and> c_task s' 1 = c_task s 1 \<and> c_hp s' 0 = (\<lambda>_. NULL) \<and> c_hp s' 1 = c_hp s 1 \<and> c_retired s' = c_retired s
    \<and> t_pc (c_task s' 0) = PSwap1 \<and> t_prev (c_task s' 0) = NextLoc a \<and> t_next (c_task s' 0) = b"
  using assms by (simp add: run_defs isMarked_aligned fun_eq_iff)

lemma race_begin:
  "\<exists>k s. mutate (race_insert 1 9 160 3 @ race_insert 1 1 16 8
       @ (Call 0 (OpLookup False) 10 None NULL False # replicate 7 (Step 0)) @ race_remove 1 1 9) (new_cstate 0 (\<lambda>_ _. NULL)) = Some s
     \<and> resting k [16] s \<and> t_pc k = PSwap1 \<and> t_prev k = NextLoc 16 \<and> t_next k = 160"
proof -
  let ?s = "new_cstate 0 (\<lambda>_ _. NULL) :: nat cstate"
  have al: "aligned 160" "aligned 16" by (simp_all add: aligned_def)
  have i: "t_pc (c_task ?s t) = PRet" "c_head ?s = NULL" "c_heap ?s = (\<lambda>_. None)" "c_hp ?s = (\<lambda>_ _. NULL)" "c_retired ?s = (\<lambda>_. [])" for t
    by (simp_all add: new_cstate_def idle_task_def)
  from first_insert [of ?s 160] i al obtain s1 where
    s1: "mutate (race_insert 1 9 160 3) ?s = Some s1" "c_head s1 = 160"
      "c_heap s1 = [160 \<mapsto> \<lparr>node_data = 9, node_value = None, node_next = NULL\<rparr>]" "t_pc (c_task s1 1) = PRet"
      "c_task s1 0 = c_task ?s 0" "c_hp s1 = (\<lambda>_ _. NULL)" "c_retired s1 = (\<lambda>_. [])" by auto
  from insert_round [of s1 160 _ 16] s1 al obtain s2 where
    s2: "mutate (race_insert 1 1 16 8) s1 = Some s2" "c_head s2 = 16"
      "c_heap s2 = (c_heap s1)(16 \<mapsto> \<lparr>node_data = 1, node_value = None, node_next = 160\<rparr>)" "t_pc (c_task s2 1) = PRet"
      "c_task s2 0 = c_task ?s 0" "c_hp s2 = (c_hp s1)(1 := (c_hp s1 1)(0 := 160))" "c_retired s2 = (\<lambda>_. [])"
    by (auto simp: isMarked_aligned)
  from enter_window [of s2 16 160] s2 s1(6) i(1) al obtain s3 where
    s3: "mutate (Call 0 (OpLookup False) 10 None NULL False # replicate 7 (Step 0)) s2 = Some s3" "c_head s3 = 16"
      "c_heap s3 = c_heap s2" "c_task s3 1 = c_task s2 1" "c_hp s3 0 = (\<lambda>_. NULL)" "c_hp s3 1 = c_hp s2 1" "c_retired s3 = c_retired s2"
      "t_pc (c_task s3 0) = PSwap1" "t_prev (c_task s3 0) = NextLoc 16" "t_next (c_task s3 0) = 160"
    by (auto simp del: exec.simps)
  from remove_round [of s3 16 160] s3 s2 al obtain s4 where
    s4: "mutate (race_remove 1 1 9) s3 = Some s4" "c_head s4 = 160"
      "c_heap s4 = (c_heap s3)(16 \<mapsto> \<lparr>node_data = 1, node_value = None, node_next = mark 160\<rparr>)"
      "c_task s4 0 = c_task s3 0" "c_hp s4 = (c_hp s3)(1 := (c_hp s3 1)(0 := 16))" "c_retired s4 1 = [16]" "t_pc (c_task s4 1) = PRet"
    by (auto simp del: exec.simps)
  have "resting (c_task s3 0) [16] s4" using s4 s3 s2 s1 by (auto simp: resting_def)
  with s3(8-10) s4(1) show ?thesis
    by (intro exI [of _ "c_task s3 0"] exI [of _ s4]) (simp only: exec_append s1(1) s2(1) s3(1) Option.bind_lunit)
qed

lemma leave_window:
  fixes s :: "nat cstate"
  assumes "t_pc (c_task s 0) = PSwap1" "t_next (c_task s 0) \<noteq> NULL"
  shows "\<exists>s'. mutate [Step 0, Step 0] s = Some s' \<and> t_pc (c_task s' 0) = PCheck1 \<and> t_prev (c_task s' 0) = t_prev (c_task s 0) \<and> c_heap s' = c_heap s"
  using assms by (simp add: step_defs loop_head_def)

text \<open>
  C15. The code does not keep its promise that a node in use is never freed: there is an execution of
  two threads, from the empty list, after which thread 0, in the middle of a lookup, is about to read
  \<^verbatim>\<open>*prev\<close> in a node that thread 1 has deleted. The only step of thread 0 that matters is that it was
  stopped between \<^verbatim>\<open>hp[0] = hp[1]\<close> and \<^verbatim>\<open>hp[1] = temp\<close>.
\<close>

theorem swap_window_use_after_free:
  "\<exists>s. exec (lstep 2 (\<lambda>_. False)) race (new_cstate 0 (\<lambda>_ _. NULL)) = Some s \<and> t_pc (c_task s 0) = PCheck1 \<and> t_prev (c_task s 0) = NextLoc 16
     \<and> c_heap s 16 = None \<and> step_thread 2 0 s = None"
proof -
  obtain k s1 where s1: "mutate (race_insert 1 9 160 3 @ race_insert 1 1 16 8
       @ (Call 0 (OpLookup False) 10 None NULL False # replicate 7 (Step 0)) @ race_remove 1 1 9) (new_cstate 0 (\<lambda>_ _. NULL)) = Some s1"
     "resting k [16] s1" and k: "t_pc k = PSwap1" "t_prev k = NextLoc 16" "t_next k = 160" using race_begin by blast
  let ?as = "[176, 192, 208, 224, 240, 256, 272, 288, 304] :: ptr list"
  have al: "aligned 160" "\<forall>a \<in> set ?as. a \<noteq> NULL \<and> aligned a" "aligned 320" by (simp_all add: aligned_def)
  from rounds [OF s1(2), of ?as] al obtain s2 where
    s2: "mutate (concat (map (\<lambda>a. race_insert 1 1 a 8 @ race_remove 1 1 9) ?as)) s1 = Some s2" "resting k (rev ?as @ [16]) s2"
    by (auto simp del: exec.simps concat.simps list.map)
  from last_round [OF s2(2), of 320] al obtain s3 where
    s3: "mutate ((race_insert 1 1 320 8 @ race_remove 1 1 9) @ replicate 5 (Step 1) @ replicate 11 (Step 1)) s2 = Some s3"
      "\<forall>x \<in> set (rev ?as @ [16]). c_heap s3 x = None" "c_task s3 0 = k" by (auto simp del: exec.simps)
  obtain s4 where s4: "mutate [Step 0, Step 0] s3 = Some s4" "t_pc (c_task s4 0) = PCheck1" "t_prev (c_task s4 0) = NextLoc 16" "c_heap s4 = c_heap s3"
    using leave_window [of s3] s3(3) k by auto
  moreover have "mutate race (new_cstate 0 (\<lambda>_ _. NULL)) = Some s4"
    unfolding race_def using s1(1) s2(1) s3(1) s4(1) by (simp only: exec_append Option.bind_lunit)
  moreover have "c_heap s4 16 = None" using s3(2) s4(4) by simp
  ultimately show ?thesis by (auto simp: step_defs load_def)
qed
end
