(* ===== verification/Thread_Pool_Fast.thy ===== *)
theory Thread_Pool_Fast
  imports State_Machine "HOL-Library.Sublist"
begin

text \<open>
  The thread pool with one mailbox per worker (\<^verbatim>\<open>thread_pool_fast.cpp\<close>). A task is a value, the
  NULL task that stops a worker is \<open>None\<close>. An action of the machine is one critical section: a call
  of \<^verbatim>\<open>addTask\<close> by any thread, a worker that finds its mailbox empty and sleeps on its condition
  variable, its waking up without a reason, a worker taking its task from its mailbox, a worker
  coming back from its task, and the end of \<^verbatim>\<open>stop\<close>. A worker sleeping on \<^verbatim>\<open>cv_has_task_\<close>
  (\<open>asleep\<close>) can do nothing until the signal of \<^verbatim>\<open>assignTask\<close> or a spurious wake-up. The lists \<open>added\<close>, \<open>assigned\<close> and \<open>completed\<close> record the
  history and are not read by the program.
\<close>

record 't Worker =
  has_task :: bool
  w_task :: "'t option"
  asleep :: bool

text \<open>Where a worker's thread is in \<^verbatim>\<open>workerLoop\<close>; \<open>Gone\<close>: it has deleted itself and returned.\<close>

datatype 't phase = Waiting | Running 't | Gone

record 't ThreadPoolFast =
  dispatch_queue :: "'t option list"
  free_workers :: "nat list"
  wrk :: "'t Worker list"
  phases :: "'t phase list"
  last_worker :: "bool list"

text \<open>The signal wakes the worker, the only thread that ever waits on its condition variable.\<close>

definition assignTask :: "nat \<Rightarrow> 't option \<Rightarrow> 't ThreadPoolFast \<Rightarrow> 't ThreadPoolFast" where
  "assignTask w task p = p\<lparr>wrk := (wrk p)[w := \<lparr>has_task = True, w_task = task, asleep = False\<rparr>]\<rparr>"

definition queueWorker :: "nat \<Rightarrow> 't ThreadPoolFast \<Rightarrow> 't ThreadPoolFast" where
  "queueWorker w p =
     (case dispatch_queue p of
        task # rest \<Rightarrow> (assignTask w task p)\<lparr>dispatch_queue := rest\<rparr>
      | [] \<Rightarrow> p\<lparr>free_workers := w # free_workers p\<rparr>)"

definition addTask :: "'t option \<Rightarrow> 't ThreadPoolFast \<Rightarrow> 't ThreadPoolFast" where
  "addTask task p =
     (case free_workers p of
        w # rest \<Rightarrow> assignTask w task (p\<lparr>free_workers := rest\<rparr>)
      | [] \<Rightarrow> p\<lparr>dispatch_queue := dispatch_queue p @ [task]\<rparr>)"

definition pool_count :: "'t ThreadPoolFast \<Rightarrow> nat" where
  "pool_count p = length (dispatch_queue p)"

text \<open>One round of the constructor's loop: a worker, its thread, and its place among the free ones.\<close>

definition create_worker :: "'t ThreadPoolFast \<Rightarrow> 't ThreadPoolFast" where
  "create_worker p =
     queueWorker (length (wrk p))
       (p\<lparr>wrk := wrk p @ [\<lparr>has_task = False, w_task = None, asleep = False\<rparr>], phases := phases p @ [Waiting],
          last_worker := last_worker p @ [False]\<rparr>)"

definition new_ThreadPoolFast :: "nat \<Rightarrow> 't ThreadPoolFast" where
  "new_ThreadPoolFast num_workers =
     (create_worker ^^ num_workers)
       \<lparr>dispatch_queue = [], free_workers = [], wrk = [], phases = [], last_worker = []\<rparr>"

text \<open>
  A round of \<^verbatim>\<open>workerLoop\<close>: the test of \<^verbatim>\<open>has_task_\<close> that fails and puts the worker to sleep,
  releasing the mutex, its spurious return from the wait, the test that succeeds with the task taken,
  and what follows the call of the task.
\<close>

definition worker_sleep :: "nat \<Rightarrow> 't ThreadPoolFast \<Rightarrow> 't ThreadPoolFast option" where
  "worker_sleep w p =
     (if w < length (wrk p) \<and> phases p ! w = Waiting \<and> \<not> asleep (wrk p ! w) \<and> \<not> has_task (wrk p ! w)
      then Some (p\<lparr>wrk := (wrk p)[w := (wrk p ! w)\<lparr>asleep := True\<rparr>]\<rparr>) else None)"

definition worker_spurious :: "nat \<Rightarrow> 't ThreadPoolFast \<Rightarrow> 't ThreadPoolFast option" where
  "worker_spurious w p =
     (if w < length (wrk p) \<and> asleep (wrk p ! w)
      then Some (p\<lparr>wrk := (wrk p)[w := (wrk p ! w)\<lparr>asleep := False\<rparr>]\<rparr>) else None)"

definition worker_take :: "nat \<Rightarrow> 't ThreadPoolFast \<Rightarrow> 't ThreadPoolFast option" where
  "worker_take w p =
     (if w < length (wrk p) \<and> phases p ! w = Waiting \<and> \<not> asleep (wrk p ! w) \<and> has_task (wrk p ! w) then
        let p' = p\<lparr>wrk := (wrk p)[w := (wrk p ! w)\<lparr>has_task := False\<rparr>]\<rparr>
        in Some (case w_task (wrk p ! w) of
                   None \<Rightarrow> p'\<lparr>phases := (phases p)[w := Gone]\<rparr>
                 | Some t \<Rightarrow> p'\<lparr>phases := (phases p)[w := Running t]\<rparr>)
      else None)"

definition worker_return :: "nat \<Rightarrow> 't ThreadPoolFast \<Rightarrow> 't ThreadPoolFast option" where
  "worker_return w p =
     (if w < length (wrk p) then
        case phases p ! w of
          Running t \<Rightarrow>
            Some (if last_worker p ! w then p\<lparr>phases := (phases p)[w := Gone]\<rparr>
                  else queueWorker w (p\<lparr>phases := (phases p)[w := Waiting]\<rparr>))
        | _ \<Rightarrow> None
      else None)"

text \<open>
  \<^verbatim>\<open>stop\<close> called by worker \<open>c\<close> or, for \<open>None\<close>, from outside the pool: after one \<^verbatim>\<open>addTask(NULL)\<close> per
  worker it joins all workers but the caller, and a worker then flags itself as the last one.
\<close>

definition stop_requests :: "'t ThreadPoolFast \<Rightarrow> 't option list" where
  "stop_requests p = replicate (length (wrk p)) None"

definition stop_join :: "nat option \<Rightarrow> 't ThreadPoolFast \<Rightarrow> 't ThreadPoolFast option" where
  "stop_join c p =
     (if \<forall>w \<in> {0 ..< length (wrk p)}. Some w = c \<or> phases p ! w = Gone then
        (case c of None \<Rightarrow> Some p
         | Some w \<Rightarrow> if w < length (wrk p) then Some (p\<lparr>last_worker := (last_worker p)[w := True]\<rparr>) else None)
      else None)"

text \<open>The destructor deletes the once-run tasks still queued; \<open>once\<close> says which ones are.\<close>

definition delete_ThreadPoolFast :: "('t \<Rightarrow> bool) \<Rightarrow> 't ThreadPoolFast \<Rightarrow> 't list" where
  "delete_ThreadPoolFast once p = filter once (List.map_filter id (dispatch_queue p))"

section \<open>The machine\<close>

record 't fp_state =
  pool :: "'t ThreadPoolFast"
  added :: "'t option list"
  assigned :: "'t option list"
  completed :: "'t option list"

datatype 't fp_action = AddTask "'t option" | FallAsleep nat | WakeUp nat | Take nat | Return nat | StopJoin "nat option"

fun fp_step :: "'t fp_action \<Rightarrow> 't fp_state \<Rightarrow> 't fp_state option" where
  "fp_step (AddTask t) s =
     Some (s\<lparr>pool := addTask t (pool s), added := added s @ [t],
             assigned := (if free_workers (pool s) = [] then assigned s else assigned s @ [t])\<rparr>)"
| "fp_step (FallAsleep w) s = do { p \<leftarrow> worker_sleep w (pool s); Some (s\<lparr>pool := p\<rparr>) }"
| "fp_step (WakeUp w) s = do { p \<leftarrow> worker_spurious w (pool s); Some (s\<lparr>pool := p\<rparr>) }"
| "fp_step (Take w) s =
     do { p \<leftarrow> worker_take w (pool s);
          Some (s\<lparr>pool := p, completed := (if phases p ! w = Gone then completed s @ [None] else completed s)\<rparr>) }"
| "fp_step (Return w) s =
     do { p \<leftarrow> worker_return w (pool s);
          case phases (pool s) ! w of
            Running t \<Rightarrow>
              Some (s\<lparr>pool := p, completed := completed s @ [Some t],
                      assigned := (if last_worker (pool s) ! w then assigned s
                                   else assigned s @ take 1 (dispatch_queue (pool s)))\<rparr>)
          | _ \<Rightarrow> None }"
| "fp_step (StopJoin c) s = do { p \<leftarrow> stop_join c (pool s); Some (s\<lparr>pool := p\<rparr>) }"

definition fp_init :: "'t fp_state \<Rightarrow> bool" where
  "fp_init s \<longleftrightarrow> (\<exists>n. s = \<lparr>pool = new_ThreadPoolFast n, added = [], assigned = [], completed = []\<rparr>)"

section \<open>Invariant\<close>

text \<open>What a worker holds: the task in its mailbox or the one it runs.\<close>

definition held :: "'t ThreadPoolFast \<Rightarrow> nat \<Rightarrow> 't option multiset" where
  "held p w = (if has_task (wrk p ! w) then {#w_task (wrk p ! w)#} else {#})
     + (case phases p ! w of Running t \<Rightarrow> {#Some t#} | _ \<Rightarrow> {#})"

definition n_workers :: "'t ThreadPoolFast \<Rightarrow> nat" where
  "n_workers p = length (wrk p)"

definition pool_ok :: "'t ThreadPoolFast \<Rightarrow> bool" where
  "pool_ok p \<longleftrightarrow> length (phases p) = n_workers p \<and> length (last_worker p) = n_workers p
     \<and> distinct (free_workers p) \<and> set (free_workers p) \<subseteq> {..< n_workers p}
     \<and> (\<forall>w < n_workers p. w \<in> set (free_workers p) \<longleftrightarrow> phases p ! w = Waiting \<and> \<not> has_task (wrk p ! w))
     \<and> (\<forall>w < n_workers p. has_task (wrk p ! w) \<longrightarrow> phases p ! w = Waiting \<and> \<not> asleep (wrk p ! w))
     \<and> (free_workers p \<noteq> [] \<longrightarrow> dispatch_queue p = [])"

definition gone :: "'t ThreadPoolFast \<Rightarrow> nat set" where
  "gone p = {w. w < n_workers p \<and> phases p ! w = Gone}"

definition fp_inv :: "'t fp_state \<Rightarrow> bool" where
  "fp_inv s \<longleftrightarrow> pool_ok (pool s) \<and> added s = assigned s @ dispatch_queue (pool s)
     \<and> mset (assigned s) = (\<Sum>w < n_workers (pool s). held (pool s) w) + mset (completed s)
     \<and> (True \<notin> set (last_worker (pool s)) \<longrightarrow> card (gone (pool s)) = count (mset (completed s)) None)"

lemma sum_change_one:
  fixes f g :: "nat \<Rightarrow> 'a::comm_monoid_add"
  assumes "w < n" "\<And>v. v < n \<Longrightarrow> v \<noteq> w \<Longrightarrow> g v = f v"
  shows "(\<Sum>v < n. g v) + f w = (\<Sum>v < n. f v) + g w"
proof -
  have "(\<Sum>v < n. g v) = g w + (\<Sum>v \<in> {..< n} - {w}. g v)" "(\<Sum>v < n. f v) = f w + (\<Sum>v \<in> {..< n} - {w}. f v)"
    using assms(1) by (auto intro: sum.remove)
  moreover have "(\<Sum>v \<in> {..< n} - {w}. g v) = (\<Sum>v \<in> {..< n} - {w}. f v)"
    using assms(2) by (intro sum.cong) auto
  ultimately show ?thesis by (simp add: ac_simps)
qed

lemma n_workers_simps [simp]:
  "n_workers (assignTask w t p) = n_workers p" "n_workers (queueWorker w p) = n_workers p" "n_workers (addTask t p) = n_workers p"
  by (simp_all add: n_workers_def assignTask_def queueWorker_def addTask_def split: list.splits)

lemma phases_simps [simp]:
  "phases (assignTask w t p) = phases p" "phases (queueWorker w p) = phases p" "phases (addTask t p) = phases p"
  by (simp_all add: assignTask_def queueWorker_def addTask_def split: list.splits)

lemma last_simps [simp]:
  "last_worker (assignTask w t p) = last_worker p" "last_worker (queueWorker w p) = last_worker p" "last_worker (addTask t p) = last_worker p"
  by (simp_all add: assignTask_def queueWorker_def addTask_def split: list.splits)

lemma pool_okD:
  assumes "pool_ok p" "w < n_workers p"
  shows "w \<in> set (free_workers p) \<longleftrightarrow> phases p ! w = Waiting \<and> \<not> has_task (wrk p ! w)"
    and "has_task (wrk p ! w) \<Longrightarrow> phases p ! w = Waiting" "has_task (wrk p ! w) \<Longrightarrow> \<not> asleep (wrk p ! w)" and "w < length (phases p)" "w < length (last_worker p)"
  using assms unfolding pool_ok_def by auto

lemma addTask_ok: "pool_ok p \<Longrightarrow> pool_ok (addTask t p)"
proof (cases "free_workers p")
  case (Cons w rest)
  assume ok: "pool_ok p"
  have e: "addTask t p = p\<lparr>free_workers := rest, wrk := (wrk p)[w := \<lparr>has_task = True, w_task = t, asleep = False\<rparr>]\<rparr>"
    by (simp add: addTask_def Cons assignTask_def)
  have w: "w < n_workers p" "w \<notin> set rest" "phases p ! w = Waiting" using ok Cons by (auto simp: pool_ok_def)
  have "v \<in> set rest \<longleftrightarrow> phases p ! v = Waiting \<and> \<not> has_task ((wrk p)[w := \<lparr>has_task = True, w_task = t, asleep = False\<rparr>] ! v)"
    if "v < n_workers p" for v
  proof (cases "v = w")
    case False
    then have "v \<in> set rest \<longleftrightarrow> v \<in> set (free_workers p)" using Cons by auto
    with ok that False show ?thesis by (auto simp: pool_ok_def)
  qed (use w in \<open>auto simp: n_workers_def\<close>)
  moreover have "has_task ((wrk p)[w := \<lparr>has_task = True, w_task = t, asleep = False\<rparr>] ! v) \<longrightarrow>
      phases p ! v = Waiting \<and> \<not> asleep ((wrk p)[w := \<lparr>has_task = True, w_task = t, asleep = False\<rparr>] ! v)"
    if "v < n_workers p" for v
    using ok w that by (cases "v = w") (auto simp: pool_ok_def n_workers_def)
  ultimately show ?thesis using ok Cons w unfolding e by (auto simp: pool_ok_def n_workers_def)
qed (auto simp: addTask_def pool_ok_def n_workers_def)

lemma held_other: "v \<noteq> w \<Longrightarrow> wrk p' ! v = wrk p ! v \<Longrightarrow> phases p' ! v = phases p ! v \<Longrightarrow> held p' v = held p v"
  by (simp add: held_def)

lemma addTask_held:
  assumes "pool_ok p"
  shows "(\<Sum>v < n_workers p. held (addTask t p) v) + mset (dispatch_queue (addTask t p)) =
    (\<Sum>v < n_workers p. held p v) + mset (dispatch_queue p) + {#t#}"
proof (cases "free_workers p")
  case Nil
  then have "held (addTask t p) = held p" by (simp add: addTask_def held_def fun_eq_iff)
  with Nil show ?thesis by (simp add: addTask_def)
next
  case (Cons w rest)
  have w: "w < n_workers p" "phases p ! w = Waiting" "\<not> has_task (wrk p ! w)" using assms Cons by (auto simp: pool_ok_def)
  have e: "addTask t p = p\<lparr>free_workers := rest, wrk := (wrk p)[w := \<lparr>has_task = True, w_task = t, asleep = False\<rparr>]\<rparr>"
    by (simp add: addTask_def Cons assignTask_def)
  have "held p w = {#}" "held (addTask t p) w = {#t#}" using w by (simp_all add: e held_def n_workers_def)
  moreover have "(\<Sum>v < n_workers p. held (addTask t p) v) + held p w = (\<Sum>v < n_workers p. held p v) + held (addTask t p) w"
    by (rule sum_change_one [OF w(1)]) (auto simp: e held_def)
  ultimately show ?thesis by (simp add: e)
qed

lemma worker_take_spec:
  assumes "pool_ok p" "worker_take w p = Some p'"
  shows "pool_ok p' \<and> n_workers p' = n_workers p \<and> dispatch_queue p' = dispatch_queue p \<and> last_worker p' = last_worker p
    \<and> free_workers p' = free_workers p \<and> w < n_workers p
    \<and> (\<Sum>v < n_workers p. held p' v) + (if phases p' ! w = Gone then {#None#} else {#}) = (\<Sum>v < n_workers p. held p v)
    \<and> gone p' = (if phases p' ! w = Gone then insert w (gone p) else gone p) \<and> w \<notin> gone p"
proof -
  have w: "w < n_workers p" "phases p ! w = Waiting" "has_task (wrk p ! w)" "w < length (phases p)" "\<not> asleep (wrk p ! w)"
    using assms by (auto simp: worker_take_def pool_ok_def n_workers_def split: if_splits)
  define ph where "ph = (case w_task (wrk p ! w) of None \<Rightarrow> Gone | Some t \<Rightarrow> Running t)"
  have e: "p' = p\<lparr>wrk := (wrk p)[w := (wrk p ! w)\<lparr>has_task := False\<rparr>], phases := (phases p)[w := ph]\<rparr>"
    using assms(2) w by (auto simp: worker_take_def ph_def Let_def n_workers_def split: option.splits)
  have ph: "ph \<noteq> Waiting" by (simp add: ph_def split: option.splits)
  have other: "wrk p' ! v = wrk p ! v" "phases p' ! v = phases p ! v" if "v \<noteq> w" for v using that by (simp_all add: e)
  have at: "phases p' ! w = ph" "\<not> has_task (wrk p' ! w)" using w by (simp_all add: e n_workers_def)
  have free: "w \<notin> set (free_workers p)" using assms(1) w by (auto simp: pool_ok_def)
  have "v \<in> set (free_workers p) \<longleftrightarrow> phases p' ! v = Waiting \<and> \<not> has_task (wrk p' ! v)" if "v < n_workers p" for v
  proof (cases "v = w")
    case False
    then show ?thesis using pool_okD(1) [OF assms(1) that] other by simp
  qed (use at ph free in simp)
  moreover have "has_task (wrk p' ! v) \<longrightarrow> phases p' ! v = Waiting \<and> \<not> asleep (wrk p' ! v)" if "v < n_workers p" for v
  proof (cases "v = w")
    case False
    then show ?thesis using pool_okD(2,3) [OF assms(1) that] other by simp
  qed (use at in simp)
  moreover have n: "n_workers p' = n_workers p" by (simp add: e n_workers_def)
  ultimately have ok: "pool_ok p'" using assms(1) unfolding pool_ok_def by (simp add: e n_workers_def)
  have "(\<Sum>v < n_workers p. held p' v) + held p w = (\<Sum>v < n_workers p. held p v) + held p' w"
    by (rule sum_change_one [OF w(1)]) (use other in \<open>auto simp: held_def\<close>)
  moreover have "held p w = held p' w + (if phases p' ! w = Gone then {#None#} else {#})"
    using w at by (auto simp: held_def ph_def split: option.splits)
  ultimately have "(\<Sum>v < n_workers p. held p' v) + (if phases p' ! w = Gone then {#None#} else {#}) = (\<Sum>v < n_workers p. held p v)"
    by (simp add: ac_simps)
  moreover have "gone p' = (if phases p' ! w = Gone then insert w (gone p) else gone p)"
    using w at n by (auto simp: gone_def e nth_list_update)
  moreover have "w \<notin> gone p" using w by (simp add: gone_def)
  ultimately show ?thesis using ok n w by (simp add: e)
qed

text \<open>Falling asleep and waking up change nothing but that.\<close>

lemma worker_nap_spec:
  assumes "pool_ok p" "worker_sleep w p = Some p' \<or> worker_spurious w p = Some p'"
  shows "pool_ok p' \<and> n_workers p' = n_workers p \<and> held p' = held p \<and> gone p' = gone p \<and> last_worker p' = last_worker p
    \<and> dispatch_queue p' = dispatch_queue p \<and> (\<forall>v. has_task (wrk p' ! v) = has_task (wrk p ! v)) \<and> phases p' = phases p"
proof -
  obtain b where w: "w < n_workers p" "p' = p\<lparr>wrk := (wrk p)[w := (wrk p ! w)\<lparr>asleep := b\<rparr>]\<rparr>" "b \<longrightarrow> \<not> has_task (wrk p ! w)"
    using assms(2) by (auto simp: worker_sleep_def worker_spurious_def n_workers_def split: if_splits)
  have at: "has_task (wrk p' ! v) = has_task (wrk p ! v)" "w_task (wrk p' ! v) = w_task (wrk p ! v)"
    "has_task (wrk p ! v) \<Longrightarrow> asleep (wrk p' ! v) \<Longrightarrow> asleep (wrk p ! v)" for v
    using w by (cases "v = w"; simp add: n_workers_def)+
  have n: "n_workers p' = n_workers p" by (simp add: w(2) n_workers_def)
  have same: "phases p' = phases p" "last_worker p' = last_worker p" "dispatch_queue p' = dispatch_queue p"
    "free_workers p' = free_workers p" by (simp_all add: w(2))
  have "pool_ok p'" using assms(1) at unfolding pool_ok_def n same by blast
  moreover have "held p' = held p" by (simp add: held_def at same fun_eq_iff)
  moreover have "gone p' = gone p" by (simp add: gone_def n same)
  ultimately show ?thesis using n same at(1) by simp
qed

lemma worker_return_spec:
  assumes "pool_ok p" "worker_return w p = Some p'"
  obtains t where "phases p ! w = Running t" "pool_ok p'" "n_workers p' = n_workers p" "last_worker p' = last_worker p" "w < n_workers p"
    "(\<Sum>v < n_workers p. held p' v) + {#Some t#} = (\<Sum>v < n_workers p. held p v)
       + (if last_worker p ! w then {#} else mset (take 1 (dispatch_queue p)))"
    "dispatch_queue p = (if last_worker p ! w then [] else take 1 (dispatch_queue p)) @ dispatch_queue p'"
    "\<not> last_worker p ! w \<Longrightarrow> gone p' = gone p"
proof -
  from assms obtain t where t: "phases p ! w = Running t" and w: "w < n_workers p"
    by (auto simp: worker_return_def n_workers_def split: if_splits phase.splits)
  have wl: "w < length (wrk p)" "w < length (phases p)" using w pool_okD(4) [OF assms(1) w] by (simp_all add: n_workers_def)
  have nh: "\<not> has_task (wrk p ! w)" and nf: "w \<notin> set (free_workers p)"
    using pool_okD(1,2) [OF assms(1) w] t by auto
  have hw: "held p w = {#Some t#}" using t nh by (simp add: held_def)
  define ph :: "'a phase" where "ph = (if last_worker p ! w then Gone else Waiting)"
  define wk where "wk = (if last_worker p ! w \<or> dispatch_queue p = [] then wrk p
    else (wrk p)[w := \<lparr>has_task = True, w_task = hd (dispatch_queue p), asleep = False\<rparr>])"
  define fr where "fr = (if last_worker p ! w \<or> dispatch_queue p \<noteq> [] then free_workers p else w # free_workers p)"
  have e: "p' = p\<lparr>phases := (phases p)[w := ph], wrk := wk, free_workers := fr,
      dispatch_queue := (if last_worker p ! w then dispatch_queue p else tl (dispatch_queue p))\<rparr>"
    using assms(2) t wl(1)
    by (cases p) (auto simp: worker_return_def queueWorker_def assignTask_def ph_def wk_def fr_def split: list.splits if_splits)
  have other: "wrk p' ! v = wrk p ! v" "phases p' ! v = phases p ! v" if "v \<noteq> w" for v using that by (simp_all add: e wk_def)
  have at: "phases p' ! w = ph" "has_task (wrk p' ! w) \<longleftrightarrow> \<not> last_worker p ! w \<and> dispatch_queue p \<noteq> []"
    using wl nh by (simp_all add: e wk_def)
  have n: "n_workers p' = n_workers p" by (simp add: e n_workers_def wk_def)
  have ok: "pool_ok p'"
    unfolding pool_ok_def n
  proof (intro conjI allI impI)
    fix v assume v: "v < n_workers p"
    show "v \<in> set (free_workers p') \<longleftrightarrow> phases p' ! v = Waiting \<and> \<not> has_task (wrk p' ! v)"
    proof (cases "v = w")
      case True
      then show ?thesis using at nf by (auto simp: ph_def fr_def e)
    next
      case False
      then have "v \<in> set (free_workers p') \<longleftrightarrow> v \<in> set (free_workers p)" by (simp add: e fr_def)
      then show ?thesis using pool_okD(1) [OF assms(1) v] other [OF False] by simp
    qed
    assume "has_task (wrk p' ! v)"
    then show "phases p' ! v = Waiting" "\<not> asleep (wrk p' ! v)"
      using pool_okD(2,3) [OF assms(1) v] other [of v] at wl by (cases "v = w"; auto simp: ph_def e wk_def)+
  next
    show "length (phases p') = n_workers p" "length (last_worker p') = n_workers p"
      using assms(1) by (simp_all add: pool_ok_def e)
    show "distinct (free_workers p')" "set (free_workers p') \<subseteq> {..< n_workers p}"
      using assms(1) w nf by (simp_all add: pool_ok_def e fr_def)
    show "dispatch_queue p' = []" if "free_workers p' \<noteq> []"
      using assms(1) that by (cases "dispatch_queue p") (auto simp: pool_ok_def e fr_def split: if_splits)
  qed
  have hw': "held p' w = (if last_worker p ! w then {#} else mset (take 1 (dispatch_queue p)))"
    using wl nh by (cases "dispatch_queue p") (auto simp: held_def e ph_def wk_def)
  have s: "(\<Sum>v < n_workers p. held p' v) + held p w = (\<Sum>v < n_workers p. held p v) + held p' w"
    by (rule sum_change_one [OF w]) (use other in \<open>auto simp: held_def\<close>)
  have q: "dispatch_queue p = (if last_worker p ! w then [] else take 1 (dispatch_queue p)) @ dispatch_queue p'"
    by (cases "dispatch_queue p") (simp_all add: e)
  have g: "\<not> last_worker p ! w \<Longrightarrow> gone p' = gone p"
    using wl t n by (auto simp: gone_def e ph_def nth_list_update)
  show thesis
    using that [OF t ok n _ w _ q g] s unfolding hw hw' by (simp add: e)
qed

text \<open>A pool whose workers have not been given anything to do.\<close>

definition unused :: "'t ThreadPoolFast \<Rightarrow> bool" where
  "unused p \<longleftrightarrow> pool_ok p \<and> dispatch_queue p = [] \<and> True \<notin> set (last_worker p)
     \<and> (\<forall>w < n_workers p. \<not> has_task (wrk p ! w) \<and> phases p ! w = Waiting)"

lemma create_worker_unused:
  assumes "unused p"
  shows "unused (create_worker p) \<and> n_workers (create_worker p) = Suc (n_workers p)"
proof -
  let ?n = "n_workers p"
  have e: "create_worker p = p\<lparr>wrk := wrk p @ [\<lparr>has_task = False, w_task = None, asleep = False\<rparr>], phases := phases p @ [Waiting],
      last_worker := last_worker p @ [False], free_workers := ?n # free_workers p\<rparr>"
    using assms by (simp add: create_worker_def queueWorker_def n_workers_def unused_def)
  have n: "n_workers (create_worker p) = Suc ?n" by (simp add: e n_workers_def)
  have all: "\<not> has_task (wrk (create_worker p) ! w) \<and> phases (create_worker p) ! w = Waiting" if "w < Suc ?n" for w
    using assms that by (cases "w = ?n") (auto simp: e nth_append pool_ok_def n_workers_def unused_def)
  have free: "set (free_workers p) = {..< ?n}"
    using assms unfolding unused_def pool_ok_def by auto
  have "pool_ok (create_worker p)"
    using assms all free unfolding unused_def pool_ok_def n by (auto simp: e n_workers_def)
  with assms all n show ?thesis by (auto simp: unused_def e)
qed

lemma new_pool_unused:
  "unused (new_ThreadPoolFast n :: 't ThreadPoolFast) \<and> n_workers (new_ThreadPoolFast n :: 't ThreadPoolFast) = n"
proof (induction n)
  case 0
  then show ?case by (simp add: new_ThreadPoolFast_def unused_def pool_ok_def n_workers_def)
next
  case (Suc n)
  have "new_ThreadPoolFast (Suc n) = create_worker (new_ThreadPoolFast n :: 't ThreadPoolFast)"
    by (simp add: new_ThreadPoolFast_def)
  with Suc create_worker_unused show ?case by auto
qed

section \<open>Every schedule\<close>

lemma fp_init_inv: "fp_init s \<Longrightarrow> fp_inv s"
proof -
  assume "fp_init s"
  then obtain n where s: "s = \<lparr>pool = new_ThreadPoolFast n, added = [], assigned = [], completed = []\<rparr>"
    by (auto simp: fp_init_def)
  have u: "unused (pool s)" unfolding s by (simp add: new_pool_unused)
  then have "gone (pool s) = {}" "(\<Sum>w < n_workers (pool s). held (pool s) w) = {#}"
    by (auto simp: unused_def gone_def held_def)
  with u s show ?thesis by (simp add: fp_inv_def unused_def)
qed

lemma fp_step_inv: "fp_inv s \<Longrightarrow> fp_step l s = Some s' \<Longrightarrow> fp_inv s'"
proof (cases l)
  case (AddTask t)
  assume inv: "fp_inv s" and "fp_step l s = Some s'"
  then have s': "s' = s\<lparr>pool := addTask t (pool s), added := added s @ [t],
             assigned := (if free_workers (pool s) = [] then assigned s else assigned s @ [t])\<rparr>" by (simp add: AddTask)
  have ok: "pool_ok (pool s)" using inv by (simp add: fp_inv_def)
  have g: "gone (addTask t (pool s)) = gone (pool s)" by (simp add: gone_def)
  have q: "dispatch_queue (addTask t (pool s)) = (if free_workers (pool s) = [] then dispatch_queue (pool s) @ [t] else [])"
    using ok by (cases "free_workers (pool s)") (simp_all add: addTask_def assignTask_def pool_ok_def)
  have qe: "free_workers (pool s) \<noteq> [] \<Longrightarrow> dispatch_queue (pool s) = []" using ok by (simp add: pool_ok_def)
  have "mset (assigned s') = (\<Sum>w < n_workers (pool s'). held (pool s') w) + mset (completed s')"
    using inv addTask_held [OF ok, of t] qe unfolding fp_inv_def s' q by (auto split: if_splits)
  moreover have "added s' = assigned s' @ dispatch_queue (pool s')"
    using inv qe unfolding fp_inv_def s' by (auto simp: q)
  ultimately show ?thesis using inv addTask_ok [OF ok, of t] g s' unfolding fp_inv_def by simp
next
  case (FallAsleep w)
  assume inv: "fp_inv s" and "fp_step l s = Some s'"
  then obtain p where p: "worker_sleep w (pool s) = Some p" "s' = s\<lparr>pool := p\<rparr>" by (auto simp: FallAsleep Option.bind_eq_Some_conv)
  then show ?thesis using inv worker_nap_spec [of "pool s" w p] by (simp add: fp_inv_def)
next
  case (WakeUp w)
  assume inv: "fp_inv s" and "fp_step l s = Some s'"
  then obtain p where p: "worker_spurious w (pool s) = Some p" "s' = s\<lparr>pool := p\<rparr>" by (auto simp: WakeUp Option.bind_eq_Some_conv)
  then show ?thesis using inv worker_nap_spec [of "pool s" w p] by (simp add: fp_inv_def)
next
  case (Take w)
  assume inv: "fp_inv s" and st: "fp_step l s = Some s'"
  then obtain p where p: "worker_take w (pool s) = Some p"
    "s' = s\<lparr>pool := p, completed := (if phases p ! w = Gone then completed s @ [None] else completed s)\<rparr>"
    by (auto simp: Take Option.bind_eq_Some_conv)
  have "finite (gone (pool s))" by (simp add: gone_def)
  with worker_take_spec [OF _ p(1)] inv show ?thesis
    unfolding fp_inv_def p(2) by (auto simp: ac_simps split: if_splits)
next
  case (Return w)
  assume inv: "fp_inv s" and st: "fp_step l s = Some s'"
  then obtain p t where p: "worker_return w (pool s) = Some p" "phases (pool s) ! w = Running t"
    "s' = s\<lparr>pool := p, completed := completed s @ [Some t],
            assigned := (if last_worker (pool s) ! w then assigned s else assigned s @ take 1 (dispatch_queue (pool s)))\<rparr>"
    by (cases "phases (pool s) ! w") (auto simp: Return Option.bind_eq_Some_conv)
  have ok: "pool_ok (pool s)" using inv by (simp add: fp_inv_def)
  obtain t' where r: "phases (pool s) ! w = Running t'" "pool_ok p" "n_workers p = n_workers (pool s)"
    "last_worker p = last_worker (pool s)" "w < n_workers (pool s)"
    "(\<Sum>v < n_workers (pool s). held p v) + {#Some t'#} = (\<Sum>v < n_workers (pool s). held (pool s) v)
       + (if last_worker (pool s) ! w then {#} else mset (take 1 (dispatch_queue (pool s))))"
    "dispatch_queue (pool s) = (if last_worker (pool s) ! w then [] else take 1 (dispatch_queue (pool s))) @ dispatch_queue p"
    "\<not> last_worker (pool s) ! w \<Longrightarrow> gone p = gone (pool s)"
    using worker_return_spec [OF ok p(1)] by blast
  have t: "t' = t" using r(1) p(2) by simp
  have lw: "last_worker (pool s) ! w \<Longrightarrow> True \<in> set (last_worker (pool s))"
    using pool_okD(5) [OF ok r(5)] by (metis nth_mem)
  have "mset (assigned s') = (\<Sum>w < n_workers (pool s'). held (pool s') w) + mset (completed s')"
    using inv r(3,6) t unfolding fp_inv_def p(3) by (auto simp: ac_simps)
  moreover have "added s' = assigned s' @ dispatch_queue (pool s')"
    using inv r(7) unfolding fp_inv_def p(3) by (auto split: if_splits)
  moreover have "True \<notin> set (last_worker (pool s')) \<longrightarrow> card (gone (pool s')) = count (mset (completed s')) None"
  proof (cases "last_worker (pool s) ! w")
    case False
    then show ?thesis using inv r(4) r(8) [OF False] unfolding fp_inv_def p(3) by auto
  qed (use lw r(4) in \<open>auto simp: p(3)\<close>)
  ultimately show ?thesis using r(2) p(3) unfolding fp_inv_def by simp
next
  case (StopJoin c)
  assume inv: "fp_inv s" and "fp_step l s = Some s'"
  then obtain p where p: "stop_join c (pool s) = Some p" "s' = s\<lparr>pool := p\<rparr>" by (auto simp: StopJoin Option.bind_eq_Some_conv)
  have ok: "pool_ok (pool s)" using inv by (simp add: fp_inv_def)
  obtain lw where lw: "p = (pool s)\<lparr>last_worker := lw\<rparr>" "length lw = length (last_worker (pool s))"
      "lw = last_worker (pool s) \<or> True \<in> set lw"
  proof (cases c)
    case None
    then show thesis using p(1) by (intro that [of "last_worker (pool s)"]) (auto simp: stop_join_def split: if_splits)
  next
    case (Some w)
    then have w: "w < n_workers (pool s)" "p = (pool s)\<lparr>last_worker := (last_worker (pool s))[w := True]\<rparr>"
      using p(1) by (auto simp: stop_join_def n_workers_def split: if_splits)
    with set_update_memI [OF pool_okD(5) [OF ok w(1)]] show thesis
      by (intro that [of "(last_worker (pool s))[w := True]"]) auto
  qed
  have "held p = held (pool s)" "gone p = gone (pool s)" "n_workers p = n_workers (pool s)"
    by (simp_all add: lw(1) held_def gone_def n_workers_def fun_eq_iff)
  moreover have "pool_ok p" using inv lw(1,2) by (simp add: fp_inv_def pool_ok_def n_workers_def)
  ultimately show ?thesis using inv lw p(2) unfolding fp_inv_def by auto
qed

interpretation fastpool: machine fp_step fp_init fp_inv
  by unfold_locales (fact fp_init_inv, fact fp_step_inv)

text \<open>What worker actions use up.\<close>

definition duty :: "'t ThreadPoolFast \<Rightarrow> nat \<Rightarrow> nat" where
  "duty p w = (if has_task (wrk p ! w) then 2 else 0) + (case phases p ! w of Running t \<Rightarrow> 1 | _ \<Rightarrow> 0)"

definition work_left :: "'t ThreadPoolFast \<Rightarrow> nat" where
  "work_left p = (\<Sum>w < n_workers p. duty p w) + 3 * length (dispatch_queue p)"

text \<open>The actions of the workers, and those among them that get work done.\<close>

fun task_action :: "'t fp_action \<Rightarrow> bool" where
  "task_action (Take w) = True"
| "task_action (Return w) = True"
| "task_action _ = False"

fun worker_action :: "'t fp_action \<Rightarrow> bool" where
  "worker_action (FallAsleep w) = True"
| "worker_action (WakeUp w) = True"
| "worker_action l = task_action l"

lemma take_uses_work:
  assumes "pool_ok p" "worker_take w p = Some p'"
  shows "work_left p' < work_left p"
proof -
  have w: "w < n_workers p" "phases p ! w = Waiting" "has_task (wrk p ! w)" "w < length (phases p)" "\<not> asleep (wrk p ! w)"
    using assms by (auto simp: worker_take_def pool_ok_def n_workers_def split: if_splits)
  obtain ph where e: "p' = p\<lparr>wrk := (wrk p)[w := (wrk p ! w)\<lparr>has_task := False\<rparr>], phases := (phases p)[w := ph]\<rparr>"
    using assms(2) w by (auto simp: worker_take_def Let_def n_workers_def split: option.splits)
  have "(\<Sum>v < n_workers p. duty p' v) + duty p w = (\<Sum>v < n_workers p. duty p v) + duty p' w"
    by (rule sum_change_one [OF w(1)]) (simp add: e duty_def)
  moreover have "duty p' w < duty p w" using w by (auto simp: e duty_def n_workers_def split: phase.splits)
  ultimately show ?thesis by (simp add: work_left_def e n_workers_def)
qed

lemma return_uses_work:
  assumes "pool_ok p" "worker_return w p = Some p'"
  shows "work_left p' < work_left p"
proof -
  from assms obtain t where t: "phases p ! w = Running t" and w: "w < n_workers p"
    by (auto simp: worker_return_def n_workers_def split: if_splits phase.splits)
  have wl: "w < length (wrk p)" "w < length (phases p)" using w pool_okD(4) [OF assms(1) w] by (simp_all add: n_workers_def)
  have nh: "\<not> has_task (wrk p ! w)" using pool_okD(2) [OF assms(1) w] t by auto
  obtain wk ph where p': "wrk p' = wk" "phases p' = (phases p)[w := ph]" "\<And>v. v \<noteq> w \<Longrightarrow> wk ! v = wrk p ! v"
      "length wk = length (wrk p)" "ph = Gone \<or> ph = Waiting"
      "has_task (wk ! w) \<Longrightarrow> length (dispatch_queue p) = Suc (length (dispatch_queue p'))"
      "length (dispatch_queue p') \<le> length (dispatch_queue p)"
  proof (cases "last_worker p ! w")
    case True
    then show thesis using assms(2) t wl nh by (intro that [of "wrk p" Gone]) (auto simp: worker_return_def)
  next
    case False
    then show thesis using assms(2) t wl nh
      by (intro that [of "wrk p'" Waiting]; cases "dispatch_queue p")
        (auto simp: worker_return_def queueWorker_def assignTask_def)
  qed
  have "(\<Sum>v < n_workers p. duty p' v) + duty p w = (\<Sum>v < n_workers p. duty p v) + duty p' w"
    by (rule sum_change_one [OF w]) (simp add: p' duty_def)
  moreover have "duty p w = 1" using t nh by (simp add: duty_def)
  moreover have "duty p' w = (if has_task (wk ! w) then 2 else 0)" using wl p'(5) by (elim disjE) (simp_all add: p'(1,2) duty_def)
  moreover have "n_workers p' = n_workers p" by (simp add: n_workers_def p')
  ultimately show ?thesis using p'(6,7) by (cases "has_task (wk ! w)") (simp_all add: work_left_def)
qed

lemma nap_keeps_work:
  "pool_ok p \<Longrightarrow> worker_sleep w p = Some p' \<Longrightarrow> work_left p' = work_left p"
  "pool_ok p \<Longrightarrow> worker_spurious w p = Some p' \<Longrightarrow> work_left p' = work_left p"
  using worker_nap_spec [of p w p'] by (simp_all add: work_left_def duty_def)

lemma worker_action_uses_work:
  assumes "fp_inv s" "worker_action l" "fp_step l s = Some s'"
  shows "work_left (pool s') + (if task_action l then 1 else 0) \<le> work_left (pool s)"
proof -
  have ok: "pool_ok (pool s)" using assms(1) by (simp add: fp_inv_def)
  show ?thesis
  proof (cases l)
    case (Return w)
    then show ?thesis using assms(3) return_uses_work [OF ok, of w]
      by (cases "phases (pool s) ! w") (auto simp: Option.bind_eq_Some_conv Suc_le_eq)
  qed (use assms(2,3) take_uses_work [OF ok] nap_keeps_work [OF ok] in \<open>auto simp: Option.bind_eq_Some_conv Suc_le_eq\<close>)
qed

lemma workers_bounded:
  assumes "fp_inv s" "list_all worker_action ls" "exec fp_step ls s = Some s'"
  shows "length (filter task_action ls) + work_left (pool s') \<le> work_left (pool s)"
  using assms
proof (induction ls arbitrary: s)
  case (Cons l ls)
  then obtain s1 where s1: "fp_step l s = Some s1" "exec fp_step ls s1 = Some s'" by (auto simp: Option.bind_eq_Some_conv)
  with worker_action_uses_work [of s l s1] fp_step_inv [of s l s1] Cons.IH [of s1] Cons.prems
  show ?case by (cases "task_action l") auto
qed simp

lemma fp_step_added:
  "fp_step l s = Some s' \<Longrightarrow> added s' = added s @ (case l of AddTask t \<Rightarrow> [t] | _ \<Rightarrow> [])"
proof (cases l)
  case (Return w)
  assume "fp_step l s = Some s'"
  then show ?thesis by (cases "phases (pool s) ! w") (auto simp: Return Option.bind_eq_Some_conv)
qed (auto simp: Option.bind_eq_Some_conv)

lemma exec_added:
  "exec fp_step ls s = Some s' \<Longrightarrow> length (filter ((=) (AddTask t)) ls) \<le> count (mset (added s')) t"
proof (induction ls arbitrary: s' rule: rev_induct)
  case (snoc l ls)
  then obtain s1 where "exec fp_step ls s = Some s1" "fp_step l s1 = Some s'"
    by (auto simp: exec_append Option.bind_eq_Some_conv)
  with snoc.IH [of s1] fp_step_added [of l s1 s'] show ?case by auto
qed simp

lemma fp_step_workers: "fp_inv s \<Longrightarrow> fp_step l s = Some s' \<Longrightarrow> n_workers (pool s') = n_workers (pool s)"
proof (cases l)
  case (Return w)
  assume "fp_inv s" "fp_step l s = Some s'"
  then obtain p where p: "worker_return w (pool s) = Some p" "pool s' = p" "pool_ok (pool s)"
    by (cases "phases (pool s) ! w") (auto simp: Return fp_inv_def Option.bind_eq_Some_conv)
  then show ?thesis using worker_return_spec [OF p(3,1)] by metis
next
  case (StopJoin c)
  assume "fp_step l s = Some s'"
  then show ?thesis by (auto simp: StopJoin stop_join_def n_workers_def Option.bind_eq_Some_conv split: if_splits option.splits)
qed (auto simp: fp_inv_def Option.bind_eq_Some_conv dest: worker_take_spec worker_nap_spec)

lemma exec_workers: "fp_inv s \<Longrightarrow> exec fp_step ls s = Some s' \<Longrightarrow> n_workers (pool s') = n_workers (pool s)"
proof (induction ls arbitrary: s)
  case (Cons l ls)
  then obtain s1 where s1: "fp_step l s = Some s1" "exec fp_step ls s1 = Some s'" by (auto simp: Option.bind_eq_Some_conv)
  with Cons fp_step_inv [of s l s1] fp_step_workers [of s l s1] show ?case by simp
qed simp

text \<open>The calls of \<^verbatim>\<open>addTask\<close> that \<^verbatim>\<open>stop\<close> makes, in a schedule: one NULL task per worker has been added.\<close>

lemma stop_requests_added:
  assumes "fp_inv s0" "exec fp_step ls s0 = Some s" "subseq (map AddTask (stop_requests (pool s0))) ls"
  shows "n_workers (pool s) \<le> count (mset (added s)) None"
proof -
  have "length (map AddTask (stop_requests (pool s0))) \<le> length (filter ((=) (AddTask None)) ls)"
    using list_emb_length [OF subseq_filter [OF assms(3), of "(=) (AddTask None)"]] by (simp add: stop_requests_def)
  then show ?thesis using exec_added [OF assms(2), of None] exec_workers [OF assms(1,2)]
    by (simp add: stop_requests_def n_workers_def)
qed

section \<open>Properties\<close>

text \<open>
  C9. Under every interleaving of calls and workers, the fast pool loses no task, runs none
  twice and hands them out in the order they were added: the tasks handed to workers followed by
  the queued ones are the added tasks in order, and those handed out are exactly the ones in a
  mailbox, running or completed. A worker is never idle while a task is queued, and a task is only
  ever put into an empty mailbox of a waiting worker.
\<close>

theorem fast_pool_fifo:
  assumes "reachable fp_step fp_init s"
  shows "added s = assigned s @ dispatch_queue (pool s)
    \<and> mset (assigned s) = (\<Sum>w < length (wrk (pool s)). held (pool s) w) + mset (completed s)
    \<and> (free_workers (pool s) \<noteq> [] \<longrightarrow> dispatch_queue (pool s) = [])
    \<and> (\<forall>w \<in> set (free_workers (pool s)). phases (pool s) ! w = Waiting \<and> \<not> has_task (wrk (pool s) ! w))"
proof -
  have "fp_inv s" using fastpool.reachable_inv [OF assms] .
  then show ?thesis by (auto simp: fp_inv_def pool_ok_def n_workers_def)
qed

definition fp_start :: "nat \<Rightarrow> 't fp_state" where
  "fp_start n = \<lparr>pool = new_ThreadPoolFast n, added = [], assigned = [], completed = []\<rparr>"

lemma reachable_start: "reachable fp_step fp_init (fp_start n)"
  by (rule reach_init) (auto simp: fp_init_def fp_start_def)

definition example_run :: "nat fp_action list" where
  "example_run = [AddTask (Some 7), AddTask (Some 8), Take 0, Return 0, Take 0]"

lemma example_run: "\<exists>s. exec fp_step example_run (fp_start 1) = Some s \<and> added s = [Some 7, Some 8] \<and> assigned s = [Some 7, Some 8]"
  by (simp add: example_run_def fp_start_def new_ThreadPoolFast_def create_worker_def queueWorker_def addTask_def
      assignTask_def worker_take_def worker_return_def Let_def)

theorem fast_pool_fifo_witness:
  "\<exists>s. exec fp_step example_run (fp_start 1) = Some s \<and> added s = [Some 7, Some 8]
     \<and> added s = assigned s @ dispatch_queue (pool s)"
proof -
  from example_run obtain s where s: "exec fp_step example_run (fp_start 1) = Some s" "added s = [Some 7, Some 8]" by blast
  from fast_pool_fifo [OF reachable_exec [OF reachable_start s(1)]] s show ?thesis by blast
qed

text \<open>
  C24. \<^verbatim>\<open>stop\<close> terminates when the tasks do. Take any execution in which \<^verbatim>\<open>stop\<close> has made its calls of
  \<^verbatim>\<open>addTask\<close>, among any other actions. From there the workers, which may sleep and wake up
  spuriously any number of times, take tasks and come back from them only a bounded number of times;
  and when none but the calling worker (if the call comes from one) has a task to take or to come
  back from, all the others have exited, so that the joins return. A stop request that is not added,
  or a signal that is not sent to a sleeping worker, would leave a worker asleep forever.
\<close>

theorem stop_terminates:
  assumes "reachable fp_step fp_init s0" "exec fp_step ls s0 = Some s"
    and "subseq (map AddTask (stop_requests (pool s0))) ls" "True \<notin> set (last_worker (pool s))"
  shows "(\<forall>ls' s'. list_all worker_action ls' \<and> exec fp_step ls' s = Some s' \<longrightarrow> length (filter task_action ls') \<le> work_left (pool s))
    \<and> ((\<forall>w. Some w \<noteq> c \<longrightarrow> fp_step (Take w) s = None \<and> fp_step (Return w) s = None)
         \<and> (\<forall>w. c = Some w \<longrightarrow> w < length (wrk (pool s)) \<and> (\<exists>t. phases (pool s) ! w = Running t))
       \<longrightarrow> stop_join c (pool s) \<noteq> None)"
proof -
  let ?p = "pool s" and ?n = "n_workers (pool s)"
  have inv0: "fp_inv s0" using fastpool.reachable_inv [OF assms(1)] .
  have inv: "fp_inv s" using fastpool.exec_inv [OF inv0 assms(2)] .
  then have ok: "pool_ok ?p" by (simp add: fp_inv_def)
  have nulls: "?n \<le> count (mset (added s)) None" using stop_requests_added [OF inv0 assms(2,3)] .
  have "stop_join c ?p \<noteq> None"
    if quiet: "\<forall>w. Some w \<noteq> c \<longrightarrow> fp_step (Take w) s = None \<and> fp_step (Return w) s = None"
      and c: "\<forall>w. c = Some w \<longrightarrow> w < length (wrk ?p) \<and> (\<exists>t. phases ?p ! w = Running t)"
  proof -
    have still: "\<not> has_task (wrk ?p ! w) \<and> (\<forall>t. phases ?p ! w \<noteq> Running t)" if "w < ?n" "Some w \<noteq> c" for w
    proof
      from quiet that(2) have "fp_step (Take w) s = None" and q2: "fp_step (Return w) s = None" by blast+
      then have q: "worker_take w ?p = None" by (simp split: Option.bind_splits)
      then show "\<not> has_task (wrk ?p ! w)"
        using that(1) pool_okD(2,3) [OF ok that(1)] by (auto simp: worker_take_def n_workers_def Let_def split: if_splits)
      show "\<forall>t. phases ?p ! w \<noteq> Running t"
        using q2 that(1) by (auto simp: worker_return_def n_workers_def)
    qed
    have "phases ?p ! w = Gone" if w: "w < ?n" "Some w \<noteq> c" for w
    proof (rule ccontr)
      assume "phases ?p ! w \<noteq> Gone"
      with still [OF w] have "phases ?p ! w = Waiting" "\<not> has_task (wrk ?p ! w)" by (cases "phases ?p ! w"; simp)+
      with pool_okD(1) [OF ok w(1)] have "w \<in> set (free_workers ?p)" by simp
      then have "dispatch_queue ?p = []" using ok by (auto simp: pool_ok_def)
      then have "mset (added s) = (\<Sum>v < ?n. held ?p v) + mset (completed s)" using inv by (simp add: fp_inv_def)
      moreover have "None \<notin># held ?p v" if "v < ?n" for v
        using still [OF that] c pool_okD(2) [OF ok that] by (cases "Some v = c") (auto simp: held_def split: phase.splits)
      then have "None \<notin># (\<Sum>v < ?n. held ?p v)" by (auto simp: set_mset_sum)
      ultimately have "count (mset (added s)) None = count (mset (completed s)) None" by (simp add: not_in_iff)
      also have "\<dots> = card (gone ?p)" using inv assms(4) by (simp add: fp_inv_def)
      finally have "?n \<le> card (gone ?p)" using nulls by simp
      moreover have "gone ?p \<subseteq> {..< ?n} - {w}" using \<open>phases ?p ! w \<noteq> Gone\<close> by (auto simp: gone_def)
      then have "card (gone ?p) \<le> card ({..< ?n} - {w})" by (intro card_mono) auto
      ultimately show False using w(1) by simp
    qed
    then have "\<forall>w \<in> {0 ..< length (wrk ?p)}. Some w = c \<or> phases ?p ! w = Gone" unfolding n_workers_def by (metis atLeastLessThan_iff)
    then show ?thesis using c by (auto simp: stop_join_def split: option.splits)
  qed
  then show ?thesis using workers_bounded [OF inv] by (meson add_leD1)
qed

definition example_stop :: "nat fp_action list" where
  "example_stop = [FallAsleep 0, AddTask None, Take 0]"

theorem stop_terminates_witness:
  "\<exists>s. exec fp_step example_stop (fp_start 1) = Some s \<and> stop_join None (pool s) \<noteq> None"
proof -
  have "\<exists>s. exec fp_step example_stop (fp_start 1) = Some s \<and> True \<notin> set (last_worker (pool s))
      \<and> subseq (map AddTask (stop_requests (pool (fp_start 1 :: nat fp_state)))) example_stop
      \<and> wrk (pool s) = [\<lparr>has_task = False, w_task = None, asleep = False\<rparr>] \<and> phases (pool s) = [Gone]"
    by (simp add: example_stop_def fp_start_def new_ThreadPoolFast_def create_worker_def queueWorker_def addTask_def
        assignTask_def worker_take_def worker_sleep_def stop_requests_def Let_def)
  then obtain s where s: "exec fp_step example_stop (fp_start 1) = Some s" "True \<notin> set (last_worker (pool s))"
      "subseq (map AddTask (stop_requests (pool (fp_start 1 :: nat fp_state)))) example_stop"
      "wrk (pool s) = [\<lparr>has_task = False, w_task = None, asleep = False\<rparr>]" "phases (pool s) = [Gone]"
    by blast
  have "fp_step (Take w) s = None" "fp_step (Return w) s = None" for w
    using s(4,5) by (auto simp: worker_take_def worker_return_def)
  then have "stop_join None (pool s) \<noteq> None"
    using stop_terminates [OF reachable_start s(1,3,2), of None] by (simp del: fp_step.simps)
  with s(1) show ?thesis by blast
qed

end
