(* ===== verification/File_Cache.thy ===== *)
theory File_Cache
  imports Buffer_Correct State_Machine
begin

text \<open>
  The file cache (\<^verbatim>\<open>file_cache.hpp\<close>, \<^verbatim>\<open>file_cache.cpp\<close>). \<^verbatim>\<open>pin\<close> is split where it takes and
  leaves its lock: the lookup, the count of a hit, the loading of the file without a lock, the
  installation, and the count of the call. Nodes and buffers have addresses, so that evicted nodes
  and deleted buffers stay visible to the threads that still use them. What the operating system
  returns for a file is a parameter. Log messages have no effect but \<^verbatim>\<open>FATAL\<close>, which exits.
\<close>

record CacheNode =
  file_name :: string
  nbuf :: nat
  count_unpin :: int

record FileCache =
  nodes :: "nat \<Rightarrow> CacheNode option"
  bufs :: "nat \<Rightarrow> Buffer option"
  next_id :: nat
  cache_map :: "string \<Rightarrow> nat option"
  PinnedFiles :: "string list"
  CacheSize :: int
  pins_total :: int
  hits_total :: int
  failed_total :: int
  bytes_used :: int
  bytes_unpinned_files :: int
  wlocked :: bool

text \<open>
  \<open>FBlocked\<close>: the call waits for a lock nobody releases; \<open>FExit\<close>: a fatal log message; \<open>FUndef\<close>:
  undefined behaviour, or a call that does not return.
\<close>

datatype 'a fc_result = FOk 'a | FBlocked | FExit | FUndef

definition new_FileCache :: "int \<Rightarrow> FileCache" where
  "new_FileCache max_size =
     \<lparr>nodes = (\<lambda>_. None), bufs = (\<lambda>_. None), next_id = 0, cache_map = (\<lambda>_. None), PinnedFiles = [],
      CacheSize = max_size, pins_total = 0, hits_total = 0, failed_total = 0, bytes_used = 0,
      bytes_unpinned_files = 0, wlocked = False\<rparr>"

definition maxSize :: "FileCache \<Rightarrow> int" where "maxSize c = CacheSize c"

definition bytesUsed :: "FileCache \<Rightarrow> int" where "bytesUsed c = bytes_used c"

definition pins :: "FileCache \<Rightarrow> int" where "pins c = pins_total c"

definition hits :: "FileCache \<Rightarrow> int" where "hits c = hits_total c"

definition failed :: "FileCache \<Rightarrow> int" where "failed c = failed_total c"

section \<open>Loading a file\<close>

text \<open>
  What the operating system does with a file: whether it can be opened, the size \<^verbatim>\<open>fstat\<close> reports,
  and the result of the i-th \<^verbatim>\<open>read\<close> (\<open>None\<close>: an error).
\<close>

record os_file =
  can_open :: bool
  st_size :: nat
  reads :: "nat \<Rightarrow> string option"

datatype load_result = OpenFailed | ReadFailed | Loaded Buffer

partial_function (option) read_loop :: "(nat \<Rightarrow> string option) \<Rightarrow> nat \<Rightarrow> nat \<Rightarrow> Buffer \<Rightarrow> (nat \<times> Buffer) option option" where
  "read_loop rd i to_read b =
     (if to_read > 0 then
        (case reserve BlockSize b of
           None \<Rightarrow> None
         | Some (_, b1) \<Rightarrow>
             (case rd i of
                None \<Rightarrow> Some None
              | Some s \<Rightarrow>
                  (case poke (map Some s) b1 of
                     None \<Rightarrow> None
                   | Some b2 \<Rightarrow> read_loop rd (Suc i) (size_sub to_read (length s)) b2)))
      else Some (Some (to_read, b)))"

definition load_file :: "os_file \<Rightarrow> load_result option" where
  "load_file f =
     (if \<not> can_open f then Some OpenFailed
      else (case read_loop (reads f) 0 (st_size f) new_Buffer of
              None \<Rightarrow> None
            | Some None \<Rightarrow> Some ReadFailed
            | Some (Some (to_read, b)) \<Rightarrow>
                map_option (\<lambda>(_, b'). Loaded b') (advance (size_sub (st_size f) to_read) b)))"

section \<open>Operations\<close>

text \<open>The handle of a file and its buffer are the addresses of its node and of the node's buffer.\<close>

definition pin_lookup :: "string \<Rightarrow> FileCache \<Rightarrow> (nat \<times> nat) option fc_result" where
  "pin_lookup name c =
     (if wlocked c then FBlocked
      else case cache_map c name of
             None \<Rightarrow> FOk None
           | Some h \<Rightarrow> (case nodes c h of None \<Rightarrow> FUndef | Some n \<Rightarrow> FOk (Some (h, nbuf n))))"

definition pin_hit :: "nat \<Rightarrow> FileCache \<Rightarrow> FileCache fc_result" where
  "pin_hit h c =
     (case nodes c h of
        None \<Rightarrow> FUndef
      | Some n \<Rightarrow> FOk (c\<lparr>nodes := (nodes c)(h \<mapsto> n\<lparr>count_unpin := count_unpin n + 1\<rparr>), hits_total := hits_total c + 1\<rparr>))"

text \<open>
  The two identical insertions of \<^verbatim>\<open>pin\<close>: a node for the new buffer \<open>bid\<close>; when another thread
  has cached the file meanwhile, the buffer is deleted although \<^verbatim>\<open>*buf\<close> already points to it.
\<close>

definition insert_node :: "string \<Rightarrow> nat \<Rightarrow> Buffer \<Rightarrow> FileCache \<Rightarrow> (nat option \<times> nat option \<times> FileCache) fc_result" where
  "insert_node name bid b c =
     (let h = next_id c;
          c1 = c\<lparr>next_id := Suc h, nodes := (nodes c)(h \<mapsto> \<lparr>file_name = name, nbuf = bid, count_unpin = 1\<rparr>)\<rparr>
      in if cache_map c name = None then
           (case byteCount b of
              None \<Rightarrow> FUndef
            | Some k \<Rightarrow> FOk (Some h, Some bid,
                c1\<lparr>cache_map := (cache_map c)(name \<mapsto> h), bytes_used := bytes_used c + int k,
                   PinnedFiles := PinnedFiles c @ [name]\<rparr>))
         else FOk (None, Some bid, c1\<lparr>bufs := (bufs c)(bid := None), hits_total := hits_total c + 1\<rparr>))"

text \<open>
  The eviction loop over the list of pinned files, of which \<open>kept\<close> were passed. A file whose count
  is 0 is evicted and its list node erased; going on from there increments an iterator to an
  erased node.
\<close>

fun evict_loop :: "nat \<Rightarrow> string list \<Rightarrow> string list \<Rightarrow> FileCache \<Rightarrow> FileCache fc_result" where
  "evict_loop need kept [] c = FOk c"
| "evict_loop need kept (f # fs) c =
     (case cache_map c f of
        None \<Rightarrow> FUndef
      | Some h \<Rightarrow>
          (case nodes c h of
             None \<Rightarrow> FUndef
           | Some n \<Rightarrow>
               if count_unpin n = 0 then
                 (case Option.bind (bufs c (nbuf n)) byteCount of
                    None \<Rightarrow> FUndef
                  | Some k \<Rightarrow>
                      let c1 = c\<lparr>bytes_used := bytes_used c - int k, cache_map := (cache_map c)(file_name n := None),
                                 PinnedFiles := kept @ fs\<rparr>
                      in if maxSize c1 - bytes_used c1 \<ge> int need then FOk c1 else FUndef)
               else if maxSize c - bytes_used c \<ge> int need then FOk c
               else evict_loop need (kept @ [f]) fs c))"

definition pin_fail :: "FileCache \<Rightarrow> (nat option \<times> nat option \<times> FileCache) fc_result" where
  "pin_fail c = FOk (None, None, c\<lparr>failed_total := failed_total c + 1\<rparr>)"

text \<open>The part of \<^verbatim>\<open>pin\<close> under the write lock, for a file of fsize \<open>fsize\<close> loaded into \<open>b\<close>.\<close>

definition pin_install :: "string \<Rightarrow> nat \<Rightarrow> Buffer \<Rightarrow> FileCache \<Rightarrow> (nat option \<times> nat option \<times> FileCache) fc_result" where
  "pin_install name fsize b c0 =
     (if wlocked c0 then FBlocked
      else
        let bid = next_id c0;
            c = c0\<lparr>next_id := Suc bid, bufs := (bufs c0)(bid \<mapsto> b)\<rparr>;
            free_space = maxSize c - bytesUsed c
        in if free_space \<ge> int fsize then insert_node name bid b c
           else if free_space + bytes_unpinned_files c < int fsize then pin_fail c
           else (case evict_loop fsize [] (PinnedFiles c) c of
                   FOk c1 \<Rightarrow> if maxSize c1 - bytes_used c1 \<ge> int fsize then insert_node name bid b c1 else pin_fail c1
                 | FBlocked \<Rightarrow> FBlocked | FExit \<Rightarrow> FExit | FUndef \<Rightarrow> FUndef))"

definition count_pin :: "FileCache \<Rightarrow> FileCache" where
  "count_pin c = c\<lparr>pins_total := pins_total c + 1\<rparr>"

text \<open>
  A whole call of \<^verbatim>\<open>pin\<close> by itself; \<open>buf\<close> is the value of \<^verbatim>\<open>*buf\<close> before the call, which the
  failing branches leave alone. The parameter \<^verbatim>\<open>error\<close> is assigned as a pointer, so that the
  caller's variable never changes. A file that cannot be read returns without counting the call.
\<close>

definition pin :: "os_file \<Rightarrow> string \<Rightarrow> nat option \<Rightarrow> FileCache \<Rightarrow> (nat option \<times> nat option \<times> FileCache) fc_result" where
  "pin f name buf c =
     (case pin_lookup name c of
        FOk (Some (h, bid)) \<Rightarrow>
          (case pin_hit h c of
             FOk c1 \<Rightarrow> FOk (Some h, Some bid, count_pin c1)
           | _ \<Rightarrow> FUndef)
      | FOk None \<Rightarrow>
          (case load_file f of
             None \<Rightarrow> FUndef
           | Some OpenFailed \<Rightarrow> FOk (None, buf, count_pin c)
           | Some ReadFailed \<Rightarrow> FOk (None, buf, c)
           | Some (Loaded b) \<Rightarrow>
               (case pin_install name (st_size f) b c of
                  FOk (h, bid, c1) \<Rightarrow> FOk (h, bid, count_pin c1)
                | FBlocked \<Rightarrow> FBlocked | FExit \<Rightarrow> FExit | FUndef \<Rightarrow> FUndef))
      | FBlocked \<Rightarrow> FBlocked | FExit \<Rightarrow> FExit | FUndef \<Rightarrow> FUndef)"

text \<open>\<^verbatim>\<open>unpin\<close>: with a NULL handle the lock is taken and not released.\<close>

definition unpin :: "nat option \<Rightarrow> FileCache \<Rightarrow> FileCache fc_result" where
  "unpin h c =
     (if wlocked c then FBlocked
      else case h of
             None \<Rightarrow> FOk (c\<lparr>wlocked := True\<rparr>)
           | Some h \<Rightarrow>
               (case nodes c h of
                  None \<Rightarrow> FUndef
                | Some hn \<Rightarrow>
                    (case cache_map c (file_name hn) of
                       None \<Rightarrow> FExit
                     | Some h' \<Rightarrow>
                         (case nodes c h' of
                            None \<Rightarrow> FUndef
                          | Some n \<Rightarrow>
                              if count_unpin n > 0 then
                                (case Option.bind (bufs c (nbuf n)) byteCount of
                                   None \<Rightarrow> FUndef
                                 | Some k \<Rightarrow> FOk (c\<lparr>nodes := (nodes c)(h' \<mapsto> n\<lparr>count_unpin := count_unpin n - 1\<rparr>),
                                                  bytes_unpinned_files := bytes_unpinned_files c + int k\<rparr>))
                              else FExit))))"

text \<open>The destructor deletes the buffers of the cached files; it leaks the nodes.\<close>

definition delete_FileCache :: "FileCache \<Rightarrow> nat list" where
  "delete_FileCache c = map (\<lambda>f. nbuf (the (nodes c (the (cache_map c f))))) (PinnedFiles c)"

section \<open>Invariant\<close>

definition file_size :: "FileCache \<Rightarrow> string \<Rightarrow> nat" where
  "file_size c f = (case Option.bind (Option.bind (cache_map c f) (nodes c)) (\<lambda>n. Option.bind (bufs c (nbuf n)) byteCount)
                    of None \<Rightarrow> 0 | Some k \<Rightarrow> k)"

definition node_ok :: "FileCache \<Rightarrow> string \<Rightarrow> nat \<Rightarrow> bool" where
  "node_ok c f h \<longleftrightarrow> (\<exists>n b k. nodes c h = Some n \<and> file_name n = f \<and> bufs c (nbuf n) = Some b \<and> byteCount b = Some k
     \<and> 0 \<le> count_unpin n \<and> h < next_id c \<and> nbuf n < next_id c)"

definition fc_inv :: "FileCache \<Rightarrow> bool" where
  "fc_inv c \<longleftrightarrow> distinct (PinnedFiles c) \<and> dom (cache_map c) = set (PinnedFiles c)
     \<and> (\<forall>f h. cache_map c f = Some h \<longrightarrow> node_ok c f h)
     \<and> bytes_used c = (\<Sum>f \<leftarrow> PinnedFiles c. int (file_size c f)) \<and> bytes_used c \<le> CacheSize c"

lemma fc_inv_new: "0 \<le> m \<Longrightarrow> fc_inv (new_FileCache m)"
  by (simp add: fc_inv_def new_FileCache_def)

lemma file_size_cong:
  assumes "cache_map c' f = cache_map c f" "\<And>h. cache_map c f = Some h \<Longrightarrow> map_option nbuf (nodes c' h) = map_option nbuf (nodes c h)
      \<and> (\<forall>n. nodes c h = Some n \<longrightarrow> bufs c' (nbuf n) = bufs c (nbuf n))"
  shows "file_size c' f = file_size c f"
proof (cases "cache_map c f")
  case (Some h)
  with assms(2) [OF Some] show ?thesis
    by (cases "nodes c h"; cases "nodes c' h") (auto simp: file_size_def assms(1))
qed (simp add: file_size_def assms(1))

lemma fc_invD: "fc_inv c \<Longrightarrow> cache_map c f = Some h \<Longrightarrow> node_ok c f h"
  by (simp add: fc_inv_def)

lemma fc_inv_frame:
  assumes "fc_inv c" "cache_map c' = cache_map c" "PinnedFiles c' = PinnedFiles c" "bytes_used c' = bytes_used c"
    "CacheSize c' = CacheSize c" "next_id c \<le> next_id c'"
    and "\<And>f h n. cache_map c f = Some h \<Longrightarrow> nodes c h = Some n \<Longrightarrow> 0 \<le> count_unpin n \<Longrightarrow> h < next_id c \<Longrightarrow> nbuf n < next_id c \<Longrightarrow>
      (\<exists>n'. nodes c' h = Some n' \<and> file_name n' = file_name n \<and> nbuf n' = nbuf n \<and> 0 \<le> count_unpin n')
      \<and> bufs c' (nbuf n) = bufs c (nbuf n)"
  shows "fc_inv c'"
proof -
  have ok: "node_ok c f h" if "cache_map c f = Some h" for f h using assms(1) that by (simp add: fc_inv_def)
  have ok': "node_ok c' f h" if m: "cache_map c f = Some h" for f h
  proof -
    obtain n b k where n: "nodes c h = Some n" "file_name n = f" "bufs c (nbuf n) = Some b" "byteCount b = Some k"
      "0 \<le> count_unpin n" "h < next_id c" "nbuf n < next_id c" using ok [OF m] by (auto simp: node_ok_def)
    with assms(6) assms(7) [OF m n(1,5,6,7)] show ?thesis by (auto simp: node_ok_def)
  qed
  have "file_size c' f = file_size c f" for f
  proof (rule file_size_cong)
    fix h assume h: "cache_map c f = Some h"
    obtain n where n: "nodes c h = Some n" "0 \<le> count_unpin n" "h < next_id c" "nbuf n < next_id c"
      using ok [OF h] by (auto simp: node_ok_def)
    from assms(7) [OF h n] n(1) show "map_option nbuf (nodes c' h) = map_option nbuf (nodes c h)
        \<and> (\<forall>n. nodes c h = Some n \<longrightarrow> bufs c' (nbuf n) = bufs c (nbuf n))" by auto
  qed (simp add: assms(2))
  with assms ok' show ?thesis by (simp add: fc_inv_def)
qed

lemma pin_hit_inv: "fc_inv c \<Longrightarrow> pin_hit h c = FOk c' \<Longrightarrow> fc_inv c'"
  by (rule fc_inv_frame [of c]) (auto simp: pin_hit_def split: option.splits)

lemma unpin_inv: "fc_inv c \<Longrightarrow> unpin h c = FOk c' \<Longrightarrow> fc_inv c'"
  by (rule fc_inv_frame [of c]) (auto simp: unpin_def split: option.splits if_splits)

lemma count_pin_inv: "fc_inv c \<Longrightarrow> fc_inv (count_pin c)"
  by (rule fc_inv_frame [of c]) (auto simp: count_pin_def)

lemma pin_fail_inv: "fc_inv c \<Longrightarrow> pin_fail c = FOk (h, bid, c') \<Longrightarrow> fc_inv c' \<and> h = None \<and> bid = None"
  by (auto simp: pin_fail_def intro: fc_inv_frame [of c])

text \<open>A fresh buffer belongs to no cached file.\<close>

lemma insert_node_inv:
  assumes "fc_inv c" "bufs c bid = Some b" "bid < next_id c" "\<forall>h n. nodes c h = Some n \<longrightarrow> h < next_id c \<longrightarrow> nbuf n \<noteq> bid"
    and "byteCount b = Some k" "bytes_used c + int k \<le> CacheSize c"
    and "insert_node name bid b c = FOk (h, bid', c')"
  shows "fc_inv c'"
proof (cases "cache_map c name")
  case (Some x)
  then have c': "c' = c\<lparr>next_id := Suc (next_id c), nodes := (nodes c)(next_id c \<mapsto> \<lparr>file_name = name, nbuf = bid, count_unpin = 1\<rparr>),
      bufs := (bufs c)(bid := None), hits_total := hits_total c + 1\<rparr>"
    using assms(7) by (auto simp: insert_node_def Let_def)
  show ?thesis by (rule fc_inv_frame [OF assms(1)]) (use assms(4) in \<open>auto simp: c'\<close>)
next
  case None
  let ?n = "\<lparr>file_name = name, nbuf = bid, count_unpin = 1\<rparr>"
  let ?c = "c\<lparr>next_id := Suc (next_id c), nodes := (nodes c)(next_id c \<mapsto> ?n)\<rparr>"
  have c': "c' = ?c\<lparr>cache_map := (cache_map c)(name \<mapsto> next_id c), bytes_used := bytes_used c + int k,
      PinnedFiles := PinnedFiles c @ [name]\<rparr>"
    using assms(5,7) None by (auto simp: insert_node_def Let_def)
  have inv: "fc_inv ?c" by (rule fc_inv_frame [OF assms(1)]) auto
  have nm: "name \<notin> set (PinnedFiles c)" using assms(1) None unfolding fc_inv_def by blast
  have new: "node_ok c' name (next_id c)" "file_size c' name = k"
    using assms(2,3,5) by (auto simp: node_ok_def file_size_def c')
  have sz: "file_size c' f = file_size ?c f" if "f \<noteq> name" for f
    by (rule file_size_cong) (use that in \<open>auto simp: c'\<close>)
  have nok: "node_ok c' f h" if "f \<noteq> name" "cache_map c f = Some h" for f h
  proof -
    have "node_ok ?c f h" using inv that(2) by (simp add: fc_inv_def)
    then show ?thesis by (simp add: node_ok_def c')
  qed
  have "map (\<lambda>f. int (file_size c' f)) (PinnedFiles c) = map (\<lambda>f. int (file_size ?c f)) (PinnedFiles c)"
    using sz nm by (intro map_cong refl) (metis)
  moreover have "bytes_used c = (\<Sum>f \<leftarrow> PinnedFiles c. int (file_size ?c f))" using inv by (simp add: fc_inv_def)
  ultimately have "bytes_used c = (\<Sum>f \<leftarrow> PinnedFiles c. int (file_size c' f))" by (simp only:)
  moreover have "bytes_used c' = bytes_used c + int k" "PinnedFiles c' = PinnedFiles c @ [name]" by (simp_all add: c')
  ultimately have "bytes_used c' = (\<Sum>f \<leftarrow> PinnedFiles c'. int (file_size c' f))" using new(2) by simp
  moreover have "dom (cache_map c') = set (PinnedFiles c')" using inv by (auto simp: fc_inv_def c')
  moreover have "distinct (PinnedFiles c')" using inv nm by (auto simp: fc_inv_def c')
  moreover have "\<forall>f h. cache_map c' f = Some h \<longrightarrow> node_ok c' f h" using nok new(1) by (auto simp: c')
  moreover have "bytes_used c' \<le> CacheSize c'" using assms(6) by (simp add: c')
  ultimately show ?thesis by (simp add: fc_inv_def)
qed

lemma evict_one_inv:
  assumes "fc_inv c" "PinnedFiles c = kept @ f # fs" "cache_map c f = Some h" "nodes c h = Some n"
    and "Option.bind (bufs c (nbuf n)) byteCount = Some k"
  shows "fc_inv (c\<lparr>bytes_used := bytes_used c - int k, cache_map := (cache_map c)(file_name n := None), PinnedFiles := kept @ fs\<rparr>)"
    (is "fc_inv ?c")
proof -
  have fn: "file_name n = f" using fc_invD [OF assms(1,3)] assms(4) by (auto simp: node_ok_def)
  have d: "distinct (kept @ f # fs)" "dom (cache_map c) = set (kept @ f # fs)" using assms(1,2) by (auto simp: fc_inv_def)
  have sz: "file_size ?c g = file_size c g" if "g \<noteq> f" for g
    by (rule file_size_cong) (use that fn in auto)
  have k: "file_size c f = k" using assms(3-5) by (simp add: file_size_def)
  have "map (\<lambda>g. int (file_size ?c g)) (kept @ fs) = map (\<lambda>g. int (file_size c g)) (kept @ fs)"
    using sz d(1) by (intro map_cong refl) (metis Un_iff distinct.simps(2) distinct_append not_distinct_conv_prefix set_append UnE disjoint_iff list.set_intros(1))
  then have "(\<Sum>g \<leftarrow> kept @ fs. int (file_size ?c g)) = (\<Sum>g \<leftarrow> kept @ fs. int (file_size c g))" by (simp only:)
  also have "\<dots> = bytes_used c - int k" using assms(1,2) k by (simp add: fc_inv_def)
  finally have s: "(\<Sum>g \<leftarrow> kept @ fs. int (file_size ?c g)) = bytes_used c - int k" .
  moreover have "node_ok ?c g x" if "cache_map c g = Some x" "g \<noteq> f" for g x
    using assms(1) that by (simp add: fc_inv_def node_ok_def)
  moreover have "dom (cache_map ?c) = set (kept @ fs)" using d fn by auto
  moreover have "distinct (kept @ fs)" using d by simp
  moreover have "bytes_used c - int k \<le> CacheSize c" using assms(1) by (simp add: fc_inv_def)
  ultimately show ?thesis unfolding fc_inv_def using fn by (simp del: map_append sum_list_append)
qed

lemma evict_loop_inv:
  assumes "fc_inv c" "PinnedFiles c = kept @ fs" "evict_loop need kept fs c = FOk c'"
  shows "fc_inv c' \<and> nodes c' = nodes c \<and> bufs c' = bufs c \<and> next_id c' = next_id c \<and> CacheSize c' = CacheSize c"
  using assms
proof (induction fs arbitrary: kept)
  case (Cons f fs)
  then obtain h n where n: "cache_map c f = Some h" "nodes c h = Some n" by (auto split: option.splits)
  show ?case
  proof (cases "count_unpin n = 0")
    case True
    with Cons.prems(3) n obtain k where k: "Option.bind (bufs c (nbuf n)) byteCount = Some k"
      "c' = c\<lparr>bytes_used := bytes_used c - int k, cache_map := (cache_map c)(file_name n := None), PinnedFiles := kept @ fs\<rparr>"
      by (auto simp: Let_def split: option.splits if_splits)
    with evict_one_inv [OF Cons.prems(1,2) n k(1)] show ?thesis by simp
  next
    case False
    with Cons.prems n Cons.IH [of "kept @ [f]"] show ?thesis by (auto split: if_splits)
  qed
qed simp

text \<open>The ways through the section of \<^verbatim>\<open>pin\<close> under the write lock.\<close>

definition with_buf :: "Buffer \<Rightarrow> FileCache \<Rightarrow> FileCache" where
  "with_buf b c = c\<lparr>next_id := Suc (next_id c), bufs := (bufs c)(next_id c \<mapsto> b)\<rparr>"

lemma with_buf_simps [simp]:
  "next_id (with_buf b c) = Suc (next_id c)" "bufs (with_buf b c) = (bufs c)(next_id c \<mapsto> b)"
  "nodes (with_buf b c) = nodes c" "cache_map (with_buf b c) = cache_map c" "PinnedFiles (with_buf b c) = PinnedFiles c"
  "CacheSize (with_buf b c) = CacheSize c" "bytes_used (with_buf b c) = bytes_used c"
  "bytes_unpinned_files (with_buf b c) = bytes_unpinned_files c" "hits_total (with_buf b c) = hits_total c"
  "pins_total (with_buf b c) = pins_total c" "failed_total (with_buf b c) = failed_total c" "wlocked (with_buf b c) = wlocked c"
  by (simp_all add: with_buf_def)

lemma pin_install_eq:
  "\<not> wlocked c \<Longrightarrow> pin_install name fsize b c =
     (if CacheSize c - bytes_used c \<ge> int fsize then insert_node name (next_id c) b (with_buf b c)
      else if CacheSize c - bytes_used c + bytes_unpinned_files c < int fsize then pin_fail (with_buf b c)
      else (case evict_loop fsize [] (PinnedFiles c) (with_buf b c) of
              FOk c1 \<Rightarrow> if CacheSize c1 - bytes_used c1 \<ge> int fsize then insert_node name (next_id c) b c1 else pin_fail c1
            | FBlocked \<Rightarrow> FBlocked | FExit \<Rightarrow> FExit | FUndef \<Rightarrow> FUndef))"
  by (simp add: pin_install_def Let_def with_buf_def maxSize_def bytesUsed_def cong: fc_result.case_cong)

lemma pin_install_cases:
  assumes "pin_install name fsize b c = FOk r"
  obtains (Free) "int fsize \<le> CacheSize c - bytes_used c" "insert_node name (next_id c) b (with_buf b c) = FOk r"
  | (Full) "pin_fail (with_buf b c) = FOk r"
  | (Evict) c1 where "evict_loop fsize [] (PinnedFiles c) (with_buf b c) = FOk c1" "int fsize \<le> CacheSize c1 - bytes_used c1"
      "insert_node name (next_id c) b c1 = FOk r"
  | (EvictFull) c1 where "evict_loop fsize [] (PinnedFiles c) (with_buf b c) = FOk c1" "pin_fail c1 = FOk r"
proof -
  have w: "\<not> wlocked c" using assms by (auto simp: pin_install_def)
  show thesis
  proof (cases "int fsize \<le> CacheSize c - bytes_used c")
    case True
    with assms w that(1) show thesis by (simp add: pin_install_eq)
  next
    case F: False
    show thesis
    proof (cases "CacheSize c - bytes_used c + bytes_unpinned_files c < int fsize")
      case True
      with F assms w that(2) show thesis by (simp add: pin_install_eq)
    next
      case False
      with F w assms obtain c1 where "evict_loop fsize [] (PinnedFiles c) (with_buf b c) = FOk c1"
        "(if CacheSize c1 - bytes_used c1 \<ge> int fsize then insert_node name (next_id c) b c1 else pin_fail c1) = FOk r"
        by (auto simp: pin_install_eq split: fc_result.splits)
      with that(3,4) show thesis by (simp split: if_splits)
    qed
  qed
qed

lemma pin_install_inv:
  assumes "fc_inv c" "\<forall>h n. nodes c h = Some n \<longrightarrow> nbuf n < next_id c"
    and "byteCount b = Some k" "k \<le> fsize" "pin_install name fsize b c = FOk (h, bid, c')"
  shows "fc_inv c'"
proof -
  have inv: "fc_inv (with_buf b c)" by (rule fc_inv_frame [OF assms(1)]) auto
  have ins: "fc_inv c'" if "fc_inv c1" "nodes c1 = nodes c" "bufs c1 = bufs (with_buf b c)" "next_id c1 = Suc (next_id c)"
    "CacheSize c1 - bytes_used c1 \<ge> int fsize" "insert_node name (next_id c) b c1 = FOk (h, bid, c')" for c1
    by (rule insert_node_inv [OF that(1) _ _ _ assms(3) _ that(6)]) (use that assms(2,4) in fastforce)+
  have ev: "fc_inv c1 \<and> nodes c1 = nodes c \<and> bufs c1 = bufs (with_buf b c) \<and> next_id c1 = Suc (next_id c)"
    if "evict_loop fsize [] (PinnedFiles c) (with_buf b c) = FOk c1" for c1
    using evict_loop_inv [OF inv _ that] by simp
  from assms(5) show ?thesis
  proof (cases rule: pin_install_cases)
    case Free
    then show ?thesis using ins [OF inv] by simp
  next
    case Full
    then show ?thesis using pin_fail_inv [OF inv] by blast
  next
    case (Evict c1)
    then show ?thesis using ins ev by blast
  next
    case (EvictFull c1)
    then show ?thesis using pin_fail_inv ev by blast
  qed
qed

end
