(* ===== verification/File_Cache_Correct.thy ===== *)
theory File_Cache_Correct
  imports File_Cache
begin

text \<open>
  What the file cache guarantees: its capacity under every interleaving of pins and unpins, and
  the contents of the small files it loads; and where it fails: larger files, NULL handles, the
  eviction of more than one file, and pins that race with an eviction.
\<close>

section \<open>Loading\<close>

abbreviation empty_buf :: "chunk \<Rightarrow> Buffer" where
  "empty_buf c \<equiv> mk_buf [] c [] 0 0"

lemma reserve_empty: "reserve BlockSize (empty_buf c) = Some (True, empty_buf c)"
  by (simp add: reserve_def size_sub_def)

lemma poke_empty: "length s \<le> BlockSize \<Longrightarrow> poke s (empty_buf c) = Some (empty_buf (put_bytes c 0 s))"
  by (simp add: poke_def mk_buf_def dq_at_def dq_set_def)

lemma poke_empty_cases: "poke s (empty_buf c) = Some b \<Longrightarrow> \<exists>c'. b = empty_buf c'"
  by (auto simp: poke_def mk_buf_def dq_at_def dq_set_def split: if_splits)

lemma read_loop_done: "read_loop rd i 0 b = Some (Some (0, b))"
  by (subst read_loop.simps) simp

lemma read_loop_step:
  "0 < n \<Longrightarrow> rd i = Some s \<Longrightarrow> length s \<le> BlockSize \<Longrightarrow>
   read_loop rd i n (empty_buf c) = read_loop rd (Suc i) (size_sub n (length s)) (empty_buf (put_bytes c 0 (map Some s)))"
  by (subst read_loop.simps) (simp add: reserve_empty poke_empty)

definition loaded_shape :: "Buffer \<Rightarrow> (nat \<times> Buffer) option \<Rightarrow> bool" where
  "loaded_shape b y \<longleftrightarrow> (\<forall>c r b'. b = empty_buf c \<longrightarrow> y = Some (r, b') \<longrightarrow> r = 0 \<and> (\<exists>c'. b' = empty_buf c'))"

lemma read_loop_loaded:
  assumes "read_loop rd i n b = Some y" shows "loaded_shape b y"
proof (rule read_loop.raw_induct [OF _ assms, of "\<lambda>rd i n b. loaded_shape b"])
  fix loop rd i n b y
  assume 1: "\<And>rd i n b y. loop rd i n b = Some y \<Longrightarrow> loaded_shape b y"
    "(if n > 0 then
        (case reserve BlockSize b of
           None \<Rightarrow> None
         | Some (_, b1) \<Rightarrow>
             (case rd i of
                None \<Rightarrow> Some None
              | Some s \<Rightarrow>
                  (case poke (map Some s) b1 of
                     None \<Rightarrow> None
                   | Some b2 \<Rightarrow> loop rd (Suc i) (size_sub n (length s)) b2)))
      else Some (Some (n, b))) = Some y"
  show "loaded_shape b y"
    unfolding loaded_shape_def
  proof (intro allI impI)
    fix c r b' assume b: "b = empty_buf c" and y: "y = Some (r, b')"
    show "r = 0 \<and> (\<exists>c'. b' = empty_buf c')"
    proof (cases "n > 0")
      case False
      with 1(2) b y show ?thesis by auto
    next
      case True
      with 1(2) b y obtain s b2 where s: "rd i = Some s" "poke (map Some s) (empty_buf c) = Some b2"
          "loop rd (Suc i) (size_sub n (length s)) b2 = Some y"
        by (auto simp: reserve_empty split: option.splits)
      obtain c2 where "b2 = empty_buf c2" using poke_empty_cases [OF s(2)] by blast
      with 1(1) [OF s(3)] y show ?thesis unfolding loaded_shape_def by blast
    qed
  qed
qed

lemma read_loop_shape:
  "read_loop rd i n (empty_buf c) = Some (Some (r, b)) \<Longrightarrow> r = 0 \<and> (\<exists>c'. b = empty_buf c')"
  using read_loop_loaded by (fastforce simp: loaded_shape_def)

lemma advance_empty:
  "advance n (empty_buf c) = Some (0 < n \<and> n \<le> BlockSize, mk_buf [] c [] (if n \<le> BlockSize then n else 0) 0)"
proof -
  have "writeSize (empty_buf c) = BlockSize" by (simp add: writeSize_mk)
  then show ?thesis by (simp add: advance_def mk_buf_def dq_at_def dq_set_def)
qed

lemma size_sub_0: "n < 2 ^ 64 \<Longrightarrow> size_sub n 0 = n"
  by (simp add: size_sub_def)

text \<open>
  Every loaded buffer: the size of the file when it fits into a chunk, nothing otherwise.
\<close>

definition loaded_size :: "os_file \<Rightarrow> nat" where
  "loaded_size f = (if st_size f \<le> BlockSize then st_size f else 0)"

lemma load_file_shape:
  assumes "load_file f = Some (Loaded b)"
  shows "\<exists>c. b = mk_buf [] c [] (loaded_size f) 0"
proof -
  have "read_loop (reads f) 0 (st_size f) (empty_buf fresh_chunk) \<noteq> None"
    using assms by (auto simp: load_file_def new_Buffer_mk split: if_splits option.splits)
  with assms obtain r b1 where r: "read_loop (reads f) 0 (st_size f) (empty_buf fresh_chunk) = Some (Some (r, b1))"
    "map_option (\<lambda>(_, b'). Loaded b') (advance (size_sub (st_size f) r) b1) = Some (Loaded b)"
    by (auto simp: load_file_def new_Buffer_mk split: if_splits option.splits)
  from read_loop_shape [OF r(1)] obtain c where "r = 0" "b1 = empty_buf c" by blast
  with r(2) show ?thesis by (auto simp: advance_empty size_sub_def loaded_size_def)
qed

lemma load_file_size:
  assumes "load_file f = Some (Loaded b)"
  shows "byteCount b = Some (loaded_size f)" "buf_inv b" "length (content b) = loaded_size f"
proof -
  obtain c where b: "b = mk_buf [] c [] (loaded_size f) 0" using load_file_shape [OF assms] by blast
  have ok: "buf_inv b" unfolding b by (rule buf_inv_mkI) (simp add: mk_ok_def loaded_size_def)
  have l: "length (content b) = loaded_size f" unfolding b by (simp add: content_mk loaded_size_def)
  show "byteCount b = Some (loaded_size f)" using byteCount_spec [OF ok] l by simp
  show "buf_inv b" "length (content b) = loaded_size f" by fact+
qed

lemma load_file_bound: "load_file f = Some (Loaded b) \<Longrightarrow> \<exists>k. byteCount b = Some k \<and> k \<le> st_size f"
  using load_file_size(1) [of f b] by (auto simp: loaded_size_def)

text \<open>A file of at most one chunk that the first \<^verbatim>\<open>read\<close> returns as a whole.\<close>

definition small_file :: "string \<Rightarrow> os_file" where
  "small_file s = \<lparr>can_open = True, st_size = length s, reads = (\<lambda>i. if i = 0 then Some s else Some [])\<rparr>"

lemma load_small_file:
  assumes "can_open f" "st_size f = length s" "length s \<le> BlockSize" "reads f 0 = Some s"
  shows "\<exists>b. load_file f = Some (Loaded b) \<and> content b = map Some s"
proof (cases "s = []")
  case True
  then have "read_loop (reads f) 0 (st_size f) new_Buffer = Some (Some (0, new_Buffer))"
    using assms(2) by (simp add: read_loop_done)
  then show ?thesis using assms True by (simp add: load_file_def size_sub_0 new_Buffer_mk advance_empty content_mk)
next
  case False
  have "size_sub (length s) (length s) = 0" by (simp add: size_sub_def)
  then have "read_loop (reads f) 0 (st_size f) (empty_buf fresh_chunk) =
      Some (Some (0, empty_buf (put_bytes fresh_chunk 0 (map Some s))))"
    using False assms read_loop_step [of "st_size f" "reads f" 0 s fresh_chunk] by (simp add: read_loop_done)
  moreover have "length s < 2 ^ 64" using assms(3) by (simp add: BlockSize_def)
  ultimately have "load_file f = Some (Loaded (mk_buf [] (put_bytes fresh_chunk 0 (map Some s)) [] (length s) 0))"
    using assms by (simp add: load_file_def size_sub_0 new_Buffer_mk advance_empty)
  moreover have "content (mk_buf [] (put_bytes fresh_chunk 0 (map Some s)) [] (length s) 0) = map Some s"
    by (auto simp: content_mk map_put_bytes put_bytes_def intro: nth_equalityI)
  ultimately show ?thesis by blast
qed

section \<open>Interleavings of pins and unpins\<close>

text \<open>
  The atomic sections of the two operations: the count of a hit (\<open>Hit\<close>), the installation of a file
  loaded before (\<open>Install\<close>), the count of a call (\<open>CountPin\<close>), and \<^verbatim>\<open>unpin\<close>. The lookup changes
  nothing; a hit may happen at any time after it, with any handle the lookup may have returned.
\<close>

datatype fc_action = Hit nat | Install string os_file | CountPin | Unpin "nat option"

fun fc_step :: "fc_action \<Rightarrow> FileCache \<Rightarrow> FileCache option" where
  "fc_step (Hit h) c = (case pin_hit h c of FOk c' \<Rightarrow> Some c' | _ \<Rightarrow> None)"
| "fc_step (Install name f) c =
     (case load_file f of
        Some (Loaded b) \<Rightarrow> (case pin_install name (st_size f) b c of FOk (_, _, c') \<Rightarrow> Some c' | _ \<Rightarrow> None)
      | _ \<Rightarrow> None)"
| "fc_step CountPin c = Some (count_pin c)"
| "fc_step (Unpin h) c = (case unpin h c of FOk c' \<Rightarrow> Some c' | _ \<Rightarrow> None)"

definition fc_init :: "FileCache \<Rightarrow> bool" where
  "fc_init c \<longleftrightarrow> 0 \<le> CacheSize c \<and> c = new_FileCache (CacheSize c)"

definition ids_ok :: "FileCache \<Rightarrow> bool" where
  "ids_ok c \<longleftrightarrow> (\<forall>i \<ge> next_id c. nodes c i = None) \<and> (\<forall>h n. nodes c h = Some n \<longrightarrow> nbuf n < next_id c)"

definition fc_good :: "FileCache \<Rightarrow> bool" where
  "fc_good c \<longleftrightarrow> fc_inv c \<and> ids_ok c"

lemma insert_node_ids:
  assumes "ids_ok c" "bid < next_id c" "insert_node name bid b c = FOk (h, bid', c')"
  shows "ids_ok c'"
proof -
  have n: "nodes c' = (nodes c)(next_id c \<mapsto> \<lparr>file_name = name, nbuf = bid, count_unpin = 1\<rparr>)" "next_id c' = Suc (next_id c)"
    using assms(3) by (auto simp: insert_node_def Let_def split: if_splits option.splits)
  show ?thesis using assms(1,2) unfolding ids_ok_def n by (auto intro: less_SucI)
qed

lemma evict_loop_frame:
  "evict_loop need kept fs c = FOk c' \<Longrightarrow> nodes c' = nodes c \<and> bufs c' = bufs c \<and> next_id c' = next_id c"
  by (induction need kept fs c rule: evict_loop.induct) (auto simp: Let_def split: option.splits if_splits)

lemma evict_loop_wlocked: "evict_loop need kept fs c = FOk c' \<Longrightarrow> wlocked c' = wlocked c"
  by (induction need kept fs c rule: evict_loop.induct) (auto simp: Let_def split: option.splits if_splits)

lemma pin_install_ids:
  assumes "ids_ok c" "pin_install name fsize b c = FOk (h, bid, c')"
  shows "ids_ok c'"
proof -
  have i: "ids_ok (with_buf b c)" using assms(1) by (auto simp: ids_ok_def intro: less_SucI)
  have j: "ids_ok c1 \<and> next_id c < next_id c1" if "evict_loop fsize [] (PinnedFiles c) (with_buf b c) = FOk c1" for c1
    using evict_loop_frame [OF that] i by (simp add: ids_ok_def)
  have f: "ids_ok c'" if "ids_ok c1" "pin_fail c1 = FOk (h, bid, c')" for c1
    using that by (auto simp: pin_fail_def ids_ok_def)
  from assms(2) show ?thesis
  proof (cases rule: pin_install_cases)
    case Free
    then show ?thesis using insert_node_ids [OF i _ Free(2)] by simp
  next
    case Full
    then show ?thesis by (rule f [OF i])
  next
    case (Evict c1)
    then show ?thesis using insert_node_ids j by blast
  next
    case (EvictFull c1)
    then show ?thesis using f j by blast
  qed
qed

lemma fc_step_good:
  assumes "fc_good c" "fc_step l c = Some c'"
  shows "fc_good c'"
proof (cases l)
  case (Hit h)
  then have h: "pin_hit h c = FOk c'" using assms(2) by (simp split: fc_result.splits)
  then have "ids_ok c'" using assms(1) by (auto simp: pin_hit_def fc_good_def ids_ok_def split: option.splits if_splits)
  with pin_hit_inv [OF _ h] assms(1) show ?thesis by (simp add: fc_good_def)
next
  case (Install name f)
  with assms(2) obtain b h bid where b: "load_file f = Some (Loaded b)" "pin_install name (st_size f) b c = FOk (h, bid, c')"
    by (auto split: option.splits load_result.splits fc_result.splits)
  obtain k where "byteCount b = Some k" "k \<le> st_size f" using load_file_bound [OF b(1)] by blast
  with assms(1) have "fc_inv c'" by (intro pin_install_inv [OF _ _ _ _ b(2)]) (auto simp: fc_good_def ids_ok_def)
  with pin_install_ids [OF _ b(2)] assms(1) show ?thesis by (simp add: fc_good_def)
next
  case CountPin
  with assms count_pin_inv show ?thesis by (auto simp: fc_good_def ids_ok_def count_pin_def)
next
  case (Unpin h)
  then have h: "unpin h c = FOk c'" using assms(2) by (simp split: fc_result.splits)
  then have "ids_ok c'" using assms(1) by (auto simp: unpin_def fc_good_def ids_ok_def split: option.splits if_splits)
  with unpin_inv [OF _ h] assms(1) show ?thesis by (simp add: fc_good_def)
qed

interpretation cache: machine fc_step fc_init fc_good
proof unfold_locales
  fix s :: FileCache assume "fc_init s"
  then have s: "s = new_FileCache (CacheSize s)" "0 \<le> CacheSize s" by (simp_all add: fc_init_def)
  have "fc_good (new_FileCache (CacheSize s))"
    using fc_inv_new [OF s(2)] by (simp add: fc_good_def ids_ok_def) (simp add: new_FileCache_def)
  with s(1) show "fc_good s" by simp
qed (rule fc_step_good)

section \<open>Properties\<close>

lemma small_buffer:
  assumes "can_open f" "st_size f = length s" "length s \<le> BlockSize" "reads f 0 = Some s"
  obtains b where "load_file f = Some (Loaded b)" "content b = map Some s" "byteCount b = Some (length s)"
proof -
  obtain b where b: "load_file f = Some (Loaded b)" "content b = map Some s" using load_small_file [OF assms] by blast
  then show thesis using that load_file_size(1) [OF b(1)] assms(2,3) by (simp add: loaded_size_def)
qed

lemma install_free:
  assumes "\<not> wlocked c" "cache_map c name = None" "byteCount b = Some k" "bytes_used c + int fsize \<le> CacheSize c"
  shows "pin_install name fsize b c = FOk (Some (Suc (next_id c)), Some (next_id c),
    (with_buf b c)\<lparr>next_id := Suc (Suc (next_id c)),
       nodes := (nodes c)(Suc (next_id c) \<mapsto> \<lparr>file_name = name, nbuf = next_id c, count_unpin = 1\<rparr>),
       cache_map := (cache_map c)(name \<mapsto> Suc (next_id c)), bytes_used := bytes_used c + int k,
       PinnedFiles := PinnedFiles c @ [name]\<rparr>)"
  using assms by (simp add: pin_install_eq insert_node_def Let_def)

lemma install_free_ex:
  assumes "\<not> wlocked c" "cache_map c name = None" "byteCount b = Some k" "bytes_used c + int fsize \<le> CacheSize c"
  shows "\<exists>h bid c1. pin_install name fsize b c = FOk (h, bid, c1) \<and> PinnedFiles c1 = PinnedFiles c @ [name]
    \<and> bytes_used c1 = bytes_used c + int k"
  using install_free [OF assms] by simp

text \<open>
  C13. Under every interleaving of the atomic sections of pin and unpin, the bytes in use are the sum
  of the sizes of the cached buffers and never exceed the size of the cache, and every cached file
  has a node of its name and a live buffer.
\<close>

theorem cache_within_capacity:
  assumes "reachable fc_step fc_init c"
  shows "bytesUsed c = (\<Sum>f \<leftarrow> PinnedFiles c. int (file_size c f)) \<and> bytesUsed c \<le> maxSize c
    \<and> distinct (PinnedFiles c) \<and> set (PinnedFiles c) = dom (cache_map c)
    \<and> (\<forall>f h. cache_map c f = Some h \<longrightarrow> (\<exists>n b. nodes c h = Some n \<and> file_name n = f \<and> bufs c (nbuf n) = Some b))"
proof -
  have "fc_inv c" using cache.reachable_inv [OF assms] by (simp add: fc_good_def)
  then show ?thesis unfolding fc_inv_def node_ok_def bytesUsed_def maxSize_def by metis
qed

text \<open>A file loaded and cached while there is room for it.\<close>

lemma pin_loads:
  assumes "\<not> wlocked c" "cache_map c name = None" "bytes_used c + int (st_size f) \<le> CacheSize c"
    and "load_file f = Some (Loaded b)" "byteCount b = Some k"
  shows "pin f name buf c = FOk (Some (Suc (next_id c)), Some (next_id c), count_pin
    ((with_buf b c)\<lparr>next_id := Suc (Suc (next_id c)),
       nodes := (nodes c)(Suc (next_id c) \<mapsto> \<lparr>file_name = name, nbuf = next_id c, count_unpin = 1\<rparr>),
       cache_map := (cache_map c)(name \<mapsto> Suc (next_id c)), bytes_used := bytes_used c + int k,
       PinnedFiles := PinnedFiles c @ [name]\<rparr>))"
  using assms(1,2) install_free [OF assms(1,2,5,3)] by (simp add: pin_def pin_lookup_def assms(4))

lemma pin_small:
  assumes "\<not> wlocked c" "cache_map c name = None" "bytes_used c + int (length s) \<le> CacheSize c"
    and "can_open f" "st_size f = length s" "length s \<le> BlockSize" "reads f 0 = Some s"
  shows "\<exists>h bid c' b. pin f name buf c = FOk (Some h, Some bid, c') \<and> bufs c' bid = Some b \<and> content b = map Some s
    \<and> buf_inv b \<and> readSize b = Some (length s) \<and> rpos b = \<lparr>idx = 0, off = 0\<rparr> \<and> \<not> wlocked c'"
proof -
  obtain b where b: "load_file f = Some (Loaded b)" "content b = map Some s" "byteCount b = Some (length s)"
    using small_buffer [OF assms(4-7)] .
  obtain c0 where c0: "b = mk_buf [] c0 [] (loaded_size f) 0" using load_file_shape [OF b(1)] by blast
  have "readSize b = Some (length s)" "rpos b = \<lparr>idx = 0, off = 0\<rparr>"
    using assms(5,6) by (simp_all add: c0 buf_simps loaded_size_def)
  moreover have "bytes_used c + int (st_size f) \<le> CacheSize c" using assms(3,5) by simp
  ultimately show ?thesis
    using pin_loads [OF assms(1,2) _ b(1,3), of buf] load_file_size(2) [OF b(1)] b(2) assms(1)
    by (simp add: count_pin_def)
qed

text \<open>
  A cache that holds the documents \<open>doc\<close>: whatever is cached under a name is its document, in one
  block; and a file that delivers a document with its first read.
\<close>

definition doc_buffer :: "string \<Rightarrow> Buffer \<Rightarrow> bool" where
  "doc_buffer s b \<longleftrightarrow> content b = map Some s \<and> buf_inv b \<and> readSize b = Some (length s) \<and> rpos b = \<lparr>idx = 0, off = 0\<rparr>"

definition is_doc :: "os_file \<Rightarrow> string \<Rightarrow> bool" where
  "is_doc f s \<longleftrightarrow> can_open f \<and> st_size f = length s \<and> length s \<le> BlockSize \<and> reads f 0 = Some s"

definition holds_docs :: "(string \<Rightarrow> string) \<Rightarrow> FileCache \<Rightarrow> bool" where
  "holds_docs doc c \<longleftrightarrow> \<not> wlocked c \<and> (\<forall>h n. nodes c h = Some n \<longrightarrow> h < next_id c) \<and> (\<forall>i b. bufs c i = Some b \<longrightarrow> i < next_id c)
     \<and> (\<forall>name h. cache_map c name = Some h \<longrightarrow> (\<exists>n b. nodes c h = Some n \<and> bufs c (nbuf n) = Some b \<and> doc_buffer (doc name) b))"

lemma holds_docs_new: "holds_docs doc (new_FileCache n)"
  by (simp add: holds_docs_def new_FileCache_def)

lemma holds_docsE:
  assumes "holds_docs doc c" "cache_map c name = Some h"
  obtains n b where "nodes c h = Some n" "bufs c (nbuf n) = Some b" "doc_buffer (doc name) b"
  using assms unfolding holds_docs_def by blast

lemma pin_cached_doc:
  assumes "holds_docs doc c" "cache_map c name = Some h"
  shows "\<exists>bid c' b. pin f name buf c = FOk (Some h, Some bid, c') \<and> bufs c' bid = Some b \<and> doc_buffer (doc name) b
    \<and> holds_docs doc c' \<and> bytes_used c' = bytes_used c \<and> CacheSize c' = CacheSize c"
proof -
  obtain n b where n: "nodes c h = Some n" "bufs c (nbuf n) = Some b" "doc_buffer (doc name) b"
    using assms by (rule holds_docsE)
  define c' where "c' = count_pin (c\<lparr>nodes := (nodes c)(h \<mapsto> n\<lparr>count_unpin := count_unpin n + 1\<rparr>), hits_total := hits_total c + 1\<rparr>)"
  have p: "pin f name buf c = FOk (Some h, Some (nbuf n), c')"
    using assms n(1) by (simp add: pin_def pin_lookup_def pin_hit_def holds_docs_def c'_def)
  have h: "h < next_id c" using assms(1) n(1) by (auto simp: holds_docs_def)
  have "\<exists>m b'. nodes c' k = Some m \<and> bufs c' (nbuf m) = Some b' \<and> doc_buffer (doc x) b'" if "cache_map c x = Some k" for x k
    using assms(1) that n(1) by (cases "k = h") (fastforce simp: holds_docs_def c'_def count_pin_def)+
  then have "holds_docs doc c'"
    using assms(1) h by (auto simp: holds_docs_def c'_def count_pin_def split: if_splits)
  moreover have "bufs c' (nbuf n) = Some b" "bytes_used c' = bytes_used c" "CacheSize c' = CacheSize c"
    using n(2) by (simp_all add: c'_def count_pin_def)
  ultimately show ?thesis using p n(3) by blast
qed

lemma pin_doc:
  assumes "holds_docs doc c" "is_doc f (doc name)" "bytes_used c + int (length (doc name)) \<le> CacheSize c"
  shows "\<exists>h bid c' b. pin f name buf c = FOk (Some h, Some bid, c') \<and> bufs c' bid = Some b \<and> doc_buffer (doc name) b
    \<and> holds_docs doc c' \<and> bytes_used c' \<le> bytes_used c + int (length (doc name)) \<and> CacheSize c' = CacheSize c"
proof (cases "cache_map c name")
  case (Some h)
  with pin_cached_doc [OF assms(1) Some, of f buf] show ?thesis by fastforce
next
  case None
  note d = assms(2) [unfolded is_doc_def]
  obtain b where b: "load_file f = Some (Loaded b)" "content b = map Some (doc name)" "byteCount b = Some (length (doc name))"
    using small_buffer d by blast
  obtain c0 where c0: "b = mk_buf [] c0 [] (loaded_size f) 0" using load_file_shape [OF b(1)] by blast
  have db: "doc_buffer (doc name) b"
    using d b(2) load_file_size(2) [OF b(1)] by (simp add: doc_buffer_def c0 buf_simps loaded_size_def)
  have lk: "\<not> wlocked c" using assms(1) by (simp add: holds_docs_def)
  define c' where "c' = count_pin ((with_buf b c)\<lparr>next_id := Suc (Suc (next_id c)),
       nodes := (nodes c)(Suc (next_id c) \<mapsto> \<lparr>file_name = name, nbuf = next_id c, count_unpin = 1\<rparr>),
       cache_map := (cache_map c)(name \<mapsto> Suc (next_id c)), bytes_used := bytes_used c + int (length (doc name)),
       PinnedFiles := PinnedFiles c @ [name]\<rparr>)"
  have p: "pin f name buf c = FOk (Some (Suc (next_id c)), Some (next_id c), c')"
    using pin_loads [OF lk None _ b(1,3), of buf] assms(3) d by (simp add: c'_def)
  have old: "h < next_id c" "nbuf n < next_id c" if "nodes c h = Some n" "bufs c (nbuf n) = Some b'" for h n b'
    using assms(1) that by (auto simp: holds_docs_def)
  have "\<exists>n b'. nodes c' k = Some n \<and> bufs c' (nbuf n) = Some b' \<and> doc_buffer (doc x) b'" if "cache_map c' x = Some k" for x k
  proof (cases "x = name")
    case True
    then show ?thesis using that db by (auto simp: c'_def count_pin_def)
  next
    case False
    then have "cache_map c x = Some k" using that by (simp add: c'_def count_pin_def)
    then obtain n b' where "nodes c k = Some n" "bufs c (nbuf n) = Some b'" "doc_buffer (doc x) b'"
      using assms(1) holds_docsE by blast
    with old [of k n b'] show ?thesis by (auto simp: c'_def count_pin_def)
  qed
  moreover have "h < next_id c'" if "nodes c' h = Some n" for h n
    using that assms(1) by (fastforce simp: holds_docs_def c'_def count_pin_def split: if_splits)
  moreover have "i < next_id c'" if "bufs c' i = Some b'" for i b'
    using that assms(1) by (fastforce simp: holds_docs_def c'_def count_pin_def split: if_splits)
  ultimately have "holds_docs doc c'" using lk by (simp add: holds_docs_def) (simp add: c'_def count_pin_def)
  moreover have "bufs c' (next_id c) = Some b" "bytes_used c' = bytes_used c + int (length (doc name))" "CacheSize c' = CacheSize c"
    by (simp_all add: c'_def count_pin_def)
  ultimately show ?thesis using p db by auto
qed

text \<open>
  A file of at most one block whose first read returns all of it: pin caches it with exactly its
  bytes, a later pin returns the same handle and buffer as a hit without looking at the file, and each
  of the two pins can be undone by one unpin, a third being fatal.
\<close>

theorem pin_small_file:
  assumes "\<not> wlocked c" "cache_map c name = None" "bytes_used c + int (length s) \<le> CacheSize c"
    and "can_open f" "st_size f = length s" "length s \<le> BlockSize" "reads f 0 = Some s"
  shows "\<exists>h bid c' b c2 c3 c4. pin f name buf c = FOk (Some h, Some bid, c') \<and> bufs c' bid = Some b
    \<and> content b = map Some s \<and> bytesUsed c' = bytesUsed c + int (length s) \<and> hits c' = hits c \<and> pins c' = pins c + 1
    \<and> pin f' name buf' c' = FOk (Some h, Some bid, c2) \<and> hits c2 = hits c + 1 \<and> pins c2 = pins c + 2
    \<and> bytesUsed c2 = bytesUsed c' \<and> unpin (Some h) c2 = FOk c3 \<and> unpin (Some h) c3 = FOk c4 \<and> unpin (Some h) c4 = FExit"
proof -
  obtain b where b: "load_file f = Some (Loaded b)" "content b = map Some s" "byteCount b = Some (length s)"
    using small_buffer [OF assms(4-7)] .
  have p: "pin f name buf c = FOk (Some (Suc (next_id c)), Some (next_id c), count_pin
    ((with_buf b c)\<lparr>next_id := Suc (Suc (next_id c)),
       nodes := (nodes c)(Suc (next_id c) \<mapsto> \<lparr>file_name = name, nbuf = next_id c, count_unpin = 1\<rparr>),
       cache_map := (cache_map c)(name \<mapsto> Suc (next_id c)), bytes_used := bytes_used c + int (length s),
       PinnedFiles := PinnedFiles c @ [name]\<rparr>))" (is "_ = FOk (Some ?h, Some ?bid, ?c1)")
    using pin_loads [OF assms(1,2) _ b(1,3)] assms(3,5) by simp
  have n: "nodes ?c1 ?h = Some \<lparr>file_name = name, nbuf = ?bid, count_unpin = 1\<rparr>" "cache_map ?c1 name = Some ?h"
    "bufs ?c1 ?bid = Some b" "\<not> wlocked ?c1" using assms(1) by (simp_all add: count_pin_def)
  define c1 where "c1 = ?c1"
  let ?c2 = "count_pin (c1\<lparr>nodes := (nodes c1)(?h \<mapsto> \<lparr>file_name = name, nbuf = ?bid, count_unpin = 2\<rparr>), hits_total := hits_total c1 + 1\<rparr>)"
  have p2: "pin f' name buf' c1 = FOk (Some ?h, Some ?bid, ?c2)"
    using n unfolding c1_def [symmetric] by (simp add: pin_def pin_lookup_def pin_hit_def)
  let ?c3 = "?c2\<lparr>nodes := (nodes ?c2)(?h \<mapsto> \<lparr>file_name = name, nbuf = ?bid, count_unpin = 1\<rparr>),
      bytes_unpinned_files := bytes_unpinned_files ?c2 + int (length s)\<rparr>"
  let ?c4 = "?c3\<lparr>nodes := (nodes ?c3)(?h \<mapsto> \<lparr>file_name = name, nbuf = ?bid, count_unpin = 0\<rparr>),
      bytes_unpinned_files := bytes_unpinned_files ?c3 + int (length s)\<rparr>"
  have u3: "unpin (Some ?h) ?c2 = FOk ?c3" and u4: "unpin (Some ?h) ?c3 = FOk ?c4" and u5: "unpin (Some ?h) ?c4 = FExit"
    using n b(3) unfolding c1_def [symmetric] by (simp_all add: unpin_def count_pin_def)
  have "bytesUsed c1 = bytesUsed c + int (length s) \<and> hits c1 = hits c \<and> pins c1 = pins c + 1"
    "hits ?c2 = hits c + 1" "pins ?c2 = pins c + 2" "bytesUsed ?c2 = bytesUsed c1"
    by (simp_all add: c1_def bytesUsed_def hits_def pins_def count_pin_def)
  with p [folded c1_def] n(3) [folded c1_def] b(2) p2 u3 u4 u5 show ?thesis by blast
qed

theorem pin_small_file_witness:
  "\<exists>h bid c' b. pin (small_file ''hi'') ''a'' None (new_FileCache 10) = FOk (Some h, Some bid, c') \<and> bufs c' bid = Some b
     \<and> content b = [Some CHR ''h'', Some CHR ''i''] \<and> bytesUsed c' = 2"
proof -
  have "length ''hi'' \<le> BlockSize" by (simp add: BlockSize_def)
  then show ?thesis
    using pin_small_file [of "new_FileCache 10" "''a''" "''hi''" "small_file ''hi''" None "small_file []" None]
    by (auto simp: new_FileCache_def small_file_def bytesUsed_def)
qed

lemma small_file_buffer:
  "length s \<le> BlockSize \<Longrightarrow> \<exists>b. load_file (small_file s) = Some (Loaded b) \<and> content b = map Some s \<and> byteCount b = Some (length s)"
  by (rule small_buffer [of "small_file s" s]) (auto simp: small_file_def)

lemma hi_buffer: "\<exists>b. load_file (small_file ''hi'') = Some (Loaded b) \<and> byteCount b = Some 2"
proof -
  have l: "length ''hi'' = 2" by simp
  have "(2::nat) \<le> BlockSize" by (simp add: BlockSize_def)
  then show ?thesis using small_file_buffer [of "''hi''", unfolded l] by blast
qed

theorem cache_within_capacity_witness:
  "\<exists>c. reachable fc_step fc_init c \<and> PinnedFiles c = [''a''] \<and> bytesUsed c = 2 \<and> bytesUsed c \<le> maxSize c"
proof -
  obtain b where b: "load_file (small_file ''hi'') = Some (Loaded b)" "byteCount b = Some 2"
    using hi_buffer by blast
  let ?c = "new_FileCache 10"
  have c: "\<not> wlocked ?c" "cache_map ?c ''a'' = None" "bytes_used ?c + int 2 \<le> CacheSize ?c" "PinnedFiles ?c = []"
    "bytes_used ?c = 0" by (simp_all add: new_FileCache_def)
  obtain h bid c1 where i: "pin_install ''a'' 2 b ?c = FOk (h, bid, c1)" "PinnedFiles c1 = PinnedFiles ?c @ [''a'']"
    "bytes_used c1 = bytes_used ?c + int 2"
    using install_free_ex [OF c(1,2) b(2) c(3)] by blast
  have "st_size (small_file ''hi'') = 2" by (simp add: small_file_def)
  then have st: "fc_step (Install ''a'' (small_file ''hi'')) ?c = Some c1" by (simp add: b i)
  have "reachable fc_step fc_init ?c" by (rule reach_init) (simp add: fc_init_def new_FileCache_def)
  then have r: "reachable fc_step fc_init c1" using st by (rule reach_step)
  have "bytesUsed c1 \<le> maxSize c1" using cache_within_capacity [OF r] by (elim conjE)
  moreover have "bytesUsed c1 = 2" "PinnedFiles c1 = [''a'']" using i(2,3) c(4,5) by (simp_all add: bytesUsed_def)
  ultimately show ?thesis using r by blast
qed

text \<open>
  A file of more than one block: every read stores into the same block and the final advance is
  refused, so that the file is cached as an empty buffer, and pin reports success.
\<close>

theorem large_file_cached_empty:
  assumes "\<not> wlocked c" "cache_map c name = None" "bytes_used c + int (st_size f) \<le> CacheSize c"
    and "BlockSize < st_size f" "load_file f = Some (Loaded b)"
  shows "\<exists>h bid c' b'. pin f name buf c = FOk (Some h, Some bid, c') \<and> bufs c' bid = Some b' \<and> content b' = []
    \<and> bytesUsed c' = bytesUsed c"
proof -
  have b: "byteCount b = Some 0" "content b = []" using load_file_size [OF assms(5)] assms(4) by (simp_all add: loaded_size_def)
  show ?thesis using pin_loads [OF assms(1,2,3,5) b(1), of buf] b(2) by (simp add: count_pin_def bytesUsed_def)
qed

definition two_block_file :: os_file where
  "two_block_file = \<lparr>can_open = True, st_size = 4097,
     reads = (\<lambda>i. if i = 0 then Some (replicate 4096 CHR ''x'') else Some ''y'')\<rparr>"

lemma load_two_block_file: "\<exists>b. load_file two_block_file = Some (Loaded b)"
proof -
  let ?x = "replicate 4096 CHR ''x''" and ?f = "reads two_block_file"
  define c1 where "c1 = put_bytes fresh_chunk 0 (map Some ?x)"
  define c2 where "c2 = put_bytes c1 0 [Some CHR ''y'']"
  have "read_loop ?f 0 4097 (empty_buf fresh_chunk) = read_loop ?f (Suc 0) (size_sub 4097 4096) (empty_buf c1)"
    using read_loop_step [of 4097 ?f 0 ?x fresh_chunk] by (simp add: two_block_file_def BlockSize_def c1_def)
  also have "\<dots> = read_loop ?f (Suc (Suc 0)) 0 (empty_buf c2)"
    using read_loop_step [of 1 ?f 1 "''y''" c1] by (simp add: two_block_file_def BlockSize_def c2_def size_sub_def)
  also have "\<dots> = Some (Some (0, empty_buf c2))" by (rule read_loop_done)
  finally have "read_loop ?f 0 4097 (empty_buf fresh_chunk) = Some (Some (0, empty_buf c2))" .
  moreover have "can_open two_block_file" "st_size two_block_file = 4097" by (simp_all add: two_block_file_def)
  ultimately show ?thesis by (simp add: load_file_def new_Buffer_mk advance_empty)
qed

theorem large_file_cached_empty_witness:
  "\<exists>h bid c' b'. pin two_block_file ''a'' None (new_FileCache 5000) = FOk (Some h, Some bid, c') \<and> bufs c' bid = Some b' \<and> content b' = []"
proof -
  obtain b where "load_file two_block_file = Some (Loaded b)" using load_two_block_file by blast
  then show ?thesis
    using large_file_cached_empty [of "new_FileCache 5000" "''a''" two_block_file b None]
    by (auto simp: new_FileCache_def two_block_file_def BlockSize_def)
qed

text \<open>
  Unpinning the NULL handle that a failed pin returns leaves the lock taken: every later unpin
  and every later pin waits forever.
\<close>

theorem unpin_null_blocks:
  "unpin None c = (if wlocked c then FBlocked else FOk (c\<lparr>wlocked := True\<rparr>))
   \<and> unpin h (c\<lparr>wlocked := True\<rparr>) = FBlocked \<and> pin f name buf (c\<lparr>wlocked := True\<rparr>) = FBlocked"
  by (simp add: unpin_def pin_def pin_lookup_def)

text \<open>
  A pin that found its file and released the read lock, but has not yet counted itself, does not
  protect the file: when another pin evicts the file in between, the count succeeds on the evicted
  node, the pin returns its handle, and unpinning that handle is fatal.
\<close>

theorem hit_races_with_eviction:
  assumes "pin_lookup f c = FOk (Some (h, bid))" "nodes c h = Some n" "file_name n = f"
    and "pin_install g fsize b c = FOk (Some h', Some bid', c1)" "cache_map c1 f = None"
    and "\<forall>i \<ge> next_id c. nodes c i = None"
  shows "\<exists>c2. pin_hit h c1 = FOk c2 \<and> unpin (Some h) c2 = FExit"
proof -
  have h: "h < next_id c" using assms(2,6) by (metis linorder_not_less option.distinct(1))
  have ins: "nodes c1 h = Some n \<and> wlocked c1 = wlocked c0"
    if "insert_node g i b c0 = FOk (Some h', Some bid', c1)" "nodes c0 = nodes c" "next_id c0 = Suc (next_id c)" for c0 i
    using that h assms(2) by (auto simp: insert_node_def Let_def split: if_splits option.splits)
  have w: "\<not> wlocked c" using assms(1) by (auto simp: pin_lookup_def)
  have wl: "wlocked c2 = wlocked c" if "evict_loop fsize [] (PinnedFiles c) (with_buf b c) = FOk c2" for c2
    using evict_loop_wlocked [OF that] by simp
  have "nodes c1 h = Some n \<and> \<not> wlocked c1"
    using assms(4)
  proof (cases rule: pin_install_cases)
    case Free
    then show ?thesis using ins [OF Free(2)] w by simp
  next
    case (Evict c2)
    then show ?thesis using ins [OF Evict(3)] w wl evict_loop_frame [OF Evict(1)] by simp
  qed (auto simp: pin_fail_def)
  then show ?thesis using assms(3,5) by (simp add: pin_hit_def unpin_def)
qed

theorem hit_races_with_eviction_witness:
  "\<exists>c h bid c1 c2 h' bid' b. pin_lookup ''a'' c = FOk (Some (h, bid)) \<and> pin_install ''b'' 2 b c = FOk (Some h', Some bid', c1)
     \<and> pin_hit h c1 = FOk c2 \<and> unpin (Some h) c2 = FExit"
proof -
  obtain b where b: "byteCount b = Some 2" using hi_buffer by blast
  define c where "c = (new_FileCache 3)\<lparr>nodes := [1 \<mapsto> \<lparr>file_name = ''a'', nbuf = 0, count_unpin = 0\<rparr>], bufs := [0 \<mapsto> b],
      next_id := 2, cache_map := [''a'' \<mapsto> 1], PinnedFiles := [''a''], bytes_used := 2, bytes_unpinned_files := 2\<rparr>"
  define c1 where "c1 = (with_buf b c)\<lparr>next_id := 4, nodes := (nodes c)(3 \<mapsto> \<lparr>file_name = ''b'', nbuf = 2, count_unpin = 1\<rparr>),
      cache_map := [''b'' \<mapsto> 3], PinnedFiles := [''b'']\<rparr>"
  have l: "pin_lookup ''a'' c = FOk (Some (1, 0))" "nodes c 1 = Some \<lparr>file_name = ''a'', nbuf = 0, count_unpin = 0\<rparr>"
    "\<forall>i \<ge> next_id c. nodes c i = None"
    by (simp_all add: pin_lookup_def c_def new_FileCache_def)
  have "evict_loop 2 [] [''a''] (with_buf b c) = FOk ((with_buf b c)\<lparr>bytes_used := 0, cache_map := Map.empty, PinnedFiles := []\<rparr>)"
    using b by (simp add: c_def new_FileCache_def with_buf_def maxSize_def Let_def)
  moreover have "\<not> wlocked c" "CacheSize c = 3" "bytes_used c = 2" "bytes_unpinned_files c = 2" "PinnedFiles c = [''a'']" "next_id c = 2"
    by (simp_all add: c_def new_FileCache_def)
  ultimately have i: "pin_install ''b'' 2 b c = FOk (Some 3, Some 2, c1)"
    using b by (simp add: pin_install_eq insert_node_def c1_def Let_def)
  have "cache_map c1 ''a'' = None" by (simp add: c1_def)
  from hit_races_with_eviction [OF l(1,2) _ i this l(3)] l(1) i show ?thesis by fastforce
qed

end
