(* ===== verification/IO_Manager.thy ===== *)
theory IO_Manager
  imports Thread_Pool_Fast "HOL-Library.Word"
begin

unbundle bit_operations_syntax

text \<open>
  The event loop (\<^verbatim>\<open>descriptor_poller_epoll.cpp\<close>, \<^verbatim>\<open>io_manager.cpp\<close>): the wrapper around epoll,
  descriptors with their read and write latches, the timer queue, the garbage list of closed
  descriptors, and the polling loop that feeds the worker pool. Descriptors and callbacks have
  addresses; the results of the system calls are arguments. \<open>None\<close> as the result of an operation is
  an access to a freed descriptor or, where the text says so, \<^verbatim>\<open>exit(1)\<close>.
\<close>

section \<open>The poller\<close>

definition DP_ERROR :: "32 word" where "DP_ERROR = 1"
definition DP_READ_READY :: "32 word" where "DP_READ_READY = 2"
definition DP_WRITE_READY :: "32 word" where "DP_WRITE_READY = 4"

definition EPOLLIN :: "32 word" where "EPOLLIN = 1"
definition EPOLLPRI :: "32 word" where "EPOLLPRI = 2"
definition EPOLLOUT :: "32 word" where "EPOLLOUT = 4"
definition EPOLLERR :: "32 word" where "EPOLLERR = 8"
definition EPOLLHUP :: "32 word" where "EPOLLHUP = 16"
definition EPOLLET :: "32 word" where "EPOLLET = 0x80000000"

lemmas dp_consts = DP_ERROR_def DP_READ_READY_def DP_WRITE_READY_def
lemmas epoll_consts = EPOLLIN_def EPOLLPRI_def EPOLLOUT_def EPOLLERR_def EPOLLHUP_def EPOLLET_def

definition MAX_FDS_PER_POLL :: nat where "MAX_FDS_PER_POLL = 1024"

text \<open>The descriptor of epoll, the registered sockets with their masks, and the last batch of events.\<close>

record Poller =
  ep_fd :: int
  ep_registered :: "(int \<times> 32 word \<times> nat) list"
  ep_events :: "(32 word \<times> nat) list"

definition new_Poller :: Poller where
  "new_Poller = \<lparr>ep_fd = -1, ep_registered = [], ep_events = []\<rparr>"

text \<open>The destructor: whether it closes the descriptor of epoll (its test is the wrong way around).\<close>

definition delete_Poller :: "Poller \<Rightarrow> int list" where
  "delete_Poller p = (if ep_fd p = -1 then [ep_fd p] else [])"

text \<open>\<open>None\<close>: \<^verbatim>\<open>exit(1)\<close>.\<close>

definition dp_create :: "int \<Rightarrow> Poller \<Rightarrow> Poller option" where
  "dp_create res p = (if res < 0 then None else Some (p\<lparr>ep_fd := res\<rparr>))"

definition setEvent :: "int \<Rightarrow> int \<Rightarrow> nat \<Rightarrow> Poller \<Rightarrow> Poller option" where
  "setEvent rc fd descr p =
     (let ev = EPOLLIN OR EPOLLPRI OR EPOLLOUT OR EPOLLERR OR EPOLLHUP OR EPOLLET
      in if rc \<noteq> 0 then None else Some (p\<lparr>ep_registered := ep_registered p @ [(fd, ev, descr)]\<rparr>))"

text \<open>
  The results of the successive \<^verbatim>\<open>epoll_wait\<close> calls: a batch of events, an interruption, or another
  error. \<open>Inl True\<close>: \<^verbatim>\<open>exit(1)\<close>; \<open>Inl False\<close>: the calls given so far are all interrupted.
\<close>

datatype wait_result = WReady "(32 word \<times> nat) list" | WIntr | WError

fun dp_poll :: "wait_result list \<Rightarrow> Poller \<Rightarrow> bool + (nat \<times> Poller)" where
  "dp_poll [] p = Inl False"
| "dp_poll (WReady es # _) p = (let es = take MAX_FDS_PER_POLL es in Inr (length es, p\<lparr>ep_events := es\<rparr>))"
| "dp_poll (WIntr # ws) p = dp_poll ws p"
| "dp_poll (WError # _) p = Inl True"

definition getEvents :: "nat \<Rightarrow> Poller \<Rightarrow> 32 word \<times> nat" where
  "getEvents i p =
     (let (evs, descr) = ep_events p ! i
      in if evs AND EPOLLERR \<noteq> 0 then (DP_ERROR, descr)
         else ((if evs AND (EPOLLHUP OR EPOLLIN) \<noteq> 0 then DP_READ_READY else 0)
               OR (if evs AND (EPOLLHUP OR EPOLLOUT) \<noteq> 0 then DP_WRITE_READY else 0), descr))"

section \<open>Descriptors\<close>

record Descriptor =
  fd :: int
  closed :: bool
  read_cb :: "nat option"
  write_cb :: "nat option"
  can_read :: bool
  can_write :: bool
  waiting_read :: bool
  waiting_write :: bool
  next_desc :: "nat option"

definition new_Descriptor :: "int \<Rightarrow> nat option \<Rightarrow> nat option \<Rightarrow> Descriptor" where
  "new_Descriptor f rcb wcb =
     \<lparr>fd = f, closed = False, read_cb = rcb, write_cb = wcb, can_read = False, can_write = False,
      waiting_read = False, waiting_write = False, next_desc = None\<rparr>"

text \<open>The callbacks the destructor deletes.\<close>

definition delete_Descriptor :: "Descriptor \<Rightarrow> nat list" where
  "delete_Descriptor d = List.map_filter id [read_cb d, write_cb d]"

definition setUpCalls :: "nat option \<Rightarrow> nat option \<Rightarrow> Descriptor \<Rightarrow> nat list \<times> Descriptor" where
  "setUpCalls rcb wcb d =
     (List.map_filter id [read_cb d, write_cb d], d\<lparr>read_cb := rcb, write_cb := wcb\<rparr>)"

text \<open>The four latch operations: the callback to be scheduled, if any, and the new state.\<close>

definition readWhenReady :: "Descriptor \<Rightarrow> nat option \<times> Descriptor" where
  "readWhenReady d =
     (let (ready_now, d') = (if can_read d then (True, d\<lparr>can_read := False\<rparr>) else (False, d\<lparr>waiting_read := True\<rparr>))
      in (if ready_now then read_cb d' else None, d'))"

definition writeWhenReady :: "Descriptor \<Rightarrow> nat option \<times> Descriptor" where
  "writeWhenReady d =
     (let (ready_now, d') = (if can_write d then (True, d\<lparr>can_write := False\<rparr>) else (False, d\<lparr>waiting_write := True\<rparr>))
      in (if ready_now then write_cb d' else None, d'))"

definition readIfWaiting :: "Descriptor \<Rightarrow> nat option \<times> Descriptor" where
  "readIfWaiting d =
     (let (schedule_now, d') = (if waiting_read d then (True, d\<lparr>waiting_read := False\<rparr>) else (False, d\<lparr>can_read := True\<rparr>))
      in (if schedule_now then read_cb d' else None, d'))"

definition writeIfWaiting :: "Descriptor \<Rightarrow> nat option \<times> Descriptor" where
  "writeIfWaiting d =
     (let (schedule_now, d') = (if waiting_write d then (True, d\<lparr>waiting_write := False\<rparr>) else (False, d\<lparr>can_write := True\<rparr>))
      in (if schedule_now then write_cb d' else None, d'))"

section \<open>The manager\<close>

type_synonym TimerQueue = "(64 word \<times> nat) list"

text \<open>\<open>nonblocking\<close>: the sockets with the flag \<^verbatim>\<open>O_NONBLOCK\<close>; \<open>freed_cbs\<close>: the callbacks deleted so far.\<close>

record IOManager =
  poller :: Poller
  worker_pool :: "nat ThreadPoolFast"
  descs :: "nat \<Rightarrow> Descriptor option"
  fresh_desc :: nat
  deleted_desc :: "nat option"
  stopped :: bool
  polling :: bool
  timer_queue :: TimerQueue
  nonblocking :: "int list"
  freed_cbs :: "nat list"

definition new_IOManager :: "int \<Rightarrow> nat \<Rightarrow> IOManager option" where
  "new_IOManager epfd num_workers =
     do { p \<leftarrow> dp_create epfd new_Poller;
          Some \<lparr>poller = p, worker_pool = new_ThreadPoolFast num_workers, descs = (\<lambda>_. None), fresh_desc = 0,
                deleted_desc = None, stopped = False, polling = False, timer_queue = [], nonblocking = [], freed_cbs = []\<rparr> }"

definition io_addTask :: "nat \<Rightarrow> IOManager \<Rightarrow> IOManager" where
  "io_addTask t m = m\<lparr>worker_pool := addTask (Some t) (worker_pool m)\<rparr>"

text \<open>\<^verbatim>\<open>rc\<close> is the result of \<^verbatim>\<open>epoll_ctl\<close>.\<close>

definition newDescriptor :: "int \<Rightarrow> int \<Rightarrow> nat option \<Rightarrow> nat option \<Rightarrow> IOManager \<Rightarrow> (nat \<times> IOManager) option" where
  "newDescriptor rc f rcb wcb m =
     (let d = fresh_desc m;
          m1 = m\<lparr>fresh_desc := Suc d, descs := (descs m)(d \<mapsto> new_Descriptor f rcb wcb), nonblocking := f # nonblocking m\<rparr>
      in do { p \<leftarrow> setEvent rc f d (poller m1); Some (d, m1\<lparr>poller := p\<rparr>) })"

definition delDescriptor :: "nat option \<Rightarrow> IOManager \<Rightarrow> IOManager option" where
  "delDescriptor desc m =
     (case desc of
        None \<Rightarrow> Some m
      | Some d \<Rightarrow>
          (case descs m d of
             None \<Rightarrow> None
           | Some x \<Rightarrow> Some (m\<lparr>descs := (descs m)(d \<mapsto> x\<lparr>next_desc := deleted_desc m\<rparr>), deleted_desc := Some d\<rparr>)))"

text \<open>
  A latch operation on a descriptor, with the scheduling that follows it, and the replacement of
  its callbacks.
\<close>

definition latch_op :: "(Descriptor \<Rightarrow> nat option \<times> Descriptor) \<Rightarrow> nat \<Rightarrow> IOManager \<Rightarrow> IOManager option" where
  "latch_op f d m =
     do { x \<leftarrow> descs m d;
          let (t, x') = f x in
          let m1 = m\<lparr>descs := (descs m)(d \<mapsto> x')\<rparr> in
          Some (case t of None \<Rightarrow> m1 | Some t \<Rightarrow> io_addTask t m1) }"

definition io_setUpCalls :: "nat \<Rightarrow> nat option \<Rightarrow> nat option \<Rightarrow> IOManager \<Rightarrow> IOManager option" where
  "io_setUpCalls d rcb wcb m =
     do { x \<leftarrow> descs m d;
          let (freed, x') = setUpCalls rcb wcb x in
          Some (m\<lparr>descs := (descs m)(d \<mapsto> x'), freed_cbs := freed_cbs m @ freed\<rparr>) }"

text \<open>
  A multimap inserts behind the equal keys. The time stamp of \<^verbatim>\<open>addTimer\<close>, the clock plus the delay
  times the ticks per second in floating point arithmetic, is its argument \<open>ts\<close>.
\<close>

fun timer_insert :: "64 word \<Rightarrow> nat \<Rightarrow> TimerQueue \<Rightarrow> TimerQueue" where
  "timer_insert ts t [] = [(ts, t)]"
| "timer_insert ts t ((k, u) # q) = (if ts < k then (ts, t) # (k, u) # q else (k, u) # timer_insert ts t q)"

definition addTimer :: "64 word \<Rightarrow> nat \<Rightarrow> IOManager \<Rightarrow> IOManager" where
  "addTimer ts t m = m\<lparr>timer_queue := timer_insert ts t (timer_queue m)\<rparr>"

section \<open>The polling loop\<close>

fun run_timers :: "64 word \<Rightarrow> TimerQueue \<Rightarrow> IOManager \<Rightarrow> IOManager" where
  "run_timers now [] m = m\<lparr>timer_queue := []\<rparr>"
| "run_timers now ((k, t) # q) m =
     (if k > now then m\<lparr>timer_queue := (k, t) # q\<rparr> else run_timers now q (io_addTask t m))"

definition poll_timers :: "64 word \<Rightarrow> IOManager \<Rightarrow> IOManager" where
  "poll_timers now m = run_timers now (timer_queue m) m"

definition poll_event :: "nat \<Rightarrow> IOManager \<Rightarrow> IOManager option" where
  "poll_event i m =
     (let (e, desc) = getEvents i (poller m)
      in do { m1 \<leftarrow> (if e AND (DP_ERROR OR DP_READ_READY) \<noteq> 0 then latch_op readIfWaiting desc m else Some m);
              if e AND (DP_ERROR OR DP_WRITE_READY) \<noteq> 0 then latch_op writeIfWaiting desc m1 else Some m1 })"

text \<open>
  The disposal of a chain of descriptors. A round deletes a descriptor, so that as many rounds as
  descriptors were ever created are enough.
\<close>

fun delete_chain :: "nat \<Rightarrow> nat option \<Rightarrow> IOManager \<Rightarrow> IOManager option" where
  "delete_chain n None m = Some m"
| "delete_chain 0 (Some d) m = None"
| "delete_chain (Suc n) (Some d) m =
     do { x \<leftarrow> descs m d;
          delete_chain n (next_desc x) (m\<lparr>descs := (descs m)(d := None), freed_cbs := freed_cbs m @ delete_Descriptor x\<rparr>) }"

definition take_deleted :: "IOManager \<Rightarrow> nat option \<times> IOManager" where
  "take_deleted m = (deleted_desc m, m\<lparr>deleted_desc := None\<rparr>)"

definition poll_collect :: "IOManager \<Rightarrow> IOManager option" where
  "poll_collect m = (let (to_delete, m1) = take_deleted m in delete_chain (fresh_desc m1) to_delete m1)"

definition poll_enter :: "IOManager \<Rightarrow> IOManager" where
  "poll_enter m = m\<lparr>polling := True\<rparr>"

definition poll_exit :: "IOManager \<Rightarrow> IOManager" where
  "poll_exit m = m\<lparr>polling := False\<rparr>"

text \<open>A whole round by itself: the results of \<^verbatim>\<open>epoll_wait\<close>, and the clock. \<open>Inl True\<close>: \<^verbatim>\<open>exit(1)\<close>.\<close>

fun poll_events :: "nat \<Rightarrow> nat \<Rightarrow> IOManager \<Rightarrow> IOManager option" where
  "poll_events i 0 m = Some m"
| "poll_events i (Suc n) m = do { m1 \<leftarrow> poll_event i m; poll_events (Suc i) n m1 }"

definition poll_round :: "wait_result list \<Rightarrow> 64 word \<Rightarrow> IOManager \<Rightarrow> bool + IOManager option" where
  "poll_round ws now m =
     (case dp_poll ws (poller m) of
        Inl e \<Rightarrow> Inl e
      | Inr (res, p) \<Rightarrow> Inr (do { m1 \<leftarrow> poll_events 0 res (poll_timers now (m\<lparr>poller := p\<rparr>)); poll_collect m1 }))"

fun pollBody :: "(wait_result list \<times> 64 word) list \<Rightarrow> IOManager \<Rightarrow> bool + IOManager option" where
  "pollBody [] m = (if stopped m then Inr (Some (poll_exit m)) else Inl False)"
| "pollBody ((ws, now) # rs) m =
     (if stopped m then Inr (Some (poll_exit m))
      else case poll_round ws now m of
             Inl e \<Rightarrow> Inl e
           | Inr None \<Rightarrow> Inr None
           | Inr (Some m1) \<Rightarrow> pollBody rs m1)"

definition io_poll :: "(wait_result list \<times> 64 word) list \<Rightarrow> IOManager \<Rightarrow> bool + IOManager option" where
  "io_poll rs m = pollBody rs (poll_enter m)"

text \<open>
  \<^verbatim>\<open>stop\<close>: the request (\<open>False\<close>: it was requested before and the call returns), and, once polling
  has ended, the requests to the workers, and, when they are joined, the disposal of the closed descriptors.
\<close>

definition stop_request :: "IOManager \<Rightarrow> bool \<times> IOManager" where
  "stop_request m = (if stopped m then (False, m) else (True, m\<lparr>stopped := True\<rparr>))"

definition stop_workers :: "IOManager \<Rightarrow> IOManager" where
  "stop_workers m = m\<lparr>worker_pool := fold addTask (stop_requests (worker_pool m)) (worker_pool m)\<rparr>"

definition stop_finish :: "nat option \<Rightarrow> IOManager \<Rightarrow> IOManager option" where
  "stop_finish c m =
     (if polling m then None
      else do { p \<leftarrow> stop_join c (worker_pool m);
                delete_chain (fresh_desc m) (deleted_desc m) (m\<lparr>worker_pool := p, deleted_desc := None\<rparr>) })"

end
