(* ===== verification/IO_Manager_Correct.thy ===== *)
theory IO_Manager_Correct
  imports IO_Manager
begin

text \<open>
  What the event loop guarantees: the latches of a descriptor lose no wake-up, timers run when they
  are due and in order, the latch operations reach the right callback for every mask of epoll, and
  the polling thread never touches a descriptor that was freed.
\<close>

section \<open>Latches\<close>

datatype latch_ev = Request | Ready

text \<open>
  A sequence of requests and readiness events on one side of a descriptor, with the events since
  the last callback was scheduled and the callbacks scheduled so far.
\<close>

fun latch_run :: "('d \<Rightarrow> nat option \<times> 'd) \<Rightarrow> ('d \<Rightarrow> nat option \<times> 'd) \<Rightarrow> latch_ev list
    \<Rightarrow> 'd \<times> latch_ev list \<times> nat list \<Rightarrow> 'd \<times> latch_ev list \<times> nat list" where
  "latch_run req rdy [] s = s"
| "latch_run req rdy (e # es) (d, since, out) =
     (case (case e of Request \<Rightarrow> req d | Ready \<Rightarrow> rdy d) of
        (None, d') \<Rightarrow> latch_run req rdy es (d', since @ [e], out)
      | (Some t, d') \<Rightarrow> latch_run req rdy es (d', [], out @ [t]))"

lemma latch_run_snoc:
  "latch_run req rdy (es @ [e]) s =
     (let (d, since, out) = latch_run req rdy es s
      in case (case e of Request \<Rightarrow> req d | Ready \<Rightarrow> rdy d) of
           (None, d') \<Rightarrow> (d', since @ [e], out) | (Some t, d') \<Rightarrow> (d', [], out @ [t]))"
  by (induction req rdy es s rule: latch_run.induct) (auto simp: Let_def split: prod.splits option.splits)

text \<open>The contract the two sides share.\<close>

locale latch =
  fixes req rdy :: "'d \<Rightarrow> nat option \<times> 'd" and can waiting :: "'d \<Rightarrow> bool" and cb :: "'d \<Rightarrow> nat option"
  assumes req_can: "can d \<Longrightarrow> fst (req d) = cb d \<and> \<not> can (snd (req d)) \<and> waiting (snd (req d)) = waiting d"
    and req_wait: "\<not> can d \<Longrightarrow> fst (req d) = None \<and> \<not> can (snd (req d)) \<and> waiting (snd (req d))"
    and rdy_wait: "waiting d \<Longrightarrow> fst (rdy d) = cb d \<and> \<not> waiting (snd (rdy d)) \<and> can (snd (rdy d)) = can d"
    and rdy_can: "\<not> waiting d \<Longrightarrow> fst (rdy d) = None \<and> can (snd (rdy d)) \<and> \<not> waiting (snd (rdy d))"
    and req_cb: "cb (snd (req d)) = cb d" and rdy_cb: "cb (snd (rdy d)) = cb d"
begin

lemma run_inv:
  assumes "\<not> can d" "\<not> waiting d" "cb d = Some t" "latch_run req rdy es (d, [], []) = (d', since, out)"
  shows "cb d' = Some t \<and> (waiting d' \<longleftrightarrow> Request \<in> set since) \<and> (can d' \<longleftrightarrow> Ready \<in> set since)
    \<and> \<not> (can d' \<and> waiting d') \<and> set out \<subseteq> {t}
    \<and> length out + of_bool (waiting d') \<le> count_list es Request \<and> length out + of_bool (can d') \<le> count_list es Ready"
  using assms(4)
proof (induction es arbitrary: d' since out rule: rev_induct)
  case Nil
  with assms show ?case by simp
next
  case (snoc e es)
  obtain d1 s1 o1 where r: "latch_run req rdy es (d, [], []) = (d1, s1, o1)" by (metis prod_cases3)
  note IH = snoc.IH [OF r]
  show ?case
  proof (cases e)
    case Request
    with snoc.prems r have "(case req d1 of (None, d') \<Rightarrow> (d', s1 @ [Request], o1) | (Some t, d') \<Rightarrow> (d', [], o1 @ [t])) = (d', since, out)"
      by (simp add: latch_run_snoc)
    with IH Request show ?thesis
      using req_can [of d1] req_wait [of d1] req_cb [of d1] by (cases "req d1"; cases "can d1") (auto split: option.splits)
  next
    case Ready
    with snoc.prems r have "(case rdy d1 of (None, d') \<Rightarrow> (d', s1 @ [Ready], o1) | (Some t, d') \<Rightarrow> (d', [], o1 @ [t])) = (d', since, out)"
      by (simp add: latch_run_snoc)
    with IH Ready show ?thesis
      using rdy_can [of d1] rdy_wait [of d1] rdy_cb [of d1] by (cases "rdy d1"; cases "waiting d1") (auto split: option.splits)
  qed
qed

end

interpretation rlatch: latch readWhenReady readIfWaiting can_read waiting_read read_cb
  by unfold_locales (simp_all add: readWhenReady_def readIfWaiting_def)

interpretation wlatch: latch writeWhenReady writeIfWaiting can_write waiting_write write_cb
  by unfold_locales (simp_all add: writeWhenReady_def writeIfWaiting_def)

text \<open>
  C19. No wake-up is lost: after any sequence of requests and readiness events on a new descriptor,
  in any order, it cannot be that both a request and a readiness event came after the last
  scheduling of the callback; a pending one is remembered in its flag. Every scheduled callback is
  the registered one and answers a request and a readiness event of its own. Both for the read and
  for the write side.
\<close>

theorem latch_no_lost_wakeup:
  "(case latch_run readWhenReady readIfWaiting es (new_Descriptor f (Some r) (Some w), [], []) of (d, since, out) \<Rightarrow>
      \<not> (Request \<in> set since \<and> Ready \<in> set since) \<and> (waiting_read d \<longleftrightarrow> Request \<in> set since) \<and> (can_read d \<longleftrightarrow> Ready \<in> set since)
      \<and> set out \<subseteq> {r} \<and> length out \<le> count_list es Request \<and> length out \<le> count_list es Ready)
   \<and> (case latch_run writeWhenReady writeIfWaiting es (new_Descriptor f (Some r) (Some w), [], []) of (d, since, out) \<Rightarrow>
      \<not> (Request \<in> set since \<and> Ready \<in> set since) \<and> (waiting_write d \<longleftrightarrow> Request \<in> set since) \<and> (can_write d \<longleftrightarrow> Ready \<in> set since)
      \<and> set out \<subseteq> {w} \<and> length out \<le> count_list es Request \<and> length out \<le> count_list es Ready)"
proof -
  let ?d = "new_Descriptor f (Some r) (Some w)"
  obtain d s1 o1 where r1: "latch_run readWhenReady readIfWaiting es (?d, [], []) = (d, s1, o1)" by (metis prod_cases3)
  obtain d2 s2 o2 where r2: "latch_run writeWhenReady writeIfWaiting es (?d, [], []) = (d2, s2, o2)" by (metis prod_cases3)
  have d: "\<not> can_read ?d" "\<not> waiting_read ?d" "read_cb ?d = Some r" "\<not> can_write ?d" "\<not> waiting_write ?d" "write_cb ?d = Some w"
    by (simp_all add: new_Descriptor_def)
  show ?thesis
    unfolding r1 r2 using rlatch.run_inv [OF d(1-3) r1] wlatch.run_inv [OF d(4-6) r2] by auto
qed

section \<open>Timers\<close>

lemma insort_timer_insert:
  "insort_key fst a (timer_insert ts t q) = timer_insert ts t (insort_key fst a q)"
  by (induction ts t q rule: timer_insert.induct) (cases a; auto)+

lemma sort_key_snoc: "sort_key fst (q @ [(ts, t)]) = timer_insert ts t (sort_key fst q)"
  by (induction q) (simp_all add: insort_timer_insert)

text \<open>A sequence of calls of \<^verbatim>\<open>addTimer\<close>.\<close>

definition addTimers :: "(64 word \<times> nat) list \<Rightarrow> IOManager \<Rightarrow> IOManager" where
  "addTimers ts m = fold (\<lambda>(k, t). addTimer k t) ts m"

lemma addTimers_sort:
  "timer_queue m = [] \<Longrightarrow> addTimers ts m = m\<lparr>timer_queue := sort_key fst ts\<rparr>"
proof (induction ts rule: rev_induct)
  case (snoc x ts)
  obtain k t where x: "x = (k, t)" by (cases x)
  have "addTimers (ts @ [x]) m = addTimer k t (addTimers ts m)" by (simp add: addTimers_def x)
  also have "\<dots> = m\<lparr>timer_queue := sort_key fst (ts @ [x])\<rparr>" using snoc by (simp add: addTimer_def x sort_key_snoc del: sort_key_simps)
  finally show ?case .
qed (simp add: addTimers_def)

lemma addTask_queue [simp]: "timer_queue (fold io_addTask ts m) = timer_queue m"
  by (induction ts arbitrary: m) (simp_all add: io_addTask_def)

lemma io_addTask_timer: "io_addTask t (m\<lparr>timer_queue := q\<rparr>) = (io_addTask t m)\<lparr>timer_queue := q\<rparr>"
  by (simp add: io_addTask_def)

lemma fold_addTask_timer: "fold io_addTask ts (m\<lparr>timer_queue := q\<rparr>) = (fold io_addTask ts m)\<lparr>timer_queue := q\<rparr>"
  by (induction ts arbitrary: m) (simp_all add: io_addTask_timer)

lemma run_timers_sorted:
  "sorted (map fst q) \<Longrightarrow> run_timers now q m =
     (fold io_addTask (map snd (filter (\<lambda>x. fst x \<le> now) q)) m)\<lparr>timer_queue := filter (\<lambda>x. now < fst x) q\<rparr>"
proof (induction now q m rule: run_timers.induct)
  case (2 now k t q m)
  show ?case
  proof (cases "k > now")
    case True
    then have *: "\<forall>x \<in> set q. now < fst x" using 2(2) by force
    then have "filter (\<lambda>x. fst x \<le> now) q = []" "filter (\<lambda>x. now < fst x) q = q"
      by (auto simp: filter_empty_conv filter_id_conv)
    then show ?thesis using True by auto
  qed (use 2 in auto)
qed simp

text \<open>
  C34. The timers added in any order: the next round of the polling loop hands exactly those whose
  time has come to the workers, in the order of their times and, for equal times, in the order they
  were added, and keeps the others.
\<close>

theorem timers_run_when_due:
  assumes "timer_queue m = []"
  shows "poll_timers now (addTimers ts m) =
    (fold io_addTask (map snd (sort_key fst (filter (\<lambda>x. fst x \<le> now) ts))) m)
      \<lparr>timer_queue := sort_key fst (filter (\<lambda>x. now < fst x) ts)\<rparr>"
proof -
  let ?q = "sort_key fst ts"
  have q: "timer_queue (addTimers ts m) = ?q" "addTimers ts m = m\<lparr>timer_queue := ?q\<rparr>" using addTimers_sort [OF assms] by simp_all
  show ?thesis
    unfolding poll_timers_def q(1) run_timers_sorted [OF sorted_sort_key] unfolding q(2) fold_addTask_timer
    by (simp add: filter_sort)
qed

theorem timers_run_when_due_witness:
  "map_option (\<lambda>m. (dispatch_queue (worker_pool (poll_timers 5 (addTimers [(7, 1), (5, 2), (3, 3), (5, 4)] m))),
      timer_queue (poll_timers 5 (addTimers [(7, 1), (5, 2), (3, 3), (5, 4)] m)))) (new_IOManager 3 0)
   = Some ([Some 3, Some 2, Some 4], [(7, 1)])"
proof -
  obtain m where m: "new_IOManager 3 0 = Some m" "timer_queue m = []" "worker_pool m = new_ThreadPoolFast 0"
    by (simp add: new_IOManager_def dp_create_def)
  show ?thesis
    unfolding m(1) option.map timers_run_when_due [OF m(2)]
    by (simp add: m(3) io_addTask_def addTask_def new_ThreadPoolFast_def)
qed

section \<open>Dispatch\<close>

lemma and_or_nonzero: "(x :: 32 word) AND (a OR b) \<noteq> 0 \<longleftrightarrow> x AND a \<noteq> 0 \<or> x AND b \<noteq> 0"
  by (simp add: bit.conj_disj_distrib or_eq_0_iff)

text \<open>
  Serving an event: an error or a hang-up wakes the reader and the writer, input wakes the
  reader, output the writer, and any other mask, urgent data included, nobody.
\<close>

theorem event_dispatch:
  assumes "ep_events (poller m) ! i = (evs, d)"
  shows "poll_event i m =
    do { m1 \<leftarrow> (if evs AND EPOLLERR \<noteq> 0 \<or> evs AND EPOLLHUP \<noteq> 0 \<or> evs AND EPOLLIN \<noteq> 0 then latch_op readIfWaiting d m else Some m);
         if evs AND EPOLLERR \<noteq> 0 \<or> evs AND EPOLLHUP \<noteq> 0 \<or> evs AND EPOLLOUT \<noteq> 0 then latch_op writeIfWaiting d m1 else Some m1 }"
proof -
  define er where "er = (evs AND EPOLLERR \<noteq> 0)"
  define hu where "hu = (evs AND EPOLLHUP \<noteq> 0)"
  define i1 where "i1 = (evs AND EPOLLIN \<noteq> 0)"
  define ou where "ou = (evs AND EPOLLOUT \<noteq> 0)"
  have g: "getEvents i (poller m) = (if er then DP_ERROR else (if hu \<or> i1 then DP_READ_READY else 0) OR (if hu \<or> ou then DP_WRITE_READY else 0), d)"
    unfolding getEvents_def assms and_or_nonzero er_def hu_def i1_def ou_def by (simp add: Let_def)
  show ?thesis
    unfolding poll_event_def g er_def [symmetric] hu_def [symmetric] i1_def [symmetric] ou_def [symmetric]
    by (cases er; cases hu; cases i1; cases ou) (simp_all add: dp_consts)
qed

lemma pri_masks: "EPOLLPRI AND EPOLLERR = 0" "EPOLLPRI AND EPOLLHUP = 0" "EPOLLPRI AND EPOLLIN = 0" "EPOLLPRI AND EPOLLOUT = 0"
  by code_simp+

theorem event_dispatch_witness:
  "poll_event 0 (the (new_IOManager 3 1)\<lparr>poller := \<lparr>ep_fd = 3, ep_registered = [], ep_events = [(EPOLLPRI, 0)]\<rparr>\<rparr>)
   = Some (the (new_IOManager 3 1)\<lparr>poller := \<lparr>ep_fd = 3, ep_registered = [], ep_events = [(EPOLLPRI, 0)]\<rparr>\<rparr>)"
  by (subst event_dispatch [of _ 0 EPOLLPRI 0]) (simp_all add: pri_masks)

section \<open>Lifetime of descriptors\<close>

text \<open>
  The polling thread and its clients, interleaved at their critical sections. The clients hold the
  descriptors in \<open>live\<close>: they use and delete only these, and close the socket before they delete its
  descriptor; epoll reports only descriptors whose socket is open.
\<close>

datatype poll_phase = PollOff | PollTop | PollTimers | PollEvents nat | PollCollect

record io_state =
  mgr :: IOManager
  pphase :: poll_phase
  live :: "nat set"

datatype io_action = NewDesc int "nat option" "nat option" | DelDesc nat | Latch bool nat | SetUp nat "nat option" "nat option"
  | AddTimer "64 word" nat | IoTask nat | PollEnter | PollWait "wait_result list" | PollTick "64 word" | PollEvent | PollGC | PollExit
  | StopRequest

fun io_step :: "io_action \<Rightarrow> io_state \<Rightarrow> io_state option" where
  "io_step (NewDesc f r w) s = do { (d, m) \<leftarrow> newDescriptor 0 f r w (mgr s); Some (s\<lparr>mgr := m, live := insert d (live s)\<rparr>) }"
| "io_step (DelDesc d) s =
     (if d \<in> live s then do { m \<leftarrow> delDescriptor (Some d) (mgr s); Some (s\<lparr>mgr := m, live := live s - {d}\<rparr>) } else None)"
| "io_step (Latch r d) s =
     (if d \<in> live s then do { m \<leftarrow> latch_op (if r then readWhenReady else writeWhenReady) d (mgr s); Some (s\<lparr>mgr := m\<rparr>) } else None)"
| "io_step (SetUp d r w) s = (if d \<in> live s then do { m \<leftarrow> io_setUpCalls d r w (mgr s); Some (s\<lparr>mgr := m\<rparr>) } else None)"
| "io_step (AddTimer ts t) s = Some (s\<lparr>mgr := addTimer ts t (mgr s)\<rparr>)"
| "io_step (IoTask t) s = Some (s\<lparr>mgr := io_addTask t (mgr s)\<rparr>)"
| "io_step PollEnter s = (if pphase s = PollOff then Some (s\<lparr>mgr := poll_enter (mgr s), pphase := PollTop\<rparr>) else None)"
| "io_step (PollWait ws) s =
     (if pphase s = PollTop \<and> \<not> stopped (mgr s) then
        case dp_poll ws (poller (mgr s)) of
          Inr (_, p) \<Rightarrow> if snd ` set (ep_events p) \<subseteq> live s then Some (s\<lparr>mgr := (mgr s)\<lparr>poller := p\<rparr>, pphase := PollTimers\<rparr>) else None
        | Inl _ \<Rightarrow> None
      else None)"
| "io_step (PollTick now) s =
     (if pphase s = PollTimers then Some (s\<lparr>mgr := poll_timers now (mgr s), pphase := PollEvents 0\<rparr>) else None)"
| "io_step PollEvent s =
     (case pphase s of
        PollEvents i \<Rightarrow>
          if i < length (ep_events (poller (mgr s))) then do { m \<leftarrow> poll_event i (mgr s); Some (s\<lparr>mgr := m, pphase := PollEvents (Suc i)\<rparr>) }
          else Some (s\<lparr>pphase := PollCollect\<rparr>)
      | _ \<Rightarrow> None)"
| "io_step PollGC s = (if pphase s = PollCollect then do { m \<leftarrow> poll_collect (mgr s); Some (s\<lparr>mgr := m, pphase := PollTop\<rparr>) } else None)"
| "io_step PollExit s =
     (if pphase s = PollTop \<and> stopped (mgr s) then Some (s\<lparr>mgr := poll_exit (mgr s), pphase := PollOff\<rparr>) else None)"
| "io_step StopRequest s = Some (s\<lparr>mgr := snd (stop_request (mgr s))\<rparr>)"

definition io_init :: "io_state \<Rightarrow> bool" where
  "io_init s \<longleftrightarrow> (\<exists>e n m. new_IOManager e n = Some m \<and> s = \<lparr>mgr = m, pphase = PollOff, live = {}\<rparr>)"

text \<open>The chain of deleted descriptors.\<close>

fun dchain :: "(nat \<Rightarrow> Descriptor option) \<Rightarrow> nat option \<Rightarrow> nat list \<Rightarrow> bool" where
  "dchain h None ds \<longleftrightarrow> ds = []"
| "dchain h (Some d) [] \<longleftrightarrow> False"
| "dchain h (Some d) (e # ds) \<longleftrightarrow> d = e \<and> (\<exists>x. h d = Some x \<and> dchain h (next_desc x) ds)"

definition io_inv :: "io_state \<Rightarrow> bool" where
  "io_inv s \<longleftrightarrow> (\<exists>ds. dchain (descs (mgr s)) (deleted_desc (mgr s)) ds \<and> distinct ds \<and> live s \<inter> set ds = {}
     \<and> live s \<subseteq> dom (descs (mgr s)) \<and> dom (descs (mgr s)) \<subseteq> {..< fresh_desc (mgr s)}
     \<and> ((pphase s = PollTimers \<or> (\<exists>i. pphase s = PollEvents i)) \<longrightarrow> snd ` set (ep_events (poller (mgr s))) \<subseteq> live s \<union> set ds))"

lemma dchain_dom: "dchain h o' ds \<Longrightarrow> set ds \<subseteq> dom h"
  by (induction h o' ds rule: dchain.induct) auto

lemma dchain_upd:
  assumes "dchain h o' ds" "\<And>d. d \<in> set ds \<Longrightarrow> map_option next_desc (h' d) = map_option next_desc (h d)"
  shows "dchain h' o' ds"
  using assms by (induction h o' ds rule: dchain.induct) (fastforce simp: map_option_case split: option.splits)+

text \<open>Updates of one descriptor that keep its place in the chain.\<close>

lemma dchain_keep: "h d = Some x \<Longrightarrow> next_desc x' = next_desc x \<Longrightarrow> \<forall>o' ds. dchain h o' ds \<longrightarrow> dchain (h(d \<mapsto> x')) o' ds"
  by (auto elim!: dchain_upd)

lemma dchain_other: "dchain h o' ds \<Longrightarrow> d \<notin> set ds \<Longrightarrow> dchain (h(d := v)) o' ds"
  by (erule dchain_upd) auto

lemma delete_chain_ok:
  assumes "dchain (descs m) o' ds" "distinct ds" "length ds \<le> n"
  shows "\<exists>m'. delete_chain n o' m = Some m' \<and> descs m' = (\<lambda>d. if d \<in> set ds then None else descs m d)
    \<and> fresh_desc m' = fresh_desc m \<and> deleted_desc m' = deleted_desc m \<and> poller m' = poller m"
  using assms
proof (induction n o' m arbitrary: ds rule: delete_chain.induct)
  case (1 n m)
  then show ?case by simp
next
  case (2 d m)
  then show ?case by (cases ds) auto
next
  case (3 n d m)
  then obtain x ds' where x: "ds = d # ds'" "descs m d = Some x" "dchain (descs m) (next_desc x) ds'" by (cases ds) auto
  let ?m = "m\<lparr>descs := (descs m)(d := None), freed_cbs := freed_cbs m @ delete_Descriptor x\<rparr>"
  have "dchain (descs ?m) (next_desc x) ds'" using dchain_other [OF x(3)] 3(3) x(1) by simp
  then have "\<exists>m'. delete_chain n (next_desc x) ?m = Some m' \<and> descs m' = (\<lambda>d. if d \<in> set ds' then None else descs ?m d)
      \<and> fresh_desc m' = fresh_desc ?m \<and> deleted_desc m' = deleted_desc ?m \<and> poller m' = poller ?m"
    by (rule 3(1) [OF x(2)]) (use 3(3,4) x(1) in simp_all)
  then obtain m' where "delete_chain n (next_desc x) ?m = Some m'" "descs m' = (\<lambda>d. if d \<in> set ds' then None else descs ?m d)"
    "fresh_desc m' = fresh_desc m" "deleted_desc m' = deleted_desc m" "poller m' = poller m"
    by auto
  then show ?case using x by auto
qed

text \<open>Operations that leave the descriptors alone.\<close>

lemma io_addTask_frame [simp]:
  "descs (io_addTask t m) = descs m" "fresh_desc (io_addTask t m) = fresh_desc m" "deleted_desc (io_addTask t m) = deleted_desc m"
  "poller (io_addTask t m) = poller m" "stopped (io_addTask t m) = stopped m"
  by (simp_all add: io_addTask_def)

lemma run_timers_frame [simp]:
  "descs (run_timers now q m) = descs m" "fresh_desc (run_timers now q m) = fresh_desc m"
  "deleted_desc (run_timers now q m) = deleted_desc m" "poller (run_timers now q m) = poller m"
  by (induction now q m rule: run_timers.induct) auto

definition keeps_next :: "(Descriptor \<Rightarrow> nat option \<times> Descriptor) \<Rightarrow> bool" where
  "keeps_next f \<longleftrightarrow> (\<forall>x. next_desc (snd (f x)) = next_desc x)"

lemma keeps_next_latches: "keeps_next readWhenReady" "keeps_next writeWhenReady" "keeps_next readIfWaiting" "keeps_next writeIfWaiting"
  by (simp_all add: keeps_next_def readWhenReady_def writeWhenReady_def readIfWaiting_def writeIfWaiting_def)

lemma latch_op_frame:
  assumes "d \<in> dom (descs m)" "keeps_next f"
  shows "\<exists>m'. latch_op f d m = Some m' \<and> dom (descs m') = dom (descs m) \<and> fresh_desc m' = fresh_desc m
    \<and> deleted_desc m' = deleted_desc m \<and> poller m' = poller m
    \<and> (\<forall>o' ds. dchain (descs m) o' ds \<longrightarrow> dchain (descs m') o' ds)"
proof -
  obtain x where x: "descs m d = Some x" using assms(1) by blast
  obtain t x' where f: "f x = (t, x')" by (cases "f x")
  have n: "next_desc x' = next_desc x" using assms(2) f by (metis keeps_next_def snd_conv)
  define m1 where "m1 = m\<lparr>descs := (descs m)(d \<mapsto> x')\<rparr>"
  have e: "latch_op f d m = Some (case t of None \<Rightarrow> m1 | Some t \<Rightarrow> io_addTask t m1)" by (cases t) (simp_all add: latch_op_def x f m1_def Let_def)
  have "dom (descs m1) = dom (descs m)" "fresh_desc m1 = fresh_desc m" "deleted_desc m1 = deleted_desc m" "poller m1 = poller m"
    "\<forall>o' ds. dchain (descs m) o' ds \<longrightarrow> dchain (descs m1) o' ds"
    using x dchain_keep [of "descs m", OF x n] by (auto simp: m1_def simp del: fun_upd_apply)
  with e show ?thesis by (cases t) (auto simp del: fun_upd_apply)
qed

lemma poll_event_frame:
  assumes "i < length (ep_events (poller m))" "snd (ep_events (poller m) ! i) \<in> dom (descs m)"
  shows "\<exists>m'. poll_event i m = Some m' \<and> dom (descs m') = dom (descs m) \<and> fresh_desc m' = fresh_desc m
    \<and> deleted_desc m' = deleted_desc m \<and> poller m' = poller m
    \<and> (\<forall>o' ds. dchain (descs m) o' ds \<longrightarrow> dchain (descs m') o' ds)"
proof -
  obtain e d where g: "getEvents i (poller m) = (e, d)" by (cases "getEvents i (poller m)")
  have d: "d \<in> dom (descs m)" using assms(2) g by (auto simp: getEvents_def Let_def split: prod.splits if_splits)
  let ?r = "if e AND (DP_ERROR OR DP_READ_READY) \<noteq> 0 then latch_op readIfWaiting d m else Some m"
  obtain m1 where m1: "?r = Some m1" "dom (descs m1) = dom (descs m)" "fresh_desc m1 = fresh_desc m"
    "deleted_desc m1 = deleted_desc m" "poller m1 = poller m" "\<forall>o' ds. dchain (descs m) o' ds \<longrightarrow> dchain (descs m1) o' ds"
    using latch_op_frame [OF d keeps_next_latches(3)] by (cases "e AND (DP_ERROR OR DP_READ_READY) \<noteq> 0") (auto simp del: dom_def)
  have "d \<in> dom (descs m1)" using d m1(2) by simp
  from latch_op_frame [OF this keeps_next_latches(4)] obtain m2 where
    m2: "(if e AND (DP_ERROR OR DP_WRITE_READY) \<noteq> 0 then latch_op writeIfWaiting d m1 else Some m1) = Some m2"
    "dom (descs m2) = dom (descs m1)" "fresh_desc m2 = fresh_desc m1" "deleted_desc m2 = deleted_desc m1" "poller m2 = poller m1"
    "\<forall>o' ds. dchain (descs m1) o' ds \<longrightarrow> dchain (descs m2) o' ds"
    by (cases "e AND (DP_ERROR OR DP_WRITE_READY) \<noteq> 0") auto
  have "poll_event i m = Some m2" unfolding poll_event_def g using m1(1) m2(1) by simp
  with m1 m2 show ?thesis by simp
qed

lemma io_inv_frame:
  assumes "io_inv s" "dom (descs m) = dom (descs (mgr s))" "fresh_desc m = fresh_desc (mgr s)"
    "deleted_desc m = deleted_desc (mgr s)" "poller m = poller (mgr s)" "\<forall>o' ds. dchain (descs (mgr s)) o' ds \<longrightarrow> dchain (descs m) o' ds"
    and "mgr s' = m" "live s' = live s"
    and "pphase s' = PollTimers \<or> (\<exists>i. pphase s' = PollEvents i) \<Longrightarrow> pphase s = PollTimers \<or> (\<exists>i. pphase s = PollEvents i)"
  shows "io_inv s'"
  using assms unfolding io_inv_def by fastforce

lemma io_invE:
  assumes "io_inv s"
  obtains ds where "dchain (descs (mgr s)) (deleted_desc (mgr s)) ds" "distinct ds" "live s \<inter> set ds = {}"
    "live s \<subseteq> dom (descs (mgr s))" "dom (descs (mgr s)) \<subseteq> {..< fresh_desc (mgr s)}"
    "pphase s = PollTimers \<or> (\<exists>i. pphase s = PollEvents i) \<Longrightarrow> snd ` set (ep_events (poller (mgr s))) \<subseteq> live s \<union> set ds"
  using assms unfolding io_inv_def by blast

lemma live_dom: "io_inv s \<Longrightarrow> d \<in> live s \<Longrightarrow> d \<in> dom (descs (mgr s))"
  by (auto elim!: io_invE)

lemma new_desc_inv:
  assumes "io_inv s" "newDescriptor 0 f r w (mgr s) = Some (d, m)"
  shows "io_inv (s\<lparr>mgr := m, live := insert d (live s)\<rparr>)"
proof -
  from assms(1) obtain ds where ds: "dchain (descs (mgr s)) (deleted_desc (mgr s)) ds" "distinct ds" "live s \<inter> set ds = {}"
    "live s \<subseteq> dom (descs (mgr s))" "dom (descs (mgr s)) \<subseteq> {..< fresh_desc (mgr s)}"
    "pphase s = PollTimers \<or> (\<exists>i. pphase s = PollEvents i) \<Longrightarrow> snd ` set (ep_events (poller (mgr s))) \<subseteq> live s \<union> set ds"
    by (rule io_invE) blast
  have d: "d = fresh_desc (mgr s)" "descs m = (descs (mgr s))(d \<mapsto> new_Descriptor f r w)" "fresh_desc m = Suc d"
    "deleted_desc m = deleted_desc (mgr s)" "ep_events (poller m) = ep_events (poller (mgr s))"
    using assms(2) by (auto simp: newDescriptor_def setEvent_def Let_def simp del: fun_upd_apply)
  have nd: "d \<notin> set ds" "d \<notin> live s" using dchain_dom [OF ds(1)] ds(4,5) d(1) by auto
  have "dchain (descs m) (deleted_desc m) ds" unfolding d(2,4) by (rule dchain_other [OF ds(1) nd(1)])
  moreover have "dom (descs m) \<subseteq> {..< fresh_desc m}" using ds(5) d(1) unfolding d(2,3) by auto
  moreover have "insert d (live s) \<subseteq> dom (descs m)" using ds(4) unfolding d(2) by auto
  ultimately show ?thesis unfolding io_inv_def using ds(2,3,6) nd by (auto simp: d(5) intro!: exI [of _ ds])
qed

lemma del_desc_inv:
  assumes "io_inv s" "d \<in> live s" "delDescriptor (Some d) (mgr s) = Some m"
  shows "io_inv (s\<lparr>mgr := m, live := live s - {d}\<rparr>)"
proof -
  from assms(1) obtain ds where ds: "dchain (descs (mgr s)) (deleted_desc (mgr s)) ds" "distinct ds" "live s \<inter> set ds = {}"
    "live s \<subseteq> dom (descs (mgr s))" "dom (descs (mgr s)) \<subseteq> {..< fresh_desc (mgr s)}"
    "pphase s = PollTimers \<or> (\<exists>i. pphase s = PollEvents i) \<Longrightarrow> snd ` set (ep_events (poller (mgr s))) \<subseteq> live s \<union> set ds"
    by (rule io_invE) blast
  obtain x where x: "descs (mgr s) d = Some x" using ds(4) assms(2) by blast
  have m: "descs m = (descs (mgr s))(d \<mapsto> x\<lparr>next_desc := deleted_desc (mgr s)\<rparr>)" "deleted_desc m = Some d"
    "fresh_desc m = fresh_desc (mgr s)" "poller m = poller (mgr s)"
    using assms(3) x by (auto simp: delDescriptor_def simp del: fun_upd_apply)
  have nd: "d \<notin> set ds" using ds(3) assms(2) by blast
  have "dchain (descs m) (deleted_desc (mgr s)) ds" unfolding m(1) by (rule dchain_other [OF ds(1) nd])
  then have "dchain (descs m) (deleted_desc m) (d # ds)" by (simp add: m)
  moreover have "dom (descs m) = dom (descs (mgr s))" using x unfolding m(1) by auto
  moreover have "live s \<union> set ds = (live s - {d}) \<union> set (d # ds)" using assms(2) by auto
  ultimately show ?thesis unfolding io_inv_def using ds(2-6) nd by (intro exI [of _ "d # ds"]) (auto simp: m(3,4))
qed

lemma collect_ok:
  assumes "io_inv s"
  shows "\<exists>m. poll_collect (mgr s) = Some m \<and> (pphase s' = PollTop \<and> mgr s' = m \<and> live s' = live s \<longrightarrow> io_inv s')"
proof -
  from assms obtain ds where ds: "dchain (descs (mgr s)) (deleted_desc (mgr s)) ds" "distinct ds" "live s \<inter> set ds = {}"
    "live s \<subseteq> dom (descs (mgr s))" "dom (descs (mgr s)) \<subseteq> {..< fresh_desc (mgr s)}"
    by (rule io_invE) blast
  let ?m = "(mgr s)\<lparr>deleted_desc := None\<rparr>"
  have "set ds \<subseteq> {..< fresh_desc (mgr s)}" using dchain_dom [OF ds(1)] ds(5) by blast
  then have "length ds \<le> fresh_desc (mgr s)" using card_mono [of "{..< fresh_desc (mgr s)}" "set ds"] ds(2) by (simp add: distinct_card)
  then obtain m where m: "delete_chain (fresh_desc (mgr s)) (deleted_desc (mgr s)) ?m = Some m"
    "descs m = (\<lambda>d. if d \<in> set ds then None else descs (mgr s) d)" "fresh_desc m = fresh_desc (mgr s)" "deleted_desc m = None"
    using delete_chain_ok [of ?m "deleted_desc (mgr s)" ds "fresh_desc (mgr s)"] ds(1,2) by (auto cong: if_cong)
  have "dom (descs m) \<subseteq> dom (descs (mgr s))" by (auto simp: m(2) split: if_splits)
  then have "dom (descs m) \<subseteq> {..< fresh_desc m}" using ds(5) by (simp add: m(3))
  moreover have "live s \<subseteq> dom (descs m)" using ds(3,4) by (auto simp: m(2))
  ultimately have "io_inv s'" if "pphase s' = PollTop" "mgr s' = m" "live s' = live s"
    unfolding io_inv_def using that by (intro exI [of _ "[]"]) (simp add: m)
  then show ?thesis using m(1) by (auto simp: poll_collect_def take_deleted_def)
qed

lemma poll_event_ok:
  assumes "io_inv s" "pphase s = PollEvents i" "i < length (ep_events (poller (mgr s)))"
  shows "\<exists>m. poll_event i (mgr s) = Some m \<and> io_inv (s\<lparr>mgr := m, pphase := PollEvents (Suc i)\<rparr>)"
proof -
  have "snd (ep_events (poller (mgr s)) ! i) \<in> dom (descs (mgr s))"
    using assms(1)
  proof (rule io_invE)
    fix ds assume ds: "dchain (descs (mgr s)) (deleted_desc (mgr s)) ds" "live s \<subseteq> dom (descs (mgr s))"
      "pphase s = PollTimers \<or> (\<exists>i. pphase s = PollEvents i) \<Longrightarrow> snd ` set (ep_events (poller (mgr s))) \<subseteq> live s \<union> set ds"
    have "snd (ep_events (poller (mgr s)) ! i) \<in> live s \<union> set ds" using ds(3) assms(2,3) by (meson image_subset_iff nth_mem)
    with dchain_dom [OF ds(1)] ds(2) show ?thesis by blast
  qed
  from poll_event_frame [OF assms(3) this] obtain m where m: "poll_event i (mgr s) = Some m" "dom (descs m) = dom (descs (mgr s))"
    "fresh_desc m = fresh_desc (mgr s)" "deleted_desc m = deleted_desc (mgr s)" "poller m = poller (mgr s)"
    "\<forall>o' ds. dchain (descs (mgr s)) o' ds \<longrightarrow> dchain (descs m) o' ds" by blast
  have "io_inv (s\<lparr>mgr := m, pphase := PollEvents (Suc i)\<rparr>)" by (rule io_inv_frame [OF assms(1) m(2-6)]) (use assms(2) in auto)
  with m(1) show ?thesis by blast
qed

lemma latch_inv:
  assumes "io_inv s" "d \<in> live s" "latch_op f d (mgr s) = Some m" "keeps_next f"
  shows "io_inv (s\<lparr>mgr := m\<rparr>)"
proof -
  have m: "dom (descs m) = dom (descs (mgr s))" "fresh_desc m = fresh_desc (mgr s)" "deleted_desc m = deleted_desc (mgr s)"
    "poller m = poller (mgr s)" "\<forall>o' ds. dchain (descs (mgr s)) o' ds \<longrightarrow> dchain (descs m) o' ds"
    using latch_op_frame [OF live_dom [OF assms(1,2)] assms(4)] assms(3) by auto
  show ?thesis by (rule io_inv_frame [OF assms(1) m]) simp_all
qed

lemma setup_inv:
  assumes "io_inv s" "d \<in> live s" "io_setUpCalls d r w (mgr s) = Some m"
  shows "io_inv (s\<lparr>mgr := m\<rparr>)"
proof -
  obtain x where x: "descs (mgr s) d = Some x" using live_dom [OF assms(1,2)] by blast
  have m: "descs m = (descs (mgr s))(d \<mapsto> x\<lparr>read_cb := r, write_cb := w\<rparr>)" "fresh_desc m = fresh_desc (mgr s)"
    "deleted_desc m = deleted_desc (mgr s)" "poller m = poller (mgr s)"
    using assms(3) x by (auto simp: io_setUpCalls_def setUpCalls_def simp del: fun_upd_apply)
  have "\<forall>o' ds. dchain (descs (mgr s)) o' ds \<longrightarrow> dchain (descs m) o' ds" unfolding m(1) by (rule dchain_keep) (simp_all add: x)
  moreover have "dom (descs m) = dom (descs (mgr s))" using x by (auto simp: m(1))
  ultimately show ?thesis by (intro io_inv_frame [OF assms(1) _ m(2-4)]) simp_all
qed

lemma wait_inv:
  assumes "io_inv s" "snd ` set (ep_events p) \<subseteq> live s"
  shows "io_inv (s\<lparr>mgr := (mgr s)\<lparr>poller := p\<rparr>, pphase := PollTimers\<rparr>)"
  using assms(1)
proof (rule io_invE)
  fix ds assume "dchain (descs (mgr s)) (deleted_desc (mgr s)) ds" "distinct ds" "live s \<inter> set ds = {}"
    "live s \<subseteq> dom (descs (mgr s))" "dom (descs (mgr s)) \<subseteq> {..< fresh_desc (mgr s)}"
  with assms(2) show ?thesis unfolding io_inv_def by (intro exI [of _ ds]) auto
qed

lemma io_step_inv:
  assumes "io_inv s" "io_step l s = Some s'"
  shows "io_inv s'"
proof -
  have fr: "io_inv s1" if "mgr s1 = m" "live s1 = live s" "descs m = descs (mgr s)" "fresh_desc m = fresh_desc (mgr s)"
    "deleted_desc m = deleted_desc (mgr s)" "poller m = poller (mgr s)"
    "pphase s1 = PollTimers \<or> (\<exists>i. pphase s1 = PollEvents i) \<Longrightarrow> pphase s = PollTimers \<or> (\<exists>i. pphase s = PollEvents i)" for s1 m
    by (rule io_inv_frame [OF assms(1), of m]) (use that in auto)
  show ?thesis
  proof (cases l)
    case (NewDesc f r w)
    then show ?thesis using assms new_desc_inv by (auto simp: Option.bind_eq_Some_conv)
  next
    case (DelDesc d)
    then show ?thesis using assms del_desc_inv by (auto simp: Option.bind_eq_Some_conv split: if_splits)
  next
    case (Latch r d)
    with assms obtain m where m: "d \<in> live s" "latch_op (if r then readWhenReady else writeWhenReady) d (mgr s) = Some m" "s' = s\<lparr>mgr := m\<rparr>"
      by (auto simp: Option.bind_eq_Some_conv split: if_splits)
    have "keeps_next (if r then readWhenReady else writeWhenReady)" by (simp add: keeps_next_latches)
    then show ?thesis unfolding m(3) by (rule latch_inv [OF assms(1) m(1,2)])
  next
    case (SetUp d r w)
    then show ?thesis using assms setup_inv by (auto simp: Option.bind_eq_Some_conv split: if_splits)
  next
    case (PollWait ws)
    then show ?thesis using assms wait_inv by (auto split: if_splits sum.splits)
  next
    case PollEvent
    with assms(2) obtain i where i: "pphase s = PollEvents i" by (auto split: poll_phase.splits)
    show ?thesis
    proof (cases "i < length (ep_events (poller (mgr s)))")
      case True
      with poll_event_ok [OF assms(1) i] assms(2) PollEvent i show ?thesis by auto
    next
      case False
      with assms(2) PollEvent i have "s' = s\<lparr>pphase := PollCollect\<rparr>" by simp
      then show ?thesis by (auto intro: fr)
    qed
  next
    case PollGC
    with assms(2) obtain m where "poll_collect (mgr s) = Some m" "s' = s\<lparr>mgr := m, pphase := PollTop\<rparr>"
      by (auto simp: Option.bind_eq_Some_conv split: if_splits)
    with collect_ok [OF assms(1), of s'] show ?thesis by auto
  qed (use assms(2) in \<open>auto simp: addTimer_def poll_enter_def poll_exit_def poll_timers_def stop_request_def split: if_splits intro: fr\<close>)
qed

interpretation ioloop: machine io_step io_init io_inv
proof unfold_locales
  fix s assume "io_init s"
  then show "io_inv s" by (auto simp: io_init_def io_inv_def new_IOManager_def Option.bind_eq_Some_conv intro!: exI [of _ "[]"])
qed (rule io_step_inv)

text \<open>
  C11. Under every interleaving of the polling thread with clients that create, use, close and
  delete descriptors: the polling thread, when it serves the events of a batch, finds every reported
  descriptor still allocated, also when a client deleted it after the batch was reported; the
  disposal of the deleted descriptors touches each of them once; and a descriptor that a client still
  holds is never freed.
\<close>

theorem no_use_after_free:
  assumes "reachable io_step io_init s"
  shows "(\<forall>i. pphase s = PollEvents i \<longrightarrow> i < length (ep_events (poller (mgr s))) \<longrightarrow> poll_event i (mgr s) \<noteq> None)
    \<and> (pphase s = PollCollect \<longrightarrow> poll_collect (mgr s) \<noteq> None) \<and> live s \<subseteq> dom (descs (mgr s))"
proof -
  have I: "io_inv s" by (rule ioloop.reachable_inv [OF assms])
  show ?thesis using poll_event_ok [OF I] collect_ok [OF I] live_dom [OF I] by fastforce
qed

text \<open>A client deletes a descriptor after it was reported and before its event is served.\<close>

definition late_delete :: "io_action list" where
  "late_delete = [NewDesc 7 (Some 1) (Some 2), PollEnter, PollWait [WIntr, WReady [(EPOLLIN, 0)]], DelDesc 0, PollTick 0]"

definition io_start :: io_state where
  "io_start = \<lparr>mgr = the (new_IOManager 3 1), pphase = PollOff, live = {}\<rparr>"

theorem no_use_after_free_witness:
  "\<exists>s. exec io_step late_delete io_start = Some s \<and> pphase s = PollEvents 0 \<and> 0 \<notin> live s
    \<and> ep_events (poller (mgr s)) = [(EPOLLIN, 0)] \<and> poll_event 0 (mgr s) \<noteq> None"
proof -
  have new: "new_IOManager 3 1 = Some (the (new_IOManager 3 1))" by (simp add: new_IOManager_def dp_create_def)
  then have "io_init io_start" unfolding io_init_def io_start_def by blast
  then have i: "reachable io_step io_init io_start" by (rule reach_init)
  have "exec io_step late_delete io_start \<noteq> None \<and> (\<forall>s. exec io_step late_delete io_start = Some s \<longrightarrow>
      pphase s = PollEvents 0 \<and> 0 \<notin> live s \<and> ep_events (poller (mgr s)) = [(EPOLLIN, 0)])"
    by (simp add: late_delete_def io_start_def new_IOManager_def dp_create_def new_Poller_def newDescriptor_def setEvent_def
        poll_enter_def delDescriptor_def poll_timers_def MAX_FDS_PER_POLL_def Let_def)
  then obtain s where s: "exec io_step late_delete io_start = Some s" "pphase s = PollEvents 0" "0 \<notin> live s"
    "ep_events (poller (mgr s)) = [(EPOLLIN, 0)]" by blast
  with no_use_after_free [OF reachable_exec [OF i s(1)]] show ?thesis by auto
qed

end
