(* ===== verification/Connection.thy ===== *)
theory Connection
  imports IO_Manager Buffer
begin

text \<open>
  Asynchronous connections (\<^verbatim>\<open>connection.hpp\<close>, \<^verbatim>\<open>connection.cpp\<close>): reference counting, the
  connecting, reading and writing loops over a socket, and their use of descriptors of the event
  loop and of the streaming buffers. What the system calls return is an argument; the virtual
  methods \<^verbatim>\<open>readDone\<close> and \<^verbatim>\<open>connDone\<close> of the sub-classes are arguments too, and \<open>sub\<close> holds the
  sub-class's own members.
\<close>

record 'x Connection =
  in_buf :: Buffer
  writing :: bool
  out_buf :: Buffer
  client_fd :: int
  conn_closed :: bool
  io_desc :: "nat option"
  in_error :: bool
  error_string :: string
  refs :: int
  sub :: 'x

text \<open>Which method of the connection a callback object calls.\<close>

datatype upcall = DoRead | DoWrite | DoConnect

text \<open>
  A connection with its surroundings: the event loop, the callback objects it created, whether the
  object was destroyed, the descriptors that were closed, and the bytes the socket took.
\<close>

record 'x conn_world =
  conn :: "'x Connection"
  io :: IOManager
  upcalls :: "(nat \<times> upcall) list"
  destroyed :: bool
  closed_fds :: "int list"
  sock_out :: "byte option list"

text \<open>
  \<open>Pending\<close>: the answers of the socket given so far are used up and the loop goes on waiting;
  \<open>Crash\<close>: undefined behaviour.
\<close>

datatype 'a run = Done 'a | Pending | Crash

fun run_bind :: "'a run \<Rightarrow> ('a \<Rightarrow> 'b run) \<Rightarrow> 'b run" where
  "run_bind (Done x) f = f x"
| "run_bind Pending f = Pending"
| "run_bind Crash f = Crash"

definition of_opt :: "'a option \<Rightarrow> 'a run" where
  "of_opt r = (case r of None \<Rightarrow> Crash | Some x \<Rightarrow> Done x)"

lemma of_opt_simps [simp]: "of_opt (Some x) = Done x" "of_opt None = Crash"
  by (simp_all add: of_opt_def)

lemma run_bind_Ret: "run_bind r f = Done y \<longleftrightarrow> (\<exists>x. r = Done x \<and> f x = Done y)"
  by (cases r) auto

lemma of_opt_Ret: "of_opt r = Done x \<longleftrightarrow> r = Some x"
  by (cases r) auto

section \<open>Construction, destruction, reference counting\<close>

definition new_upcall :: "upcall \<Rightarrow> 'x conn_world \<Rightarrow> nat \<times> 'x conn_world" where
  "new_upcall u w = (let k = length (upcalls w) in (k, w\<lparr>upcalls := upcalls w @ [(k, u)]\<rparr>))"

text \<open>The passive constructor; \<open>rc\<close> is the result of \<^verbatim>\<open>epoll_ctl\<close> and \<open>None\<close> is \<^verbatim>\<open>exit(1)\<close>.\<close>

definition new_Connection :: "int \<Rightarrow> int \<Rightarrow> 'x \<Rightarrow> 'x conn_world \<Rightarrow> 'x conn_world option" where
  "new_Connection rc fd0 x w =
     (let (r, w1) = new_upcall DoRead w; (wr, w2) = new_upcall DoWrite w1
      in do { (d, m) \<leftarrow> newDescriptor rc fd0 (Some r) (Some wr) (io w2);
              Some (w2\<lparr>io := m, destroyed := False, sock_out := [],
                conn := \<lparr>in_buf = new_Buffer, writing = False, out_buf = new_Buffer, client_fd = fd0, conn_closed = False,
                         io_desc = Some d, in_error = False, error_string = [], refs = 0, sub = x\<rparr>\<rparr>) })"

definition new_active_Connection :: "'x \<Rightarrow> 'x conn_world \<Rightarrow> 'x conn_world" where
  "new_active_Connection x w =
     w\<lparr>destroyed := False, sock_out := [],
       conn := \<lparr>in_buf = new_Buffer, writing = False, out_buf = new_Buffer, client_fd = -1, conn_closed = True,
                io_desc = None, in_error = False, error_string = [], refs = 0, sub = x\<rparr>\<rparr>"

text \<open>\<^verbatim>\<open>::close\<close> is repeated while it is interrupted; every call releases the descriptor.\<close>

definition delete_Connection :: "'x conn_world \<Rightarrow> 'x conn_world option" where
  "delete_Connection w =
     (let fd0 = client_fd (conn w);
          w1 = (if fd0 > 0 then w\<lparr>closed_fds := closed_fds w @ [fd0]\<rparr> else w)
      in do { m \<leftarrow> (case io_desc (conn w) of None \<Rightarrow> Some (io w1) | Some d \<Rightarrow> delDescriptor (Some d) (io w1));
              Some (w1\<lparr>io := m, destroyed := True\<rparr>) })"

definition acquire :: "'x conn_world \<Rightarrow> 'x conn_world option" where
  "acquire w = (if destroyed w then None else Some (w\<lparr>conn := (conn w)\<lparr>refs := refs (conn w) + 1\<rparr>\<rparr>))"

definition release :: "'x conn_world \<Rightarrow> 'x conn_world option" where
  "release w =
     (if destroyed w then None
      else let count = refs (conn w) - 1; w1 = w\<lparr>conn := (conn w)\<lparr>refs := count\<rparr>\<rparr>
           in if count = 0 then delete_Connection w1 else Some w1)"

definition close_conn :: "'x conn_world \<Rightarrow> 'x conn_world" where
  "close_conn w = w\<lparr>closed_fds := closed_fds w @ [client_fd (conn w)], conn := (conn w)\<lparr>conn_closed := True\<rparr>\<rparr>"

definition conn_ok :: "'x conn_world \<Rightarrow> bool" where
  "conn_ok w = (\<not> in_error (conn w))"

text \<open>A latch operation on the connection's descriptor; with no descriptor it dereferences NULL.\<close>

definition desc_op :: "(Descriptor \<Rightarrow> nat option \<times> Descriptor) \<Rightarrow> 'x conn_world \<Rightarrow> 'x conn_world option" where
  "desc_op f w = do { d \<leftarrow> io_desc (conn w); m \<leftarrow> latch_op f d (io w); Some (w\<lparr>io := m\<rparr>) }"

section \<open>Connecting\<close>

datatype connect_res = Connected | ConnectLater | ConnectError

text \<open>
  \<open>so_error\<close> is what \<^verbatim>\<open>getsockopt(SO_ERROR)\<close> reports and \<open>msg\<close> the text of \<^verbatim>\<open>strerror\<close>.
\<close>

definition doConnect :: "('x conn_world \<Rightarrow> 'x conn_world run) \<Rightarrow> int \<Rightarrow> string \<Rightarrow> 'x conn_world \<Rightarrow> 'x conn_world run" where
  "doConnect connDone so_error msg w =
     run_bind
       (if in_error (conn w) then Done w
        else if so_error \<noteq> 0 then
          Done (w\<lparr>conn := (conn w)\<lparr>error_string := error_string (conn w) @ ''Connect failed'' @ msg, in_error := True\<rparr>\<rparr>)
        else
          let w1 = w\<lparr>conn := (conn w)\<lparr>conn_closed := False\<rparr>\<rparr>;
              (r, w2) = new_upcall DoRead w1; (wr, w3) = new_upcall DoWrite w2
          in of_opt (do { d \<leftarrow> io_desc (conn w3); m \<leftarrow> io_setUpCalls d (Some r) (Some wr) (io w3); Some (w3\<lparr>io := m\<rparr>) }))
       (\<lambda>w. run_bind (connDone w) (\<lambda>w. of_opt (release w)))"

definition startConnect :: "('x conn_world \<Rightarrow> 'x conn_world run) \<Rightarrow> int \<Rightarrow> connect_res \<Rightarrow> int \<Rightarrow> string \<Rightarrow> int \<Rightarrow> 'x conn_world
    \<Rightarrow> 'x conn_world run" where
  "startConnect connDone sock res so_error msg rc w =
     (let w0 = w\<lparr>conn := (conn w)\<lparr>client_fd := sock\<rparr>\<rparr>
      in if sock < 0 then
           Done (w0\<lparr>conn := (conn w0)\<lparr>error_string := error_string (conn w0) @ ''Socket failed: '' @ msg, in_error := True\<rparr>\<rparr>)
         else run_bind (of_opt (acquire w0)) (\<lambda>w1.
           case res of
             Connected \<Rightarrow> doConnect connDone so_error msg w1
           | ConnectError \<Rightarrow>
               doConnect connDone so_error msg
                 (w1\<lparr>closed_fds := closed_fds w1 @ [sock],
                     conn := (conn w1)\<lparr>client_fd := -1, error_string := error_string (conn w1) @ ''Connect failed: '' @ msg,
                                       in_error := True\<rparr>\<rparr>)
           | ConnectLater \<Rightarrow>
               let (k, w2) = new_upcall DoConnect w1
               in of_opt (do { (d, m) \<leftarrow> newDescriptor rc sock None (Some k) (io w2);
                               desc_op writeWhenReady (w2\<lparr>io := m, conn := (conn w2)\<lparr>io_desc := Some d\<rparr>\<rparr>) })))"

section \<open>Reading\<close>

definition startRead :: "'x conn_world \<Rightarrow> 'x conn_world option" where
  "startRead w = do { w1 \<leftarrow> acquire w; desc_op readWhenReady w1 }"

text \<open>
  The answers of the socket to \<^verbatim>\<open>read\<close>: a block of the incoming stream, of which a call takes at
  most the bytes it asks for, the end of the stream, no data now, an interruption, an error.
\<close>

datatype read_res = RData string | REof | RAgain | RIntr | RErr

fun socketRead :: "nat \<Rightarrow> read_res list \<Rightarrow> (read_res \<times> read_res list) option" where
  "socketRead n [] = None"
| "socketRead n (RIntr # rs) = socketRead n rs"
| "socketRead n (RData s # rs) =
     (if n = 0 \<or> s = [] then Some (REof, rs)
      else if length s \<le> n then Some (RData s, rs) else Some (RData (take n s), RData (drop n s) # rs))"
| "socketRead n (r # rs) = Some (r, rs)"

fun stream_size :: "read_res list \<Rightarrow> nat" where
  "stream_size [] = 0"
| "stream_size (RData s # rs) = Suc (length s) + stream_size rs"
| "stream_size (_ # rs) = Suc (stream_size rs)"

lemma socketRead_size: "socketRead n rs = Some (r, rs') \<Longrightarrow> stream_size rs' < stream_size rs"
  by (induction n rs rule: socketRead.induct) (auto split: if_splits)

function doRead :: "('x conn_world \<Rightarrow> (bool \<times> 'x conn_world) run) \<Rightarrow> read_res list \<Rightarrow> 'x conn_world \<Rightarrow> 'x conn_world run" where
  "doRead readDone rs w =
     (case reserve 1024 (in_buf (conn w)) of
        None \<Rightarrow> Crash
      | Some (_, b) \<Rightarrow>
          (case socketRead (writeSize b) rs of
             None \<Rightarrow> Pending
           | Some (RData s, rs') \<Rightarrow>
               (case do { b1 \<leftarrow> poke (map Some s) b; advance (length s) b1 } of
                  None \<Rightarrow> Crash
                | Some (_, b2) \<Rightarrow>
                    (case readDone (w\<lparr>conn := (conn w)\<lparr>in_buf := b2\<rparr>\<rparr>) of
                       Pending \<Rightarrow> Pending
                     | Crash \<Rightarrow> Crash
                     | Done (more_data, w1) \<Rightarrow> if more_data then doRead readDone rs' w1 else of_opt (release w1)))
           | Some (r, rs') \<Rightarrow>
               let w1 = w\<lparr>conn := (conn w)\<lparr>in_buf := b\<rparr>\<rparr>
               in if r = RAgain then of_opt (do { w2 \<leftarrow> acquire w1; w3 \<leftarrow> desc_op readWhenReady w2; release w3 })
                  else of_opt (release w1)))"
  by pat_completeness auto
termination
  by (relation "measure (\<lambda>(_, rs, _). stream_size rs)") (auto dest: socketRead_size)

section \<open>Writing\<close>

text \<open>
  The answers of the socket to \<^verbatim>\<open>write\<close>: it takes at most so many bytes, has no room now, was
  interrupted, or failed.
\<close>

datatype write_res = STook nat | SAgain | SIntr | SErr

fun socketWrite :: "write_res list \<Rightarrow> (write_res \<times> write_res list) option" where
  "socketWrite [] = None"
| "socketWrite (SIntr # rs) = socketWrite rs"
| "socketWrite (r # rs) = Some (r, rs)"

lemma socketWrite_size: "socketWrite rs = Some (r, rs') \<Longrightarrow> length rs' < length rs"
  by (induction rs rule: socketWrite.induct) auto

text \<open>The bytes \<^verbatim>\<open>readPtr\<close> points to.\<close>

definition peek :: "nat \<Rightarrow> Buffer \<Rightarrow> byte option list option" where
  "peek n b = do { c \<leftarrow> dq_at (chunks b) (idx (rpos b)); Some (map c [off (rpos b) ..< off (rpos b) + n]) }"

text \<open>The first critical section of a round.\<close>

definition write_size :: "'x conn_world \<Rightarrow> (nat \<times> byte option list) option" where
  "write_size w = do { n \<leftarrow> readSize (out_buf (conn w)); d \<leftarrow> peek n (out_buf (conn w)); Some (n, d) }"

text \<open>The system call, outside of the lock: how many bytes it takes, \<open>None\<close> for an error.\<close>

definition write_socket :: "write_res \<Rightarrow> nat \<Rightarrow> byte option list \<Rightarrow> 'x conn_world \<Rightarrow> nat \<times> 'x conn_world" where
  "write_socket r n data w = (case r of STook k \<Rightarrow> (min k n, w\<lparr>sock_out := sock_out w @ take (min k n) data\<rparr>) | _ \<Rightarrow> (0, w))"

text \<open>The second critical section: whether the loop goes on.\<close>

definition write_commit :: "write_res \<Rightarrow> nat \<Rightarrow> nat \<Rightarrow> 'x conn_world \<Rightarrow> (bool \<times> 'x conn_world) option" where
  "write_commit r n bytes_written w =
     (if r = SAgain then do { w1 \<leftarrow> acquire w; w2 \<leftarrow> desc_op writeWhenReady w1; Some (False, w2) }
      else if r = SErr then Some (False, w)
      else if bytes_written = 0 then Some (False, w)
      else do { b \<leftarrow> consume bytes_written (out_buf (conn w));
                k \<leftarrow> readSize b;
                let w1 = w\<lparr>conn := (conn w)\<lparr>out_buf := b\<rparr>\<rparr>;
                if n = bytes_written \<and> k = 0 then Some (False, w1\<lparr>conn := (conn w1)\<lparr>writing := False\<rparr>\<rparr>)
                else Some (True, w1) })"

function doWrite :: "write_res list \<Rightarrow> 'x conn_world \<Rightarrow> 'x conn_world run" where
  "doWrite rs w =
     (case write_size w of
        None \<Rightarrow> Crash
      | Some (n, data) \<Rightarrow>
          (case socketWrite rs of
             None \<Rightarrow> Pending
           | Some (r, rs') \<Rightarrow>
               let (bytes_written, w1) = write_socket r n data w
               in (case write_commit r n bytes_written w1 of
                     None \<Rightarrow> Crash
                   | Some (continue, w2) \<Rightarrow> if continue then doWrite rs' w2 else of_opt (release w2))))"
  by pat_completeness auto
termination
  by (relation "measure (\<lambda>(rs, _). length rs)") (auto dest: socketWrite_size)

definition startWrite_lock :: "'x conn_world \<Rightarrow> bool \<times> 'x conn_world" where
  "startWrite_lock w = (if writing (conn w) then (False, w) else (True, w\<lparr>conn := (conn w)\<lparr>writing := True\<rparr>\<rparr>))"

definition startWrite :: "write_res list \<Rightarrow> 'x conn_world \<Rightarrow> 'x conn_world run" where
  "startWrite rs w =
     (let (start, w1) = startWrite_lock w
      in if start then run_bind (of_opt (acquire w1)) (doWrite rs) else Done w1)"

end
