(* ===== verification/Service_Manager.thy ===== *)
theory Service_Manager
  imports Connection
begin

text \<open>
  Listening sockets (\<^verbatim>\<open>acceptor.cpp\<close>) and the manager that starts and stops the protocols of a server
  together (\<^verbatim>\<open>service_manager.cpp\<close>). The event loop that the manager owns is a component of its own
  here, \<open>IOManager\<close>; the results of the system calls are arguments.
\<close>

section \<open>Acceptors\<close>

record Acceptor =
  listen_fd :: int
  io_descr :: "nat option"
  accept_cb :: "nat option"

text \<open>
  The results of \<^verbatim>\<open>socket\<close>, \<^verbatim>\<open>bind\<close>, \<^verbatim>\<open>listen\<close> and \<^verbatim>\<open>epoll_ctl\<close>; \<open>rcb\<close> and \<open>wcb\<close> are the callbacks for
  \<^verbatim>\<open>doAccept\<close> and \<^verbatim>\<open>noOp\<close>. \<open>None\<close>: \<^verbatim>\<open>exit(1)\<close>.
\<close>

definition new_Acceptor :: "int \<Rightarrow> int \<Rightarrow> int \<Rightarrow> int \<Rightarrow> nat \<Rightarrow> nat \<Rightarrow> nat \<Rightarrow> IOManager \<Rightarrow> (Acceptor \<times> IOManager) option" where
  "new_Acceptor sock bind_rc listen_rc rc rcb wcb cb m =
     (if sock < 0 then None
      else if bind_rc < 0 then None
      else if listen_rc < 0 then None
      else do { (d, m1) \<leftarrow> newDescriptor rc sock (Some rcb) (Some wcb) m;
                Some (\<lparr>listen_fd = sock, io_descr = Some d, accept_cb = Some cb\<rparr>, m1) })"

text \<open>The descriptor that is closed, and the rest.\<close>

definition acc_close :: "Acceptor \<times> IOManager \<Rightarrow> (Acceptor \<times> IOManager) option" where
  "acc_close = (\<lambda>(a, m). do { m1 \<leftarrow> (case io_descr a of None \<Rightarrow> Some m | Some d \<Rightarrow> delDescriptor (Some d) m);
                              Some (a\<lparr>io_descr := None\<rparr>, m1) })"

definition delete_Acceptor :: "Acceptor \<times> IOManager \<Rightarrow> (Acceptor \<times> IOManager) option" where
  "delete_Acceptor = (\<lambda>(a, m). do { (a1, m1) \<leftarrow> (if io_descr a \<noteq> None then acc_close (a, m) else Some (a, m));
                                    Some (a1\<lparr>accept_cb := None\<rparr>, m1) })"

definition startAccept :: "Acceptor \<times> IOManager \<Rightarrow> (Acceptor \<times> IOManager) option" where
  "startAccept = (\<lambda>(a, m). do { d \<leftarrow> io_descr a; m1 \<leftarrow> latch_op readWhenReady d m; Some (a, m1) })"

text \<open>The answers to \<^verbatim>\<open>accept\<close>: a socket, none now, a passing interruption or abort, another error.\<close>

datatype accept_res = AFd int | AAgain | APassing | AError

fun socketAccept :: "accept_res list \<Rightarrow> (accept_res \<times> accept_res list) option" where
  "socketAccept [] = None"
| "socketAccept (APassing # rs) = socketAccept rs"
| "socketAccept (r # rs) = Some (r, rs)"

lemma socketAccept_size: "socketAccept rs = Some (r, rs') \<Longrightarrow> length rs' < length rs"
  by (induction rs rule: socketAccept.induct) auto

text \<open>
  The accepting loop over any state \<open>'s\<close> with the acceptor and the event loop in it; \<open>cb\<close> is what the
  accept callback does with a socket, or with -1.
\<close>

function doAccept :: "('s \<Rightarrow> Acceptor \<times> IOManager) \<Rightarrow> (IOManager \<Rightarrow> 's \<Rightarrow> 's) \<Rightarrow> (int \<Rightarrow> 's \<Rightarrow> 's run) \<Rightarrow> accept_res list \<Rightarrow> 's \<Rightarrow> 's run" where
  "doAccept get put cb rs s =
     (case socketAccept rs of
        None \<Rightarrow> Pending
      | Some (AAgain, rs') \<Rightarrow>
          of_opt (do { (a, m) \<leftarrow> startAccept (get s); Some (put m s) })
      | Some (r, rs') \<Rightarrow>
          (let fd0 = (case r of AFd f \<Rightarrow> f | _ \<Rightarrow> -1)
           in if accept_cb (fst (get s)) \<noteq> None then
                (case cb fd0 s of Done s1 \<Rightarrow> doAccept get put cb rs' s1 | Pending \<Rightarrow> Pending | Crash \<Rightarrow> Crash)
              else doAccept get put cb rs' s))"
  by pat_completeness auto
termination
  by (relation "measure (\<lambda>(_, _, _, rs, _). length rs)") (auto dest: socketAccept_size)

section \<open>The service manager\<close>

record ServiceManager =
  num_workers :: nat
  acceptors :: "Acceptor list"
  stop_requested :: bool
  sm_stopped :: bool

definition new_ServiceManager :: "int \<Rightarrow> nat \<Rightarrow> (ServiceManager \<times> IOManager) option" where
  "new_ServiceManager epfd n =
     do { m \<leftarrow> new_IOManager epfd n;
          Some (\<lparr>num_workers = n, acceptors = [], stop_requested = False, sm_stopped = False\<rparr>, m) }"

definition registerAcceptor :: "int \<Rightarrow> int \<Rightarrow> int \<Rightarrow> int \<Rightarrow> nat \<Rightarrow> nat \<Rightarrow> nat \<Rightarrow> ServiceManager \<times> IOManager
    \<Rightarrow> (ServiceManager \<times> IOManager) option" where
  "registerAcceptor sock bind_rc listen_rc rc rcb wcb cb =
     (\<lambda>(sm, m). do { (a, m1) \<leftarrow> new_Acceptor sock bind_rc listen_rc rc rcb wcb cb m;
                     Some (sm\<lparr>acceptors := acceptors sm @ [a]\<rparr>, m1) })"

text \<open>An operation on every acceptor, in order.\<close>

fun each_acceptor :: "(Acceptor \<times> IOManager \<Rightarrow> (Acceptor \<times> IOManager) option) \<Rightarrow> Acceptor list \<Rightarrow> IOManager
    \<Rightarrow> (Acceptor list \<times> IOManager) option" where
  "each_acceptor f [] m = Some ([], m)"
| "each_acceptor f (a # as) m =
     do { (a1, m1) \<leftarrow> f (a, m); (as1, m2) \<leftarrow> each_acceptor f as m1; Some (a1 # as1, m2) }"

text \<open>The start of \<^verbatim>\<open>run\<close>; the polling loop follows, and then the wait for the end of \<^verbatim>\<open>stop\<close>.\<close>

definition run_start :: "ServiceManager \<times> IOManager \<Rightarrow> (ServiceManager \<times> IOManager) option" where
  "run_start = (\<lambda>(sm, m). do { (as, m1) \<leftarrow> each_acceptor startAccept (acceptors sm) m;
                               Some (sm\<lparr>acceptors := as\<rparr>, poll_enter m1) })"

definition run_returns :: "ServiceManager \<Rightarrow> bool" where
  "run_returns sm \<longleftrightarrow> sm_stopped sm"

text \<open>
  \<^verbatim>\<open>stop\<close>: the critical section at its start (\<open>False\<close>: another thread stops the manager, and the
  caller waits until it has), the acceptors and the request to the event loop, and its end, once the
  event loop has stopped; \<open>c\<close> is the worker that called \<^verbatim>\<open>stop\<close>, if one did.
\<close>

definition sm_stop_request :: "ServiceManager \<Rightarrow> bool \<times> ServiceManager" where
  "sm_stop_request sm = (if stop_requested sm then (False, sm) else (True, sm\<lparr>stop_requested := True\<rparr>))"

definition sm_stop_begin :: "ServiceManager \<times> IOManager \<Rightarrow> (ServiceManager \<times> IOManager) option" where
  "sm_stop_begin = (\<lambda>(sm, m). do { (as, m1) \<leftarrow> each_acceptor acc_close (acceptors sm) m;
                                   Some (sm\<lparr>acceptors := as\<rparr>, snd (stop_request m1)) })"

definition sm_stop_end :: "ServiceManager \<Rightarrow> ServiceManager" where
  "sm_stop_end sm = sm\<lparr>sm_stopped := True\<rparr>"

definition sm_stop :: "nat option \<Rightarrow> ServiceManager \<times> IOManager \<Rightarrow> (ServiceManager \<times> IOManager) run" where
  "sm_stop c = (\<lambda>(sm, m).
     case sm_stop_request sm of
       (False, sm1) \<Rightarrow> if sm_stopped sm1 then Done (sm1, m) else Pending
     | (True, sm1) \<Rightarrow>
         run_bind (of_opt (sm_stop_begin (sm1, m))) (\<lambda>(sm2, m2).
           if polling m2 then Pending
           else (case stop_finish c (stop_workers m2) of None \<Rightarrow> Pending | Some m3 \<Rightarrow> Done (sm_stop_end sm2, m3))))"

definition sm_is_stopped :: "ServiceManager \<Rightarrow> bool" where
  "sm_is_stopped sm = stop_requested sm"

definition delete_ServiceManager :: "nat option \<Rightarrow> ServiceManager \<times> IOManager \<Rightarrow> (ServiceManager \<times> IOManager) run" where
  "delete_ServiceManager c x =
     run_bind (sm_stop c x) (\<lambda>(sm, m).
       of_opt (do { (as, m1) \<leftarrow> each_acceptor delete_Acceptor (acceptors sm) m; Some (sm\<lparr>acceptors := as\<rparr>, m1) }))"

section \<open>Properties\<close>

declare doAccept.simps [simp del]

lemma delete_chain_polling: "delete_chain n o' m = Some m' \<Longrightarrow> polling m' = polling m"
  by (induction n o' m rule: delete_chain.induct) (auto simp: Option.bind_eq_Some_conv)

lemma stop_finish_polling: "stop_finish c m = Some m' \<Longrightarrow> \<not> polling m'"
  by (auto simp: stop_finish_def Option.bind_eq_Some_conv dest!: delete_chain_polling split: if_splits)

lemma socketAccept_errors:
  "set rs \<subseteq> {AError, APassing} \<Longrightarrow> socketAccept rs = None \<or> (\<exists>rs'. socketAccept rs = Some (AError, rs') \<and> set rs' \<subseteq> {AError, APassing})"
  by (induction rs rule: socketAccept.induct) auto

text \<open>
  The accepting loop ends only when \<^verbatim>\<open>accept\<close> has nothing to accept: on a listening socket that
  goes on failing, for lack of descriptors or because \<^verbatim>\<open>close\<close> was called while the loop runs, it
  never returns, and calls the service with -1 again and again.
\<close>

theorem doAccept_spins_on_errors:
  assumes "set rs \<subseteq> {AError, APassing}" "\<And>s. cb (-1) s = Done s"
  shows "doAccept get put cb rs s = Pending"
  using assms(1)
proof (induction "length rs" arbitrary: rs rule: less_induct)
  case less
  show ?case
  proof (cases "socketAccept rs")
    case None
    then show ?thesis by (subst doAccept.simps) simp
  next
    case (Some p)
    with socketAccept_errors [OF less.prems] obtain rs' where r: "socketAccept rs = Some (AError, rs')" "set rs' \<subseteq> {AError, APassing}"
      by auto
    with less.hyps [OF socketAccept_size [OF r(1)] r(2)] show ?thesis by (subst doAccept.simps) (simp add: assms(2))
  qed
qed

theorem doAccept_spins_on_errors_witness:
  "doAccept (\<lambda>s. (\<lparr>listen_fd = 3, io_descr = None, accept_cb = Some 0\<rparr>, undefined)) (\<lambda>_ s. s) (\<lambda>_ s. Done s) [AError, AError] () = Pending"
  by (rule doAccept_spins_on_errors) simp_all

text \<open>
  Stopping: whichever thread calls \<^verbatim>\<open>stop\<close> first does the work and every other call waits for it;
  once it is done, every later call returns at once and changes nothing, and \<^verbatim>\<open>stopped\<close> is true from
  the first call on.
\<close>

theorem stop_once:
  "(stop_requested sm \<longrightarrow> sm_stop c (sm, m) = (if sm_stopped sm then Done (sm, m) else Pending))
   \<and> (sm_stop c (sm, m) = Done (sm', m') \<and> \<not> stop_requested sm \<longrightarrow>
        sm_is_stopped sm' \<and> run_returns sm' \<and> sm_stop d (sm', m') = Done (sm', m') \<and> \<not> polling m')"
proof (rule conjI; rule impI)
  assume "stop_requested sm"
  then show "sm_stop c (sm, m) = (if sm_stopped sm then Done (sm, m) else Pending)" by (simp add: sm_stop_def sm_stop_request_def)
next
  assume a: "sm_stop c (sm, m) = Done (sm', m') \<and> \<not> stop_requested sm"
  then obtain sm2 m2 where b: "sm_stop_begin (sm\<lparr>stop_requested := True\<rparr>, m) = Some (sm2, m2)" "\<not> polling m2"
    "stop_finish c (stop_workers m2) = Some m'" "sm' = sm_stop_end sm2"
    by (auto simp: sm_stop_def sm_stop_request_def run_bind_Ret of_opt_Ret split: if_splits option.splits)
  have "stop_requested sm2" using b(1) by (auto simp: sm_stop_begin_def Option.bind_eq_Some_conv)
  moreover have "\<not> polling m'" using b(2,3) stop_finish_polling by (auto simp: stop_workers_def)
  ultimately show "sm_is_stopped sm' \<and> run_returns sm' \<and> sm_stop d (sm', m') = Done (sm', m') \<and> \<not> polling m'"
    by (simp add: b(4) sm_is_stopped_def run_returns_def sm_stop_end_def sm_stop_def sm_stop_request_def)
qed

end
