(* ===== verification/Request_Stats.thy ===== *)
theory Request_Stats
  imports Prelude "HOL-Library.Log_Nat"
begin

text \<open>
  Requests per second over a rolling window of ten slots, one counter array per worker
  (\<^verbatim>\<open>request_stats.hpp\<close>, \<^verbatim>\<open>request_stats.cpp\<close>). The number of ticks per slot, \<^verbatim>\<open>kTicksPerSlot\<close>, is the
  argument \<open>K\<close>; the ticks per second are \<open>T\<close>, a \<^verbatim>\<open>double\<close> that holds a whole number, so that the
  comparisons with it convert ticks to \<^verbatim>\<open>double\<close>, which rounds them. Ticks are
  natural numbers below \<open>2 ^ 64\<close> and counters natural numbers below \<open>2 ^ 32\<close>, with the wrap-around
  written out. The times the server adds up in floating point are kept as the list of what was added.
\<close>

definition kNumSlots :: nat where "kNumSlots = 10"

record Counts =
  base_pos :: nat
  base_tick :: nat
  slot_val :: "nat list"

record RequestStats =
  num_threads :: nat
  counts :: "Counts list"
  timeToParse :: "nat list"
  timeToHandle :: "nat list"
  timeToEstablish :: "nat list"
  timeToWrite :: "nat list"

definition new_RequestStats :: "nat \<Rightarrow> RequestStats" where
  "new_RequestStats n =
     \<lparr>num_threads = n, counts = replicate n \<lparr>base_pos = 0, base_tick = 0, slot_val = replicate kNumSlots 0\<rparr>,
      timeToParse = [], timeToHandle = [], timeToEstablish = [], timeToWrite = []\<rparr>"

text \<open>
  The conversion of a whole number to \<^verbatim>\<open>double\<close> (and the rounding of a sum of two of them): the nearest number
  with 53 binary digits, the even one of two that are equally near.
\<close>

definition double_of :: "nat \<Rightarrow> nat" where
  "double_of n =
     (let u = 2 ^ (floorlog 2 n - 53); q = n div u; r = n mod u
      in (if 2 * r < u \<or> 2 * r = u \<and> even q then q else q + 1) * u)"

definition incPos :: "nat \<Rightarrow> nat" where
  "incPos p = (p + 1) mod kNumSlots"

definition posForTick :: "nat \<Rightarrow> nat \<Rightarrow> nat" where
  "posForTick K t = t div K mod kNumSlots"

definition roundTick :: "nat \<Rightarrow> nat \<Rightarrow> nat" where
  "roundTick K t = t - t mod K"

text \<open>
  The two loops around the circle, from behind a position up to and including another one. A loop
  makes at most \<^verbatim>\<open>kNumSlots\<close> rounds, which are given as fuel.
\<close>

fun zero_slots :: "nat \<Rightarrow> nat \<Rightarrow> nat \<Rightarrow> nat list \<Rightarrow> nat list" where
  "zero_slots 0 cur new v = v"
| "zero_slots (Suc n) cur new v =
     (let cur' = incPos cur; v' = v[cur' := 0] in if cur' = new then v' else zero_slots n cur' new v')"

fun sum_slots :: "nat \<Rightarrow> nat \<Rightarrow> nat \<Rightarrow> nat list \<Rightarrow> nat" where
  "sum_slots 0 cur end v = 0"
| "sum_slots (Suc n) cur end v =
     (let cur' = incPos cur in (v ! cur' + (if cur' = end then 0 else sum_slots n cur' end v)) mod 2 ^ 32)"

definition counts_request :: "nat \<Rightarrow> nat \<Rightarrow> nat \<Rightarrow> Counts \<Rightarrow> Counts" where
  "counts_request K T now c =
     (let c1 = (if now > (base_tick c + K) mod 2 ^ 64 then
                  let new_pos = posForTick K now;
                      v = (if double_of (double_of (base_tick c) + T) < double_of now then replicate kNumSlots 0
                           else zero_slots kNumSlots (base_pos c) new_pos (slot_val c))
                  in \<lparr>base_pos = new_pos, base_tick = roundTick K now, slot_val = v\<rparr>
                else c)
      in c1\<lparr>slot_val := (slot_val c1)[base_pos c1 := (slot_val c1 ! base_pos c1 + 1) mod 2 ^ 32]\<rparr>)"

text \<open>\<open>None\<close>: the fatal message for a wrong thread number.\<close>

definition finishedRequest :: "nat \<Rightarrow> nat \<Rightarrow> nat \<Rightarrow> nat \<Rightarrow> RequestStats \<Rightarrow> RequestStats option" where
  "finishedRequest K T thread_num now s =
     (if thread_num \<ge> num_threads s then None
      else Some (s\<lparr>counts := (counts s)[thread_num := counts_request K T now (counts s ! thread_num)]\<rparr>))"

definition counts_recent :: "nat \<Rightarrow> nat \<Rightarrow> nat \<Rightarrow> Counts \<Rightarrow> nat" where
  "counts_recent K T now c =
     (if double_of ((now + 2 ^ 64 - base_tick c) mod 2 ^ 64) > T then 0 else sum_slots kNumSlots (posForTick K now) (base_pos c) (slot_val c))"

definition getStats :: "nat \<Rightarrow> nat \<Rightarrow> nat \<Rightarrow> RequestStats \<Rightarrow> nat" where
  "getStats K T now s = (\<Sum>c \<leftarrow> counts s. counts_recent K T now c) mod 2 ^ 32"

definition updateTimeToParse :: "nat \<Rightarrow> RequestStats \<Rightarrow> RequestStats" where
  "updateTimeToParse t s = s\<lparr>timeToParse := timeToParse s @ [t]\<rparr>"

definition updateTimeToHandleRequest :: "nat \<Rightarrow> RequestStats \<Rightarrow> RequestStats" where
  "updateTimeToHandleRequest t s = s\<lparr>timeToHandle := timeToHandle s @ [t]\<rparr>"

definition updateTimeToEstablishConn :: "nat \<Rightarrow> RequestStats \<Rightarrow> RequestStats" where
  "updateTimeToEstablishConn t s = s\<lparr>timeToEstablish := timeToEstablish s @ [t]\<rparr>"

definition updateTimeToWriteOutput :: "nat \<Rightarrow> RequestStats \<Rightarrow> RequestStats" where
  "updateTimeToWriteOutput t s = s\<lparr>timeToWrite := timeToWrite s @ [t]\<rparr>"

section \<open>The window\<close>

text \<open>The requests of a list of ticks whose slot is among the ten slots up to slot \<open>B\<close>.\<close>

abbreviation in_window :: "nat \<Rightarrow> nat \<Rightarrow> nat \<Rightarrow> bool" where
  "in_window K B t \<equiv> B < t div K + kNumSlots"

definition window_count :: "nat \<Rightarrow> nat \<Rightarrow> nat list \<Rightarrow> nat" where
  "window_count K B ts = length (filter (in_window K B) ts)"

text \<open>The counters of a thread hold, per position, the requests of the window up to the base slot \<open>B\<close>.\<close>

definition counts_ok :: "nat \<Rightarrow> nat list \<Rightarrow> nat \<Rightarrow> Counts \<Rightarrow> bool" where
  "counts_ok K ts B c \<longleftrightarrow>
     base_tick c = B * K \<and> base_pos c = B mod kNumSlots \<and> length (slot_val c) = kNumSlots \<and> (\<forall>t \<in> set ts. t div K \<le> B)
     \<and> (\<forall>j < kNumSlots. slot_val c ! j = length (filter (\<lambda>t. in_window K B t \<and> t div K mod kNumSlots = j) ts) mod 2 ^ 32)"

lemma double_of_exact: "n < 2 ^ 53 \<Longrightarrow> double_of n = n"
proof -
  assume "n < 2 ^ 53"
  then have "floorlog 2 n \<le> 53" by (simp add: floorlog_le_iff)
  then show ?thesis by (simp add: double_of_def)
qed

lemma incPos_mod: "incPos (a mod kNumSlots) = Suc a mod kNumSlots"
  by (simp add: incPos_def mod_Suc_eq)

lemma zero_slots_nth:
  assumes "0 < d" "d < kNumSlots" "d \<le> n" "length v = kNumSlots" "j < kNumSlots"
  shows "zero_slots n (a mod kNumSlots) ((a + d) mod kNumSlots) v ! j =
           (if \<exists>i \<in> {1..d}. j = (a + i) mod kNumSlots then 0 else v ! j)
         \<and> length (zero_slots n (a mod kNumSlots) ((a + d) mod kNumSlots) v) = kNumSlots"
  using assms
proof (induction n arbitrary: a d v)
  case (Suc n)
  have less: "Suc a mod kNumSlots < kNumSlots" by (simp add: kNumSlots_def)
  show ?case
  proof (cases "d = 1")
    case True
    then show ?thesis using Suc.prems less by (simp add: incPos_mod nth_list_update)
  next
    case False
    have ne: "Suc a mod kNumSlots \<noteq> (a + d) mod kNumSlots"
      using False Suc.prems mod_turn_eq [of "Suc a" kNumSlots "a + d"] by auto
    have ex: "(\<exists>i \<in> {1..d - 1}. j = (Suc a + i) mod kNumSlots) \<or> j = Suc a mod kNumSlots \<longleftrightarrow> (\<exists>i \<in> {1..d}. j = (a + i) mod kNumSlots)"
    proof
      assume "\<exists>i \<in> {1..d}. j = (a + i) mod kNumSlots"
      then obtain i where i: "i \<in> {1..d}" "j = (a + i) mod kNumSlots" by blast
      show "(\<exists>i \<in> {1..d - 1}. j = (Suc a + i) mod kNumSlots) \<or> j = Suc a mod kNumSlots"
      proof (cases "i = 1")
        case False
        then have "i - 1 \<in> {1..d - 1}" "j = (Suc a + (i - 1)) mod kNumSlots" using i by auto
        then show ?thesis by blast
      qed (use i in auto)
    next
      assume "(\<exists>i \<in> {1..d - 1}. j = (Suc a + i) mod kNumSlots) \<or> j = Suc a mod kNumSlots"
      then show "\<exists>i \<in> {1..d}. j = (a + i) mod kNumSlots"
      proof
        assume "\<exists>i \<in> {1..d - 1}. j = (Suc a + i) mod kNumSlots"
        then obtain i where "i \<in> {1..d - 1}" "j = (Suc a + i) mod kNumSlots" by blast
        then have "Suc i \<in> {1..d}" "j = (a + Suc i) mod kNumSlots" by auto
        then show ?thesis by blast
      qed (use Suc.prems in \<open>auto intro: bexI [of _ 1]\<close>)
    qed
    have d: "Suc a + (d - 1) = a + d" using Suc.prems by simp
    note IH = Suc.IH [of "d - 1" "v[Suc a mod kNumSlots := 0]" "Suc a", unfolded d]
    have step: "zero_slots (Suc n) (a mod kNumSlots) ((a + d) mod kNumSlots) v
        = zero_slots n (Suc a mod kNumSlots) ((a + d) mod kNumSlots) (v[Suc a mod kNumSlots := 0])"
      using ne by (simp add: incPos_mod Let_def)
    have v: "v[Suc a mod kNumSlots := 0] ! j = (if j = Suc a mod kNumSlots then 0 else v ! j)"
      using Suc.prems less by (simp add: nth_list_update)
    show ?thesis
      unfolding step ex [symmetric] using IH Suc.prems False by (simp add: v)
  qed
qed simp

lemma sum_slots_eq:
  assumes "0 < d" "d \<le> kNumSlots" "d \<le> n"
  shows "sum_slots n (a mod kNumSlots) ((a + d) mod kNumSlots) v = (\<Sum>i \<in> {1..d}. v ! ((a + i) mod kNumSlots)) mod 2 ^ 32"
  using assms
proof (induction n arbitrary: a d)
  case (Suc n)
  show ?case
  proof (cases "d = 1")
    case True
    then show ?thesis by (simp add: incPos_mod)
  next
    case False
    have ne: "Suc a mod kNumSlots \<noteq> (a + d) mod kNumSlots"
      using False Suc.prems mod_turn_eq [of "Suc a" kNumSlots "a + d"] by auto
    have s: "(\<Sum>i \<in> {1..d}. v ! ((a + i) mod kNumSlots)) = v ! (Suc a mod kNumSlots) + (\<Sum>i \<in> {1..d - 1}. v ! ((Suc a + i) mod kNumSlots))"
    proof -
      obtain d' where d': "d = Suc d'" using Suc.prems(1) by (cases d) auto
      show ?thesis unfolding d' by (simp add: sum.atLeast_Suc_atMost [of 1] sum.shift_bounds_cl_Suc_ivl del: sum.cl_ivl_Suc)
        (simp add: sum.atLeast_Suc_atMost)
    qed
    have "Suc a + (d - 1) = a + d" using Suc.prems by simp
    with Suc.IH [of "d - 1" "Suc a"] Suc.prems False ne show ?thesis
      unfolding s by (simp add: incPos_mod Let_def mod_add_right_eq)
  qed
qed simp

lemma counts_ok_inc:
  assumes "counts_ok K ts B c" "t div K = B"
  shows "counts_ok K (ts @ [t]) B (c\<lparr>slot_val := (slot_val c)[base_pos c := (slot_val c ! base_pos c + 1) mod 2 ^ 32]\<rparr>)"
proof -
  have [simp]: "B mod kNumSlots < kNumSlots" by (simp add: kNumSlots_def)
  show ?thesis
    using assms by (auto simp: counts_ok_def nth_list_update kNumSlots_def mod_Suc_eq)
qed

lemma counts_ok_clear:
  assumes "counts_ok K ts B c" "B + kNumSlots \<le> N"
  shows "counts_ok K ts N \<lparr>base_pos = N mod kNumSlots, base_tick = N * K, slot_val = replicate kNumSlots 0\<rparr>"
proof -
  have "t div K \<le> B" if "t \<in> set ts" for t using assms(1) that by (simp add: counts_ok_def)
  then have "t div K \<le> N" "\<not> N < t div K + kNumSlots" if "t \<in> set ts" for t using assms(2) that by fastforce+
  then show ?thesis by (simp add: counts_ok_def filter_empty_conv)
qed

lemma counts_ok_roll:
  assumes c: "counts_ok K ts B c" and N: "B < N" "N < B + kNumSlots"
  shows "counts_ok K ts N \<lparr>base_pos = N mod kNumSlots, base_tick = N * K,
           slot_val = zero_slots kNumSlots (base_pos c) (N mod kNumSlots) (slot_val c)\<rparr>"
proof -
  define v where "v = zero_slots kNumSlots (base_pos c) (N mod kNumSlots) (slot_val c)"
  have bp: "base_pos c = B mod kNumSlots" and len: "length (slot_val c) = kNumSlots" and old: "\<And>t. t \<in> set ts \<Longrightarrow> t div K \<le> B"
    and val: "\<And>j. j < kNumSlots \<Longrightarrow> slot_val c ! j = length (filter (\<lambda>t. in_window K B t \<and> t div K mod kNumSlots = j) ts) mod 2 ^ 32"
    using c by (auto simp: counts_ok_def)
  have z: "v ! j = (if \<exists>i \<in> {1..N - B}. j = (B + i) mod kNumSlots then 0 else slot_val c ! j)" "length v = kNumSlots"
    if "j < kNumSlots" for j
    using zero_slots_nth [of "N - B" kNumSlots "slot_val c" j B] N len that by (simp_all add: v_def bp)
  have "v ! j = length (filter (\<lambda>t. in_window K N t \<and> t div K mod kNumSlots = j) ts) mod 2 ^ 32" if j: "j < kNumSlots" for j
  proof (cases "\<exists>i \<in> {1..N - B}. j = (B + i) mod kNumSlots")
    case True
    then obtain i where i: "1 \<le> i" "i \<le> N - B" "j = (B + i) mod kNumSlots" by auto
    have "\<not> (in_window K N t \<and> t div K mod kNumSlots = j)" if t: "t \<in> set ts" for t
    proof
      assume w': "in_window K N t \<and> t div K mod kNumSlots = j"
      then have w: "N < t div K + kNumSlots" by simp
      from w' have "(t div K + kNumSlots) mod kNumSlots = (B + i) mod kNumSlots" by (simp add: i(3))
      then have "B + i = t div K + kNumSlots"
        using mod_turn_eq [of "B + i" kNumSlots "t div K + kNumSlots"] w i N old [OF t] by linarith
      then show False using w i N by simp
    qed
    then show ?thesis using z(1) [OF j] True by (simp add: filter_empty_conv)
  next
    case False
    have "in_window K N t \<and> t div K mod kNumSlots = j \<longleftrightarrow> in_window K B t \<and> t div K mod kNumSlots = j" if t: "t \<in> set ts" for t
    proof -
      have "N < t div K + kNumSlots" if a: "B < t div K + kNumSlots" "t div K mod kNumSlots = j"
      proof (rule ccontr)
        assume "\<not> N < t div K + kNumSlots"
        then have "t div K + kNumSlots - B \<in> {1..N - B}" "j = (B + (t div K + kNumSlots - B)) mod kNumSlots" using a by auto
        with False show False by blast
      qed
      then show ?thesis using N by auto
    qed
    then have "filter (\<lambda>t. in_window K N t \<and> t div K mod kNumSlots = j) ts = filter (\<lambda>t. in_window K B t \<and> t div K mod kNumSlots = j) ts"
      by (intro filter_cong) auto
    then show ?thesis using z(1) [OF j] False val [OF j] by simp
  qed
  moreover have "length v = kNumSlots" using z(2) [of 0] by (simp add: kNumSlots_def)
  ultimately show ?thesis using old N by (fastforce simp: counts_ok_def v_def)
qed

text \<open>
  A tick is inside its slot when it is not in the first few ticks of its slot, which the rounding of the
  slot's length leaves out, nor so late that a \<^verbatim>\<open>double\<close> cannot hold the tick one second later.
\<close>

definition inner_tick :: "nat \<Rightarrow> nat \<Rightarrow> nat \<Rightarrow> bool" where
  "inner_tick K T t \<longleftrightarrow> T - kNumSlots * K < t mod K \<and> t + T < 2 ^ 53"

lemma tick_bounds:
  assumes "inner_tick K T t" "kNumSlots * K \<le> T" "0 < K" "B \<le> t div K"
  shows "B * K \<le> t" "(B * K + K) mod 2 ^ 64 = B * K + K" "B * K + K < t \<longleftrightarrow> B < t div K"
    "B * K + T < t \<longleftrightarrow> B + kNumSlots \<le> t div K" "(t + 2 ^ 64 - B * K) mod 2 ^ 64 = t - B * K"
    "double_of (double_of (B * K) + T) = B * K + T" "double_of t = t" "double_of (t - B * K) = t - B * K"
proof -
  have t: "t = t div K * K + t mod K" by (simp add: mult.commute)
  have "K \<le> T" using assms(2) by (simp add: kNumSlots_def)
  then have m: "T - kNumSlots * K < t mod K" "t mod K < K" "t + K < 2 ^ 64" "t + T < 2 ^ 53" using assms by (auto simp: inner_tick_def)
  have le: "B * K \<le> t div K * K" using assms(4) by simp
  then show a: "B * K \<le> t" using t by linarith
  show "double_of (double_of (B * K) + T) = B * K + T" "double_of t = t" "double_of (t - B * K) = t - B * K"
    using a m(4) by (simp_all add: double_of_exact)
  have "B * K + K < 2 ^ 64" using a m(3) by linarith
  then show "(B * K + K) mod 2 ^ 64 = B * K + K" by (rule mod_less)
  show "(t + 2 ^ 64 - B * K) mod 2 ^ 64 = t - B * K"
  proof -
    have "t + 2 ^ 64 - B * K = (t - B * K) + 2 ^ 64" using a by simp
    moreover have "t - B * K < 2 ^ 64" using m by simp
    ultimately show ?thesis by (simp only: mod_add_self2 mod_less)
  qed
  show "B * K + K < t \<longleftrightarrow> B < t div K"
  proof (cases "B < t div K")
    case True
    then have "Suc B * K \<le> t div K * K" by (intro mult_le_mono1) simp
    then have "B * K + K \<le> t div K * K" by simp
    then have "B * K + K < t" using t m by linarith
    then show ?thesis using True by simp
  next
    case False
    then have "t div K = B" using assms(4) by simp
    then have "\<not> B * K + K < t" using t m by simp
    then show ?thesis using False by simp
  qed
  show "B * K + T < t \<longleftrightarrow> B + kNumSlots \<le> t div K"
  proof (cases "B + kNumSlots \<le> t div K")
    case True
    then have "(B + kNumSlots) * K \<le> t div K * K" by (intro mult_le_mono1)
    then have "B * K + kNumSlots * K \<le> t div K * K" by (simp add: algebra_simps)
    then show ?thesis using True t m assms(2) by linarith
  next
    case False
    then have "Suc (t div K) * K \<le> (B + kNumSlots) * K" by (intro mult_le_mono1) simp
    then have "t div K * K + K \<le> B * K + kNumSlots * K" by (simp add: algebra_simps)
    then show ?thesis using False t m assms(2) by linarith
  qed
qed

lemma counts_request_ok:
  assumes c: "counts_ok K ts B c" and t: "B \<le> t div K" "inner_tick K T t" and K: "kNumSlots * K \<le> T" "0 < K"
  shows "counts_ok K (ts @ [t]) (t div K) (counts_request K T t c)"
proof -
  note b = tick_bounds [OF t(2) K t(1)]
  have bt: "base_tick c = B * K" using c by (simp add: counts_ok_def)
  have rt: "roundTick K t = t div K * K" by (simp add: roundTick_def minus_mod_eq_div_mult)
  define c1 where "c1 = (if B < t div K then
      \<lparr>base_pos = posForTick K t, base_tick = roundTick K t,
       slot_val = (if B + kNumSlots \<le> t div K then replicate kNumSlots 0 else zero_slots kNumSlots (base_pos c) (posForTick K t) (slot_val c))\<rparr>
      else c)"
  have "counts_ok K ts (t div K) c1"
    using counts_ok_clear [OF c, of "t div K"] counts_ok_roll [OF c, of "t div K"] c t(1)
    by (auto simp: c1_def rt posForTick_def not_le)
  moreover have "counts_request K T t c = c1\<lparr>slot_val := (slot_val c1)[base_pos c1 := (slot_val c1 ! base_pos c1 + 1) mod 2 ^ 32]\<rparr>"
    unfolding counts_request_def bt b(2) b(3) b(6) b(7) b(4) by (simp add: c1_def Let_def)
  ultimately show ?thesis using counts_ok_inc by simp
qed

abbreviation no_counts :: Counts where
  "no_counts \<equiv> \<lparr>base_pos = 0, base_tick = 0, slot_val = replicate kNumSlots 0\<rparr>"

lemma counts_fold_ok:
  assumes K: "kNumSlots * K \<le> T" "0 < K"
  shows "sorted ts \<Longrightarrow> \<forall>t \<in> set ts. inner_tick K T t \<Longrightarrow>
    \<exists>B. counts_ok K ts B (fold (counts_request K T) ts no_counts) \<and> (\<forall>n. (\<forall>t \<in> set ts. t \<le> n) \<longrightarrow> B \<le> n div K)"
proof (induction ts rule: rev_induct)
  case Nil
  have "counts_ok K [] 0 no_counts" by (simp add: counts_ok_def kNumSlots_def)
  then show ?case by fastforce
next
  case (snoc t ts)
  then obtain B where B: "counts_ok K ts B (fold (counts_request K T) ts no_counts)" "\<And>n. \<forall>t \<in> set ts. t \<le> n \<Longrightarrow> B \<le> n div K"
    by (auto simp: sorted_append)
  have "B \<le> t div K" using snoc.prems by (intro B(2)) (simp add: sorted_append)
  then have "counts_ok K (ts @ [t]) (t div K) (fold (counts_request K T) (ts @ [t]) no_counts)"
    using counts_request_ok [OF B(1) _ _ K] snoc.prems by simp
  then show ?case by (fastforce intro: div_le_mono)
qed

lemma sum_length_filter:
  assumes "finite A" "\<And>x i j. x \<in> set xs \<Longrightarrow> i \<in> A \<Longrightarrow> j \<in> A \<Longrightarrow> P i x \<Longrightarrow> P j x \<Longrightarrow> i = j"
  shows "(\<Sum>i \<in> A. length (filter (P i) xs)) = length (filter (\<lambda>x. \<exists>i \<in> A. P i x) xs)"
  using assms(2)
proof (induction xs)
  case (Cons x xs)
  have IH: "(\<Sum>i \<in> A. length (filter (P i) xs)) = length (filter (\<lambda>x. \<exists>i \<in> A. P i x) xs)"
    using Cons.prems by (intro Cons.IH) (meson list.set_intros(2))
  have "(\<Sum>i \<in> A. length (filter (P i) (x # xs))) = (\<Sum>i \<in> A. (if P i x then 1 else 0)) + (\<Sum>i \<in> A. length (filter (P i) xs))"
    by (subst sum.distrib [symmetric]) (auto intro: sum.cong)
  moreover have "(\<Sum>i \<in> A. (if P i x then 1 else 0::nat)) = (if \<exists>i \<in> A. P i x then 1 else 0)"
  proof (cases "\<exists>i \<in> A. P i x")
    case True
    then obtain k where k: "k \<in> A" "P k x" by blast
    have "P i x \<longleftrightarrow> i = k" if "i \<in> A" for i
      using Cons.prems [OF _ that k(1) _ k(2)] k(2) by (metis list.set_intros(1))
    then have "(\<Sum>i \<in> A. (if P i x then 1 else 0::nat)) = (\<Sum>i \<in> A. if i = k then 1 else 0)" by (intro sum.cong) auto
    then show ?thesis using k True assms(1) by (simp add: sum.delta)
  qed (simp add: sum.neutral)
  ultimately show ?case by (simp add: IH)
qed simp

lemma counts_recent_eq:
  assumes c: "counts_ok K ts B c" and n: "B \<le> now div K" "inner_tick K T now" and K: "kNumSlots * K \<le> T" "0 < K"
  shows "counts_recent K T now c = window_count K (now div K) ts mod 2 ^ 32"
proof -
  note b = tick_bounds [OF n(2) K n(1)]
  have bt: "base_tick c = B * K" and bp: "base_pos c = B mod kNumSlots" and old: "\<And>t. t \<in> set ts \<Longrightarrow> t div K \<le> B"
    and val: "\<And>j. j < kNumSlots \<Longrightarrow> slot_val c ! j = length (filter (\<lambda>t. in_window K B t \<and> t div K mod kNumSlots = j) ts) mod 2 ^ 32"
    using c by (auto simp: counts_ok_def)
  have out: "T < now - B * K \<longleftrightarrow> B + kNumSlots \<le> now div K" using b(1,4) by linarith
  show ?thesis
  proof (cases "B + kNumSlots \<le> now div K")
    case True
    then have "\<not> in_window K (now div K) t" if "t \<in> set ts" for t using old [OF that] by linarith
    then show ?thesis unfolding counts_recent_def bt b(5) b(8) out using True by (simp add: window_count_def filter_empty_conv)
  next
    case False
    let ?S = "now div K"
    define d where "d = B + kNumSlots - ?S"
    have d: "0 < d" "d \<le> kNumSlots" "?S + d = B + kNumSlots" using False n(1) by (auto simp: d_def)
    define P where "P i t \<longleftrightarrow> in_window K B t \<and> t div K mod kNumSlots = (?S + i) mod kNumSlots" for i t
    have Pi: "t div K + kNumSlots = ?S + i" if "P i t" "i \<in> {1..d}" "t \<in> set ts" for i t
    proof -
      have m: "(t div K + kNumSlots) mod kNumSlots = (?S + i) mod kNumSlots" using that(1) by (simp add: P_def)
      have "?S + i \<le> B + kNumSlots" "B < t div K + kNumSlots" "t div K \<le> B" "0 < i"
        using that d old [OF that(3)] by (auto simp: P_def)
      then show ?thesis
        using mod_turn_eq [OF m] mod_turn_eq [OF m [symmetric]] n(1) by linarith
    qed
    have "sum_slots kNumSlots (posForTick K now) (base_pos c) (slot_val c) = (\<Sum>i \<in> {1..d}. slot_val c ! ((?S + i) mod kNumSlots)) mod 2 ^ 32"
      using sum_slots_eq [of d kNumSlots ?S "slot_val c"] d by (simp add: posForTick_def bp)
    also have "\<dots> = (\<Sum>i \<in> {1..d}. length (filter (P i) ts) mod 2 ^ 32) mod 2 ^ 32"
    proof -
      have "slot_val c ! ((?S + i) mod kNumSlots) = length (filter (P i) ts) mod 2 ^ 32" for i
        using val [of "(?S + i) mod kNumSlots"] by (simp add: P_def [abs_def] kNumSlots_def)
      then show ?thesis by simp
    qed
    also have "\<dots> = (\<Sum>i \<in> {1..d}. length (filter (P i) ts)) mod 2 ^ 32" by (rule mod_sum_eq)
    also have "(\<Sum>i \<in> {1..d}. length (filter (P i) ts)) = length (filter (\<lambda>t. \<exists>i \<in> {1..d}. P i t) ts)"
    proof (rule sum_length_filter)
      fix t i j assume "t \<in> set ts" "i \<in> {1..d}" "j \<in> {1..d}" "P i t" "P j t"
      with Pi [of i t] Pi [of j t] show "i = j" by simp
    qed simp
    also have "filter (\<lambda>t. \<exists>i \<in> {1..d}. P i t) ts = filter (in_window K ?S) ts"
    proof (rule filter_cong [OF refl])
      fix t assume t: "t \<in> set ts"
      have "\<exists>i \<in> {1..d}. P i t" if "?S < t div K + kNumSlots"
      proof
        show "P (t div K + kNumSlots - ?S) t" using that n(1) by (simp add: P_def)
        show "t div K + kNumSlots - ?S \<in> {1..d}" using that d old [OF t] by auto
      qed
      moreover have "?S < t div K + kNumSlots" if "\<exists>i \<in> {1..d}. P i t" using that Pi t by fastforce
      ultimately show "(\<exists>i \<in> {1..d}. P i t) = in_window K ?S t" by blast
    qed
    finally show ?thesis unfolding counts_recent_def bt b(5) b(8) out using False by (simp add: window_count_def)
  qed
qed

section \<open>All threads\<close>

text \<open>The requests \<open>(thread, tick)\<close> recorded one after the other.\<close>

fun finish_all :: "nat \<Rightarrow> nat \<Rightarrow> (nat \<times> nat) list \<Rightarrow> RequestStats \<Rightarrow> RequestStats option" where
  "finish_all K T [] s = Some s"
| "finish_all K T ((i, t) # es) s = do { s' \<leftarrow> finishedRequest K T i t s; finish_all K T es s' }"

abbreviation ticks_of :: "nat \<Rightarrow> (nat \<times> nat) list \<Rightarrow> nat list" where
  "ticks_of i es \<equiv> map snd (filter (\<lambda>e. fst e = i) es)"

lemma finish_all_counts:
  assumes "\<forall>e \<in> set es. fst e < n" "num_threads s = n" "counts s = map f [0..<n]"
  shows "\<exists>s'. finish_all K T es s = Some s' \<and> counts s' = map (\<lambda>i. fold (counts_request K T) (ticks_of i es) (f i)) [0..<n]"
  using assms
proof (induction es arbitrary: s f)
  case (Cons e es)
  obtain i t where e: "e = (i, t)" by (cases e)
  let ?g = "f(i := counts_request K T t (f i))"
  have i: "i < n" using Cons.prems(1) e by simp
  have upd: "(map f [0..<n])[i := counts_request K T t (f i)] = map ?g [0..<n]"
    using i by (intro nth_equalityI) (auto simp: nth_list_update)
  obtain s1 where s1: "finishedRequest K T i t s = Some s1" "num_threads s1 = n" "counts s1 = map ?g [0..<n]"
    using Cons.prems(2,3) i upd by (auto simp: finishedRequest_def)
  then show ?case using Cons.IH [of s1 ?g] Cons.prems(1) e by (auto simp: fun_upd_def cong: if_cong)
qed simp

lemma window_counts_sum:
  assumes "\<forall>e \<in> set es. fst e < n"
  shows "(\<Sum>i \<leftarrow> [0..<n]. window_count K S (ticks_of i es)) = window_count K S (map snd es)"
proof -
  have "(\<Sum>i \<leftarrow> [0..<n]. window_count K S (ticks_of i es)) = (\<Sum>i \<in> {0..<n}. length (filter (\<lambda>e. fst e = i \<and> in_window K S (snd e)) es))"
    by (simp add: interv_sum_list_conv_sum_set_nat window_count_def filter_map comp_def conj_commute)
  also have "\<dots> = length (filter (\<lambda>e. \<exists>i \<in> {0..<n}. fst e = i \<and> in_window K S (snd e)) es)"
    by (rule sum_length_filter) auto
  also have "filter (\<lambda>e. \<exists>i \<in> {0..<n}. fst e = i \<and> in_window K S (snd e)) es = filter (\<lambda>e. in_window K S (snd e)) es"
    using assms by (intro filter_cong) auto
  finally show ?thesis by (simp add: window_count_def filter_map comp_def)
qed

text \<open>
  C22. The statistics: when the requests of a run are recorded in the order of their ticks by any
  threads of the pool, the rate reported at a later tick is exactly the number of requests in the ten
  slots that end with the current one, modulo \<open>2 ^ 32\<close>. The theorem is about ticks that are not on the
  boundary of a slot (more than the remainder of \<^verbatim>\<open>ticksPerSecond\<close> by the slots past it) and that, one
  second later, are still below \<open>2 ^ 53\<close>, so that the conversions to \<^verbatim>\<open>double\<close> are exact: a request on
  a boundary is counted in the slot before, and beyond the bound \<open>rounding_clears_window\<close> below happens.
\<close>

theorem getStats_window:
  assumes "K = T div kNumSlots" "0 < K" "sorted (map snd es)" "\<forall>e \<in> set es. fst e < n \<and> inner_tick K T (snd e) \<and> snd e \<le> now"
    "inner_tick K T now"
  shows "\<exists>s. finish_all K T es (new_RequestStats n) = Some s
    \<and> getStats K T now s = window_count K (now div K) (map snd es) mod 2 ^ 32"
proof -
  have KT: "kNumSlots * K \<le> T" by (simp add: assms(1))
  have "counts (new_RequestStats n) = map (\<lambda>i. no_counts) [0..<n]" by (simp add: new_RequestStats_def map_replicate_const)
  with finish_all_counts [of es n "new_RequestStats n" "\<lambda>i. no_counts" K T] assms(4)
  obtain s where s: "finish_all K T es (new_RequestStats n) = Some s"
    "counts s = map (\<lambda>i. fold (counts_request K T) (ticks_of i es) no_counts) [0..<n]"
    by (auto simp: new_RequestStats_def)
  have one: "counts_recent K T now (fold (counts_request K T) (ticks_of i es) no_counts) = window_count K (now div K) (ticks_of i es) mod 2 ^ 32" for i
  proof -
    have "sorted (ticks_of i es)" using assms(3) by (rule sorted_filter)
    with counts_fold_ok [OF KT assms(2), of "ticks_of i es"] assms(4)
    obtain B where B: "counts_ok K (ticks_of i es) B (fold (counts_request K T) (ticks_of i es) no_counts)"
      "\<forall>n. (\<forall>t \<in> set (ticks_of i es). t \<le> n) \<longrightarrow> B \<le> n div K" by auto
    have "B \<le> now div K" using assms(4) by (intro B(2) [rule_format]) auto
    with B(1) show ?thesis by (rule counts_recent_eq [OF _ _ assms(5) KT assms(2)])
  qed
  have "getStats K T now s = (\<Sum>i \<leftarrow> [0..<n]. window_count K (now div K) (ticks_of i es) mod 2 ^ 32) mod 2 ^ 32"
    by (simp only: getStats_def s(2) map_map comp_def one)
  also have "\<dots> = (\<Sum>i \<leftarrow> [0..<n]. window_count K (now div K) (ticks_of i es)) mod 2 ^ 32"
    by (simp add: interv_sum_list_conv_sum_set_nat mod_sum_eq)
  finally show ?thesis using s(1) window_counts_sum [of es n K "now div K"] assms(4) by auto
qed

theorem getStats_window_witness:
  "\<exists>s. finish_all 10 100 [(0, 5), (1, 17), (0, 98)] (new_RequestStats 2) = Some s
    \<and> getStats 10 100 109 s = window_count 10 10 [5, 17, 98] mod 2 ^ 32 \<and> window_count 10 10 [5, 17, 98] = 2"
  using getStats_window [of 10 100 "[(0, 5), (1, 17), (0, 98)]" 2 109]
  by (auto simp: kNumSlots_def inner_tick_def window_count_def)

text \<open>
  With ticks from \<open>2 ^ 56\<close> on the conversion of \<^verbatim>\<open>base_tick\<close> rounds: a request \<open>99\<close> ticks after the base slot
  began, with 100 ticks per second, clears the counters although the base slot is still in the window.
\<close>

lemma double_of_56:
  assumes "2 ^ 56 \<le> n" "n < 2 ^ 57"
  shows "double_of n = (if 2 * (n mod 16) < 16 \<or> 2 * (n mod 16) = 16 \<and> even (n div 16) then n div 16 else n div 16 + 1) * 16"
proof -
  have "floorlog 2 n \<le> 57" "\<not> floorlog 2 n \<le> 56" using assms by (simp_all add: floorlog_le_iff)
  then have "floorlog 2 n - 53 = 4" by simp
  then show ?thesis by (simp add: double_of_def Let_def)
qed

lemma rounding_clears_window:
  fixes b :: nat
  defines "b \<equiv> 2 ^ 56 + 54"
  shows "roundTick 10 b = b \<and> in_window 10 ((b + 99) div 10) b
    \<and> slot_val (counts_request 10 100 (b + 99) \<lparr>base_pos = posForTick 10 b, base_tick = b, slot_val = replicate kNumSlots 1\<rparr>)
      = [0, 0, 0, 0, 0, 0, 0, 0, 1, 0]"
proof -
  have "double_of b = 2 ^ 56 + 48" "double_of (2 ^ 56 + 48 + 100) = 2 ^ 56 + 144" "double_of (b + 99) = 2 ^ 56 + 160"
    by (simp_all add: double_of_56 b_def)
  then have d: "double_of (double_of b + 100) < double_of (b + 99)" by simp
  have s: "roundTick 10 b = b" "in_window 10 ((b + 99) div 10) b" "b + 99 > (b + 10) mod 2 ^ 64" "posForTick 10 (b + 99) = 8"
    by (simp_all add: b_def roundTick_def kNumSlots_def posForTick_def)
  have "(replicate 10 (0::nat))[8 := 1] = [0, 0, 0, 0, 0, 0, 0, 0, 1, 0]" by (simp add: eval_nat_numeral)
  with d s show ?thesis by (simp add: counts_request_def kNumSlots_def)
qed

end
