(* ===== verification/Http_Connection.thy ===== *)
theory Http_Connection
  imports Service_Manager File_Cache Response_Parser Request_Stats
begin

text \<open>
  The HTTP protocol on a connection (\<^verbatim>\<open>http_connection.cpp\<close>, \<^verbatim>\<open>http_service.cpp\<close>): the server parses the
  requests in its input buffer and answers each from the file cache, the client matches responses
  with the callbacks of its requests. \<open>sub\<close> holds the members of the sub-class together with the
  objects they point to: the file cache, the statistics, the service manager. The loops that the
  key-value protocol repeats word for word are stated once, over the members they use. \<open>Crash\<close> also
  stands for a fatal log message.
\<close>

type_synonym 'x handler = "'x conn_world \<Rightarrow> (bool \<times> 'x conn_world) run"

definition upd_sub :: "('x \<Rightarrow> 'x) \<Rightarrow> 'x conn_world \<Rightarrow> 'x conn_world" where
  "upd_sub f w = w\<lparr>conn := (conn w)\<lparr>sub := f (sub (conn w))\<rparr>\<rparr>"

definition upd_out :: "(Buffer \<Rightarrow> Buffer option) \<Rightarrow> 'x conn_world \<Rightarrow> 'x conn_world run" where
  "upd_out f w = of_opt (do { b \<leftarrow> f (out_buf (conn w)); Some (w\<lparr>conn := (conn w)\<lparr>out_buf := b\<rparr>\<rparr>) })"

section \<open>The server's loop\<close>

text \<open>
  The loop of \<^verbatim>\<open>readDone\<close>: \<open>put\<close> stores the parsed request, \<open>handle\<close> serves it. A parsed request takes
  at least a byte of the input, so that the number of bytes plus one is enough fuel.
\<close>

fun serve_loop :: "(Request \<Rightarrow> 'x \<Rightarrow> 'x) \<Rightarrow> 'x handler \<Rightarrow> nat \<Rightarrow> 'x handler" where
  "serve_loop put handle 0 w = Pending"
| "serve_loop put handle (Suc n) w =
     (case buf_begin (in_buf (conn w)) of
        None \<Rightarrow> Crash
      | Some it \<Rightarrow>
          (case parseRequest (in_buf (conn w)) it \<lparr>req_method = [], req_address = [], req_version = []\<rparr> of
             Some (Code rc it' rq) \<Rightarrow>
               let w1 = upd_sub (put rq) w
               in if rc < 0 then Done (False, w1)
                  else if rc > 0 then Done (True, w1)
                  else (case consume (bytes_read it') (in_buf (conn w1)) of
                          None \<Rightarrow> Crash
                        | Some b \<Rightarrow>
                            run_bind (handle (w1\<lparr>conn := (conn w1)\<lparr>in_buf := b\<rparr>\<rparr>)) (\<lambda>(ok, w2).
                              if ok then serve_loop put handle n w2 else Done (False, w2)))
           | Some (Uncaught _) \<Rightarrow> Crash
           | Some Undefined \<Rightarrow> Crash
           | None \<Rightarrow> Pending))"

definition serve :: "(Request \<Rightarrow> 'x \<Rightarrow> 'x) \<Rightarrow> 'x handler \<Rightarrow> 'x handler" where
  "serve put handle w = (case byteCount (in_buf (conn w)) of None \<Rightarrow> Crash | Some k \<Rightarrow> serve_loop put handle (Suc k) w)"

section \<open>The HTTP server\<close>

record HTTPServer =
  request :: Request
  file_cache :: FileCache
  stats :: RequestStats
  service :: ServiceManager
  served :: nat

text \<open>
  What surrounds the handling of a request: the files of the system, the ticks per slot and per
  second, the worker that runs, and, for the i-th request of the connection, the readings of the
  clock and the answers of the socket to the write.
\<close>

record http_env =
  files :: "string \<Rightarrow> os_file"
  per_slot :: nat
  per_second :: nat
  ME :: nat
  clock :: "nat \<Rightarrow> nat"
  handle_time :: "nat \<Rightarrow> nat"
  write_time :: "nat \<Rightarrow> nat"
  answers :: "nat \<Rightarrow> write_res list"

definition ok_header :: "nat \<Rightarrow> string list" where
  "ok_header n =
     [''HTTP/1.1 200 OK'' @ CRLF, ''Date: Wed, 28 Oct 2009 15:24:11 GMT'' @ CRLF, ''Server: Lab02a'' @ CRLF,
      ''Accept-Ranges: bytes'' @ CRLF, ''Content-Length: '' @ show_nat n @ CRLF, ''Content-Type: text/html'' @ CRLF, CRLF]"

definition error_page :: string where
  "error_page = ''<HTML>'' @ CRLF @ ''<HEAD><TITLE>400 Bad Request</TITLE></HEAD>'' @ CRLF @ ''<BODY>Bad Request</BODY>'' @ CRLF
     @ ''</HTML>'' @ CRLF @ CRLF"

definition error_response :: "string list" where
  "error_response =
     [''HTTP/1.1 503 Bad Request'' @ CRLF, ''Date: Wed, 28 Oct 2009 15:24:11 GMT'' @ CRLF, ''Server: MyServer'' @ CRLF,
      ''Connection: close'' @ CRLF, ''Transfer-Encoding: chunked'' @ CRLF, ''Content-Length: '' @ show_nat (length error_page) @ CRLF,
      ''Content-Type: text/html; charset=iso-8859-1'' @ CRLF, CRLF, error_page]"

definition service_stop :: "nat \<Rightarrow> HTTPServer conn_world \<Rightarrow> HTTPServer conn_world run" where
  "service_stop me w =
     run_bind (sm_stop (Some me) (service (sub (conn w)), io w)) (\<lambda>(sm, m).
       Done ((upd_sub (\<lambda>x. x\<lparr>service := sm\<rparr>) w)\<lparr>io := m\<rparr>))"

definition count_time :: "nat \<Rightarrow> HTTPServer conn_world \<Rightarrow> HTTPServer conn_world" where
  "count_time t w = upd_sub (\<lambda>x. x\<lparr>stats := updateTimeToHandleRequest t (stats x)\<rparr>) w"

definition timed_write :: "http_env \<Rightarrow> HTTPServer conn_world \<Rightarrow> HTTPServer conn_world run" where
  "timed_write e w =
     (let i = served (sub (conn w))
      in run_bind (startWrite (answers e i) w) (\<lambda>w1. Done (upd_sub (\<lambda>x. x\<lparr>served := Suc i\<rparr>) (count_time (write_time e i) w1))))"

text \<open>The answer from the cache: the pinned buffer is copied behind its header; the pin stays.\<close>

definition answer_file :: "nat option \<Rightarrow> nat option \<Rightarrow> HTTPServer conn_world \<Rightarrow> HTTPServer conn_world run" where
  "answer_file h buf w =
     (if h \<noteq> None then
        (case do { bid \<leftarrow> buf; bufs (file_cache (sub (conn w))) bid } of
           None \<Rightarrow> Crash
         | Some b \<Rightarrow> upd_out (\<lambda>out. do { n \<leftarrow> readSize b; out1 \<leftarrow> put_all buf_write (ok_header n) out;
                                         (_, out2) \<leftarrow> copyFrom out1 b; Some out2 }) w)
      else upd_out (put_all buf_write error_response) w)"

definition http_handleRequest :: "http_env \<Rightarrow> HTTPServer handler" where
  "http_handleRequest e w =
     (let x = sub (conn w); i = served x
      in if req_address (request x) = ''quit'' then run_bind (service_stop (ME e) w) (\<lambda>w1. Done (False, w1))
         else
           let reqsLastSec = getStats (per_slot e) (per_second e) (clock e i) (stats x)
           in if req_address (request x) = ''stats'' then
                let body = show_nat (reqsLastSec mod 2 ^ 32)
                in run_bind (upd_out (put_all buf_write (ok_header (length body) @ [body])) w) (\<lambda>w1.
                   run_bind (timed_write e (count_time (handle_time e i) w1)) (\<lambda>w2. Done (True, w2)))
              else
                let w0 = (if req_address (request x) = []
                          then upd_sub (\<lambda>x. x\<lparr>request := (request x)\<lparr>req_address := ''index.html''\<rparr>\<rparr>) w else w);
                    name = req_address (request (sub (conn w0)))
                in (case pin (files e name) name None (file_cache x) of
                      FBlocked \<Rightarrow> Pending
                    | FExit \<Rightarrow> Crash
                    | FUndef \<Rightarrow> Crash
                    | FOk (h, buf, fc) \<Rightarrow>
                        run_bind (answer_file h buf (upd_sub (\<lambda>x. x\<lparr>file_cache := fc\<rparr>) w0)) (\<lambda>w1.
                        case finishedRequest (per_slot e) (per_second e) (ME e) (clock e i) (stats (sub (conn (count_time (handle_time e i) w1)))) of
                          None \<Rightarrow> Crash
                        | Some st \<Rightarrow>
                            run_bind (timed_write e (upd_sub (\<lambda>x. x\<lparr>stats := st\<rparr>) (count_time (handle_time e i) w1)))
                              (\<lambda>w2. Done (True, w2)))))"

definition http_readDone :: "http_env \<Rightarrow> HTTPServer handler" where
  "http_readDone e = serve (\<lambda>rq x. x\<lparr>request := rq\<rparr>) (http_handleRequest e)"

text \<open>The constructor of the server side: it starts to read.\<close>

definition new_HTTPServerConnection :: "int \<Rightarrow> int \<Rightarrow> HTTPServer \<Rightarrow> HTTPServer conn_world \<Rightarrow> HTTPServer conn_world option" where
  "new_HTTPServerConnection rc fd0 x w =
     do { w1 \<leftarrow> new_Connection rc fd0 (x\<lparr>request := \<lparr>req_method = [], req_address = [], req_version = []\<rparr>, served := 0\<rparr>) w; startRead w1 }"

section \<open>Clients\<close>

text \<open>
  \<open>delivered\<close> lists the responses handed to callbacks, \<open>connect_called\<close> counts the calls of the
  connect callback; a response for which no callback waits is dropped.
\<close>

record Client =
  connect_cb :: "nat option"
  response_cbs :: "nat list"
  delivered :: "(nat \<times> Response) list"
  connect_called :: nat

definition client_connDone :: "Client conn_world \<Rightarrow> Client conn_world run" where
  "client_connDone w =
     run_bind (if conn_ok w then of_opt (startRead w) else Done w) (\<lambda>w1.
       case connect_cb (sub (conn w1)) of
         None \<Rightarrow> Crash
       | Some _ \<Rightarrow> Done (upd_sub (\<lambda>x. x\<lparr>connect_called := Suc (connect_called x)\<rparr>) w1))"

definition handleResponse :: "Response \<Rightarrow> Client handler" where
  "handleResponse r w =
     Done (True, case response_cbs (sub (conn w)) of
        [] \<Rightarrow> w
      | cb # cbs \<Rightarrow> upd_sub (\<lambda>x. x\<lparr>response_cbs := cbs, delivered := delivered x @ [(cb, r)]\<rparr>) w)"

fun client_loop :: "nat \<Rightarrow> Client handler" where
  "client_loop 0 w = Pending"
| "client_loop (Suc n) w =
     (case buf_begin (in_buf (conn w)) of
        None \<Rightarrow> Crash
      | Some it \<Rightarrow>
          (case parseResponse (in_buf (conn w)) it \<lparr>statusLine = [], headerRemainder = [], res_body = []\<rparr> of
             Some (Code rc it' r) \<Rightarrow>
               if rc < 0 then Done (False, w)
               else if rc > 0 then Done (True, w)
               else (case consume (bytes_read it') (in_buf (conn w)) of
                       None \<Rightarrow> Crash
                     | Some b \<Rightarrow>
                         run_bind (handleResponse r (w\<lparr>conn := (conn w)\<lparr>in_buf := b\<rparr>\<rparr>)) (\<lambda>(ok, w2).
                           if \<not> ok then Done (False, w2)
                           else if eob (in_buf (conn w)) it' then Done (True, w2)
                           else client_loop n w2))
           | Some (Uncaught _) \<Rightarrow> Crash
           | Some Undefined \<Rightarrow> Crash
           | None \<Rightarrow> Pending))"

definition client_readDone :: "Client handler" where
  "client_readDone w = (case byteCount (in_buf (conn w)) of None \<Rightarrow> Crash | Some k \<Rightarrow> client_loop (Suc k) w)"

definition asyncSend :: "Request \<Rightarrow> nat \<Rightarrow> write_res list \<Rightarrow> Client conn_world \<Rightarrow> Client conn_world run" where
  "asyncSend rq cb rs w =
     run_bind (upd_out (toBuffer rq) (upd_sub (\<lambda>x. x\<lparr>response_cbs := response_cbs x @ [cb]\<rparr>) w)) (startWrite rs)"

definition new_Client :: "Client conn_world \<Rightarrow> Client conn_world" where
  "new_Client w = new_active_Connection \<lparr>connect_cb = None, response_cbs = [], delivered = [], connect_called = 0\<rparr> w"

definition client_connect :: "nat \<Rightarrow> int \<Rightarrow> connect_res \<Rightarrow> int \<Rightarrow> string \<Rightarrow> int \<Rightarrow> Client conn_world \<Rightarrow> Client conn_world run" where
  "client_connect cb sock res so_error msg rc w =
     startConnect client_connDone sock res so_error msg rc (upd_sub (\<lambda>x. x\<lparr>connect_cb := Some cb\<rparr>) w)"

text \<open>
  The synchronous call: it sends the request with a callback that stores the response and wakes the
  caller, and waits; \<open>send_done\<close> is what the caller finds when it wakes up.
\<close>

definition send_start :: "Request \<Rightarrow> nat \<Rightarrow> write_res list \<Rightarrow> Client conn_world \<Rightarrow> Client conn_world run" where
  "send_start rq n rs w = asyncSend rq n rs w"

definition send_done :: "nat \<Rightarrow> Client conn_world \<Rightarrow> Response option" where
  "send_done n w = map_of (delivered (sub (conn w))) n"

section \<open>The HTTP service\<close>

definition new_HTTPService :: "int \<Rightarrow> int \<Rightarrow> int \<Rightarrow> int \<Rightarrow> nat \<Rightarrow> nat \<Rightarrow> nat \<Rightarrow> ServiceManager \<times> IOManager
    \<Rightarrow> (RequestStats \<times> FileCache \<times> ServiceManager \<times> IOManager) option" where
  "new_HTTPService sock bind_rc listen_rc rc rcb wcb cb =
     (\<lambda>(sm, m). do { (sm1, m1) \<leftarrow> registerAcceptor sock bind_rc listen_rc rc rcb wcb cb (sm, m);
                     Some (new_RequestStats (num_workers sm), new_FileCache (50 * 2 ^ 20), sm1, m1) })"

text \<open>The accept callback; \<open>c\<close> is the worker that runs it.\<close>

definition http_acceptConnection :: "int \<Rightarrow> nat \<Rightarrow> int \<Rightarrow> HTTPServer conn_world \<Rightarrow> HTTPServer conn_world run" where
  "http_acceptConnection rc c fd0 w =
     (let x = sub (conn w)
      in if sm_is_stopped (service x) then Done w
         else if fd0 < 0 then service_stop c w
         else of_opt (new_HTTPServerConnection rc fd0 x w))"

definition http_asyncConnect :: "ServiceManager \<Rightarrow> nat \<Rightarrow> int \<Rightarrow> connect_res \<Rightarrow> int \<Rightarrow> string \<Rightarrow> int \<Rightarrow> Client conn_world \<Rightarrow> Client conn_world run" where
  "http_asyncConnect sm cb sock res so_error msg rc w =
     (if sm_is_stopped sm then Done w else client_connect cb sock res so_error msg rc (new_Client w))"

end
