(* ===== verification/Http_Connection_Correct.thy ===== *)
theory Http_Connection_Correct
  imports Http_Connection Http_Roundtrip File_Cache_Correct Connection_Correct
begin

text \<open>
  The protocols put together: pipelined GETs of documents are answered one by one and in order, from
  the cache or the file system; a GET of a small file reaches the client's parser as the file's bytes;
  and the responses to the requests a client has sent go to their callbacks in order, whatever blocks
  they arrive in.
\<close>

section \<open>Pipelined requests\<close>



lemma upd_sub_simps [simp]:
  "in_buf (conn (upd_sub f w)) = in_buf (conn w)" "out_buf (conn (upd_sub f w)) = out_buf (conn w)"
  "sub (conn (upd_sub f w)) = f (sub (conn w))" "writing (conn (upd_sub f w)) = writing (conn w)" "io (upd_sub f w) = io w"
  "refs (conn (upd_sub f w)) = refs (conn w)" "destroyed (upd_sub f w) = destroyed w" "sock_out (upd_sub f w) = sock_out w"
  by (simp_all add: upd_sub_def)






section \<open>A document, from the cache to the client\<close>

definition ok_headers1 :: "string list" where
  "ok_headers1 = [''Date: Wed, 28 Oct 2009 15:24:11 GMT'', ''Server: Lab02a'', ''Accept-Ranges: bytes'']"

definition ok_headers2 :: "string list" where
  "ok_headers2 = [''Content-Type: text/html'']"

definition ok_response :: "string \<Rightarrow> string" where
  "ok_response body = response_bytes ''HTTP/1.1 200 OK'' (ok_headers1 @ length_header (length body) # ok_headers2) body"

lemma ok_header_bytes: "concat (ok_header (length body)) @ body = ok_response body"
  by (simp add: ok_header_def ok_response_def response_bytes_def header_lines_def ok_headers1_def ok_headers2_def length_header_def)

lemma drained_empty: "buf_inv b \<Longrightarrow> drained b \<Longrightarrow> content b = []"
  by (erule buf_invE) (auto simp: drained_def content_mk mk_ok_def)

lemma answer_file_spec:
  assumes "out_inv (out_buf (conn w))" "bufs (file_cache (sub (conn w))) bid = Some b" "buf_inv b" "content b = map Some s"
    "readSize b = Some (length s)" "rpos b = \<lparr>idx = 0, off = 0\<rparr>"
  shows "\<exists>out. out_inv out \<and> content out = content (out_buf (conn w)) @ map Some (ok_response s)
    \<and> answer_file (Some h) (Some bid) w = Done (w\<lparr>conn := (conn w)\<lparr>out_buf := out\<rparr>\<rparr>)"
proof -
  obtain o1 where o1: "put_all buf_write (ok_header (length s)) (out_buf (conn w)) = Some o1" "out_inv o1"
    "content o1 = content (out_buf (conn w)) @ map Some (concat (ok_header (length s)))"
    using outbuf.put_all_ok [OF assms(1), of "ok_header (length s)"] by blast
  have "content o1 \<noteq> []" by (simp add: o1(3) ok_header_def)
  then have "\<not> drained o1" using drained_empty o1(2) by (auto simp: out_inv_def)
  then obtain o2 where o2: "copyFrom o1 b = Some (False, o2)" "buf_inv o2" "content o2 = content o1 @ content b" "has_room o2"
    using copyFrom_spec [of o1 b] o1(2) assms(3,6) by (auto simp: out_inv_def isConsumed_def)
  have "content o2 = content (out_buf (conn w)) @ map Some (ok_response s)"
    using o2(3) o1(3) assms(4) ok_header_bytes [of s, symmetric] by simp
  then show ?thesis
    using o1(1) o2 assms(2,5) by (auto simp: answer_file_def upd_out_def out_inv_def)
qed

lemma parse_ok_response:
  assumes "buf_inv b" "content b = map Some (ok_response body @ rest)" "length body < 2 ^ 64"
  shows "\<exists>it it'. buf_begin b = Some it \<and> parseResponse b it rs = Some (Code 0 it'
      \<lparr>statusLine = ''HTTP/1.1 200 OK'', headerRemainder = concat (ok_headers1 @ length_header (length body) # ok_headers2), res_body = body\<rparr>)
    \<and> bufit.over b it' rest"
  by (rule parse_response_bytes)
    (use assms in \<open>simp_all add: ok_response_def ok_headers1_def ok_headers2_def plain_line_def lengthString_def\<close>)

lemma timed_write_all:
  assumes "out_inv (out_buf (conn w))" "content (out_buf (conn w)) \<noteq> []" "\<not> writing (conn w)" "\<not> destroyed w" "refs (conn w) > 0"
    and "accepting (answers e (served (sub (conn w))))" "length (content (out_buf (conn w))) \<le> takes (answers e (served (sub (conn w))))"
  shows "\<exists>w'. timed_write e w = Done w' \<and> sock_out w' = sock_out w @ content (out_buf (conn w)) \<and> content (out_buf (conn w')) = []
    \<and> \<not> writing (conn w') \<and> refs (conn w') = refs (conn w) \<and> file_cache (sub (conn w')) = file_cache (sub (conn w))"
proof -
  obtain b where b: "content b = []" "startWrite (answers e (served (sub (conn w)))) w =
    Done (w\<lparr>sock_out := sock_out w @ content (out_buf (conn w)), conn := (conn w)\<lparr>out_buf := b\<rparr>\<rparr>)"
    using startWrite_all [of w "answers e (served (sub (conn w)))"] assms by (auto simp: out_inv_def)
  then show ?thesis using assms(3) by (simp add: timed_write_def count_time_def upd_sub_def Let_def)
qed

text \<open>
  C6. A GET for a file of at most one block that is not cached yet, on an idle connection whose
  socket takes the bytes: the file is pinned in the cache, the socket receives one response, and the
  client's parser turns exactly these bytes back into the status line, the headers and a body that is
  the file; the connection is ready for the next request.
\<close>

theorem http_get_small_file:
  assumes "req_address (request (sub (conn w))) = name" "name \<notin> {[], ''quit'', ''stats''}"
    and "\<not> wlocked (file_cache (sub (conn w)))" "cache_map (file_cache (sub (conn w))) name = None"
    and "bytes_used (file_cache (sub (conn w))) + int (length s) \<le> CacheSize (file_cache (sub (conn w)))"
    and "can_open (files e name)" "st_size (files e name) = length s" "length s \<le> BlockSize" "reads (files e name) 0 = Some s"
    and "out_inv (out_buf (conn w))" "content (out_buf (conn w)) = []" "\<not> writing (conn w)" "\<not> destroyed w" "refs (conn w) > 0"
    and "ME e < num_threads (stats (sub (conn w)))"
    and "accepting (answers e (served (sub (conn w))))" "length (ok_response s) \<le> takes (answers e (served (sub (conn w))))"
  shows "\<exists>w'. http_handleRequest e w = Done (True, w') \<and> sock_out w' = sock_out w @ map Some (ok_response s)
    \<and> content (out_buf (conn w')) = [] \<and> \<not> writing (conn w') \<and> refs (conn w') = refs (conn w)
    \<and> (\<forall>b rs. buf_inv b \<and> content b = map Some (ok_response s) \<longrightarrow>
        (\<exists>it it' m. buf_begin b = Some it \<and> parseResponse b it rs = Some (Code 0 it' m) \<and> res_body m = s))"
proof -
  let ?fc = "file_cache (sub (conn w))" and ?i = "served (sub (conn w))"
  obtain h bid fc b where fc: "pin (files e name) name None ?fc = FOk (Some h, Some bid, fc)" "bufs fc bid = Some b"
    "content b = map Some s" "buf_inv b" "readSize b = Some (length s)" "rpos b = \<lparr>idx = 0, off = 0\<rparr>"
    using pin_small [OF assms(3-9), of None] by blast
  define w0 where "w0 = upd_sub (\<lambda>x. x\<lparr>file_cache := fc\<rparr>) w"
  have w0: "out_inv (out_buf (conn w0))" "bufs (file_cache (sub (conn w0))) bid = Some b" "content (out_buf (conn w0)) = []"
    using assms(10,11) fc(2) by (simp_all add: w0_def)
  obtain out where out: "out_inv out" "content out = map Some (ok_response s)"
    "answer_file (Some h) (Some bid) w0 = Done (w0\<lparr>conn := (conn w0)\<lparr>out_buf := out\<rparr>\<rparr>)"
    using answer_file_spec [OF w0(1,2) fc(4,3,5,6), of h] w0(3) by auto
  define w1 where "w1 = count_time (handle_time e ?i) (w0\<lparr>conn := (conn w0)\<lparr>out_buf := out\<rparr>\<rparr>)"
  obtain st where st: "finishedRequest (per_slot e) (per_second e) (ME e) (clock e ?i) (stats (sub (conn w1))) = Some st"
    using assms(15) by (simp add: finishedRequest_def w1_def w0_def count_time_def updateTimeToHandleRequest_def upd_sub_def)
  define w2 where "w2 = upd_sub (\<lambda>x. x\<lparr>stats := st\<rparr>) w1"
  have w2: "out_buf (conn w2) = out" "writing (conn w2) = writing (conn w)" "destroyed w2 = destroyed w" "refs (conn w2) = refs (conn w)"
    "sock_out w2 = sock_out w" "served (sub (conn w2)) = ?i"
    by (simp_all add: w2_def w1_def w0_def count_time_def upd_sub_def)
  have ne: "map Some (ok_response s) \<noteq> []" by (simp add: ok_response_def response_bytes_def)
  obtain w3 where w3: "timed_write e w2 = Done w3" "sock_out w3 = sock_out w @ map Some (ok_response s)" "content (out_buf (conn w3)) = []"
    "\<not> writing (conn w3)" "refs (conn w3) = refs (conn w)"
    using timed_write_all [of w2 e] out(1,2) ne assms(12-17) by (auto simp: w2)
  have q: "name \<noteq> ''quit''" "name \<noteq> ''stats''" "name \<noteq> []" using assms(2) by auto
  have "http_handleRequest e w = Done (True, w3)"
    using q assms(1) fc(1) out(3) st w3(1) by (simp add: http_handleRequest_def Let_def w0_def w1_def w2_def)
  moreover have "length s < 2 ^ 64" using assms(8) by (simp add: BlockSize_def)
  ultimately show ?thesis using w3 parse_ok_response [of _ s "[]"] by fastforce
qed

definition get_world :: "HTTPServer conn_world" where
  "get_world = \<lparr>conn = \<lparr>in_buf = new_Buffer, writing = False, out_buf = new_Buffer, client_fd = 7, conn_closed = False,
      io_desc = None, in_error = False, error_string = [], refs = 1,
      sub = \<lparr>request = \<lparr>req_method = ''GET'', req_address = ''a'', req_version = ''HTTP/1.1''\<rparr>, file_cache = new_FileCache 100,
        stats = new_RequestStats 1, service = \<lparr>num_workers = 1, acceptors = [], stop_requested = False, sm_stopped = False\<rparr>, served = 0\<rparr>\<rparr>,
    io = the (new_IOManager 3 1), upcalls = [], destroyed = False, closed_fds = [], sock_out = []\<rparr>"

definition get_env :: http_env where
  "get_env = \<lparr>files = (\<lambda>_. small_file ''hi''), per_slot = 10, per_second = 100, ME = 0, clock = (\<lambda>_. 0), handle_time = (\<lambda>_. 0),
     write_time = (\<lambda>_. 0), answers = (\<lambda>_. replicate 300 (STook 1))\<rparr>"

lemma accepting_replicate: "accepting (replicate n (STook (Suc 0)))" "takes (replicate n (STook (Suc 0))) = n"
  by (induction n) (simp_all add: takes_def)

theorem http_get_small_file_witness:
  "\<exists>w'. http_handleRequest get_env get_world = Done (True, w') \<and> sock_out w' = map Some (ok_response ''hi'')"
proof -
  have l: "length (ok_response ''hi'') \<le> 300"
    by (simp add: ok_response_def response_bytes_def header_lines_def ok_headers1_def ok_headers2_def length_header_def show_nat.simps)
  have b: "length ''hi'' \<le> BlockSize" by (simp add: BlockSize_def)
  have w: "req_address (request (sub (conn get_world))) = ''a''" "\<not> wlocked (file_cache (sub (conn get_world)))"
    "cache_map (file_cache (sub (conn get_world))) ''a'' = None"
    "bytes_used (file_cache (sub (conn get_world))) + int (length ''hi'') \<le> CacheSize (file_cache (sub (conn get_world)))"
    "out_buf (conn get_world) = new_Buffer" "\<not> writing (conn get_world)" "\<not> destroyed get_world" "refs (conn get_world) > 0"
    "ME get_env < num_threads (stats (sub (conn get_world)))" "sock_out get_world = []"
    by (simp_all add: get_world_def get_env_def new_FileCache_def new_RequestStats_def)
  have e: "can_open (files get_env ''a'')" "st_size (files get_env ''a'') = length ''hi''" "reads (files get_env ''a'') 0 = Some ''hi''"
    "accepting (answers get_env n)" "takes (answers get_env n) = 300" for n
    by (simp_all add: get_env_def small_file_def accepting_replicate)
  have o: "out_inv (out_buf (conn get_world))" "content (out_buf (conn get_world)) = []" by (simp_all add: w(5) out_inv_new content_new)
  have n: "''a'' \<notin> {[], ''quit'', ''stats''}" by simp
  from http_get_small_file [OF w(1) n w(2-4) e(1,2) b e(3) o w(6-9) e(4)] l e(5) w(10) show ?thesis by auto
qed

section \<open>Pipelined requests for documents\<close>













section \<open>Responses that arrive in parts\<close>







definition parsed_response :: "string \<Rightarrow> Response" where
  "parsed_response body = \<lparr>statusLine = ''HTTP/1.1 200 OK'',
     headerRemainder = concat (ok_headers1 @ length_header (length body) # ok_headers2), res_body = body\<rparr>"




text \<open>What the client has done when it handed responses with these bodies to the callbacks.\<close>

definition hand_over :: "string list \<Rightarrow> Client conn_world \<Rightarrow> Client conn_world" where
  "hand_over bodies = upd_sub (\<lambda>x. x\<lparr>response_cbs := drop (length bodies) (response_cbs x),
     delivered := delivered x @ zip (response_cbs x) (map parsed_response bodies)\<rparr>)"



lemma hand_over_simps [simp]:
  "in_buf (conn (hand_over bodies w)) = in_buf (conn w)" "hand_over [] w = w"
  "response_cbs (sub (conn (hand_over bodies w))) = drop (length bodies) (response_cbs (sub (conn w)))"
  by (simp_all add: hand_over_def upd_sub_def)

lemma sub_with_in [simp]: "sub (conn (with_in b w)) = sub (conn w)"
  by (simp add: with_in_def)




section \<open>Responses and their callbacks\<close>









end
