(* ===== verification/Kv_Connection.thy ===== *)
theory Kv_Connection
  imports Http_Connection Lock_Free_Hash_Table
begin

text \<open>
  The key-value protocol (\<^verbatim>\<open>kv_connection.cpp\<close>, \<^verbatim>\<open>kv_service.cpp\<close>) and the program that starts both
  services (\<^verbatim>\<open>server.cpp\<close>). The loop of the server and the code of the clients are the HTTP ones
  over the key-value members; requests are HTTP requests whose address is a key.
\<close>

section \<open>The server\<close>

record KVServer =
  kv_request :: Request
  hash_table :: LockFreeHashTable
  kv_stats :: RequestStats
  kv_service :: ServiceManager
  kv_served :: nat

definition kv_stop :: "nat \<Rightarrow> KVServer conn_world \<Rightarrow> KVServer conn_world run" where
  "kv_stop me w =
     run_bind (sm_stop (Some me) (kv_service (sub (conn w)), io w)) (\<lambda>(sm, m).
       Done ((upd_sub (\<lambda>x. x\<lparr>kv_service := sm\<rparr>) w)\<lparr>io := m\<rparr>))"

text \<open>
  The answer with a value: \<^verbatim>\<open>sprintf\<close> prints it and a final NUL into two characters, and overruns
  them unless the value is a single digit. \<^verbatim>\<open>Content-Length\<close> is the size of the array.
\<close>

definition answer_value :: "int \<Rightarrow> KVServer conn_world \<Rightarrow> KVServer conn_world run" where
  "answer_value value w =
     (if value < 0 \<or> length (show_nat (nat value)) + 1 > 2 then Crash
      else upd_out (\<lambda>out. do { out1 \<leftarrow> put_all buf_write (ok_header 2) out; b \<leftarrow> buf_write (show_nat (nat value)) new_Buffer;
                               (_, out2) \<leftarrow> copyFrom out1 b; Some out2 }) w)"

text \<open>
  A request: the key is read from the address; when the address is blank, \<^verbatim>\<open>keyToSearch\<close> is read
  uninitialised.
\<close>

definition kv_handleRequest :: "http_env \<Rightarrow> KVServer handler" where
  "kv_handleRequest e w =
     (let x = sub (conn w); i = kv_served x; address = req_address (kv_request x)
      in if address = ''quit'' then run_bind (kv_stop (ME e) w) (\<lambda>w1. Done (False, w1))
         else if dropWhile is_space address = [] then Crash
         else
           (case findKey (ME e) (word_of_int (extract_int 0 address)) (hash_table x) of
              None \<Rightarrow> Crash
            | Some (valueExist, v, ht) \<Rightarrow>
                let w0 = upd_sub (\<lambda>x. x\<lparr>hash_table := ht\<rparr>) w;
                    value = (case v of Some n \<Rightarrow> n | None \<Rightarrow> 0)
                in run_bind (if valueExist then answer_value value w0 else upd_out (put_all buf_write error_response) w0) (\<lambda>w1.
                   case finishedRequest (per_slot e) (per_second e) (ME e) (clock e i) (kv_stats (sub (conn w1))) of
                     None \<Rightarrow> Crash
                   | Some st \<Rightarrow>
                       run_bind (startWrite (answers e i) (upd_sub (\<lambda>x. x\<lparr>kv_stats := st, kv_served := Suc i\<rparr>) w1)) (\<lambda>w2. Done (True, w2)))))"

definition kv_readDone :: "http_env \<Rightarrow> KVServer handler" where
  "kv_readDone e = serve (\<lambda>rq x. x\<lparr>kv_request := rq\<rparr>) (kv_handleRequest e)"

definition new_KVServerConnection :: "int \<Rightarrow> int \<Rightarrow> KVServer \<Rightarrow> KVServer conn_world \<Rightarrow> KVServer conn_world option" where
  "new_KVServerConnection rc fd0 x w =
     do { w1 \<leftarrow> new_Connection rc fd0 (x\<lparr>kv_request := \<lparr>req_method = [], req_address = [], req_version = []\<rparr>, kv_served := 0\<rparr>) w; startRead w1 }"

section \<open>The client\<close>

definition new_KVClientConnection :: "Client conn_world \<Rightarrow> Client conn_world" where
  "new_KVClientConnection w = new_Client w"

definition kv_connect :: "nat \<Rightarrow> int \<Rightarrow> connect_res \<Rightarrow> int \<Rightarrow> string \<Rightarrow> int \<Rightarrow> Client conn_world \<Rightarrow> Client conn_world run" where
  "kv_connect cb sock res so_error msg rc w = client_connect cb sock res so_error msg rc w"

definition kv_connDone :: "Client conn_world \<Rightarrow> Client conn_world run" where
  "kv_connDone w = client_connDone w"

definition kv_client_readDone :: "Client handler" where
  "kv_client_readDone w = client_readDone w"

definition kv_handleResponse :: "Response \<Rightarrow> Client handler" where
  "kv_handleResponse r w = handleResponse r w"

definition kv_asyncSend :: "Request \<Rightarrow> nat \<Rightarrow> write_res list \<Rightarrow> Client conn_world \<Rightarrow> Client conn_world run" where
  "kv_asyncSend rq cb rs w = asyncSend rq cb rs w"

definition kv_send :: "Request \<Rightarrow> nat \<Rightarrow> write_res list \<Rightarrow> Client conn_world \<Rightarrow> Client conn_world run" where
  "kv_send rq n rs w = send_start rq n rs w"

definition kv_receive :: "nat \<Rightarrow> Client conn_world \<Rightarrow> Response option" where
  "kv_receive n w = send_done n w"

section \<open>The service\<close>

definition stored_value :: "nat \<Rightarrow> int" where
  "stored_value i = (let value = (int i * 10) mod 100 in if value < 10 then value + 10 else value)"

fun insert_keys :: "nat \<Rightarrow> nat list \<Rightarrow> LockFreeHashTable \<Rightarrow> LockFreeHashTable option" where
  "insert_keys t [] st = Some st"
| "insert_keys t (i # is) st = do { (_, st') \<leftarrow> insertKey t (of_nat i) (stored_value i) st; insert_keys t is st' }"

definition buildHashTable :: "nat \<Rightarrow> LockFreeHashTable \<Rightarrow> LockFreeHashTable option" where
  "buildHashTable t st = insert_keys t [0..<500] st"

text \<open>\<open>t\<close> is the thread number of the caller, \<open>mem\<close> what uninitialised hazard pointers hold.\<close>

definition new_KVService :: "nat \<Rightarrow> (nat \<Rightarrow> nat \<Rightarrow> ptr) \<Rightarrow> int \<Rightarrow> int \<Rightarrow> int \<Rightarrow> int \<Rightarrow> nat \<Rightarrow> nat \<Rightarrow> nat \<Rightarrow> ServiceManager \<times> IOManager
    \<Rightarrow> (RequestStats \<times> LockFreeHashTable \<times> ServiceManager \<times> IOManager) option" where
  "new_KVService t mem sock bind_rc listen_rc rc rcb wcb cb =
     (\<lambda>(sm, m). do { ht \<leftarrow> new_LockFreeHashTable t (num_workers sm) mem;
                     ht1 \<leftarrow> buildHashTable t ht;
                     (sm1, m1) \<leftarrow> registerAcceptor sock bind_rc listen_rc rc rcb wcb cb (sm, m);
                     Some (new_RequestStats (num_workers sm), ht1, sm1, m1) })"

definition delete_KVService :: "LockFreeHashTable \<Rightarrow> u32 LockFreeList option" where
  "delete_KVService ht = delete_LockFreeHashTable ht"

definition kv_acceptConnection :: "int \<Rightarrow> nat \<Rightarrow> int \<Rightarrow> KVServer conn_world \<Rightarrow> KVServer conn_world run" where
  "kv_acceptConnection rc c fd0 w =
     (let x = sub (conn w)
      in if sm_is_stopped (kv_service x) then Done w
         else if fd0 < 0 then kv_stop c w
         else of_opt (new_KVServerConnection rc fd0 x w))"

definition kv_asyncConnect :: "ServiceManager \<Rightarrow> nat \<Rightarrow> int \<Rightarrow> connect_res \<Rightarrow> int \<Rightarrow> string \<Rightarrow> int \<Rightarrow> Client conn_world \<Rightarrow> Client conn_world run" where
  "kv_asyncConnect sm cb sock res so_error msg rc w =
     (if sm_is_stopped sm then Done w else kv_connect cb sock res so_error msg rc (new_KVClientConnection w))"

section \<open>The program\<close>

text \<open>
  \<^verbatim>\<open>main\<close>: the ports and the number of threads are read from the arguments; both services are set up on
  one manager, which starts to run. \<open>Inl\<close>: the exit code after the message on the usage; \<open>os\<close> gives the
  answers of the system to the set-up of a listening socket on a port. A blank argument leaves its
  variable uninitialised, and the largest port overflows: \<open>None\<close>.
\<close>

type_synonym listen_res = "int \<Rightarrow> int \<times> int \<times> int \<times> int"

definition server_main :: "int \<Rightarrow> nat \<Rightarrow> (nat \<Rightarrow> nat \<Rightarrow> ptr) \<Rightarrow> listen_res \<Rightarrow> string list
    \<Rightarrow> int + ((RequestStats \<times> FileCache) \<times> (RequestStats \<times> LockFreeHashTable) \<times> ServiceManager \<times> IOManager) option" where
  "server_main epfd t mem os argv =
     (if length argv \<noteq> 3 then Inl 1
      else
        let http_port = extract_int 0 (argv ! 1); kv_port = http_port + 1; num_workers = extract_int 0 (argv ! 2)
        in if dropWhile is_space (argv ! 1) = [] \<or> dropWhile is_space (argv ! 2) = [] \<or> http_port = 2 ^ 31 - 1 \<or> num_workers < 0
           then Inr None
           else Inr (do {
                     (sm, m) \<leftarrow> new_ServiceManager epfd (nat num_workers);
                     (st, fc, sm1, m1) \<leftarrow> (case os http_port of (s, b, l, rc) \<Rightarrow> new_HTTPService s b l rc 0 1 2 (sm, m));
                     (kst, ht, sm2, m2) \<leftarrow> (case os kv_port of (s, b, l, rc) \<Rightarrow> new_KVService t mem s b l rc 3 4 5 (sm1, m1));
                     (sm3, m3) \<leftarrow> run_start (sm2, m2);
                     Some ((st, fc), (kst, ht), sm3, m3) }))"

end
