(* ===== verification/Kv_Correct.thy ===== *)
theory Kv_Correct
  imports Kv_Connection Hash_Table_Correct Http_Connection_Correct
begin

text \<open>
  What a key-value server answers: the table the service builds holds the first 500 keys, and the
  array of two characters in the handler decides the fate of each request.
\<close>

section \<open>The table of the service\<close>

lemma reverseRegularKey_eq:
  assumes "unat a < 2 ^ 31" "unat b < 2 ^ 31"
  shows "reverseRegularKey a = reverseRegularKey b \<longleftrightarrow> a = b"
proof
  assume e: "reverseRegularKey a = reverseRegularKey b"
  show "a = b"
  proof (rule bit_word_eqI)
    fix n assume n: "n < LENGTH(32)"
    show "bit a n \<longleftrightarrow> bit b n"
    proof (cases "n = 31")
      case True
      then show ?thesis using unat_less_no_bit [OF assms(1), of n] unat_less_no_bit [OF assms(2), of n] by simp
    next
      case False
      have s: "31 - (31 - n) = n" using n by simp
      have "bit (reverseRegularKey a) (31 - n) \<longleftrightarrow> bit (reverseRegularKey b) (31 - n)" by (simp only: e)
      then show ?thesis using False unfolding reverseRegularKey_def bit_reverse bit_or_iff bit_top s by auto
    qed
  qed
qed simp

lemma small_key: "i < 2 ^ 31 \<Longrightarrow> unat (of_nat i :: u32) = i"
  by (simp add: unat_of_nat take_bit_nat_eq_self)

lemma key_eq: "k < 2 ^ 31 \<Longrightarrow> i < 2 ^ 31 \<Longrightarrow> reverseRegularKey (of_nat k) = reverseRegularKey (of_nat i) \<longleftrightarrow> k = i"
  using reverseRegularKey_eq [of "of_nat k" "of_nat i"] small_key [of k] small_key [of i] by metis

lemma insert_keys_spec:
  assumes "ht_inv t st m" "nodes_used st + 33 * length is < max_slots" "\<forall>i \<in> set is. i < 2 ^ 31" "distinct is"
  shows "\<exists>st' m'. insert_keys t is st = Some st' \<and> ht_inv t st' m' \<and> nodes_used st' \<le> nodes_used st + 33 * length is
    \<and> (\<forall>k < 2 ^ 31. ht_map m' (of_nat k) = (if ht_map m (of_nat k) = None \<and> k \<in> set is then Some (stored_value k) else ht_map m (of_nat k)))"
  using assms
proof (induction "is" arbitrary: st m)
  case (Cons i js)
  have "nodes_used st + 32 < max_slots" using Cons.prems(2) by simp
  from insertKey_spec [OF Cons.prems(1) this, of "of_nat i" "stored_value i"] obtain st1 m1 where
    s1: "insertKey t (of_nat i) (stored_value i) st = Some (ht_map m (of_nat i) = None, st1)" "ht_inv t st1 m1" "nodes_used st1 \<le> nodes_used st + 33"
      "ht_map m1 = (\<lambda>k'. if ht_map m (of_nat i) = None \<and> reverseRegularKey k' = reverseRegularKey (of_nat i) then Some (stored_value i) else ht_map m k')"
    by auto
  have "nodes_used st1 + 33 * length js < max_slots" using s1(3) Cons.prems(2) by simp
  from Cons.IH [OF s1(2) this] Cons.prems(3,4) obtain st2 m2 where
    s2: "insert_keys t js st1 = Some st2" "ht_inv t st2 m2" "nodes_used st2 \<le> nodes_used st1 + 33 * length js"
      "\<forall>k < 2 ^ 31. ht_map m2 (of_nat k) = (if ht_map m1 (of_nat k) = None \<and> k \<in> set js then Some (stored_value k) else ht_map m1 (of_nat k))"
    by auto
  have "ht_map m1 (of_nat k) = (if ht_map m (of_nat k) = None \<and> k = i then Some (stored_value k) else ht_map m (of_nat k))" if "k < 2 ^ 31" for k
  proof -
    have "reverseRegularKey (of_nat k) = reverseRegularKey (of_nat i) \<longleftrightarrow> k = i"
      using key_eq [OF that, of i] Cons.prems(3) by simp
    then show ?thesis by (auto simp: s1(4))
  qed
  then have "\<forall>k < 2 ^ 31. ht_map m2 (of_nat k) =
      (if ht_map m (of_nat k) = None \<and> k \<in> set (i # js) then Some (stored_value k) else ht_map m (of_nat k))"
    using s2(4) Cons.prems(4) by auto
  then show ?case using s1(1,3) s2(1-3) by (intro exI [of _ st2] exI [of _ m2]) auto
qed auto

lemma built_table:
  assumes "t < n"
  shows "\<exists>ht0 ht m. new_LockFreeHashTable t n mem = Some ht0 \<and> buildHashTable t ht0 = Some ht \<and> ht_inv t ht m
    \<and> nodes_used ht + 32 < max_slots
    \<and> (\<forall>k < 2 ^ 31. ht_map m (of_nat k) = (if k = 0 then Some 0 else if k < 500 then Some (stored_value k) else None))"
proof -
  from new_table_spec [OF assms, of mem] obtain ht0 m0 where
    n: "new_LockFreeHashTable t n mem = Some ht0" "ht_inv t ht0 m0" "nodes_used ht0 \<le> 33"
      "ht_map m0 = (\<lambda>k. if reverseRegularKey k = reverseRegularKey 0 then Some 0 else None)" by auto
  have z: "ht_map m0 (of_nat k) = (if k = 0 then Some 0 else None)" if "k < 2 ^ 31" for k
    using key_eq [OF that, of 0] by (simp add: n(4))
  have "nodes_used ht0 + 33 * length [0..<500] < max_slots" using n(3) by (simp add: max_slots_def)
  from insert_keys_spec [OF n(2) this] obtain ht m where
    b: "insert_keys t [0..<500] ht0 = Some ht" "ht_inv t ht m" "nodes_used ht \<le> nodes_used ht0 + 33 * 500"
      "\<forall>k < 2 ^ 31. ht_map m (of_nat k) = (if ht_map m0 (of_nat k) = None \<and> k \<in> set [0..<500] then Some (stored_value k) else ht_map m0 (of_nat k))"
    by auto
  have "nodes_used ht + 32 < max_slots" using b(3) n(3) by (simp add: max_slots_def)
  moreover have "ht_map m (of_nat k) = (if k = 0 then Some 0 else if k < 500 then Some (stored_value k) else None)" if "k < 2 ^ 31" for k
    using b(4) [rule_format, OF that, unfolded z [OF that]] by (cases "k = 0") auto
  ultimately show ?thesis using n(1) b(1,2) unfolding buildHashTable_def by blast
qed

lemma stored_value_two_digits: "10 \<le> stored_value i \<and> stored_value i < 100"
proof -
  have "0 \<le> (int i * 10) mod 100" "(int i * 10) mod 100 < 100" by simp_all
  then show ?thesis by (simp add: stored_value_def Let_def)
qed

lemma show_nat_length_1: "length (show_nat n) = 1 \<longleftrightarrow> n < 10"
  by (subst show_nat.simps) simp

section \<open>Answers\<close>

lemma address_key:
  assumes "k < 2 ^ 31"
  shows "word_of_int (extract_int 0 (show_nat k)) = (of_nat k :: u32)" "show_nat k \<noteq> ''quit''" "dropWhile is_space (show_nat k) \<noteq> []"
proof -
  show "word_of_int (extract_int 0 (show_nat k)) = (of_nat k :: u32)" using extract_int_show [OF assms, of 0] by simp
  show "show_nat k \<noteq> ''quit''" using show_nat_digits [of k] by (auto simp: is_digit_def)
  show "dropWhile is_space (show_nat k) \<noteq> []" by (rule show_nat_not_blank)
qed

lemma write_loop_rpos: "write_loop src b = Some b' \<Longrightarrow> rpos b' = rpos b"
proof (induction src b rule: write_loop.induct)
  case (1 src b)
  show ?case
  proof (cases "src = []")
    case False
    with 1 obtain left b1 where s: "write_step src b = Some (left, b1)" "write_loop left b1 = Some b'"
      by (auto simp: write_loop.simps [of src] split: option.splits)
    moreover have "rpos b1 = rpos b"
      using s(1) by (auto simp: write_step_def Let_def grow_def poke_def Option.bind_eq_Some_conv split: if_splits)
    ultimately show ?thesis using 1 False by auto
  qed (use 1 in \<open>auto simp: write_loop.simps\<close>)
qed

lemma answer_digit:
  assumes "out_inv (out_buf (conn w))" "0 \<le> v" "v < 10"
  shows "\<exists>out. out_inv out \<and> content out = content (out_buf (conn w)) @ map Some (concat (ok_header 2) @ show_nat (nat v))
    \<and> answer_value v w = Done (w\<lparr>conn := (conn w)\<lparr>out_buf := out\<rparr>\<rparr>)"
proof -
  obtain o1 where o1: "put_all buf_write (ok_header 2) (out_buf (conn w)) = Some o1" "out_inv o1"
    "content o1 = content (out_buf (conn w)) @ map Some (concat (ok_header 2))"
    using outbuf.put_all_ok [OF assms(1), of "ok_header 2"] by blast
  obtain b where b: "buf_write (show_nat (nat v)) new_Buffer = Some b" "out_inv b" "content b = map Some (show_nat (nat v))"
    using outbuf.put_ok [OF out_inv_new, of "show_nat (nat v)"] by (auto simp: content_new)
  have nb: "\<not> isConsumed b"
    using write_loop_rpos [OF b(1) [unfolded buf_write_def]] by (simp add: isConsumed_def new_Buffer_def addChunk_def Let_def)
  have "content o1 \<noteq> []" by (simp add: o1(3) ok_header_def)
  then have "\<not> drained o1" using drained_empty o1(2) by (auto simp: out_inv_def)
  then obtain o2 where o2: "copyFrom o1 b = Some (False, o2)" "buf_inv o2" "content o2 = content o1 @ content b" "has_room o2"
    using copyFrom_spec [of o1 b] o1(2) b(2) nb by (auto simp: out_inv_def)
  have "length (show_nat (nat v)) = 1" using show_nat_length_1 [of "nat v"] assms(2,3) by simp
  then show ?thesis
    using o1 o2 b assms(2) by (auto simp: answer_value_def upd_out_def out_inv_def)
qed

lemma kv_write_all:
  assumes "out_inv out" "content out \<noteq> []" "\<not> writing (conn w)" "\<not> destroyed w" "refs (conn w) > 0"
    and "accepting rs" "length (content out) \<le> takes rs"
  shows "\<exists>w'. startWrite rs (upd_sub f (w\<lparr>conn := (conn w)\<lparr>out_buf := out\<rparr>\<rparr>)) = Done w' \<and> sock_out w' = sock_out w @ content out
    \<and> content (out_buf (conn w')) = [] \<and> \<not> writing (conn w') \<and> sub (conn w') = f (sub (conn w))"
proof -
  let ?w = "upd_sub f (w\<lparr>conn := (conn w)\<lparr>out_buf := out\<rparr>\<rparr>)"
  have p: "buf_inv (out_buf (conn ?w))" "content (out_buf (conn ?w)) \<noteq> []" "\<not> writing (conn ?w)" "\<not> destroyed ?w" "refs (conn ?w) > 0"
    "length (content (out_buf (conn ?w))) \<le> takes rs" using assms by (simp_all add: out_inv_def)
  from startWrite_all [OF p(1-5) assms(6) p(6)] obtain b where "content b = []"
    "startWrite rs ?w = Done (?w\<lparr>sock_out := sock_out ?w @ content (out_buf (conn ?w)), conn := (conn ?w)\<lparr>out_buf := b\<rparr>\<rparr>)" by blast
  then show ?thesis using assms(3) by simp
qed

text \<open>
  Every key the service stores has a value of two digits, and \<^verbatim>\<open>sprintf\<close> writes three characters
  into an array of two: each request for one of the keys 1 to 499 overruns the array.
\<close>

theorem kv_stored_keys_overrun:
  assumes "t < n"
  shows "\<exists>ht0 ht. new_LockFreeHashTable t n mem = Some ht0 \<and> buildHashTable t ht0 = Some ht
    \<and> (\<forall>e w k. ME e = t \<and> hash_table (sub (conn w)) = ht \<and> req_address (kv_request (sub (conn w))) = show_nat k \<and> 0 < k \<and> k < 500
         \<longrightarrow> kv_handleRequest e w = Crash)"
proof -
  from built_table [OF assms, of mem] obtain ht0 ht m where
    b: "new_LockFreeHashTable t n mem = Some ht0" "buildHashTable t ht0 = Some ht" "ht_inv t ht m" "nodes_used ht + 32 < max_slots"
      "\<forall>k < 2 ^ 31. ht_map m (of_nat k) = (if k = 0 then Some 0 else if k < 500 then Some (stored_value k) else None)" by blast
  have "kv_handleRequest e w = Crash"
    if w: "ME e = t" "hash_table (sub (conn w)) = ht" "req_address (kv_request (sub (conn w))) = show_nat k" "0 < k" "k < 500" for e w k
  proof -
    have k: "k < 2 ^ 31" using w(5) by simp
    then have "ht_map m (of_nat k) = Some (stored_value k)" using b(5) w(4,5) by simp
    then obtain ht' where f: "findKey t (of_nat k) ht = Some (True, Some (stored_value k), ht')"
      using findKey_spec [OF b(3,4), of "of_nat k"] by auto
    have "length (show_nat (nat (stored_value k))) \<noteq> 1" using show_nat_length_1 [of "nat (stored_value k)"] stored_value_two_digits [of k] by linarith
    moreover have "length (show_nat (nat (stored_value k))) \<noteq> 0" by simp
    ultimately have a: "answer_value (stored_value k) w' = Crash" for w'
      unfolding answer_value_def by (metis One_nat_def Suc_eq_plus1 less_2_cases linorder_not_less not_less_eq numeral_2_eq_2)
    show ?thesis using f a address_key [OF k] w(1-3) by (simp add: kv_handleRequest_def Let_def)
  qed
  with b(1,2) show ?thesis by blast
qed

text \<open>What the table answers decides the bytes on the socket.\<close>

definition kv_idle :: "nat \<Rightarrow> http_env \<Rightarrow> KVServer conn_world \<Rightarrow> bool" where
  "kv_idle t e w \<longleftrightarrow> out_inv (out_buf (conn w)) \<and> content (out_buf (conn w)) = [] \<and> \<not> writing (conn w)
     \<and> \<not> destroyed w \<and> refs (conn w) > 0 \<and> t < RequestStats.num_threads (kv_stats (sub (conn w)))
     \<and> accepting (answers e (kv_served (sub (conn w)))) \<and> 600 \<le> takes (answers e (kv_served (sub (conn w))))"

definition kv_bytes :: "nat \<Rightarrow> string" where
  "kv_bytes k = (if k = 0 then concat (ok_header 2) @ ''0'' else concat error_response)"

lemma kv_bytes_short: "length (kv_bytes k) \<le> 600" "kv_bytes k \<noteq> []"
  by (auto simp: kv_bytes_def ok_header_def error_response_def error_page_def show_nat.simps)

lemma kv_output:
  assumes "out_inv (out_buf (conn w))" "content (out_buf (conn w)) = []"
  shows "\<exists>out. out_inv out \<and> content out = map Some (kv_bytes k)
    \<and> (if k = 0 then answer_value 0 w else upd_out (put_all buf_write error_response) w) = Done (w\<lparr>conn := (conn w)\<lparr>out_buf := out\<rparr>\<rparr>)"
proof (cases "k = 0")
  case True
  have "show_nat 0 = ''0''" by code_simp
  then show ?thesis using answer_digit [OF assms(1), of 0] assms(2) True by (auto simp: kv_bytes_def)
next
  case False
  then show ?thesis using outbuf.put_all_ok [OF assms(1), of error_response] assms(2) by (auto simp: upd_out_def kv_bytes_def)
qed

lemma kv_reply:
  assumes f: "findKey t (of_nat k) (hash_table (sub (conn w))) = Some (k = 0, if k = 0 then Some 0 else None, ht')"
    and w: "ME e = t" "req_address (kv_request (sub (conn w))) = show_nat k" "k < 2 ^ 31" "kv_idle t e w"
  shows "\<exists>w'. kv_handleRequest e w = Done (True, w') \<and> sock_out w' = sock_out w @ map Some (kv_bytes k)
    \<and> content (out_buf (conn w')) = [] \<and> \<not> writing (conn w') \<and> kv_served (sub (conn w')) = Suc (kv_served (sub (conn w)))"
proof -
  let ?i = "kv_served (sub (conn w))"
  define w0 where "w0 = upd_sub (\<lambda>x. x\<lparr>hash_table := ht'\<rparr>) w"
  have w0: "out_inv (out_buf (conn w0))" "content (out_buf (conn w0)) = []" "kv_stats (sub (conn w0)) = kv_stats (sub (conn w))"
    using w(4) by (simp_all add: w0_def kv_idle_def)
  from kv_output [OF w0(1,2), of k] obtain out where out: "out_inv out" "content out = map Some (kv_bytes k)"
    "(if k = 0 then answer_value 0 w0 else upd_out (put_all buf_write error_response) w0) = Done (w0\<lparr>conn := (conn w0)\<lparr>out_buf := out\<rparr>\<rparr>)" by blast
  obtain st where st: "finishedRequest (per_slot e) (per_second e) t (clock e ?i) (kv_stats (sub (conn w))) = Some st"
    using w(4) by (simp add: finishedRequest_def kv_idle_def)
  obtain w' where w': "startWrite (answers e ?i) (upd_sub (\<lambda>x. x\<lparr>kv_stats := st, kv_served := Suc ?i\<rparr>) (w0\<lparr>conn := (conn w0)\<lparr>out_buf := out\<rparr>\<rparr>)) = Done w'"
    "sock_out w' = sock_out w @ map Some (kv_bytes k)" "content (out_buf (conn w')) = []" "\<not> writing (conn w')"
    "kv_served (sub (conn w')) = Suc ?i"
    using kv_write_all [of out w0 "answers e ?i" "\<lambda>x. x\<lparr>kv_stats := st, kv_served := Suc ?i\<rparr>"] out(1,2) w(4) kv_bytes_short [of k]
    by (auto simp: w0_def kv_idle_def)
  have "kv_handleRequest e w = Done (True, w')"
    using f out(3) st w'(1) address_key [OF w(3)] w(1,2) w0(3) by (simp add: kv_handleRequest_def Let_def w0_def cong: if_cong split: if_splits)
  with w'(2-5) show ?thesis by blast
qed

definition kv_world :: "string \<Rightarrow> LockFreeHashTable \<Rightarrow> KVServer conn_world" where
  "kv_world a ht = \<lparr>conn = \<lparr>in_buf = new_Buffer, writing = False, out_buf = new_Buffer, client_fd = 7, conn_closed = False,
      io_desc = None, in_error = False, error_string = [], refs = 1,
      sub = \<lparr>kv_request = \<lparr>req_method = ''GET'', req_address = a, req_version = ''HTTP/1.1''\<rparr>, hash_table = ht,
        kv_stats = new_RequestStats 1, kv_service = \<lparr>num_workers = 1, acceptors = [], stop_requested = False, sm_stopped = False\<rparr>, kv_served = 0\<rparr>\<rparr>,
    io = the (new_IOManager 3 1), upcalls = [], destroyed = False, closed_fds = [], sock_out = []\<rparr>"

theorem kv_stored_keys_overrun_witness:
  "\<exists>ht. kv_handleRequest get_env (kv_world ''7'' ht) = Crash"
proof -
  have "show_nat 7 = ''7''" by code_simp
  then have w: "ME get_env = 0" "hash_table (sub (conn (kv_world ''7'' ht))) = ht"
    "req_address (kv_request (sub (conn (kv_world ''7'' ht)))) = show_nat 7" for ht
    by (simp_all add: get_env_def kv_world_def)
  obtain ht where "\<And>e w k. ME e = 0 \<and> hash_table (sub (conn w)) = ht \<and> req_address (kv_request (sub (conn w))) = show_nat k \<and> 0 < k \<and> k < 500
         \<longrightarrow> kv_handleRequest e w = Crash"
    using kv_stored_keys_overrun [of 0 1 "\<lambda>_ _. 0"] by auto
  from this [of get_env "kv_world ''7'' ht" 7] show ?thesis by (auto simp: w)
qed

text \<open>
  C35. The other keys: a request for key 0, which keeps the value 0 of the table's constructor, is
  answered with a header that promises two bytes and a body of one; a request for a key that is
  not stored gets the error response. Either way the whole answer reaches the socket, the request is
  counted and the connection is ready for the next one.
\<close>

theorem kv_answers:
  assumes "t < n"
  shows "\<exists>ht0 ht. new_LockFreeHashTable t n mem = Some ht0 \<and> buildHashTable t ht0 = Some ht
    \<and> (\<forall>e w k. ME e = t \<and> hash_table (sub (conn w)) = ht \<and> req_address (kv_request (sub (conn w))) = show_nat k
         \<and> (k = 0 \<or> 500 \<le> k \<and> k < 2 ^ 31) \<and> kv_idle t e w
         \<longrightarrow> (\<exists>w'. kv_handleRequest e w = Done (True, w')
              \<and> sock_out w' = sock_out w @ map Some (if k = 0 then concat (ok_header 2) @ ''0'' else concat error_response)
              \<and> content (out_buf (conn w')) = [] \<and> \<not> writing (conn w') \<and> kv_served (sub (conn w')) = Suc (kv_served (sub (conn w)))))"
proof -
  from built_table [OF assms, of mem] obtain ht0 ht m where
    b: "new_LockFreeHashTable t n mem = Some ht0" "buildHashTable t ht0 = Some ht" "ht_inv t ht m" "nodes_used ht + 32 < max_slots"
      "\<forall>k < 2 ^ 31. ht_map m (of_nat k) = (if k = 0 then Some 0 else if k < 500 then Some (stored_value k) else None)" by blast
  have find: "\<exists>ht'. findKey t (of_nat k) ht = Some (k = 0, if k = 0 then Some 0 else None, ht')" if "k = 0 \<or> 500 \<le> k \<and> k < 2 ^ 31" for k
  proof -
    have "k < 2 ^ 31" using that by auto
    then have "ht_map m (of_nat k) = (if k = 0 then Some 0 else None)" using b(5) that by auto
    then show ?thesis using findKey_spec [OF b(3,4), of "of_nat k"] by (auto split: if_splits)
  qed
  have "\<exists>w'. kv_handleRequest e w = Done (True, w') \<and> sock_out w' = sock_out w @ map Some (kv_bytes k)
      \<and> content (out_buf (conn w')) = [] \<and> \<not> writing (conn w') \<and> kv_served (sub (conn w')) = Suc (kv_served (sub (conn w)))"
    if w: "ME e = t" "hash_table (sub (conn w)) = ht" "req_address (kv_request (sub (conn w))) = show_nat k"
      "k = 0 \<or> 500 \<le> k \<and> k < 2 ^ 31" "kv_idle t e w" for e w k
  proof -
    obtain ht' where "findKey t (of_nat k) (hash_table (sub (conn w))) = Some (k = 0, if k = 0 then Some 0 else None, ht')"
      using find [OF w(4)] w(2) by blast
    moreover have "k < 2 ^ 31" using w(4) by auto
    ultimately show ?thesis using w by (intro kv_reply) auto
  qed
  with b(1,2) show ?thesis unfolding kv_bytes_def by blast
qed

definition kv_env :: http_env where
  "kv_env = get_env\<lparr>answers := (\<lambda>_. replicate 600 (STook 1))\<rparr>"

theorem kv_answers_witness:
  "\<exists>ht w'. kv_handleRequest kv_env (kv_world ''0'' ht) = Done (True, w')
     \<and> sock_out w' = map Some (concat (ok_header 2) @ ''0'')"
proof -
  have "show_nat 0 = ''0''" by code_simp
  then have w: "ME kv_env = 0" "hash_table (sub (conn (kv_world ''0'' ht))) = ht"
    "req_address (kv_request (sub (conn (kv_world ''0'' ht)))) = show_nat 0" "out_buf (conn (kv_world ''0'' ht)) = new_Buffer"
    "\<not> writing (conn (kv_world ''0'' ht))" "\<not> destroyed (kv_world ''0'' ht)" "refs (conn (kv_world ''0'' ht)) > 0"
    "0 < RequestStats.num_threads (kv_stats (sub (conn (kv_world ''0'' ht))))" "sock_out (kv_world ''0'' ht) = []"
    "accepting (answers kv_env i)" "takes (answers kv_env i) = 600" for ht i
    by (simp_all add: kv_env_def get_env_def kv_world_def new_RequestStats_def accepting_replicate)
  then have i: "kv_idle 0 kv_env (kv_world ''0'' ht)" for ht by (simp add: kv_idle_def out_inv_new content_new)
  from kv_answers [of 0 1 "\<lambda>_ _. 0"] obtain ht where
    h: "\<forall>e w k. ME e = 0 \<and> hash_table (sub (conn w)) = ht \<and> req_address (kv_request (sub (conn w))) = show_nat k
         \<and> (k = 0 \<or> 500 \<le> k \<and> k < 2 ^ 31) \<and> kv_idle 0 e w
         \<longrightarrow> (\<exists>w'. kv_handleRequest e w = Done (True, w')
              \<and> sock_out w' = sock_out w @ map Some (if k = 0 then concat (ok_header 2) @ ''0'' else concat error_response)
              \<and> content (out_buf (conn w')) = [] \<and> \<not> writing (conn w') \<and> kv_served (sub (conn w')) = Suc (kv_served (sub (conn w))))" by auto
  from h [rule_format, of kv_env "kv_world ''0'' ht" 0] show ?thesis using i by (auto simp: w)
qed

end
