(* ===== verification/Locks.thy ===== *)
theory Locks
  imports State_Machine
begin

text \<open>
  The locks that the program builds itself: the spinlock with back-off (\<^verbatim>\<open>spinlock.hpp\<close>), the queue lock
  (\<^verbatim>\<open>spinlock_mcs.hpp\<close>) and the barrier over two semaphores (\<^verbatim>\<open>thread_barrier.hpp\<close>). An action is one access to
  shared memory or one semaphore operation, and \<open>None\<close> says that the thread cannot make the step now.
\<close>

section \<open>The spinlock\<close>

text \<open>
  Where a thread is: outside, between the load that saw the lock free and its test-and-set, in the
  spinning loop with \<open>n\<close> loads left, in the sleeping loop, or inside the critical section.
\<close>

datatype spin_pc = SOut | STest | SSpin nat | SSleep | SIn

record Spinlock =
  locked :: bool
  spin :: "nat \<Rightarrow> spin_pc"

definition new_Spinlock :: Spinlock where
  "new_Spinlock = \<lparr>locked = False, spin = (\<lambda>_. SOut)\<rparr>"

text \<open>\<^verbatim>\<open>__sync_lock_test_and_set\<close>: the old value, and the lock set.\<close>

definition test_and_set :: "Spinlock \<Rightarrow> bool \<times> Spinlock" where
  "test_and_set s = (locked s, s\<lparr>locked := True\<rparr>)"

definition spin_goto :: "nat \<Rightarrow> spin_pc \<Rightarrow> Spinlock \<Rightarrow> Spinlock" where
  "spin_goto t p s = s\<lparr>spin := (spin s)(t := p)\<rparr>"

definition spin_step :: "nat \<Rightarrow> Spinlock \<Rightarrow> Spinlock option" where
  "spin_step t s =
     Some (case spin s t of
       SOut \<Rightarrow> spin_goto t (if locked s then SSpin 1000 else STest) s
     | STest \<Rightarrow> (case test_and_set s of (old, s1) \<Rightarrow> spin_goto t (if old then SSpin 1000 else SIn) s1)
     | SSpin n \<Rightarrow> spin_goto t (if n > 0 \<and> locked s then SSpin (n - 1) else SSleep) s
     | SSleep \<Rightarrow> (case test_and_set s of (old, s1) \<Rightarrow> spin_goto t (if old then SSleep else SIn) s1)
     | SIn \<Rightarrow> spin_goto t SOut (s\<lparr>locked := False\<rparr>))"

text \<open>The lock is set exactly when a thread is inside, and then it is the only one.\<close>

definition spin_inv :: "Spinlock \<Rightarrow> bool" where
  "spin_inv s \<longleftrightarrow> (\<exists>h. (\<forall>t. spin s t = SIn \<longleftrightarrow> h = Some t) \<and> (locked s \<longleftrightarrow> h \<noteq> None))"

lemma spin_step_cases:
  assumes "spin_step t s = Some s'"
  obtains p where "spin s t \<noteq> SIn" "p \<noteq> SIn" "s' = spin_goto t p s"
  | "spin s t \<noteq> SIn" "\<not> locked s" "s' = spin_goto t SIn (s\<lparr>locked := True\<rparr>)"
  | "spin s t = SIn" "s' = spin_goto t SOut (s\<lparr>locked := False\<rparr>)"
proof -
  have keep: "locked s \<Longrightarrow> s\<lparr>locked := True\<rparr> = s" by (cases s) simp
  show thesis
    using assms that by (cases "spin s t") (auto simp: spin_step_def test_and_set_def keep split: if_splits)
qed

lemma spin_step_inv:
  assumes "spin_inv s" "spin_step t s = Some s'"
  shows "spin_inv s'"
proof -
  from assms(1) obtain h where h: "\<forall>t. spin s t = SIn \<longleftrightarrow> h = Some t" "locked s \<longleftrightarrow> h \<noteq> None" by (auto simp: spin_inv_def)
  from assms(2) show ?thesis
  proof (cases rule: spin_step_cases)
    case (1 p)
    then show ?thesis unfolding spin_inv_def using h by (intro exI [of _ h]) (auto simp: spin_goto_def)
  next
    case 2
    then have "h = None" using h(2) by simp
    with 2 h show ?thesis unfolding spin_inv_def by (intro exI [of _ "Some t"]) (auto simp: spin_goto_def)
  next
    case 3
    then have "h = Some t" using h(1) by simp
    with 3 h show ?thesis unfolding spin_inv_def by (intro exI [of _ None]) (auto simp: spin_goto_def)
  qed
qed

lemma spin_inv_new: "spin_inv new_Spinlock"
  by (auto simp: spin_inv_def new_Spinlock_def intro: exI [of _ None])

interpretation spinlock: machine spin_step "\<lambda>s. s = new_Spinlock" spin_inv
  by unfold_locales (auto intro: spin_inv_new spin_step_inv)

text \<open>A thread that runs alone while nobody is inside gets in, after at most \<open>n + 2\<close> steps from the loop.\<close>

lemma spin_alone:
  assumes "\<not> locked s" "spin s t \<noteq> SIn"
  shows "\<exists>n \<le> 3. \<exists>s'. exec spin_step (replicate n t) s = Some s' \<and> spin s' t = SIn"
proof -
  have two: "\<exists>s'. exec spin_step (replicate 2 t) s = Some s' \<and> spin s' t = SIn" if "spin s t = SOut \<or> (\<exists>n. spin s t = SSpin n)"
    using that assms(1) by (auto simp: numeral_2_eq_2 spin_step_def spin_goto_def test_and_set_def)
  have one: "\<exists>s'. exec spin_step (replicate 1 t) s = Some s' \<and> spin s' t = SIn" if "spin s t = STest \<or> spin s t = SSleep"
    using that assms(1) by (auto simp: spin_step_def spin_goto_def test_and_set_def)
  show ?thesis
  proof (cases "spin s t = STest \<or> spin s t = SSleep")
    case True
    with one show ?thesis by (intro exI [of _ 1]) auto
  next
    case False
    with assms(2) have "spin s t = SOut \<or> (\<exists>n. spin s t = SSpin n)" by (cases "spin s t") auto
    with two show ?thesis by (intro exI [of _ 2]) auto
  qed
qed

text \<open>
  C28. The spinlock excludes: however the loads and the test-and-set instructions of any number of
  threads interleave, at most one thread is inside, the lock is set exactly while one is, and a
  thread that tries while nobody is inside gets in after at most three of its own steps.
\<close>

theorem spinlock_excludes:
  assumes "reachable spin_step (\<lambda>s. s = new_Spinlock) s"
  shows "(\<forall>t u. spin s t = SIn \<and> spin s u = SIn \<longrightarrow> t = u) \<and> (locked s \<longleftrightarrow> (\<exists>t. spin s t = SIn))
    \<and> (\<forall>t. \<not> locked s \<longrightarrow> (\<exists>n \<le> 3. \<exists>s'. exec spin_step (replicate n t) s = Some s' \<and> spin s' t = SIn))"
proof -
  from spinlock.reachable_inv [OF assms] obtain h where
    h: "\<And>t. spin s t = SIn \<longleftrightarrow> h = Some t" "locked s \<longleftrightarrow> h \<noteq> None" by (auto simp: spin_inv_def)
  then show ?thesis using spin_alone [of s] by auto
qed

theorem spinlock_excludes_witness:
  "\<exists>s. exec spin_step [0, 1, 0, 1, 1] new_Spinlock = Some s \<and> spin s 0 = SIn \<and> spin s 1 = SSpin 999
     \<and> (\<forall>t. spin s t = SIn \<longrightarrow> t = 0)"
proof -
  obtain s where s: "exec spin_step [0, 1, 0, 1, 1] new_Spinlock = Some s" "spin s 0 = SIn" "spin s 1 = SSpin 999"
    by (simp add: spin_step_def new_Spinlock_def spin_goto_def test_and_set_def)
  from spinlock_excludes [OF reachable_exec [OF reach_init s(1)]] s show ?thesis by auto
qed

section \<open>The queue lock\<close>

text \<open>
  A thread's node has its own number. The exchange of \<open>tail_\<close> is a read of \<open>tail_\<close>, whose value the
  compare-and-swap expects later, and the compare-and-swap, which returns the tail it found whether or
  not it was the expected one.
\<close>

datatype mcs_pc = MOut | MRead | MSwap "nat option" | MLocked nat | MLink nat | MWait | MIn | MFree | MNext | MGrant

record SpinlockMCS =
  mtail :: "nat option"
  mnext :: "nat \<Rightarrow> nat option"
  mlocked :: "nat \<Rightarrow> bool"
  mpc :: "nat \<Rightarrow> mcs_pc"

definition new_SpinlockMCS :: SpinlockMCS where
  "new_SpinlockMCS = \<lparr>mtail = None, mnext = (\<lambda>_. None), mlocked = (\<lambda>_. False), mpc = (\<lambda>_. MOut)\<rparr>"

definition mgoto :: "nat \<Rightarrow> mcs_pc \<Rightarrow> SpinlockMCS \<Rightarrow> SpinlockMCS" where
  "mgoto t p s = s\<lparr>mpc := (mpc s)(t := p)\<rparr>"

definition mcs_lock :: "nat \<Rightarrow> SpinlockMCS \<Rightarrow> SpinlockMCS option" where
  "mcs_lock t s =
     (case mpc s t of
        MOut \<Rightarrow> Some (mgoto t MRead (s\<lparr>mnext := (mnext s)(t := None)\<rparr>))
      | MRead \<Rightarrow> Some (mgoto t (MSwap (mtail s)) s)
      | MSwap e \<Rightarrow>
          (let s1 = (if mtail s = e then s\<lparr>mtail := Some t\<rparr> else s)
           in Some (mgoto t (case mtail s of None \<Rightarrow> MIn | Some p \<Rightarrow> MLocked p) s1))
      | MLocked p \<Rightarrow> Some (mgoto t (MLink p) (s\<lparr>mlocked := (mlocked s)(t := True)\<rparr>))
      | MLink p \<Rightarrow> Some (mgoto t MWait (s\<lparr>mnext := (mnext s)(p := Some t)\<rparr>))
      | MWait \<Rightarrow> if mlocked s t then None else Some (mgoto t MIn s)
      | _ \<Rightarrow> None)"

definition mcs_unlock :: "nat \<Rightarrow> SpinlockMCS \<Rightarrow> SpinlockMCS option" where
  "mcs_unlock t s =
     (case mpc s t of
        MIn \<Rightarrow> Some (mgoto t (if mnext s t = None then MFree else MGrant) s)
      | MFree \<Rightarrow> if mtail s = Some t then Some (mgoto t MOut (s\<lparr>mtail := None\<rparr>)) else Some (mgoto t MNext s)
      | MNext \<Rightarrow> if mnext s t = None then None else Some (mgoto t MGrant s)
      | MGrant \<Rightarrow> (case mnext s t of None \<Rightarrow> None | Some n \<Rightarrow> Some (mgoto t MOut (s\<lparr>mlocked := (mlocked s)(n := False)\<rparr>)))
      | _ \<Rightarrow> None)"

datatype mcs_action = Lock nat | Unlock nat

fun mcs_step :: "mcs_action \<Rightarrow> SpinlockMCS \<Rightarrow> SpinlockMCS option" where
  "mcs_step (Lock t) s = mcs_lock t s"
| "mcs_step (Unlock t) s = mcs_unlock t s"

text \<open>
  When the compare-and-swap of \<^verbatim>\<open>lock\<close> does not find the tail that was read for it, and the
  executions in which that never happens: as a predicate on schedules, and as a step that refuses it.
\<close>

definition swap_fails :: "mcs_action \<Rightarrow> SpinlockMCS \<Rightarrow> bool" where
  "swap_fails l s = (case l of Lock t \<Rightarrow> (case mpc s t of MSwap e \<Rightarrow> mtail s \<noteq> e | _ \<Rightarrow> False) | Unlock t \<Rightarrow> False)"

fun swaps_succeed :: "mcs_action list \<Rightarrow> SpinlockMCS \<Rightarrow> bool" where
  "swaps_succeed [] s = True"
| "swaps_succeed (l # ls) s = (\<not> swap_fails l s \<and> (case mcs_step l s of None \<Rightarrow> True | Some s' \<Rightarrow> swaps_succeed ls s'))"

definition clean_step :: "mcs_action \<Rightarrow> SpinlockMCS \<Rightarrow> SpinlockMCS option" where
  "clean_step l s = (if swap_fails l s then None else mcs_step l s)"

lemma exec_clean: "exec clean_step ls s = Some s' \<longleftrightarrow> exec mcs_step ls s = Some s' \<and> swaps_succeed ls s"
  by (induction ls arbitrary: s) (auto simp: clean_step_def Option.bind_eq_Some_conv)

text \<open>
  The threads in the queue, from the one that has or gets the lock: how a waiting thread stands to
  the one before it, and the chain of them behind \<open>p\<close>.
\<close>

definition waits_on :: "SpinlockMCS \<Rightarrow> nat \<Rightarrow> nat \<Rightarrow> bool" where
  "waits_on s p t \<longleftrightarrow> mpc s t = MLocked p \<and> mnext s p = None \<or> mpc s t = MLink p \<and> mlocked s t \<and> mnext s p = None
     \<or> mpc s t = MWait \<and> mlocked s t \<and> mnext s p = Some t"

fun wait_chain :: "SpinlockMCS \<Rightarrow> nat \<Rightarrow> nat list \<Rightarrow> bool" where
  "wait_chain s p [] \<longleftrightarrow> mnext s p = None"
| "wait_chain s p (t # q) \<longleftrightarrow> waits_on s p t \<and> wait_chain s t q"

definition head_ok :: "SpinlockMCS \<Rightarrow> nat \<Rightarrow> nat list \<Rightarrow> bool" where
  "head_ok s t q \<longleftrightarrow> mpc s t \<in> {MIn, MFree} \<or> mpc s t = MWait \<and> \<not> mlocked s t \<or> mpc s t = MNext \<and> q \<noteq> []
     \<or> mpc s t = MGrant \<and> mnext s t \<noteq> None"

text \<open>Before the swap a thread is not in the queue; between the reset of its node and the swap it is entering.\<close>

definition entering :: "mcs_pc \<Rightarrow> bool" where
  "entering c \<longleftrightarrow> c = MRead \<or> (\<exists>e. c = MSwap e)"

definition outside :: "mcs_pc \<Rightarrow> bool" where
  "outside c \<longleftrightarrow> c = MOut \<or> entering c"

definition mcs_queue :: "SpinlockMCS \<Rightarrow> nat list \<Rightarrow> bool" where
  "mcs_queue s q \<longleftrightarrow> distinct q \<and> (\<forall>t. t \<in> set q \<longleftrightarrow> \<not> outside (mpc s t)) \<and> (\<forall>t. entering (mpc s t) \<longrightarrow> mnext s t = None)
     \<and> mtail s = (if q = [] then None else Some (last q)) \<and> (case q of [] \<Rightarrow> True | h # r \<Rightarrow> head_ok s h r \<and> wait_chain s h r)"

lemma wait_chain_cong:
  assumes "\<forall>t \<in> set q. mpc s' t = mpc s t \<and> mlocked s' t = mlocked s t" "\<forall>t \<in> set (p # q). mnext s' t = mnext s t"
  shows "wait_chain s' p q = wait_chain s p q"
  using assms by (induction q arbitrary: p) (auto simp: waits_on_def)

lemma wait_chain_snoc:
  "wait_chain s p q \<Longrightarrow> mpc s t = MLocked (last (p # q)) \<Longrightarrow> mnext s t = None \<Longrightarrow> wait_chain s p (q @ [t])"
  by (induction q arbitrary: p) (auto simp: waits_on_def)

lemma wait_chain_pc: "wait_chain s p q \<Longrightarrow> t \<in> set q \<Longrightarrow> \<exists>p' \<in> set (p # q). waits_on s p' t"
  by (induction q arbitrary: p) fastforce+

lemma wait_chain_link:
  assumes "wait_chain s p q" "t \<in> set q" "distinct (p # q)" "mpc s t = MLocked p'"
    and s': "mpc s' = (mpc s)(t := MLink p')" "mlocked s' = (mlocked s)(t := True)" "mnext s' = mnext s"
  shows "wait_chain s' p q"
  using assms(1-4)
proof (induction q arbitrary: p)
  case (Cons x q)
  show ?case
  proof (cases "x = t")
    case True
    have "wait_chain s' t q = wait_chain s t q" using Cons.prems True by (intro wait_chain_cong) (auto simp: s')
    moreover have "waits_on s' p t" using Cons.prems True by (auto simp: waits_on_def s')
    ultimately show ?thesis using Cons.prems True by simp
  next
    case False
    then have "waits_on s' p x" using Cons.prems by (auto simp: waits_on_def s')
    then show ?thesis using Cons False by simp
  qed
qed simp

lemma wait_chain_wait:
  assumes "wait_chain s p q" "t \<in> set q" "distinct (p # q)" "mpc s t = MLink p'"
    and s': "mpc s' = (mpc s)(t := MWait)" "mlocked s' = mlocked s" "mnext s' = (mnext s)(p' := Some t)"
  shows "wait_chain s' p q \<and> p' \<in> set (p # q)"
  using assms(1-4)
proof (induction q arbitrary: p)
  case (Cons x q)
  show ?case
  proof (cases "x = t")
    case True
    then have p: "p' = p" using Cons.prems by (auto simp: waits_on_def)
    have "wait_chain s' t q = wait_chain s t q" using Cons.prems True p by (intro wait_chain_cong) (auto simp: s')
    moreover have "waits_on s' p t" using Cons.prems True p by (auto simp: waits_on_def s')
    ultimately show ?thesis using Cons.prems True p by simp
  next
    case False
    with Cons have i: "wait_chain s' x q" "p' \<in> set (x # q)" by auto
    then have "p' \<noteq> p" using Cons.prems by auto
    then have "waits_on s' p x" using Cons.prems False by (auto simp: waits_on_def s')
    then show ?thesis using i by simp
  qed
qed simp

lemma mcs_queueD:
  assumes "mcs_queue s q"
  shows "distinct q" "t \<in> set q \<longleftrightarrow> \<not> outside (mpc s t)" "entering (mpc s t) \<Longrightarrow> mnext s t = None"
    "mtail s = (if q = [] then None else Some (last q))"
  using assms by (auto simp: mcs_queue_def)

lemma mcs_queue_in:
  assumes "mcs_queue s q" "\<not> outside (mpc s t)"
  obtains r where "q = t # r" "head_ok s t r" "wait_chain s t r" "distinct (t # r)"
  | h r p where "q = h # r" "t \<in> set r" "head_ok s h r" "wait_chain s h r" "distinct (h # r)" "waits_on s p t"
proof -
  have "t \<in> set q" using assms by (simp add: mcs_queue_def)
  then obtain h r where q: "q = h # r" by (cases q) auto
  with assms(1) have hr: "head_ok s h r" "wait_chain s h r" "distinct (h # r)" by (simp_all add: mcs_queue_def)
  show thesis
  proof (cases "t = h")
    case False
    then have "t \<in> set r" using \<open>t \<in> set q\<close> q by simp
    then show thesis using that(2) [OF q _ hr] wait_chain_pc [OF hr(2)] by blast
  qed (use that(1) q hr in blast)
qed

lemma mcs_queue_same:
  assumes "mcs_queue s q" "q = h # r" "head_ok s' h r" "wait_chain s' h r" "mtail s' = mtail s"
    "\<And>t. outside (mpc s' t) = outside (mpc s t)" "\<And>t. entering (mpc s' t) \<Longrightarrow> mnext s' t = None"
  shows "mcs_queue s' q"
  using assms by (auto simp: mcs_queue_def)

text \<open>The steps of the lock, by what they change.\<close>

lemma queue_enter:
  assumes "mcs_queue s q" "outside (mpc s t)" "entering c"
    and s': "mpc s' = (mpc s)(t := c)" "mlocked s' = mlocked s" "mnext s' = (mnext s)(t := None)" "mtail s' = mtail s"
  shows "mcs_queue s' q"
proof -
  have t: "t \<notin> set q" "outside c" using mcs_queueD(2) [OF assms(1)] assms(2,3) by (simp_all add: outside_def)
  have "case q of [] \<Rightarrow> True | h # r \<Rightarrow> head_ok s' h r \<and> wait_chain s' h r"
  proof (cases q)
    case (Cons h r)
    have "wait_chain s' h r = wait_chain s h r" using t Cons by (intro wait_chain_cong) (auto simp: s')
    moreover have "head_ok s' h r = head_ok s h r" using t Cons by (auto simp: head_ok_def s')
    ultimately show ?thesis using assms(1) Cons by (simp add: mcs_queue_def)
  qed simp
  moreover have "u \<in> set q \<longleftrightarrow> \<not> outside (mpc s' u)" for u
    using mcs_queueD(2) [OF assms(1), of u] t by (auto simp: s')
  moreover have "entering (mpc s' u) \<Longrightarrow> mnext s' u = None" for u
    using mcs_queueD(3) [OF assms(1), of u] by (auto simp: s' entering_def split: if_splits)
  ultimately show ?thesis using mcs_queueD(1,4) [OF assms(1)] unfolding mcs_queue_def s'(4) by blast
qed

lemma queue_swap:
  assumes "mcs_queue s q" "entering (mpc s t)"
    and s': "mpc s' = (mpc s)(t := case mtail s of None \<Rightarrow> MIn | Some p \<Rightarrow> MLocked p)" "mlocked s' = mlocked s" "mnext s' = mnext s"
      "mtail s' = Some t"
  shows "mcs_queue s' (q @ [t])"
proof -
  have t: "t \<notin> set q" "mnext s t = None" "distinct q"
    using mcs_queueD [OF assms(1)] assms(2) by (simp_all add: outside_def entering_def)
  have tail: "mtail s = (if q = [] then None else Some (last q))" using mcs_queueD(4) [OF assms(1)] .
  have "case q @ [t] of [] \<Rightarrow> True | h # r \<Rightarrow> head_ok s' h r \<and> wait_chain s' h r"
  proof (cases q)
    case Nil
    then show ?thesis using tail t by (simp add: head_ok_def s')
  next
    case (Cons h r)
    have c: "head_ok s h r" "wait_chain s h r" using assms(1) Cons by (simp_all add: mcs_queue_def)
    have "wait_chain s' h r = wait_chain s h r" using t Cons by (intro wait_chain_cong) (auto simp: s')
    then have "wait_chain s' h (r @ [t])" using c Cons tail t by (intro wait_chain_snoc) (simp_all add: s')
    moreover have "head_ok s' h (r @ [t])" using c t Cons by (auto simp: head_ok_def s')
    ultimately show ?thesis using Cons by simp
  qed
  moreover have "u \<in> set (q @ [t]) \<longleftrightarrow> \<not> outside (mpc s' u)" for u
    using mcs_queueD(2) [OF assms(1), of u] by (auto simp: s' outside_def entering_def split: option.splits)
  moreover have "entering (mpc s' u) \<Longrightarrow> mnext s' u = None" for u
    using mcs_queueD(3) [OF assms(1), of u] by (auto simp: s' entering_def split: if_splits option.splits)
  moreover have "distinct (q @ [t])" using t by simp
  ultimately show ?thesis unfolding mcs_queue_def s'(4) by simp
qed

lemma queue_tail_step:
  assumes "mcs_queue s q" "q = h # r" "t \<in> set r" "head_ok s h r" "distinct (h # r)" "wait_chain s' h r" "\<not> outside (mpc s t)"
    and s': "mpc s' = (mpc s)(t := c)" "mtail s' = mtail s" "\<not> outside c" "\<And>u. u \<noteq> t \<Longrightarrow> mlocked s' u = mlocked s u"
      "\<And>u. mnext s' u = mnext s u \<or> u \<in> set q \<and> mnext s' u = Some t"
  shows "mcs_queue s' q"
proof (rule mcs_queue_same [OF assms(1,2) _ assms(6) s'(2)])
  show "head_ok s' h r" using assms(3-5) s'(5) [of h] s'(4) [of h] by (auto simp: head_ok_def s'(1))
  show "outside (mpc s' u) = outside (mpc s u)" for u using assms(7) s'(3) by (simp add: s'(1))
  show "mnext s' u = None" if "entering (mpc s' u)" for u
    using that s'(3) s'(5) [of u] mcs_queueD(2,3) [OF assms(1), of u] by (auto simp: s'(1) outside_def entering_def split: if_splits)
qed

lemma queue_head_step:
  assumes "mcs_queue s (t # r)" "wait_chain s t r" "distinct (t # r)" "head_ok s' t r" "\<not> outside (mpc s t)"
    and s': "mpc s' = (mpc s)(t := c)" "mtail s' = mtail s" "\<not> outside c" "mlocked s' = mlocked s" "mnext s' = mnext s"
  shows "mcs_queue s' (t # r)"
proof (rule mcs_queue_same [OF assms(1) refl assms(4) _ s'(2)])
  have "wait_chain s' t r = wait_chain s t r" using assms(3) by (intro wait_chain_cong) (auto simp: s')
  then show "wait_chain s' t r" using assms(2) by simp
  show "outside (mpc s' u) = outside (mpc s u)" for u using assms(5) s'(3) by (simp add: s'(1))
  show "mnext s' u = None" if "entering (mpc s' u)" for u
    using that s'(3) mcs_queueD(3) [OF assms(1), of u] by (auto simp: s' outside_def entering_def split: if_splits)
qed

lemma queue_grant:
  assumes "mcs_queue s (t # r)" "wait_chain s t r" "distinct (t # r)" "mnext s t = Some n" "\<not> outside (mpc s t)"
    and s': "mpc s' = (mpc s)(t := MOut)" "mtail s' = mtail s" "mlocked s' = (mlocked s)(n := False)" "mnext s' = mnext s"
  shows "mcs_queue s' r"
proof -
  obtain r' where r: "r = n # r'" "mpc s n = MWait" "wait_chain s n r'"
    using assms(2,4) by (cases r) (auto simp: waits_on_def)
  have "wait_chain s' n r' = wait_chain s n r'" using assms(3) r by (intro wait_chain_cong) (auto simp: s')
  moreover have "head_ok s' n r'" using r assms(3) by (auto simp: head_ok_def s')
  moreover have "u \<in> set r \<longleftrightarrow> \<not> outside (mpc s' u)" for u
    using mcs_queueD(2) [OF assms(1), of u] assms(3) by (auto simp: s' outside_def entering_def)
  moreover have "entering (mpc s' u) \<Longrightarrow> mnext s' u = None" for u
    using mcs_queueD(3) [OF assms(1), of u] by (auto simp: s' entering_def split: if_splits)
  ultimately show ?thesis
    using assms(3) mcs_queueD(4) [OF assms(1)] r unfolding mcs_queue_def s'(2) by auto
qed

lemma queue_empty:
  assumes "mcs_queue s (t # r)" "distinct (t # r)" "mtail s = Some t"
    and s': "mpc s' = (mpc s)(t := MOut)" "mtail s' = None" "mnext s' = mnext s"
  shows "mcs_queue s' []"
proof -
  have "r = []" using assms(2,3) mcs_queueD(4) [OF assms(1)] by (cases r rule: rev_cases) auto
  then have "outside (mpc s' u)" for u using mcs_queueD(2) [OF assms(1), of u] by (auto simp: s' outside_def entering_def)
  moreover have "entering (mpc s' u) \<Longrightarrow> mnext s' u = None" for u
    using mcs_queueD(3) [OF assms(1), of u] by (auto simp: s' entering_def split: if_splits)
  ultimately show ?thesis unfolding mcs_queue_def by (simp add: s')
qed

lemma clean_lock_inv:
  assumes "mcs_queue s q" "mcs_lock t s = Some s'" "\<not> swap_fails (Lock t) s"
  shows "\<exists>q'. mcs_queue s' q'"
proof (cases "mpc s t")
  case MOut
  then have "mcs_queue s' q" using assms(2)
    by (intro queue_enter [OF assms(1), of t MRead]) (auto simp: mcs_lock_def mgoto_def outside_def entering_def)
  then show ?thesis ..
next
  case MRead
  then have "mnext s t = None" using mcs_queueD(3) [OF assms(1)] by (simp add: entering_def)
  then have "mcs_queue s' q" using assms(2) MRead
    by (intro queue_enter [OF assms(1), of t "MSwap (mtail s)"]) (auto simp: mcs_lock_def mgoto_def outside_def entering_def)
  then show ?thesis ..
next
  case (MSwap e)
  then have "mtail s = e" using assms(3) by (simp add: swap_fails_def)
  then have "mcs_queue s' (q @ [t])" using assms(2) MSwap
    by (intro queue_swap [OF assms(1), of t]) (auto simp: mcs_lock_def mgoto_def Let_def entering_def)
  then show ?thesis ..
next
  case (MLocked p)
  then have o: "\<not> outside (mpc s t)" by (simp add: outside_def entering_def)
  have e: "mpc s' = (mpc s)(t := MLink p)" "mlocked s' = (mlocked s)(t := True)" "mnext s' = mnext s" "mtail s' = mtail s"
    using assms(2) MLocked by (auto simp: mcs_lock_def mgoto_def)
  from mcs_queue_in [OF assms(1) o] show ?thesis
  proof cases
    case (2 h r p')
    have "wait_chain s' h r" by (rule wait_chain_link [OF 2(4,2,5) MLocked e(1-3)])
    then have "mcs_queue s' q" by (intro queue_tail_step [OF assms(1) 2(1-3,5) _ o e(1,4)]) (auto simp: e outside_def entering_def)
    then show ?thesis ..
  qed (use MLocked in \<open>auto simp: head_ok_def\<close>)
next
  case (MLink p)
  then have o: "\<not> outside (mpc s t)" by (simp add: outside_def entering_def)
  have e: "mpc s' = (mpc s)(t := MWait)" "mlocked s' = mlocked s" "mnext s' = (mnext s)(p := Some t)" "mtail s' = mtail s"
    using assms(2) MLink by (auto simp: mcs_lock_def mgoto_def)
  from mcs_queue_in [OF assms(1) o] show ?thesis
  proof cases
    case (2 h r p')
    have "wait_chain s' h r \<and> p \<in> set (h # r)" by (rule wait_chain_wait [OF 2(4,2,5) MLink e(1-3)])
    then have "mcs_queue s' q" by (intro queue_tail_step [OF assms(1) 2(1-3,5) _ o e(1,4)]) (auto simp: e 2(1) outside_def entering_def)
    then show ?thesis ..
  qed (use MLink in \<open>auto simp: head_ok_def\<close>)
next
  case MWait
  then have o: "\<not> outside (mpc s t)" by (simp add: outside_def entering_def)
  have e: "mpc s' = (mpc s)(t := MIn)" "mlocked s' = mlocked s" "mnext s' = mnext s" "mtail s' = mtail s" "\<not> mlocked s t"
    using assms(2) MWait by (auto simp: mcs_lock_def mgoto_def split: if_splits)
  from mcs_queue_in [OF assms(1) o] show ?thesis
  proof cases
    case (1 r)
    have "mcs_queue s' (t # r)"
      by (rule queue_head_step [OF assms(1) [unfolded 1(1)] 1(3,4) _ o e(1,4) _ e(2,3)]) (auto simp: head_ok_def e outside_def entering_def)
    then show ?thesis ..
  qed (use MWait e in \<open>auto simp: waits_on_def\<close>)
qed (use assms(2) mcs_queue_in [OF assms(1), of t] in \<open>auto simp: mcs_lock_def outside_def entering_def head_ok_def waits_on_def\<close>)

lemma clean_unlock_inv:
  assumes "mcs_queue s q" "mcs_unlock t s = Some s'"
  shows "\<exists>q'. mcs_queue s' q'"
proof -
  have pc: "mpc s t \<in> {MIn, MFree, MNext, MGrant}" using assms(2) by (auto simp: mcs_unlock_def split: mcs_pc.splits)
  then have o: "\<not> outside (mpc s t)" by (auto simp: outside_def entering_def)
  have k: "mlocked s' = mlocked s \<or> mpc s t = MGrant" "mnext s' = mnext s"
    using assms(2) by (auto simp: mcs_unlock_def mgoto_def split: mcs_pc.splits if_splits option.splits)
  from mcs_queue_in [OF assms(1) o] show ?thesis
  proof cases
    case (1 r)
    note q = assms(1) [unfolded 1(1)]
    have tail: "mtail s = Some t \<longleftrightarrow> r = []" using mcs_queueD(4) [OF q] 1(4) by (cases r rule: rev_cases) auto
    consider (free) "mpc s t = MFree" "mtail s = Some t" | (grant) "mpc s t = MGrant" | (stay) "mpc s t \<in> {MIn, MNext} \<or> mpc s t = MFree \<and> mtail s \<noteq> Some t"
      using pc by blast
    then show ?thesis
    proof cases
      case free
      then have "mcs_queue s' []" using assms(2) by (intro queue_empty [OF q 1(4) free(2)]) (auto simp: mcs_unlock_def mgoto_def)
      then show ?thesis ..
    next
      case grant
      then obtain n where n: "mnext s t = Some n" using 1(2) by (auto simp: head_ok_def)
      then have "mcs_queue s' r" using assms(2) grant by (intro queue_grant [OF q 1(3,4) n o]) (auto simp: mcs_unlock_def mgoto_def)
      then show ?thesis ..
    next
      case stay
      obtain c where c: "mpc s' = (mpc s)(t := c)" "mtail s' = mtail s" "c = MFree \<or> c = MNext \<and> r \<noteq> [] \<or> c = MGrant \<and> mnext s t \<noteq> None"
        using assms(2) stay tail by (auto simp: mcs_unlock_def mgoto_def split: if_splits)
      have "mcs_queue s' (t # r)"
        by (rule queue_head_step [OF q 1(3,4) _ o c(1,2)]) (use c(3) k stay in \<open>auto simp: head_ok_def c(1) outside_def entering_def\<close>)
      then show ?thesis ..
    qed
  qed (use pc in \<open>auto simp: waits_on_def\<close>)
qed

lemma mcs_queue_new: "mcs_queue new_SpinlockMCS []"
  by (simp add: mcs_queue_def new_SpinlockMCS_def outside_def entering_def)

lemma clean_step_inv: "\<exists>q. mcs_queue s q \<Longrightarrow> clean_step l s = Some s' \<Longrightarrow> \<exists>q. mcs_queue s' q"
  by (cases l) (auto simp: clean_step_def split: if_splits dest: clean_lock_inv clean_unlock_inv)

interpretation mcslock: machine clean_step "\<lambda>s. s = new_SpinlockMCS" "\<lambda>s. \<exists>q. mcs_queue s q"
  by unfold_locales (use mcs_queue_new clean_step_inv in blast)+

definition mcs_inside :: "SpinlockMCS \<Rightarrow> nat \<Rightarrow> bool" where
  "mcs_inside s t \<longleftrightarrow> mpc s t \<in> {MIn, MFree, MNext, MGrant}"

lemma mcs_inside_head: "mcs_queue s q \<Longrightarrow> mcs_inside s t \<Longrightarrow> \<exists>r. q = t # r"
proof -
  assume q: "mcs_queue s q" and t: "mcs_inside s t"
  then have "\<not> outside (mpc s t)" by (auto simp: mcs_inside_def outside_def entering_def)
  from mcs_queue_in [OF q this] show ?thesis
    by cases (use t in \<open>auto simp: mcs_inside_def waits_on_def\<close>)
qed

lemma mcs_progress:
  assumes "mcs_queue s q" "q \<noteq> []"
  shows "\<exists>t \<in> set q. mcs_lock t s \<noteq> None \<or> mcs_unlock t s \<noteq> None"
proof -
  from assms obtain h r where q: "q = h # r" "head_ok s h r" "wait_chain s h r" by (cases q) (auto simp: mcs_queue_def)
  show ?thesis
  proof (cases "mpc s h = MNext \<and> mnext s h = None")
    case True
    then obtain x r' where "r = x # r'" "mpc s x = MLocked h \<or> mpc s x = MLink h"
      using q by (cases r) (auto simp: head_ok_def waits_on_def)
    then show ?thesis using q(1) by (intro bexI [of _ x]) (auto simp: mcs_lock_def)
  next
    case False
    have "mpc s h \<in> {MIn, MFree, MNext, MGrant} \<or> mpc s h = MWait \<and> \<not> mlocked s h" using q(2) by (auto simp: head_ok_def)
    moreover have "mpc s h = MGrant \<longrightarrow> mnext s h \<noteq> None" using q(2) by (auto simp: head_ok_def)
    ultimately have "mcs_lock h s \<noteq> None \<or> mcs_unlock h s \<noteq> None"
      using False by (cases "mpc s h") (auto simp: mcs_lock_def mcs_unlock_def)
    then show ?thesis using q(1) by auto
  qed
qed

text \<open>
  C16. The queue lock: \<^verbatim>\<open>lock\<close> reads \<^verbatim>\<open>tail_\<close> for its compare-and-swap beforehand and does not look
  whether the swap succeeded. In every execution in which the swaps of \<^verbatim>\<open>lock\<close> have succeeded, however
  the threads interleave, at most one thread is between \<^verbatim>\<open>lock\<close> and the end of \<^verbatim>\<open>unlock\<close>, and whenever
  a thread has entered the queue some thread of the queue can go on. So exclusion and progress are
  lost only behind a failed swap (which \<open>mcs_swap_race\<close> below shows to be possible).
\<close>

theorem mcs_excludes:
  assumes "exec mcs_step ls new_SpinlockMCS = Some s" "swaps_succeed ls new_SpinlockMCS"
  shows "(\<forall>t u. mcs_inside s t \<and> mcs_inside s u \<longrightarrow> t = u)
    \<and> ((\<exists>t. mpc s t \<notin> {MOut, MRead} \<union> range MSwap) \<longrightarrow>
        (\<exists>t. mpc s t \<notin> {MOut, MRead} \<union> range MSwap \<and> (mcs_step (Lock t) s \<noteq> None \<or> mcs_step (Unlock t) s \<noteq> None)))"
proof -
  have "exec clean_step ls new_SpinlockMCS = Some s" using assms by (simp add: exec_clean)
  with mcslock.exec_inv mcs_queue_new obtain q where q: "mcs_queue s q" by blast
  have "t = u" if "mcs_inside s t" "mcs_inside s u" for t u
    using mcs_inside_head [OF q that(1)] mcs_inside_head [OF q that(2)] by auto
  moreover have "t \<in> set q \<longleftrightarrow> mpc s t \<notin> {MOut, MRead} \<union> range MSwap" for t
    using mcs_queueD(2) [OF q, of t] by (auto simp: outside_def entering_def)
  ultimately show ?thesis using mcs_progress [OF q]
    by (metis length_pos_if_in_set list.size(3) less_irrefl mcs_step.simps)
qed

definition mcs_run :: "mcs_action list" where
  "mcs_run = [Lock 0, Lock 0, Lock 0, Lock 1, Lock 1, Lock 1, Lock 1, Lock 1, Unlock 0, Unlock 0, Lock 1]"

theorem mcs_excludes_witness:
  "\<exists>s. exec mcs_step mcs_run new_SpinlockMCS = Some s \<and> mcs_inside s 1 \<and> \<not> mcs_inside s 0"
proof -
  obtain s where s: "exec mcs_step mcs_run new_SpinlockMCS = Some s" "mcs_inside s 1" "swaps_succeed mcs_run new_SpinlockMCS"
    by (simp add: mcs_run_def swap_fails_def mcs_lock_def mcs_unlock_def mgoto_def new_SpinlockMCS_def mcs_inside_def Let_def)
  from mcs_excludes [OF s(1,3)] s show ?thesis by (metis zero_neq_one)
qed

text \<open>
  The queue lock as it is written: \<^verbatim>\<open>tail_\<close> is read for the compare-and-swap beforehand, and when it
  changed in between, the swap fails while the value it returns is taken for the predecessor. After a
  release in between, a thread enters without being in the queue, and a second one follows.
\<close>

theorem mcs_swap_race:
  "\<exists>ls s. exec mcs_step ls new_SpinlockMCS = Some s \<and> mpc s 1 = MIn \<and> mpc s 2 = MIn"
  by (rule exI [of _ "[Lock 0, Lock 0, Lock 0, Lock 1, Lock 1, Unlock 0, Unlock 0, Lock 1, Lock 2, Lock 2, Lock 2]"])
    (simp add: mcs_lock_def mcs_unlock_def mgoto_def new_SpinlockMCS_def Let_def)

section \<open>The barrier\<close>

text \<open>
  A thread is outside, holds the arrival semaphore, waits for the departure, or holds the departure
  semaphore. The counter and the post that follows are accessed by the one thread that holds the
  semaphore. \<open>arrived\<close> and \<open>left\<close> count, and are not read by the program.
\<close>

datatype bar_pc = BOut | BArrive | BMid | BLeave

record Barrier =
  arrival :: nat
  departure :: nat
  num_participants :: nat
  counter :: nat
  bpc :: "bar_pc list"
  arrived :: nat
  left :: nat

definition new_Barrier :: "nat \<Rightarrow> nat \<Rightarrow> Barrier" where
  "new_Barrier n threads = \<lparr>arrival = 1, departure = 0, num_participants = n, counter = 0, bpc = replicate threads BOut, arrived = 0, left = 0\<rparr>"

definition bgoto :: "nat \<Rightarrow> bar_pc \<Rightarrow> Barrier \<Rightarrow> Barrier" where
  "bgoto t c b = b\<lparr>bpc := (bpc b)[t := c]\<rparr>"

definition bar_wait :: "nat \<Rightarrow> Barrier \<Rightarrow> Barrier option" where
  "bar_wait t b =
     (if t \<ge> length (bpc b) then None
      else case bpc b ! t of
        BOut \<Rightarrow> if arrival b = 0 then None else Some (bgoto t BArrive (b\<lparr>arrival := arrival b - 1\<rparr>))
      | BArrive \<Rightarrow>
          (let b1 = b\<lparr>counter := counter b + 1, arrived := arrived b + 1\<rparr>
           in Some (bgoto t BMid (if counter b1 < num_participants b1 then b1\<lparr>arrival := arrival b1 + 1\<rparr>
                                  else b1\<lparr>departure := departure b1 + 1\<rparr>)))
      | BMid \<Rightarrow> if departure b = 0 then None else Some (bgoto t BLeave (b\<lparr>departure := departure b - 1\<rparr>))
      | BLeave \<Rightarrow>
          (let b1 = b\<lparr>counter := counter b - 1, left := left b + 1\<rparr>
           in Some (bgoto t BOut (if counter b1 > 0 then b1\<lparr>departure := departure b1 + 1\<rparr>
                                  else b1\<lparr>arrival := arrival b1 + 1\<rparr>))))"

abbreviation at_pc :: "Barrier \<Rightarrow> bar_pc \<Rightarrow> nat" where
  "at_pc b c \<equiv> count (mset (bpc b)) c"

text \<open>Threads arrive, until as many are there as take part; then they leave, until all have left.\<close>

definition bar_inv :: "nat \<Rightarrow> Barrier \<Rightarrow> bool" where
  "bar_inv n b \<longleftrightarrow> num_participants b = n \<and> 0 < n \<and>
     (\<exists>r. departure b = 0 \<and> at_pc b BLeave = 0 \<and> arrival b + at_pc b BArrive = 1 \<and> counter b = at_pc b BMid \<and> counter b < n
            \<and> arrived b = n * r + counter b \<and> left b = n * r
        \<or> arrival b = 0 \<and> at_pc b BArrive = 0 \<and> departure b + at_pc b BLeave = 1 \<and> counter b = at_pc b BMid + at_pc b BLeave
            \<and> 0 < counter b \<and> counter b \<le> n \<and> arrived b = n * r + n \<and> left b + counter b = n * r + n)"

lemma at_pc_bgoto:
  assumes "t < length (bpc b)"
  shows "at_pc (bgoto t c b) d = (if c = d then 1 else 0) + at_pc b d - (if bpc b ! t = d then 1 else 0)"
    "bpc b ! t = d \<Longrightarrow> at_pc b d > 0"
proof -
  show "bpc b ! t = d \<Longrightarrow> 0 < at_pc b d" using assms by auto
  then show "at_pc (bgoto t c b) d = (if c = d then 1 else 0) + at_pc b d - (if bpc b ! t = d then 1 else 0)"
    using assms by (auto simp: bgoto_def mset_update)
qed

lemma bgoto_sel [simp]:
  "arrival (bgoto t c b) = arrival b" "departure (bgoto t c b) = departure b" "counter (bgoto t c b) = counter b"
  "num_participants (bgoto t c b) = num_participants b" "arrived (bgoto t c b) = arrived b" "left (bgoto t c b) = left b"
  by (simp_all add: bgoto_def)

lemma at_pc_move:
  assumes "t < length (bpc b)" "bpc b ! t = c" "c \<noteq> d" "bpc b' = bpc b"
  shows "Suc (at_pc (bgoto t d b') c) = at_pc b c" "at_pc (bgoto t d b') d = Suc (at_pc b d)"
    "e \<noteq> c \<Longrightarrow> e \<noteq> d \<Longrightarrow> at_pc (bgoto t d b') e = at_pc b e"
  using at_pc_bgoto [of t b' d] assms by auto

lemma bar_wait_inv:
  assumes "bar_inv n b" "bar_wait t b = Some b'"
  shows "bar_inv n b'"
proof -
  note [simp del] = count_mset_0_iff count_eq_zero_iff count_greater_zero_iff
  have t: "t < length (bpc b)" using assms(2) by (auto simp: bar_wait_def split: if_splits)
  have n: "num_participants b = n" "0 < n" using assms(1) by (auto simp: bar_inv_def)
  show ?thesis
  proof (cases "bpc b ! t")
    case BOut
    then obtain b1 where b1: "b' = bgoto t BArrive b1" "bpc b1 = bpc b" "arrival b1 = arrival b - 1" "arrival b \<noteq> 0" "departure b1 = departure b"
      "counter b1 = counter b" "num_participants b1 = n" "arrived b1 = arrived b" "left b1 = left b"
      using assms(2) t n by (auto simp: bar_wait_def split: if_splits)
    note m = at_pc_move [OF t BOut _ b1(2), of BArrive]
    show ?thesis using assms(1) n b1 m(2) m(3) [of BMid] m(3) [of BLeave] unfolding bar_inv_def by auto
  next
    case BArrive
    then obtain b1 where b1: "b' = bgoto t BMid b1" "bpc b1 = bpc b" "counter b1 = Suc (counter b)" "num_participants b1 = n"
      "arrived b1 = Suc (arrived b)" "left b1 = left b"
      "if Suc (counter b) < n then arrival b1 = Suc (arrival b) \<and> departure b1 = departure b else arrival b1 = arrival b \<and> departure b1 = Suc (departure b)"
      using assms(2) t n by (auto simp: bar_wait_def Let_def)
    note m = at_pc_move [OF t BArrive _ b1(2), of BMid]
    from assms(1) at_pc_bgoto(2) [OF t BArrive] obtain r where "departure b = 0" "at_pc b BLeave = 0" "arrival b = 0" "at_pc b BArrive = 1"
      "counter b = at_pc b BMid" "counter b < n" "arrived b = n * r + counter b" "left b = n * r" unfolding bar_inv_def by auto
    then show ?thesis using n b1 m(1,2) m(3) [of BLeave] unfolding bar_inv_def by (auto split: if_splits intro!: exI [of _ r])
  next
    case BMid
    then obtain b1 where b1: "b' = bgoto t BLeave b1" "bpc b1 = bpc b" "departure b1 = departure b - 1" "departure b \<noteq> 0" "arrival b1 = arrival b"
      "counter b1 = counter b" "num_participants b1 = n" "arrived b1 = arrived b" "left b1 = left b"
      using assms(2) t n by (auto simp: bar_wait_def split: if_splits)
    note m = at_pc_move [OF t BMid _ b1(2), of BLeave]
    show ?thesis using assms(1) n b1 m(1,2) m(3) [of BArrive] unfolding bar_inv_def by auto
  next
    case BLeave
    then obtain b1 where b1: "b' = bgoto t BOut b1" "bpc b1 = bpc b" "counter b1 = counter b - 1" "num_participants b1 = n"
      "arrived b1 = arrived b" "left b1 = Suc (left b)"
      "if counter b - 1 > 0 then departure b1 = Suc (departure b) \<and> arrival b1 = arrival b else departure b1 = departure b \<and> arrival b1 = Suc (arrival b)"
      using assms(2) t n by (auto simp: bar_wait_def Let_def)
    note m = at_pc_move [OF t BLeave _ b1(2), of BOut]
    from assms(1) at_pc_bgoto(2) [OF t BLeave] obtain r where "departure b = 0" "at_pc b BLeave = 1" "arrival b = 0" "at_pc b BArrive = 0"
      "counter b = at_pc b BMid + 1" "counter b \<le> n" "arrived b = n * r + n" "left b + counter b = n * r + n" unfolding bar_inv_def by auto
    then show ?thesis using n b1 m(1) m(3) [of BMid] m(3) [of BArrive] unfolding bar_inv_def
      by (cases "counter b - 1 > 0") (auto intro: exI [of _ r] exI [of _ "Suc r"])
  qed
qed

definition bar_init :: "nat \<Rightarrow> Barrier \<Rightarrow> bool" where
  "bar_init n b \<longleftrightarrow> 0 < n \<and> (\<exists>threads. b = new_Barrier n threads)"

lemma bar_init_inv: "bar_init n b \<Longrightarrow> bar_inv n b"
  by (auto simp: bar_init_def bar_inv_def new_Barrier_def intro!: exI [of _ 0])

interpretation barrier: machine bar_wait "bar_init n" "bar_inv n" for n
  by unfold_locales (fact bar_init_inv, fact bar_wait_inv)

lemma bar_departs:
  assumes "bar_inv n b" "left b < n * (arrived b div n)"
  shows "\<exists>t. bar_wait t b \<noteq> None \<and> bpc b ! t \<in> {BMid, BLeave}"
proof -
  note [simp del] = count_mset_0_iff count_eq_zero_iff count_greater_zero_iff
  have d: "departure b + at_pc b BLeave = 1" "0 < at_pc b BMid + at_pc b BLeave"
    using assms by (auto simp: bar_inv_def)
  have ex: "\<exists>t < length (bpc b). bpc b ! t = c" if "0 < at_pc b c" for c
    using that by (simp add: count_greater_zero_iff in_set_conv_nth)
  show ?thesis
  proof (cases "at_pc b BLeave")
    case 0
    then obtain t where "t < length (bpc b)" "bpc b ! t = BMid" "departure b = 1" using ex [of BMid] d by auto
    then show ?thesis by (intro exI [of _ t]) (simp add: bar_wait_def)
  next
    case (Suc k)
    then obtain t where "t < length (bpc b)" "bpc b ! t = BLeave" using ex [of BLeave] by auto
    then show ?thesis by (intro exI [of _ t]) (simp add: bar_wait_def Let_def)
  qed
qed

text \<open>
  C27. The barrier, with any number of threads that wait any number of times: a thread leaves only
  once all the participants of its round have arrived, nobody arrives for the next round before the
  current one has left, and while threads of a complete round are still inside one of them can go on.
\<close>

theorem barrier_rounds:
  assumes "reachable bar_wait (bar_init n) b"
  shows "left b \<le> n * (arrived b div n) \<and> arrived b \<le> left b + n
    \<and> (left b < n * (arrived b div n) \<longrightarrow> (\<exists>t. bar_wait t b \<noteq> None \<and> bpc b ! t \<in> {BMid, BLeave}))"
proof -
  have i: "bar_inv n b" using barrier.reachable_inv [OF assms] .
  then have "left b \<le> n * (arrived b div n)" "arrived b \<le> left b + n" by (auto simp: bar_inv_def)
  then show ?thesis using bar_departs [OF i] by blast
qed

theorem barrier_rounds_witness:
  "\<exists>b. exec bar_wait [0, 0, 1, 1, 1, 1] (new_Barrier 2 3) = Some b \<and> arrived b = 2 \<and> left b = 1
     \<and> (\<exists>t. bar_wait t b \<noteq> None \<and> bpc b ! t \<in> {BMid, BLeave})"
proof -
  obtain b where b: "exec bar_wait [0, 0, 1, 1, 1, 1] (new_Barrier 2 3) = Some b" "arrived b = 2" "left b = 1"
    by (simp add: bar_wait_def new_Barrier_def bgoto_def Let_def numeral_3_eq_3)
  have "bar_init 2 (new_Barrier 2 3)" by (auto simp: bar_init_def)
  from barrier_rounds [OF reachable_exec [OF reach_init [where init = "bar_init 2", OF this] b(1)]] b show ?thesis by auto
qed

end
