(* ===== verification/Thread_Pool_Normal.thy ===== *)
theory Thread_Pool_Normal
  imports State_Machine
begin

text \<open>
  The thread pool with one queue for all workers (\<^verbatim>\<open>thread_pool_normal.cpp\<close>). A task is a callback
  and whether it deletes itself after its call (\<^verbatim>\<open>once\<close>). An action is one critical section: a call of
  \<^verbatim>\<open>addTask\<close> or \<^verbatim>\<open>stop\<close>, a worker that has the lock and sleeps, takes a task or ends, a worker that
  comes back from a task, and a wake-up without a signal. A worker that sleeps on \<^verbatim>\<open>queue_empty_\<close>
  does nothing until it is woken: \<^verbatim>\<open>signal\<close> wakes at least one sleeper if there is any (which ones is
  an argument of the action, \<open>signal_wakes\<close> says what POSIX promises), \<^verbatim>\<open>signalAll\<close> wakes them all.
  \<open>added\<close>, \<open>started\<close>, \<open>finished\<close> and \<open>freed\<close> record the history and are not read by the program.
\<close>

text \<open>\<open>WReady\<close>: about to take the lock, at the top of the loop or after being woken.\<close>

datatype 't worker_pc = WReady | WAsleep | WRunning 't bool | WEnded

record 't ThreadPoolNormal =
  flagstop :: bool
  tasks :: "('t \<times> bool) list"
  threads :: "'t worker_pc list"
  added :: "'t list"
  started :: "'t list"
  finished :: "'t list"
  freed :: "'t list"

definition new_ThreadPoolNormal :: "nat \<Rightarrow> 't ThreadPoolNormal" where
  "new_ThreadPoolNormal num_workers =
     \<lparr>flagstop = False, tasks = [], threads = replicate num_workers WReady, added = [], started = [], finished = [], freed = []\<rparr>"

definition sleepers :: "'t worker_pc list \<Rightarrow> nat list" where
  "sleepers ts = filter (\<lambda>w. ts ! w = WAsleep) [0 ..< length ts]"

definition wake_workers :: "nat list \<Rightarrow> 't worker_pc list \<Rightarrow> 't worker_pc list" where
  "wake_workers ws ts = map (\<lambda>w. if w \<in> set ws then WReady else ts ! w) [0 ..< length ts]"

definition signal_wakes :: "nat list \<Rightarrow> 't worker_pc list \<Rightarrow> bool" where
  "signal_wakes ws ts \<longleftrightarrow> set ws \<subseteq> set (sleepers ts) \<and> (sleepers ts \<noteq> [] \<longrightarrow> ws \<noteq> [])"

definition tpn_addTask :: "'t \<Rightarrow> bool \<Rightarrow> nat list \<Rightarrow> 't ThreadPoolNormal \<Rightarrow> 't ThreadPoolNormal option" where
  "tpn_addTask task once ws p =
     (if flagstop p then Some p
      else let p' = p\<lparr>tasks := tasks p @ [(task, once)], added := added p @ [task]\<rparr>
           in if signal_wakes ws (threads p') then Some (p'\<lparr>threads := wake_workers ws (threads p')\<rparr>) else None)"

text \<open>
  A worker with the lock: it sleeps while there is no task and the pool is not stopped, releasing
  the lock; otherwise it leaves the waiting loop and ends or takes the first task.
\<close>

definition ExecuteTask_take :: "nat \<Rightarrow> 't ThreadPoolNormal \<Rightarrow> 't ThreadPoolNormal option" where
  "ExecuteTask_take w p =
     (if w \<ge> length (threads p) \<or> threads p ! w \<noteq> WReady then None
      else if tasks p = [] \<and> \<not> flagstop p then Some (p\<lparr>threads := (threads p)[w := WAsleep]\<rparr>)
      else if flagstop p then Some (p\<lparr>threads := (threads p)[w := WEnded]\<rparr>)
      else case tasks p of
             [] \<Rightarrow> None
           | (task, once) # rest \<Rightarrow>
               Some (p\<lparr>tasks := rest, threads := (threads p)[w := WRunning task once], started := started p @ [task]\<rparr>))"

definition ExecuteTask_spurious :: "nat \<Rightarrow> 't ThreadPoolNormal \<Rightarrow> 't ThreadPoolNormal option" where
  "ExecuteTask_spurious w p =
     (if w < length (threads p) \<and> threads p ! w = WAsleep then Some (p\<lparr>threads := (threads p)[w := WReady]\<rparr>) else None)"

text \<open>After the call: a callback that does not delete itself is deleted here.\<close>

definition ExecuteTask_return :: "nat \<Rightarrow> 't ThreadPoolNormal \<Rightarrow> 't ThreadPoolNormal option" where
  "ExecuteTask_return w p =
     (if w \<ge> length (threads p) then None
      else case threads p ! w of
             WRunning task once \<Rightarrow>
               let freed_by_call = (if once then freed p @ [task] else freed p);
                   freed_after = (if once then freed_by_call else freed_by_call @ [task])
               in Some (p\<lparr>threads := (threads p)[w := WReady], finished := finished p @ [task], freed := freed_after\<rparr>)
           | _ \<Rightarrow> None)"

definition tpn_stop_request :: "'t ThreadPoolNormal \<Rightarrow> bool \<times> 't ThreadPoolNormal" where
  "tpn_stop_request p =
     (if flagstop p then (False, p)
      else let p' = p\<lparr>flagstop := True\<rparr> in (True, p'\<lparr>threads := wake_workers (sleepers (threads p')) (threads p')\<rparr>))"

text \<open>The joins: they return when every other thread has ended; joining oneself fails at once.\<close>

definition tpn_stop_join :: "nat option \<Rightarrow> 't ThreadPoolNormal \<Rightarrow> bool" where
  "tpn_stop_join me p \<longleftrightarrow> (\<forall>w < length (threads p). Some w \<noteq> me \<longrightarrow> threads p ! w = WEnded)"

definition delete_ThreadPoolNormal :: "'t ThreadPoolNormal \<Rightarrow> 't ThreadPoolNormal" where
  "delete_ThreadPoolNormal p = p\<lparr>tasks := [], freed := freed p @ map fst (filter snd (tasks p))\<rparr>"

definition tpn_count :: "'t ThreadPoolNormal \<Rightarrow> nat" where
  "tpn_count p = length (tasks p)"

section \<open>Interleavings\<close>

datatype 't tpn_action = NAdd 't bool "nat list" | NTake nat | NReturn nat | NSpurious nat | NStop

fun tpn_step :: "'t tpn_action \<Rightarrow> 't ThreadPoolNormal \<Rightarrow> 't ThreadPoolNormal option" where
  "tpn_step (NAdd task once ws) p = tpn_addTask task once ws p"
| "tpn_step (NTake w) p = ExecuteTask_take w p"
| "tpn_step (NReturn w) p = ExecuteTask_return w p"
| "tpn_step (NSpurious w) p = ExecuteTask_spurious w p"
| "tpn_step NStop p = Some (snd (tpn_stop_request p))"

definition tpn_init :: "'t ThreadPoolNormal \<Rightarrow> bool" where
  "tpn_init p \<longleftrightarrow> (\<exists>n. p = new_ThreadPoolNormal n)"

fun running :: "'t worker_pc \<Rightarrow> 't multiset" where
  "running (WRunning task once) = {#task#}"
| "running _ = {#}"

definition n_ready :: "'t worker_pc list \<Rightarrow> nat" where
  "n_ready ts = count_list ts WReady"

text \<open>
  No lost wake-up: while the pool runs and a worker sleeps, there is a worker ready for each queued
  task, and after a stop nobody sleeps.
\<close>

definition tpn_inv :: "'t ThreadPoolNormal \<Rightarrow> bool" where
  "tpn_inv p \<longleftrightarrow> added p = started p @ map fst (tasks p)
     \<and> mset (started p) = (\<Sum>c \<in># mset (threads p). running c) + mset (finished p) \<and> freed p = finished p
     \<and> (\<not> flagstop p \<longrightarrow> WEnded \<notin> set (threads p))
     \<and> (WAsleep \<in> set (threads p) \<longrightarrow> \<not> flagstop p \<and> length (tasks p) \<le> n_ready (threads p))"

lemma sleepers_iff: "w \<in> set (sleepers ts) \<longleftrightarrow> w < length ts \<and> ts ! w = WAsleep"
  by (auto simp: sleepers_def)

lemma sleepers_Nil: "sleepers ts = [] \<longleftrightarrow> WAsleep \<notin> set ts"
  unfolding sleepers_def filter_empty_conv by (auto simp: in_set_conv_nth)

lemma length_wake [simp]: "length (wake_workers ws ts) = length ts"
  by (simp add: wake_workers_def)

lemma nth_wake: "w < length ts \<Longrightarrow> wake_workers ws ts ! w = (if w \<in> set ws then WReady else ts ! w)"
  by (simp add: wake_workers_def)

lemma wake_Nil: "wake_workers [] ts = ts"
  by (simp add: list_eq_iff_nth_eq nth_wake)

lemma wake_Cons: "wake_workers (w # ws) ts = (wake_workers ws ts)[w := WReady]"
proof (rule nth_equalityI)
  show "wake_workers (w # ws) ts ! i = (wake_workers ws ts)[w := WReady] ! i" if "i < length (wake_workers (w # ws) ts)" for i
    using that by (cases "i = w") (simp_all add: nth_wake)
qed simp

lemma wake_all: "WAsleep \<notin> set (wake_workers (sleepers ts) ts)"
proof
  assume "WAsleep \<in> set (wake_workers (sleepers ts) ts)"
  then obtain w where "w < length ts" "wake_workers (sleepers ts) ts ! w = WAsleep" by (metis in_set_conv_nth length_wake)
  then show False using sleepers_iff [of w ts] by (simp add: nth_wake split: if_splits)
qed

lemma running_update:
  assumes "w < length ts"
  shows "(\<Sum>c \<in># mset (ts[w := c]). running c) + running (ts ! w) = (\<Sum>c \<in># mset ts. running c) + running c"
proof -
  have "ts ! w \<in># mset ts" using assms by simp
  then have "(\<Sum>c \<in># mset ts. running c) = running (ts ! w) + (\<Sum>c \<in># mset ts - {#ts ! w#}. running c)"
    by (metis insert_DiffM sum_mset.insert image_mset_add_mset)
  then show ?thesis using assms by (simp add: mset_update)
qed

lemma n_ready_update:
  "w < length ts \<Longrightarrow> n_ready (ts[w := c]) + (if ts ! w = WReady then 1 else 0) = n_ready ts + (if c = WReady then 1 else 0)"
  unfolding n_ready_def
proof (induction ts arbitrary: w)
  case (Cons x ts)
  then show ?case
  proof (cases w)
    case (Suc v)
    then show ?thesis using Cons.IH [of v] Cons.prems by (cases "c = WReady") simp_all
  qed auto
qed simp

lemma set_update_cases: "x \<in> set (ts[w := c]) \<Longrightarrow> x = c \<or> x \<in> set ts"
  using set_update_subset_insert by fastforce

text \<open>Waking sleepers changes nothing that is running, ends nobody, and adds to the ready ones.\<close>

lemma wake_spec:
  assumes "set ws \<subseteq> set (sleepers ts)"
  shows "(\<Sum>c \<in># mset (wake_workers ws ts). running c) = (\<Sum>c \<in># mset ts. running c)"
    "WEnded \<in> set (wake_workers ws ts) \<Longrightarrow> WEnded \<in> set ts" "n_ready (wake_workers ws ts) \<ge> n_ready ts"
    "ws \<noteq> [] \<Longrightarrow> n_ready (wake_workers ws ts) > n_ready ts" "WAsleep \<in> set (wake_workers ws ts) \<Longrightarrow> WAsleep \<in> set ts"
proof -
  have "(\<Sum>c \<in># mset (wake_workers ws ts). running c) = (\<Sum>c \<in># mset ts. running c) \<and> (WEnded \<in> set (wake_workers ws ts) \<longrightarrow> WEnded \<in> set ts)
    \<and> n_ready ts \<le> n_ready (wake_workers ws ts) \<and> (ws \<noteq> [] \<longrightarrow> n_ready ts < n_ready (wake_workers ws ts))
    \<and> (WAsleep \<in> set (wake_workers ws ts) \<longrightarrow> WAsleep \<in> set ts)"
    using assms
  proof (induction ws)
    case (Cons w ws)
    have w: "w < length ts" "ts ! w = WAsleep" using Cons.prems by (auto simp: sleepers_iff)
    then have at: "running (wake_workers ws ts ! w) = {#}" by (simp add: nth_wake)
    have IH: "(\<Sum>c \<in># mset (wake_workers ws ts). running c) = (\<Sum>c \<in># mset ts. running c)"
      "WEnded \<in> set (wake_workers ws ts) \<longrightarrow> WEnded \<in> set ts" "n_ready ts \<le> n_ready (wake_workers ws ts)"
      "ws \<noteq> [] \<longrightarrow> n_ready ts < n_ready (wake_workers ws ts)" "WAsleep \<in> set (wake_workers ws ts) \<longrightarrow> WAsleep \<in> set ts"
      using Cons by auto
    have "(\<Sum>c \<in># mset (wake_workers (w # ws) ts). running c) = (\<Sum>c \<in># mset ts. running c)"
      using running_update [of w "wake_workers ws ts" WReady] w(1) at IH(1) by (simp add: wake_Cons)
    moreover have "n_ready ts < n_ready (wake_workers (w # ws) ts)"
    proof (cases "w \<in> set ws")
      case True
      then have "ws \<noteq> []" "wake_workers ws ts ! w = WReady" using w(1) by (auto simp: nth_wake)
      then show ?thesis using n_ready_update [of w "wake_workers ws ts" WReady] w(1) IH(4) by (simp add: wake_Cons)
    next
      case False
      then have "wake_workers ws ts ! w = WAsleep" using w by (simp add: nth_wake)
      then show ?thesis using n_ready_update [of w "wake_workers ws ts" WReady] w(1) IH(3) by (simp add: wake_Cons)
    qed
    ultimately show ?case using IH(2,5) set_update_cases [of _ "wake_workers ws ts" w WReady] by (fastforce simp: wake_Cons)
  qed (simp add: wake_Nil)
  then show "(\<Sum>c \<in># mset (wake_workers ws ts). running c) = (\<Sum>c \<in># mset ts. running c)"
    "WEnded \<in> set (wake_workers ws ts) \<Longrightarrow> WEnded \<in> set ts" "n_ready (wake_workers ws ts) \<ge> n_ready ts"
    "ws \<noteq> [] \<Longrightarrow> n_ready (wake_workers ws ts) > n_ready ts" "WAsleep \<in> set (wake_workers ws ts) \<Longrightarrow> WAsleep \<in> set ts"
    by blast+
qed

lemma addTask_inv:
  assumes "tpn_inv p" "tpn_addTask task once ws p = Some p'"
  shows "tpn_inv p'"
proof (cases "flagstop p")
  case False
  then have s: "signal_wakes ws (threads p)"
    and p': "p' = p\<lparr>tasks := tasks p @ [(task, once)], added := added p @ [task], threads := wake_workers ws (threads p)\<rparr>"
    using assms(2) by (auto simp: tpn_addTask_def Let_def split: if_splits)
  have sub: "set ws \<subseteq> set (sleepers (threads p))" using s by (simp add: signal_wakes_def)
  have "length (tasks p') \<le> n_ready (threads p')" if "WAsleep \<in> set (threads p')"
  proof -
    have a: "WAsleep \<in> set (threads p)" using wake_spec(5) [OF sub] that by (simp add: p')
    then have "ws \<noteq> []" using s by (auto simp: signal_wakes_def sleepers_Nil)
    then show ?thesis using wake_spec(4) [OF sub] assms(1) a by (fastforce simp: tpn_inv_def p')
  qed
  then show ?thesis using assms(1) wake_spec(1,2) [OF sub] False unfolding tpn_inv_def by (auto simp: p')
qed (use assms in \<open>simp add: tpn_addTask_def\<close>)

lemma take_inv:
  assumes "tpn_inv p" "ExecuteTask_take w p = Some p'"
  shows "tpn_inv p'"
proof -
  let ?ts = "threads p"
  have w: "w < length ?ts" "?ts ! w = WReady" using assms(2) by (auto simp: ExecuteTask_take_def split: if_splits)
  note upd = running_update [OF w(1)] n_ready_update [OF w(1)] set_update_cases [of _ ?ts w]
  consider "tasks p = []" "\<not> flagstop p" "p' = p\<lparr>threads := ?ts[w := WAsleep]\<rparr>"
    | "flagstop p" "p' = p\<lparr>threads := ?ts[w := WEnded]\<rparr>"
    | task once rest where "tasks p = (task, once) # rest" "\<not> flagstop p"
      "p' = p\<lparr>tasks := rest, threads := ?ts[w := WRunning task once], started := started p @ [task]\<rparr>"
    using assms(2) w by (auto simp: ExecuteTask_take_def split: if_splits list.splits)
  then show ?thesis
  proof cases
    case 1
    then show ?thesis using assms(1) upd(1) [of WAsleep] upd(3) [of WEnded WAsleep] w(2) by (auto simp: tpn_inv_def)
  next
    case 2
    then show ?thesis using assms(1) upd(1) [of WEnded] upd(3) [of WAsleep WEnded] w(2) by (auto simp: tpn_inv_def)
  next
    case 3
    then show ?thesis using assms(1) upd(1,2) [of "WRunning task once"] upd(3) [of _ "WRunning task once"] w(2)
      by (fastforce simp: tpn_inv_def)
  qed
qed

lemma return_inv:
  assumes "tpn_inv p" "ExecuteTask_return w p = Some p'"
  shows "tpn_inv p'"
proof -
  obtain task once where w: "w < length (threads p)" "threads p ! w = WRunning task once"
    using assms(2) by (auto simp: ExecuteTask_return_def split: if_splits worker_pc.splits)
  have p': "p' = p\<lparr>threads := (threads p)[w := WReady], finished := finished p @ [task], freed := freed p @ [task]\<rparr>"
    using assms(2) w by (simp add: ExecuteTask_return_def Let_def split: if_splits)
  have "(\<Sum>c \<in># mset (threads p). running c) = add_mset task (\<Sum>c \<in># mset ((threads p)[w := WReady]). running c)"
    using running_update [OF w(1), of WReady] w(2) by simp
  moreover have "n_ready (threads p') = Suc (n_ready (threads p))" using n_ready_update [OF w(1), of WReady] w(2) by (simp add: p')
  ultimately show ?thesis using assms(1) set_update_cases [of _ "threads p" w WReady] by (fastforce simp: tpn_inv_def p')
qed

lemma tpn_spurious_inv:
  assumes "tpn_inv p" "ExecuteTask_spurious w p = Some p'"
  shows "tpn_inv p'"
proof -
  have w: "w < length (threads p)" "threads p ! w = WAsleep" and p': "p' = p\<lparr>threads := (threads p)[w := WReady]\<rparr>"
    using assms(2) by (auto simp: ExecuteTask_spurious_def split: if_splits)
  then show ?thesis using assms(1) running_update [OF w(1), of WReady] n_ready_update [OF w(1), of WReady]
      set_update_cases [of _ "threads p" w WReady]
    by (fastforce simp: tpn_inv_def)
qed

lemma stop_request_inv: "tpn_inv p \<Longrightarrow> tpn_inv (snd (tpn_stop_request p))"
  using wake_spec(1,2) [of "sleepers (threads p)" "threads p"] wake_all [of "threads p"]
  by (auto simp: tpn_inv_def tpn_stop_request_def Let_def)

lemma tpn_step_inv: "tpn_inv p \<Longrightarrow> tpn_step l p = Some p' \<Longrightarrow> tpn_inv p'"
  by (cases l) (auto intro: addTask_inv take_inv return_inv tpn_spurious_inv stop_request_inv)

lemma tpn_init_inv: "tpn_init p \<Longrightarrow> tpn_inv p"
  by (auto simp: tpn_init_def tpn_inv_def new_ThreadPoolNormal_def)

interpretation normalpool: machine tpn_step tpn_init tpn_inv
  by unfold_locales (fact tpn_init_inv, fact tpn_step_inv)

section \<open>Stopping\<close>

lemma stopped_step:
  assumes "flagstop p" "tpn_step l p = Some p'"
  shows "flagstop p'" "started p' = started p" "tasks p' = tasks p" "length (threads p') = length (threads p)"
  using assms by (cases l; auto simp: tpn_addTask_def ExecuteTask_take_def ExecuteTask_return_def ExecuteTask_spurious_def
      tpn_stop_request_def Let_def split: if_splits worker_pc.splits)+

lemma stopped_exec:
  "flagstop p \<Longrightarrow> exec tpn_step ls p = Some p' \<Longrightarrow> flagstop p' \<and> started p' = started p \<and> tasks p' = tasks p"
proof (induction ls arbitrary: p)
  case (Cons l ls)
  then obtain q where q: "tpn_step l p = Some q" "exec tpn_step ls q = Some p'" by (auto simp: Option.bind_eq_Some_conv)
  with Cons.IH [of q] stopped_step [OF Cons.prems(1) q(1)] show ?case by simp
qed simp

text \<open>What the workers can still do once the pool is stopped.\<close>

fun steps_left :: "'t worker_pc \<Rightarrow> nat" where
  "steps_left WReady = 1"
| "steps_left WAsleep = 2"
| "steps_left (WRunning _ _) = 2"
| "steps_left WEnded = 0"

fun worker_move :: "'t tpn_action \<Rightarrow> bool" where
  "worker_move (NTake w) = True"
| "worker_move (NReturn w) = True"
| "worker_move (NSpurious w) = True"
| "worker_move _ = False"

lemma steps_left_update:
  assumes "w < length ts" "steps_left c < steps_left (ts ! w)"
  shows "sum_list (map steps_left (ts[w := c])) < sum_list (map steps_left ts)"
  using assms
proof (induction ts arbitrary: w)
  case (Cons x ts)
  then show ?case
  proof (cases w)
    case (Suc v)
    then show ?thesis using Cons by simp
  qed auto
qed simp

lemma worker_move_less:
  assumes "flagstop p" "worker_move l" "tpn_step l p = Some p'"
  shows "flagstop p' \<and> sum_list (map steps_left (threads p')) < sum_list (map steps_left (threads p))"
  using assms steps_left_update [of _ "threads p"]
  by (cases l) (auto simp: ExecuteTask_take_def ExecuteTask_return_def ExecuteTask_spurious_def Let_def
      split: if_splits worker_pc.splits)

text \<open>
  C25. The pool with one queue: under every interleaving, tasks accepted start in the order they
  were added, those that started are running or finished, none is lost or run twice, and the
  callbacks freed by the pool while it runs are those whose call is over, each once. No wake-up is
  lost: while the pool is not stopped and a worker sleeps, there are at least as many workers about
  to look at the queue as there are tasks in it. Once \<^verbatim>\<open>stop\<close> was called no queued task is started,
  the workers can take only a bounded number of steps, and when none but the caller of \<^verbatim>\<open>stop\<close> (if it
  is a worker) can take one, without help of a spurious wake-up, the others have all ended, so that
  the joins return. (Nothing is said of the tasks still queued at the end: the destructor frees
  only the call-once ones.)
\<close>

theorem normal_pool_fifo_and_stop:
  assumes "reachable tpn_step tpn_init p"
  shows "added p = started p @ map fst (tasks p)
    \<and> mset (started p) = (\<Sum>c \<in># mset (threads p). running c) + mset (finished p) \<and> freed p = finished p
    \<and> (\<not> flagstop p \<and> WAsleep \<in> set (threads p) \<longrightarrow> length (tasks p) \<le> count_list (threads p) WReady)
    \<and> (flagstop p \<longrightarrow>
         (\<forall>ls p'. exec tpn_step ls p = Some p' \<longrightarrow> started p' = started p)
         \<and> (\<forall>ls p'. exec tpn_step ls p = Some p' \<and> list_all worker_move ls \<longrightarrow> length ls \<le> 2 * length (threads p))
         \<and> (\<forall>ls p' me. exec tpn_step ls p = Some p' \<and> (\<forall>w. Some w \<noteq> me \<longrightarrow> tpn_step (NTake w) p' = None \<and> tpn_step (NReturn w) p' = None)
              \<longrightarrow> tpn_stop_join me p'))"
proof -
  have i: "tpn_inv p" using normalpool.reachable_inv [OF assms] .
  have bound: "length ls \<le> 2 * length (threads p)"
    if "flagstop p" and e: "exec tpn_step ls p = Some p'" "list_all worker_move ls" for ls p'
  proof -
    have "length ls + sum_list (map steps_left (threads p')) \<le> sum_list (map steps_left (threads p))"
      using exec_bounded [of flagstop worker_move tpn_step "\<lambda>p. sum_list (map steps_left (threads p))"] worker_move_less that by blast
    also have "\<dots> \<le> sum_list (map (\<lambda>_. 2) (threads p))"
    proof (rule sum_list_mono)
      show "steps_left c \<le> 2" for c :: "'a worker_pc" by (cases c) auto
    qed
    finally show ?thesis by (simp add: sum_list_triv)
  qed
  have joins: "tpn_stop_join me p'"
    if "flagstop p" "exec tpn_step ls p = Some p'" and quiet: "\<forall>w. Some w \<noteq> me \<longrightarrow> tpn_step (NTake w) p' = None \<and> tpn_step (NReturn w) p' = None"
    for ls p' me
    unfolding tpn_stop_join_def
  proof (intro impI allI)
    fix w assume w: "w < length (threads p')" "Some w \<noteq> me"
    have f: "flagstop p'" using stopped_exec [OF that(1,2)] by simp
    have "tpn_inv p'" using normalpool.exec_inv [OF i that(2)] .
    then have "threads p' ! w \<noteq> WAsleep" using f w(1) by (metis tpn_inv_def nth_mem)
    then show "threads p' ! w = WEnded"
      using quiet [rule_format, OF w(2)] w f
      by (cases "threads p' ! w") (auto simp: ExecuteTask_take_def ExecuteTask_return_def Let_def)
  qed
  show ?thesis using i bound joins stopped_exec [of p] unfolding tpn_inv_def n_ready_def by blast
qed

definition normal_run :: "nat tpn_action list" where
  "normal_run = [NTake 0, NTake 1, NAdd 7 True [1], NAdd 8 False [0], NTake 1, NStop, NReturn 1]"

theorem normal_pool_fifo_and_stop_witness:
  "\<exists>p. exec tpn_step normal_run (new_ThreadPoolNormal 2) = Some p
     \<and> flagstop p \<and> started p = [7] \<and> freed p = [7] \<and> (\<forall>ls p'. exec tpn_step ls p = Some p' \<longrightarrow> started p' = [7])"
proof -
  obtain p where p: "exec tpn_step normal_run (new_ThreadPoolNormal 2) = Some p"
    "flagstop p" "started p = [7]" "freed p = [7]"
    by (simp add: normal_run_def new_ThreadPoolNormal_def tpn_addTask_def ExecuteTask_take_def ExecuteTask_return_def
        tpn_stop_request_def Let_def numeral_2_eq_2 signal_wakes_def sleepers_def wake_workers_def)
  have "reachable tpn_step tpn_init (new_ThreadPoolNormal 2 :: nat ThreadPoolNormal)" by (rule reach_init) (auto simp: tpn_init_def)
  from normal_pool_fifo_and_stop [OF reachable_exec [OF this p(1)]] p show ?thesis by auto
qed

end
