(* ===== verification/Circular_Buffer.thy ===== *)
theory Circular_Buffer
  imports Prelude
begin

text \<open>
  The fixed-size circular buffer of integers (\<^verbatim>\<open>circular_buffer.cpp\<close>). A value that was never written is
  \<open>None\<close>; the implementation refines a bounded queue that drops its oldest element when it is full.
\<close>

record cb_slot =
  cb_value :: "int option"
  was_read :: bool

record CircularBuffer =
  cb_slots :: "cb_slot list"
  read_position :: nat
  write_position :: nat
  cb_length :: nat

definition new_CircularBuffer :: "nat \<Rightarrow> CircularBuffer" where
  "new_CircularBuffer slots =
     (let n = (if slots = 0 then 10 else slots)
      in \<lparr>cb_slots = replicate n \<lparr>cb_value = None, was_read = True\<rparr>, read_position = 0, write_position = 0, cb_length = n\<rparr>)"

definition wrap :: "CircularBuffer \<Rightarrow> nat \<Rightarrow> nat" where
  "wrap b p = (if p + 1 = cb_length b then 0 else p + 1)"

definition cb_write :: "int \<Rightarrow> CircularBuffer \<Rightarrow> CircularBuffer" where
  "cb_write value b =
     (let b1 = (if \<not> was_read (cb_slots b ! write_position b) then b\<lparr>read_position := wrap b (read_position b)\<rparr> else b)
      in b1\<lparr>cb_slots := (cb_slots b1)[write_position b1 := \<lparr>cb_value = Some value, was_read = False\<rparr>],
            write_position := wrap b1 (write_position b1)\<rparr>)"

text \<open>\<open>None\<close> stands for reading a value that was never written.\<close>

definition cb_read :: "CircularBuffer \<Rightarrow> (int \<times> CircularBuffer) option" where
  "cb_read b =
     (let s = cb_slots b ! read_position b
      in if was_read s then Some (-1, b)
         else do { temp \<leftarrow> cb_value s;
                   Some (temp, b\<lparr>cb_slots := (cb_slots b)[read_position b := s\<lparr>was_read := True\<rparr>], read_position := wrap b (read_position b)\<rparr>) })"

definition cb_clear :: "CircularBuffer \<Rightarrow> CircularBuffer" where
  "cb_clear b = b\<lparr>cb_slots := map (\<lambda>s. s\<lparr>was_read := True\<rparr>) (cb_slots b), write_position := 0, read_position := 0\<rparr>"

section \<open>Refinement of a bounded queue\<close>

text \<open>\<open>xs\<close> are the values not read yet, the oldest first.\<close>

definition cb_queue :: "CircularBuffer \<Rightarrow> int list \<Rightarrow> bool" where
  "cb_queue b xs \<longleftrightarrow> (let n = cb_length b; r = read_position b in
     length (cb_slots b) = n \<and> r < n \<and> length xs \<le> n \<and> write_position b = (r + length xs) mod n
     \<and> (\<forall>i < n. if i < length xs then cb_slots b ! ((r + i) mod n) = \<lparr>cb_value = Some (xs ! i), was_read = False\<rparr>
                 else was_read (cb_slots b ! ((r + i) mod n))))"

lemma cb_queueI:
  assumes "cb_length b = n" "read_position b = r" "length (cb_slots b) = n" "r < n" "length xs \<le> n" "write_position b = (r + length xs) mod n"
    "\<And>i. i < n \<Longrightarrow> if i < length xs then cb_slots b ! ((r + i) mod n) = \<lparr>cb_value = Some (xs ! i), was_read = False\<rparr>
                 else was_read (cb_slots b ! ((r + i) mod n))"
  shows "cb_queue b xs"
  using assms by (auto simp: cb_queue_def Let_def)

lemma wrap_mod: "p < cb_length b \<Longrightarrow> wrap b p = (p + 1) mod cb_length b"
  by (auto simp: wrap_def)

lemma turn_inj: "i < n \<Longrightarrow> j < n \<Longrightarrow> (r + i) mod n = (r + j) mod n \<longleftrightarrow> i = j" for n :: nat
  using mod_turn_eq [of "r + i" n "r + j"] mod_turn_eq [of "r + j" n "r + i"] by (cases "i \<le> j") auto

lemma cb_queue_new: "cb_queue (new_CircularBuffer n) []"
  by (simp add: cb_queue_def new_CircularBuffer_def Let_def)

lemma cb_queue_clear: "cb_queue b xs \<Longrightarrow> cb_queue (cb_clear b) []"
  by (auto simp: cb_queue_def cb_clear_def Let_def)

lemma cb_queue_read_empty: "cb_queue b [] \<Longrightarrow> cb_read b = Some (-1, b)"
  by (auto simp: cb_queue_def cb_read_def Let_def dest: spec [of _ 0])

lemma cb_queue_read:
  assumes "cb_queue b (x # xs)"
  shows "\<exists>b'. cb_read b = Some (x, b') \<and> cb_queue b' xs \<and> cb_length b' = cb_length b"
proof -
  define n r where "n = cb_length b" and "r = read_position b"
  have q: "length (cb_slots b) = n" "r < n" "Suc (length xs) \<le> n" "write_position b = (r + Suc (length xs)) mod n"
    "\<And>i. i < n \<Longrightarrow> if i < Suc (length xs) then cb_slots b ! ((r + i) mod n) = \<lparr>cb_value = Some ((x # xs) ! i), was_read = False\<rparr>
                 else was_read (cb_slots b ! ((r + i) mod n))"
    using assms by (auto simp: cb_queue_def Let_def n_def r_def)
  have r: "cb_slots b ! r = \<lparr>cb_value = Some x, was_read = False\<rparr>" using q(5) [of 0] q(2) by simp
  define ss where "ss = (cb_slots b)[r := (cb_slots b ! r)\<lparr>was_read := True\<rparr>]"
  define b' where "b' = b\<lparr>cb_slots := ss, read_position := (r + 1) mod n\<rparr>"
  have sl: "cb_slots b' = ss" by (simp add: b'_def)
  have "cb_read b = Some (x, b')" using r q(2) by (simp add: cb_read_def Let_def wrap_mod b'_def ss_def flip: n_def r_def)
  moreover have "cb_queue b' xs"
  proof (rule cb_queueI [of _ n "(r + 1) mod n"])
    fix i assume i: "i < n"
    have "if i < length xs then ss ! (((r + 1) mod n + i) mod n) = \<lparr>cb_value = Some (xs ! i), was_read = False\<rparr>
        else was_read (ss ! (((r + 1) mod n + i) mod n))"
  proof -
    have m: "((r + 1) mod n + i) mod n = (r + Suc i) mod n" by (simp add: mod_simps)
    show ?thesis
    proof (cases "Suc i < n")
      case True
      then have "(r + Suc i) mod n \<noteq> r" using turn_inj [of "Suc i" n 0 r] q(2) by simp
      then have "ss ! ((r + Suc i) mod n) = cb_slots b ! ((r + Suc i) mod n)" using q(1,2) by (simp add: ss_def)
      then show ?thesis using q(5) [OF True] m by (auto split: if_splits)
    next
      case False
      then have "Suc i = n" using i by simp
      then have "ss ! ((r + Suc i) mod n) = (cb_slots b ! r)\<lparr>was_read := True\<rparr>" "\<not> i < length xs" using q(1-3) by (simp_all add: ss_def)
      then show ?thesis using m by simp
    qed
  qed
    then show "if i < length xs then cb_slots b' ! (((r + 1) mod n + i) mod n) = \<lparr>cb_value = Some (xs ! i), was_read = False\<rparr>
        else was_read (cb_slots b' ! (((r + 1) mod n + i) mod n))" unfolding sl .
  qed (use q in \<open>simp_all add: b'_def ss_def n_def r_def mod_simps\<close>)
  ultimately show ?thesis by (simp add: b'_def)
qed

lemma cb_queue_write:
  assumes "cb_queue b xs"
  shows "cb_queue (cb_write v b) (if length xs = cb_length b then tl xs @ [v] else xs @ [v]) \<and> cb_length (cb_write v b) = cb_length b"
proof -
  define n r w where "n = cb_length b" and "r = read_position b" and "w = write_position b"
  have q: "length (cb_slots b) = n" "r < n" "length xs \<le> n" "w = (r + length xs) mod n"
    "\<And>i. i < n \<Longrightarrow> if i < length xs then cb_slots b ! ((r + i) mod n) = \<lparr>cb_value = Some (xs ! i), was_read = False\<rparr>
                 else was_read (cb_slots b ! ((r + i) mod n))"
    using assms by (auto simp: cb_queue_def Let_def n_def r_def w_def)
  define ss where "ss = (cb_slots b)[w := \<lparr>cb_value = Some v, was_read = False\<rparr>]"
  have w: "w < n" using q(2,4) by simp
  have new: "ss ! w = \<lparr>cb_value = Some v, was_read = False\<rparr>" using w q(1) by (simp add: ss_def)
  have keep: "j \<noteq> w \<Longrightarrow> ss ! j = cb_slots b ! j" for j by (simp add: ss_def)
  show ?thesis
  proof (cases "length xs = n")
    case True
    then have wr: "w = r" and ne: "xs \<noteq> []" using q(2,4) by auto
    have "\<not> was_read (cb_slots b ! w)" using q(5) [of 0] q(2) True wr by auto
    then have e: "cb_write v b = b\<lparr>cb_slots := ss, read_position := (r + 1) mod n, write_position := (w + 1) mod n\<rparr>"
      using q(2) w by (simp add: cb_write_def Let_def wrap_mod ss_def wrap_def flip: n_def r_def w_def)
    have "ss ! (((r + 1) mod n + i) mod n) = \<lparr>cb_value = Some ((tl xs @ [v]) ! i), was_read = False\<rparr>" if i: "i < n" for i
    proof -
      have m: "((r + 1) mod n + i) mod n = (r + Suc i) mod n" by (simp add: mod_simps)
      show ?thesis
      proof (cases "Suc i < n")
        case True': True
        then have "(r + Suc i) mod n \<noteq> w" using turn_inj [of "Suc i" n 0 r] q(2) wr by simp
        then show ?thesis using q(5) [OF True'] keep m True True' by (auto simp: nth_append nth_tl split: if_splits)
      next
        case False
        then have "Suc i = n" using i by simp
        then have "(r + Suc i) mod n = w" "i = length (tl xs)" using q(2) wr True by auto
        then show ?thesis using new m by simp
      qed
    qed
    then have "cb_queue (cb_write v b) (tl xs @ [v])"
      by (intro cb_queueI [of _ n "(r + 1) mod n"]) (use q(1-3) True ne wr in \<open>auto simp: e ss_def mod_simps n_def\<close>)
    then show ?thesis using True by (simp add: e n_def)
  next
    case False
    then have l: "length xs < n" using q(3) by simp
    then have "was_read (cb_slots b ! w)" using q(5) [OF l] q(4) by simp
    then have e: "cb_write v b = b\<lparr>cb_slots := ss, write_position := (w + 1) mod n\<rparr>"
      using w by (simp add: cb_write_def Let_def wrap_mod ss_def flip: n_def r_def w_def)
    have sl: "cb_slots (cb_write v b) = ss" by (simp add: e)
    have val: "if i < length (xs @ [v]) then ss ! ((r + i) mod n) = \<lparr>cb_value = Some ((xs @ [v]) ! i), was_read = False\<rparr>
        else was_read (ss ! ((r + i) mod n))" if i: "i < n" for i
    proof (cases "i = length xs")
      case True
      then show ?thesis using new q(4) by simp
    next
      case False
      then have "(r + i) mod n \<noteq> w" using turn_inj [OF i l, of r] q(4) by simp
      then show ?thesis using q(5) [OF i] keep False by (auto simp: nth_append split: if_splits)
    qed
    have "cb_queue (cb_write v b) (xs @ [v])"
    proof (rule cb_queueI [of _ n r])
      fix i assume "i < n"
      from val [OF this] show "if i < length (xs @ [v]) then cb_slots (cb_write v b) ! ((r + i) mod n) = \<lparr>cb_value = Some ((xs @ [v]) ! i), was_read = False\<rparr>
        else was_read (cb_slots (cb_write v b) ! ((r + i) mod n))" unfolding sl .
    qed (use q l in \<open>simp_all add: e ss_def mod_simps n_def r_def\<close>)
    then show ?thesis using False by (simp add: e n_def)
  qed
qed

text \<open>
  C32. The circular buffer refines a bounded queue: a write appends its value and, when the buffer is
  full, drops the oldest one; a read returns and removes the oldest value, or returns -1 and changes
  nothing when there is none; a cleared buffer is empty, and so is a new one.
\<close>

theorem circular_buffer_refines_queue:
  "cb_queue (new_CircularBuffer slots) []
   \<and> (cb_queue b xs \<longrightarrow>
        cb_queue (cb_write v b) (if length xs = cb_length b then tl xs @ [v] else xs @ [v])
        \<and> cb_queue (cb_clear b) []
        \<and> (case xs of [] \<Rightarrow> cb_read b = Some (-1, b) | x # ys \<Rightarrow> \<exists>b'. cb_read b = Some (x, b') \<and> cb_queue b' ys))"
  using cb_queue_new [of slots] cb_queue_write [of b xs v] cb_queue_clear [of b xs] cb_queue_read_empty [of b] cb_queue_read [of b]
  by (cases xs) fastforce+

theorem circular_buffer_refines_queue_witness:
  "cb_queue (new_CircularBuffer 1) [] \<and> cb_queue (cb_write 5 (new_CircularBuffer 1)) [5]
   \<and> cb_read (new_CircularBuffer 1) = Some (-1, new_CircularBuffer 1)"
  using circular_buffer_refines_queue [of 1 "new_CircularBuffer 1" "[]" 5] by (simp add: new_CircularBuffer_def)

end
