(* ===== verification/List_Set.thy ===== *)
theory List_Set
  imports Prelude
begin

text \<open>
  The list-based set of integers under a readers-writer lock (\<^verbatim>\<open>list_set.cpp\<close>). The nodes are private to
  the list, so that the state is the list of the values that can be reached from \<^verbatim>\<open>head\<close>; every
  operation but \<^verbatim>\<open>clear\<close> runs under the lock and is one atomic step. Nodes that are cut off without
  being freed are counted in \<open>leaked\<close>.
\<close>

record ListBasedSet =
  ls_items :: "int list"
  leaked :: nat

definition new_ListBasedSet :: ListBasedSet where
  "new_ListBasedSet = \<lparr>ls_items = [], leaked = 0\<rparr>"

text \<open>The search loop of \<^verbatim>\<open>insert\<close> and the linking of the new node in front of \<^verbatim>\<open>current\<close>.\<close>

fun insert_at :: "int \<Rightarrow> int list \<Rightarrow> bool \<times> int list" where
  "insert_at value [] = (True, [value])"
| "insert_at value (x # xs) =
     (if x > value then (True, value # x # xs)
      else if x = value then (False, x # xs)
      else case insert_at value xs of (r, ys) \<Rightarrow> (r, x # ys))"

definition ls_insert :: "int \<Rightarrow> ListBasedSet \<Rightarrow> bool \<times> ListBasedSet" where
  "ls_insert value s = (case insert_at value (ls_items s) of (r, ys) \<Rightarrow> (r, s\<lparr>ls_items := ys\<rparr>))"

text \<open>The search loop of \<^verbatim>\<open>remove\<close> behind the first node.\<close>

fun unlink_at :: "int \<Rightarrow> int list \<Rightarrow> bool \<times> int list" where
  "unlink_at value [] = (False, [])"
| "unlink_at value (x # xs) = (if x = value then (True, xs) else case unlink_at value xs of (r, ys) \<Rightarrow> (r, x # ys))"

text \<open>When the first node holds the value, \<^verbatim>\<open>head\<close> becomes NULL and only that node is freed.\<close>

definition ls_remove :: "int \<Rightarrow> ListBasedSet \<Rightarrow> bool \<times> ListBasedSet" where
  "ls_remove value s =
     (case ls_items s of
        [] \<Rightarrow> (False, s)
      | x # xs \<Rightarrow>
          if x = value then (True, s\<lparr>ls_items := [], leaked := leaked s + length xs\<rparr>)
          else (case unlink_at value xs of (r, ys) \<Rightarrow> (r, s\<lparr>ls_items := x # ys\<rparr>)))"

fun find_at :: "int \<Rightarrow> int list \<Rightarrow> bool" where
  "find_at value [] = False"
| "find_at value (x # xs) = (if x = value then True else find_at value xs)"

definition ls_lookup :: "int \<Rightarrow> ListBasedSet \<Rightarrow> bool" where
  "ls_lookup value s = find_at value (ls_items s)"

definition ls_clear :: "ListBasedSet \<Rightarrow> ListBasedSet" where
  "ls_clear s = s\<lparr>ls_items := []\<rparr>"

fun ordered_from :: "int \<Rightarrow> int list \<Rightarrow> bool" where
  "ordered_from previous [] = True"
| "ordered_from previous (x # xs) = (if previous \<ge> x then False else ordered_from x xs)"

definition ls_checkIntegrity :: "ListBasedSet \<Rightarrow> bool" where
  "ls_checkIntegrity s = (case ls_items s of [] \<Rightarrow> True | [x] \<Rightarrow> True | x # xs \<Rightarrow> ordered_from x xs)"

section \<open>Refinement of a set\<close>

abbreviation ls_ok :: "ListBasedSet \<Rightarrow> bool" where
  "ls_ok s \<equiv> sorted_wrt (<) (ls_items s)"

lemma insert_at_spec:
  "sorted_wrt (<) xs \<Longrightarrow> insert_at v xs = (r, ys) \<Longrightarrow> r = (v \<notin> set xs) \<and> sorted_wrt (<) ys \<and> set ys = insert v (set xs)"
proof (induction xs arbitrary: ys)
  case (Cons x xs)
  show ?case
  proof (cases "x < v")
    case True
    then obtain zs where z: "insert_at v xs = (r, zs)" "ys = x # zs" using Cons.prems(2) by (auto split: prod.splits)
    with Cons True show ?thesis by auto
  next
    case False
    then show ?thesis using Cons.prems by (force split: if_splits)
  qed
qed auto

lemma unlink_at_spec:
  "sorted_wrt (<) xs \<Longrightarrow> unlink_at v xs = (r, ys) \<Longrightarrow> r = (v \<in> set xs) \<and> sorted_wrt (<) ys \<and> set ys = set xs - {v}"
proof (induction xs arbitrary: ys)
  case (Cons x xs)
  show ?case
  proof (cases "x = v")
    case False
    then obtain zs where "unlink_at v xs = (r, zs)" "ys = x # zs" using Cons.prems(2) by (auto split: prod.splits)
    with Cons False show ?thesis by auto
  qed (use Cons.prems in auto)
qed auto

lemma find_at_iff: "find_at v xs \<longleftrightarrow> v \<in> set xs"
  by (induction xs) auto

lemma ordered_from_iff: "ordered_from p xs \<longleftrightarrow> sorted_wrt (<) (p # xs)"
proof (induction xs arbitrary: p)
  case (Cons x xs)
  have "sorted_wrt (<) (p # x # xs) \<longleftrightarrow> p < x \<and> sorted_wrt (<) (x # xs)" by fastforce
  then show ?case using Cons.IH by (simp only: ordered_from.simps not_le if_bool_eq_conj) auto
qed simp

lemma checkIntegrity_iff: "ls_checkIntegrity s \<longleftrightarrow> ls_ok s"
  by (auto simp: ls_checkIntegrity_def ordered_from_iff split: list.splits)

text \<open>
  The list refines a set: on an ordered list \<^verbatim>\<open>insert\<close> adds the value and reports whether it was
  new, \<^verbatim>\<open>lookup\<close> decides membership, \<^verbatim>\<open>checkIntegrity\<close> is the order of the list and every operation keeps
  it, and \<^verbatim>\<open>remove\<close> takes out exactly the value, unless it is the smallest one.
\<close>

theorem list_set_refines_set:
  assumes "ls_ok s"
  shows "(\<exists>s'. ls_insert v s = (v \<notin> set (ls_items s), s') \<and> ls_ok s' \<and> set (ls_items s') = insert v (set (ls_items s)))
    \<and> (ls_lookup v s \<longleftrightarrow> v \<in> set (ls_items s)) \<and> ls_checkIntegrity s
    \<and> (\<exists>s'. ls_remove v s = (v \<in> set (ls_items s), s') \<and> ls_ok s'
         \<and> (ls_items s = [] \<or> hd (ls_items s) \<noteq> v \<longrightarrow> set (ls_items s') = set (ls_items s) - {v} \<and> leaked s' = leaked s))"
proof -
  obtain r ys where i: "insert_at v (ls_items s) = (r, ys)" by fastforce
  have "\<exists>s'. ls_remove v s = (v \<in> set (ls_items s), s') \<and> ls_ok s'
       \<and> (ls_items s = [] \<or> hd (ls_items s) \<noteq> v \<longrightarrow> set (ls_items s') = set (ls_items s) - {v} \<and> leaked s' = leaked s)"
  proof (cases "ls_items s")
    case Nil
    then show ?thesis by (simp add: ls_remove_def)
  next
    case (Cons x xs)
    obtain r zs where u: "unlink_at v xs = (r, zs)" by fastforce
    with unlink_at_spec [of xs v r zs] Cons assms show ?thesis by (auto simp: ls_remove_def)
  qed
  then show ?thesis using insert_at_spec [OF assms i] i assms by (auto simp: ls_insert_def ls_lookup_def find_at_iff checkIntegrity_iff)
qed

theorem list_set_refines_set_witness:
  "ls_ok \<lparr>ls_items = [1, 5], leaked = 0\<rparr> \<and> ls_lookup 5 \<lparr>ls_items = [1, 5], leaked = 0\<rparr>
   \<and> (\<exists>s'. ls_remove 5 \<lparr>ls_items = [1, 5], leaked = 0\<rparr> = (True, s') \<and> set (ls_items s') = {1})"
  using list_set_refines_set [of "\<lparr>ls_items = [1, 5], leaked = 0\<rparr>" 5] by auto

text \<open>
  Removing the smallest value of a set removes every other value too, and loses their nodes.
\<close>

theorem remove_first_empties:
  assumes "ls_items s = v # xs"
  shows "ls_remove v s = (True, \<lparr>ls_items = [], leaked = leaked s + length xs\<rparr>) \<and> \<not> ls_lookup w (snd (ls_remove v s))"
  using assms by (simp add: ls_remove_def ls_lookup_def)

end
