(* ===== verification/Param_Map.thy ===== *)
theory Param_Map
  imports Cpp_Text
begin

text \<open>
  Command-line parameters (\<^verbatim>\<open>param_map.cpp\<close>): a map from names to values that \<^verbatim>\<open>addParam\<close> fills with
  defaults and \<^verbatim>\<open>parseArgv\<close> overwrites. \<^verbatim>\<open>printUsage\<close> prints the maps in the order of a hash table
  and is left out.
\<close>

record ParamMap =
  key_to_value :: "string \<rightharpoonup> string"
  key_to_description :: "string \<rightharpoonup> string"
  program_name :: string

definition addParam :: "string \<Rightarrow> string \<Rightarrow> string \<Rightarrow> ParamMap \<Rightarrow> bool \<times> ParamMap" where
  "addParam param default_string description m =
     (if key_to_value m param = None
      then (True, m\<lparr>key_to_value := (key_to_value m)(param \<mapsto> default_string),
                    key_to_description := (case key_to_description m param of
                        None \<Rightarrow> (key_to_description m)(param \<mapsto> description) | Some _ \<Rightarrow> key_to_description m)\<rparr>)
      else (False, m))"

definition new_ParamMap :: ParamMap where
  "new_ParamMap =
     snd (addParam ''help'' '''' ''prints the command usage message'' \<lparr>key_to_value = Map.empty, key_to_description = Map.empty, program_name = ''''\<rparr>)"

definition getParam :: "string \<Rightarrow> ParamMap \<Rightarrow> string option" where
  "getParam param m = key_to_value m param"

text \<open>One argument: \<open>None\<close> when \<^verbatim>\<open>parseArgv\<close> returns false there.\<close>

definition parse_arg :: "string \<Rightarrow> (string \<times> string) option" where
  "parse_arg param =
     (if str_find ''--'' param \<noteq> Some 0 then None
      else let pos = str_find ''='' param
           in if pos = Some 2 then None
              else let (name, value) = (case pos of
                         None \<Rightarrow> (drop 2 param, '''')
                       | Some p \<Rightarrow> (take (p - 2) (drop 2 param), drop (p + 1) param))
                   in if name = ''help'' then None else Some (name, value))"

fun parse_args :: "string list \<Rightarrow> ParamMap \<Rightarrow> bool \<times> ParamMap" where
  "parse_args [] m = (True, m)"
| "parse_args (a # as) m =
     (case parse_arg a of
        None \<Rightarrow> (False, m)
      | Some (name, value) \<Rightarrow> parse_args as (m\<lparr>key_to_value := (key_to_value m)(name \<mapsto> value)\<rparr>))"

text \<open>\<open>None\<close>: there is no \<^verbatim>\<open>argv[0]\<close>.\<close>

definition parseArgv :: "string list \<Rightarrow> ParamMap \<Rightarrow> (bool \<times> ParamMap) option" where
  "parseArgv argv m = (case argv of [] \<Rightarrow> None | p # as \<Rightarrow> Some (parse_args as (m\<lparr>program_name := p\<rparr>)))"

section \<open>Round trip\<close>

text \<open>The forms \<^verbatim>\<open>--name=value\<close> and \<^verbatim>\<open>--name\<close>, and the names they can have.\<close>

fun render :: "string \<times> string option \<Rightarrow> string" where
  "render (name, Some value) = ''--'' @ name @ CHR ''='' # value"
| "render (name, None) = ''--'' @ name"

fun good_param :: "string \<times> string option \<Rightarrow> bool" where
  "good_param (name, value) \<longleftrightarrow> CHR ''='' \<notin> set name \<and> name \<noteq> ''help'' \<and> (value \<noteq> None \<longrightarrow> name \<noteq> [])"

fun value_of :: "string option \<Rightarrow> string" where
  "value_of (Some value) = value"
| "value_of None = ''''"

text \<open>What \<^verbatim>\<open>parseArgv\<close> must refuse: no leading dashes, a value without a name, and the request for help.\<close>

definition malformed :: "string \<Rightarrow> bool" where
  "malformed a \<longleftrightarrow> take 2 a \<noteq> ''--'' \<or> take 3 a = ''--='' \<or> a = ''--help'' \<or> take 7 a = ''--help=''"

lemma str_find_char: "CHR ''='' \<notin> set s \<Longrightarrow> str_find ''='' (s @ CHR ''='' # t) = Some (length s)"
  by (induction s) auto

lemma str_find_no_char: "CHR ''='' \<notin> set s \<Longrightarrow> str_find ''='' s = None"
  by (induction s) auto

lemma str_find_dashes: "str_find ''--'' a = Some 0 \<longleftrightarrow> take 2 a = ''--''"
  by (cases a) auto

text \<open>The four ways an argument can look.\<close>

lemma parse_named: "CHR ''='' \<notin> set n \<Longrightarrow> parse_arg (''--'' @ n) = (if n = ''help'' then None else Some (n, ''''))"
  using str_find_no_char [of "''--'' @ n"] str_find_prefix [of "''--''" n] by (simp add: parse_arg_def)

lemma parse_valued:
  assumes "CHR ''='' \<notin> set n"
  shows "parse_arg (''--'' @ n @ CHR ''='' # v) = (if n = [] \<or> n = ''help'' then None else Some (n, v))"
proof -
  have "str_find ''='' ((''--'' @ n) @ CHR ''='' # v) = Some (length (''--'' @ n))" by (rule str_find_char) (use assms in auto)
  then have "str_find ''='' (''--'' @ n @ CHR ''='' # v) = Some (length n + 2)" by simp
  then show ?thesis using str_find_prefix [of "''--''" "n @ CHR ''='' # v"] by (auto simp: parse_arg_def Let_def)
qed

lemma argument_cases:
  obtains (plain) "take 2 a \<noteq> ''--''" | (named) n where "a = ''--'' @ n" "CHR ''='' \<notin> set n"
    | (valued) n v where "a = ''--'' @ n @ CHR ''='' # v" "CHR ''='' \<notin> set n"
proof (cases "take 2 a = ''--''")
  case True
  then have a: "a = ''--'' @ drop 2 a" by (metis append_take_drop_id)
  show thesis
  proof (cases "CHR ''='' \<in> set (drop 2 a)")
    case True
    then obtain n v where "drop 2 a = n @ CHR ''='' # v" "CHR ''='' \<notin> set n" by (meson split_list_first)
    then show thesis using valued a by metis
  qed (use named a in metis)
qed (use plain in blast)

lemma take_prefix: "take (length p) a = p \<longleftrightarrow> (\<exists>r. a = p @ r)"
  by (metis append_eq_conv_conj append_take_drop_id)

lemma malformed_iff:
  "malformed a \<longleftrightarrow> (\<nexists>r. a = ''--'' @ r) \<or> (\<exists>v. a = ''--'' @ '''' @ CHR ''='' # v) \<or> a = ''--'' @ ''help'' \<or> (\<exists>v. a = ''--'' @ ''help'' @ CHR ''='' # v)"
  using take_prefix [of "''--''" a] take_prefix [of "''--=''" a] take_prefix [of "''--help=''" a]
  by (simp add: malformed_def eval_nat_numeral)

lemma split_unique:
  "c \<notin> set n \<Longrightarrow> c \<notin> set m \<Longrightarrow> n @ c # v = m @ c # w \<longleftrightarrow> n = m \<and> v = w"
proof (induction n arbitrary: m)
  case Nil
  then show ?case by (cases m) auto
next
  case (Cons x n)
  then show ?case by (cases m) auto
qed

lemma named_malformed:
  assumes "CHR ''='' \<notin> set n"
  shows "malformed (''--'' @ n) \<longleftrightarrow> n = ''help''"
proof -
  have "''--'' @ n \<noteq> ''--'' @ m @ CHR ''='' # v" for m v using assms by auto
  then show ?thesis unfolding malformed_iff by (metis same_append_eq)
qed

lemma valued_malformed:
  assumes "CHR ''='' \<notin> set n"
  shows "malformed (''--'' @ n @ CHR ''='' # v) \<longleftrightarrow> n = [] \<or> n = ''help''"
proof -
  have "''--'' @ n @ CHR ''='' # v = ''--'' @ m @ CHR ''='' # w \<longleftrightarrow> n = m \<and> v = w" if "CHR ''='' \<notin> set m" for m w
    unfolding same_append_eq using split_unique [OF assms that] .
  moreover have "''--'' @ n @ CHR ''='' # v \<noteq> ''--'' @ ''help''" by (auto simp: append_eq_Cons_conv)
  moreover have "CHR ''='' \<notin> set ''help''" "CHR ''='' \<notin> set ''''" by simp_all
  ultimately show ?thesis unfolding malformed_iff by (metis append_assoc)
qed

lemma parse_malformed: "parse_arg a = None \<longleftrightarrow> malformed a"
proof (cases a rule: argument_cases)
  case plain
  then show ?thesis by (simp add: parse_arg_def str_find_dashes malformed_def)
next
  case (named n)
  then show ?thesis by (simp add: parse_named named_malformed del: append.simps)
next
  case (valued n v)
  then show ?thesis by (simp add: parse_valued valued_malformed del: append.simps)
qed

lemma render_covers: "malformed a \<or> (\<exists>p. good_param p \<and> a = render p)"
proof (cases a rule: argument_cases)
  case plain
  then show ?thesis by (simp add: malformed_def)
next
  case (named n)
  then have "malformed a \<or> good_param (n, None) \<and> a = render (n, None)" by (simp add: named_malformed del: append.simps)
  then show ?thesis by blast
next
  case (valued n v)
  then have "malformed a \<or> good_param (n, Some v) \<and> a = render (n, Some v)" by (auto simp: valued_malformed simp del: append.simps)
  then show ?thesis by blast
qed

lemma parse_render: "good_param (n, v) \<Longrightarrow> parse_arg (render (n, v)) = Some (n, value_of v)"
  by (cases v) (simp_all add: parse_named parse_valued del: append.simps)

lemma parse_args_render:
  "\<forall>p \<in> set ps. good_param p \<Longrightarrow>
     parse_args (map render ps @ as) m =
       parse_args as (m\<lparr>key_to_value := key_to_value m ++ map_of (rev (map (apsnd value_of) ps))\<rparr>)"
proof (induction ps arbitrary: m)
  case (Cons p ps)
  obtain n v where p: "p = (n, v)" by fastforce
  have "key_to_value m ++ map_of (rev (map (apsnd value_of) (p # ps))) =
      (key_to_value m)(n \<mapsto> value_of v) ++ map_of (rev (map (apsnd value_of) ps))"
    by (simp add: p map_add_def fun_eq_iff split: option.splits)
  then show ?case using Cons parse_render [of n v] p by simp
qed simp

text \<open>
  C33. Parameters written as \<^verbatim>\<open>--name=value\<close> or \<^verbatim>\<open>--name\<close> are read back: every value (the empty one
  for the second form) is found under its name, the last one when a name is repeated, and the other
  names keep their defaults. An argument without the leading dashes, with a value but no name, or that
  is \<^verbatim>\<open>--help\<close>, with a value or without, stops the parsing with the earlier ones recorded; and there
  is no other argument: every string is one of these or one of the two forms.
\<close>

theorem params_roundtrip:
  assumes "\<forall>p \<in> set ps. good_param p"
  shows "\<exists>m'. parseArgv (prog # map render ps) m = Some (True, m') \<and> program_name m' = prog
      \<and> (\<forall>k. getParam k m' = (case map_of (rev ps) k of Some v \<Rightarrow> Some (value_of v) | None \<Rightarrow> getParam k m))
    \<and> (\<forall>bad as. malformed bad \<longrightarrow> parseArgv (prog # map render ps @ bad # as) m = Some (False, m'))
    \<and> (\<forall>a. malformed a \<or> (\<exists>p. good_param p \<and> a = render p))"
proof -
  have "map_of (rev (map (apsnd value_of) ps)) k = map_option value_of (map_of (rev ps) k)" for k
    unfolding rev_map by (simp add: map_of_map apsnd_def map_prod_def)
  moreover have "parse_args (bad # as) m' = (False, m')" if "malformed bad" for bad as m'
    using that by (simp add: parse_malformed [THEN iffD2])
  ultimately show ?thesis
    using parse_args_render [OF assms, of "[]"] parse_args_render [OF assms] render_covers
    by (auto simp: parseArgv_def getParam_def map_add_def simp del: parse_args.simps(2) good_param.simps split: option.splits)
qed

theorem params_roundtrip_witness:
  "\<exists>m'. parseArgv [''prog'', ''--port=80'', ''--verbose''] new_ParamMap = Some (True, m')
     \<and> getParam ''port'' m' = Some ''80'' \<and> getParam ''verbose'' m' = Some ''''
     \<and> parseArgv [''prog'', ''--port=80'', ''--verbose'', ''--=x'', ''--y''] new_ParamMap = Some (False, m')"
proof -
  have "malformed ''--=x''" by (simp add: malformed_def)
  then show ?thesis
    using params_roundtrip [of "[(''port'', Some ''80''), (''verbose'', None)]" "''prog''" new_ParamMap] by fastforce
qed

end
