(* ===== verification/Callback.thy ===== *)
theory Callback
  imports Prelude
begin

text \<open>
  Callbacks (\<^verbatim>\<open>callback_instances.hpp\<close>): a generic model for any number of parameters, the classes and
  factories the header defines for up to three of them, and that every one of these is an instance
  of the generic model.
\<close>

section \<open>The generic model\<close>

text \<open>
  The generated classes \<^verbatim>\<open>CallableOnce_i_b\<close> and \<^verbatim>\<open>CallableMany_i_b\<close> differ only in the number \<open>i\<close> of parameters and
  the number \<open>b\<close> of them that are bound; here the bound arguments and those of the call are lists. A
  target function is named by a number; what the functions do is the argument \<open>funs\<close>. Callback objects
  live on a heap, since a call-once callback deletes itself; \<open>None\<close> is undefined behaviour.
\<close>

record ('o, 'v) Callable =
  target_func :: nat
  target_obj :: 'o
  binds :: "'v list"
  call_once :: bool

record ('o, 'v, 's) cb_world =
  cells :: "nat \<rightharpoonup> ('o, 'v) Callable"
  fresh :: nat
  app :: 's

type_synonym ('o, 'v, 's, 'r) targets = "nat \<Rightarrow> 'o \<Rightarrow> 'v list \<Rightarrow> ('o, 'v, 's) cb_world \<Rightarrow> ('r \<times> ('o, 'v, 's) cb_world) option"

definition new_cell :: "('o, 'v) Callable \<Rightarrow> ('o, 'v, 's) cb_world \<Rightarrow> nat \<times> ('o, 'v, 's) cb_world" where
  "new_cell c w = (fresh w, w\<lparr>cells := (cells w)(fresh w \<mapsto> c), fresh := fresh w + 1\<rparr>)"

definition makeCallableOnce :: "nat \<Rightarrow> 'o \<Rightarrow> 'v list \<Rightarrow> ('o, 'v, 's) cb_world \<Rightarrow> nat \<times> ('o, 'v, 's) cb_world" where
  "makeCallableOnce f obj bs = new_cell \<lparr>target_func = f, target_obj = obj, binds = bs, call_once = True\<rparr>"

definition makeCallableMany :: "nat \<Rightarrow> 'o \<Rightarrow> 'v list \<Rightarrow> ('o, 'v, 's) cb_world \<Rightarrow> nat \<times> ('o, 'v, 's) cb_world" where
  "makeCallableMany f obj bs = new_cell \<lparr>target_func = f, target_obj = obj, binds = bs, call_once = False\<rparr>"

definition delete_cb :: "nat \<Rightarrow> ('o, 'v, 's) cb_world \<Rightarrow> ('o, 'v, 's) cb_world option" where
  "delete_cb c_id w = (if cells w c_id = None then None else Some (w\<lparr>cells := (cells w)(c_id := None)\<rparr>))"

text \<open>The call operator of the two families.\<close>

definition CallableOnce_call :: "('o, 'v, 's, 'r) targets \<Rightarrow> nat \<Rightarrow> ('o, 'v) Callable \<Rightarrow> 'v list \<Rightarrow> ('o, 'v, 's) cb_world
    \<Rightarrow> ('r \<times> ('o, 'v, 's) cb_world) option" where
  "CallableOnce_call funs c_id c args w =
     do { (ret, w1) \<leftarrow> funs (target_func c) (target_obj c) (binds c @ args) w;
          w2 \<leftarrow> delete_cb c_id w1;
          Some (ret, w2) }"

definition CallableMany_call :: "('o, 'v, 's, 'r) targets \<Rightarrow> ('o, 'v) Callable \<Rightarrow> 'v list \<Rightarrow> ('o, 'v, 's) cb_world
    \<Rightarrow> ('r \<times> ('o, 'v, 's) cb_world) option" where
  "CallableMany_call funs c args w = funs (target_func c) (target_obj c) (binds c @ args) w"

definition call :: "('o, 'v, 's, 'r) targets \<Rightarrow> nat \<Rightarrow> 'v list \<Rightarrow> ('o, 'v, 's) cb_world \<Rightarrow> ('r \<times> ('o, 'v, 's) cb_world) option" where
  "call funs c_id args w =
     (case cells w c_id of
        None \<Rightarrow> None
      | Some c \<Rightarrow> if call_once c then CallableOnce_call funs c_id c args w else CallableMany_call funs c args w)"

section \<open>The generated classes\<close>

text \<open>
  \<^verbatim>\<open>CallableOnce_i_b\<close> is the call operator of the class with \<open>i\<close> parameters of which \<open>b\<close> are bound, over the
  members of the object (whose address is \<open>this\<close>), and \<^verbatim>\<open>makeCallableOnce_i_b\<close> the factory for it. The
  specialisations for \<^verbatim>\<open>void\<close> do the same without a result.
\<close>

definition CallableOnce_0_0 :: "('o, 'v, 's, 'r) targets \<Rightarrow> nat \<Rightarrow> nat \<Rightarrow> 'o \<Rightarrow> ('o, 'v, 's) cb_world \<Rightarrow> ('r \<times> ('o, 'v, 's) cb_world) option" where
  "CallableOnce_0_0 funs this f obj w =
     do { (ret, w1) \<leftarrow> funs f obj [] w; w2 \<leftarrow> delete_cb this w1; Some (ret, w2) }"

definition makeCallableOnce_0_0 :: "nat \<Rightarrow> 'o \<Rightarrow> ('o, 'v, 's) cb_world \<Rightarrow> nat \<times> ('o, 'v, 's) cb_world" where
  "makeCallableOnce_0_0 f obj = new_cell \<lparr>target_func = f, target_obj = obj, binds = [], call_once = True\<rparr>"

definition CallableMany_0_0 :: "('o, 'v, 's, 'r) targets \<Rightarrow> nat \<Rightarrow> 'o \<Rightarrow> ('o, 'v, 's) cb_world \<Rightarrow> ('r \<times> ('o, 'v, 's) cb_world) option" where
  "CallableMany_0_0 funs f obj w = funs f obj [] w"

definition makeCallableMany_0_0 :: "nat \<Rightarrow> 'o \<Rightarrow> ('o, 'v, 's) cb_world \<Rightarrow> nat \<times> ('o, 'v, 's) cb_world" where
  "makeCallableMany_0_0 f obj = new_cell \<lparr>target_func = f, target_obj = obj, binds = [], call_once = False\<rparr>"

lemmas callable_0_0 = CallableOnce_0_0_def makeCallableOnce_0_0_def CallableMany_0_0_def makeCallableMany_0_0_def

definition CallableOnce_1_0 :: "('o, 'v, 's, 'r) targets \<Rightarrow> nat \<Rightarrow> nat \<Rightarrow> 'o \<Rightarrow> 'v \<Rightarrow> ('o, 'v, 's) cb_world \<Rightarrow> ('r \<times> ('o, 'v, 's) cb_world) option" where
  "CallableOnce_1_0 funs this f obj arg1 w =
     do { (ret, w1) \<leftarrow> funs f obj [arg1] w; w2 \<leftarrow> delete_cb this w1; Some (ret, w2) }"

definition makeCallableOnce_1_0 :: "nat \<Rightarrow> 'o \<Rightarrow> ('o, 'v, 's) cb_world \<Rightarrow> nat \<times> ('o, 'v, 's) cb_world" where
  "makeCallableOnce_1_0 f obj = new_cell \<lparr>target_func = f, target_obj = obj, binds = [], call_once = True\<rparr>"

definition CallableMany_1_0 :: "('o, 'v, 's, 'r) targets \<Rightarrow> nat \<Rightarrow> 'o \<Rightarrow> 'v \<Rightarrow> ('o, 'v, 's) cb_world \<Rightarrow> ('r \<times> ('o, 'v, 's) cb_world) option" where
  "CallableMany_1_0 funs f obj arg1 w = funs f obj [arg1] w"

definition makeCallableMany_1_0 :: "nat \<Rightarrow> 'o \<Rightarrow> ('o, 'v, 's) cb_world \<Rightarrow> nat \<times> ('o, 'v, 's) cb_world" where
  "makeCallableMany_1_0 f obj = new_cell \<lparr>target_func = f, target_obj = obj, binds = [], call_once = False\<rparr>"

lemmas callable_1_0 = CallableOnce_1_0_def makeCallableOnce_1_0_def CallableMany_1_0_def makeCallableMany_1_0_def

definition CallableOnce_1_1 :: "('o, 'v, 's, 'r) targets \<Rightarrow> nat \<Rightarrow> nat \<Rightarrow> 'o \<Rightarrow> 'v \<Rightarrow> ('o, 'v, 's) cb_world \<Rightarrow> ('r \<times> ('o, 'v, 's) cb_world) option" where
  "CallableOnce_1_1 funs this f obj bind1 w =
     do { (ret, w1) \<leftarrow> funs f obj [bind1] w; w2 \<leftarrow> delete_cb this w1; Some (ret, w2) }"

definition makeCallableOnce_1_1 :: "nat \<Rightarrow> 'o \<Rightarrow> 'v \<Rightarrow> ('o, 'v, 's) cb_world \<Rightarrow> nat \<times> ('o, 'v, 's) cb_world" where
  "makeCallableOnce_1_1 f obj bind1 = new_cell \<lparr>target_func = f, target_obj = obj, binds = [bind1], call_once = True\<rparr>"

definition CallableMany_1_1 :: "('o, 'v, 's, 'r) targets \<Rightarrow> nat \<Rightarrow> 'o \<Rightarrow> 'v \<Rightarrow> ('o, 'v, 's) cb_world \<Rightarrow> ('r \<times> ('o, 'v, 's) cb_world) option" where
  "CallableMany_1_1 funs f obj bind1 w = funs f obj [bind1] w"

definition makeCallableMany_1_1 :: "nat \<Rightarrow> 'o \<Rightarrow> 'v \<Rightarrow> ('o, 'v, 's) cb_world \<Rightarrow> nat \<times> ('o, 'v, 's) cb_world" where
  "makeCallableMany_1_1 f obj bind1 = new_cell \<lparr>target_func = f, target_obj = obj, binds = [bind1], call_once = False\<rparr>"

lemmas callable_1_1 = CallableOnce_1_1_def makeCallableOnce_1_1_def CallableMany_1_1_def makeCallableMany_1_1_def

definition CallableOnce_2_0 :: "('o, 'v, 's, 'r) targets \<Rightarrow> nat \<Rightarrow> nat \<Rightarrow> 'o \<Rightarrow> 'v \<Rightarrow> 'v \<Rightarrow> ('o, 'v, 's) cb_world \<Rightarrow> ('r \<times> ('o, 'v, 's) cb_world) option" where
  "CallableOnce_2_0 funs this f obj arg1 arg2 w =
     do { (ret, w1) \<leftarrow> funs f obj [arg1, arg2] w; w2 \<leftarrow> delete_cb this w1; Some (ret, w2) }"

definition makeCallableOnce_2_0 :: "nat \<Rightarrow> 'o \<Rightarrow> ('o, 'v, 's) cb_world \<Rightarrow> nat \<times> ('o, 'v, 's) cb_world" where
  "makeCallableOnce_2_0 f obj = new_cell \<lparr>target_func = f, target_obj = obj, binds = [], call_once = True\<rparr>"

definition CallableMany_2_0 :: "('o, 'v, 's, 'r) targets \<Rightarrow> nat \<Rightarrow> 'o \<Rightarrow> 'v \<Rightarrow> 'v \<Rightarrow> ('o, 'v, 's) cb_world \<Rightarrow> ('r \<times> ('o, 'v, 's) cb_world) option" where
  "CallableMany_2_0 funs f obj arg1 arg2 w = funs f obj [arg1, arg2] w"

definition makeCallableMany_2_0 :: "nat \<Rightarrow> 'o \<Rightarrow> ('o, 'v, 's) cb_world \<Rightarrow> nat \<times> ('o, 'v, 's) cb_world" where
  "makeCallableMany_2_0 f obj = new_cell \<lparr>target_func = f, target_obj = obj, binds = [], call_once = False\<rparr>"

lemmas callable_2_0 = CallableOnce_2_0_def makeCallableOnce_2_0_def CallableMany_2_0_def makeCallableMany_2_0_def

definition CallableOnce_2_1 :: "('o, 'v, 's, 'r) targets \<Rightarrow> nat \<Rightarrow> nat \<Rightarrow> 'o \<Rightarrow> 'v \<Rightarrow> 'v \<Rightarrow> ('o, 'v, 's) cb_world \<Rightarrow> ('r \<times> ('o, 'v, 's) cb_world) option" where
  "CallableOnce_2_1 funs this f obj bind1 arg1 w =
     do { (ret, w1) \<leftarrow> funs f obj [bind1, arg1] w; w2 \<leftarrow> delete_cb this w1; Some (ret, w2) }"

definition makeCallableOnce_2_1 :: "nat \<Rightarrow> 'o \<Rightarrow> 'v \<Rightarrow> ('o, 'v, 's) cb_world \<Rightarrow> nat \<times> ('o, 'v, 's) cb_world" where
  "makeCallableOnce_2_1 f obj bind1 = new_cell \<lparr>target_func = f, target_obj = obj, binds = [bind1], call_once = True\<rparr>"

definition CallableMany_2_1 :: "('o, 'v, 's, 'r) targets \<Rightarrow> nat \<Rightarrow> 'o \<Rightarrow> 'v \<Rightarrow> 'v \<Rightarrow> ('o, 'v, 's) cb_world \<Rightarrow> ('r \<times> ('o, 'v, 's) cb_world) option" where
  "CallableMany_2_1 funs f obj bind1 arg1 w = funs f obj [bind1, arg1] w"

definition makeCallableMany_2_1 :: "nat \<Rightarrow> 'o \<Rightarrow> 'v \<Rightarrow> ('o, 'v, 's) cb_world \<Rightarrow> nat \<times> ('o, 'v, 's) cb_world" where
  "makeCallableMany_2_1 f obj bind1 = new_cell \<lparr>target_func = f, target_obj = obj, binds = [bind1], call_once = False\<rparr>"

lemmas callable_2_1 = CallableOnce_2_1_def makeCallableOnce_2_1_def CallableMany_2_1_def makeCallableMany_2_1_def

definition CallableOnce_2_2 :: "('o, 'v, 's, 'r) targets \<Rightarrow> nat \<Rightarrow> nat \<Rightarrow> 'o \<Rightarrow> 'v \<Rightarrow> 'v \<Rightarrow> ('o, 'v, 's) cb_world \<Rightarrow> ('r \<times> ('o, 'v, 's) cb_world) option" where
  "CallableOnce_2_2 funs this f obj bind1 bind2 w =
     do { (ret, w1) \<leftarrow> funs f obj [bind1, bind2] w; w2 \<leftarrow> delete_cb this w1; Some (ret, w2) }"

definition makeCallableOnce_2_2 :: "nat \<Rightarrow> 'o \<Rightarrow> 'v \<Rightarrow> 'v \<Rightarrow> ('o, 'v, 's) cb_world \<Rightarrow> nat \<times> ('o, 'v, 's) cb_world" where
  "makeCallableOnce_2_2 f obj bind1 bind2 = new_cell \<lparr>target_func = f, target_obj = obj, binds = [bind1, bind2], call_once = True\<rparr>"

definition CallableMany_2_2 :: "('o, 'v, 's, 'r) targets \<Rightarrow> nat \<Rightarrow> 'o \<Rightarrow> 'v \<Rightarrow> 'v \<Rightarrow> ('o, 'v, 's) cb_world \<Rightarrow> ('r \<times> ('o, 'v, 's) cb_world) option" where
  "CallableMany_2_2 funs f obj bind1 bind2 w = funs f obj [bind1, bind2] w"

definition makeCallableMany_2_2 :: "nat \<Rightarrow> 'o \<Rightarrow> 'v \<Rightarrow> 'v \<Rightarrow> ('o, 'v, 's) cb_world \<Rightarrow> nat \<times> ('o, 'v, 's) cb_world" where
  "makeCallableMany_2_2 f obj bind1 bind2 = new_cell \<lparr>target_func = f, target_obj = obj, binds = [bind1, bind2], call_once = False\<rparr>"

lemmas callable_2_2 = CallableOnce_2_2_def makeCallableOnce_2_2_def CallableMany_2_2_def makeCallableMany_2_2_def

definition CallableOnce_3_0 :: "('o, 'v, 's, 'r) targets \<Rightarrow> nat \<Rightarrow> nat \<Rightarrow> 'o \<Rightarrow> 'v \<Rightarrow> 'v \<Rightarrow> 'v \<Rightarrow> ('o, 'v, 's) cb_world \<Rightarrow> ('r \<times> ('o, 'v, 's) cb_world) option" where
  "CallableOnce_3_0 funs this f obj arg1 arg2 arg3 w =
     do { (ret, w1) \<leftarrow> funs f obj [arg1, arg2, arg3] w; w2 \<leftarrow> delete_cb this w1; Some (ret, w2) }"

definition makeCallableOnce_3_0 :: "nat \<Rightarrow> 'o \<Rightarrow> ('o, 'v, 's) cb_world \<Rightarrow> nat \<times> ('o, 'v, 's) cb_world" where
  "makeCallableOnce_3_0 f obj = new_cell \<lparr>target_func = f, target_obj = obj, binds = [], call_once = True\<rparr>"

definition CallableMany_3_0 :: "('o, 'v, 's, 'r) targets \<Rightarrow> nat \<Rightarrow> 'o \<Rightarrow> 'v \<Rightarrow> 'v \<Rightarrow> 'v \<Rightarrow> ('o, 'v, 's) cb_world \<Rightarrow> ('r \<times> ('o, 'v, 's) cb_world) option" where
  "CallableMany_3_0 funs f obj arg1 arg2 arg3 w = funs f obj [arg1, arg2, arg3] w"

definition makeCallableMany_3_0 :: "nat \<Rightarrow> 'o \<Rightarrow> ('o, 'v, 's) cb_world \<Rightarrow> nat \<times> ('o, 'v, 's) cb_world" where
  "makeCallableMany_3_0 f obj = new_cell \<lparr>target_func = f, target_obj = obj, binds = [], call_once = False\<rparr>"

lemmas callable_3_0 = CallableOnce_3_0_def makeCallableOnce_3_0_def CallableMany_3_0_def makeCallableMany_3_0_def

definition CallableOnce_3_1 :: "('o, 'v, 's, 'r) targets \<Rightarrow> nat \<Rightarrow> nat \<Rightarrow> 'o \<Rightarrow> 'v \<Rightarrow> 'v \<Rightarrow> 'v \<Rightarrow> ('o, 'v, 's) cb_world \<Rightarrow> ('r \<times> ('o, 'v, 's) cb_world) option" where
  "CallableOnce_3_1 funs this f obj bind1 arg1 arg2 w =
     do { (ret, w1) \<leftarrow> funs f obj [bind1, arg1, arg2] w; w2 \<leftarrow> delete_cb this w1; Some (ret, w2) }"

definition makeCallableOnce_3_1 :: "nat \<Rightarrow> 'o \<Rightarrow> 'v \<Rightarrow> ('o, 'v, 's) cb_world \<Rightarrow> nat \<times> ('o, 'v, 's) cb_world" where
  "makeCallableOnce_3_1 f obj bind1 = new_cell \<lparr>target_func = f, target_obj = obj, binds = [bind1], call_once = True\<rparr>"

definition CallableMany_3_1 :: "('o, 'v, 's, 'r) targets \<Rightarrow> nat \<Rightarrow> 'o \<Rightarrow> 'v \<Rightarrow> 'v \<Rightarrow> 'v \<Rightarrow> ('o, 'v, 's) cb_world \<Rightarrow> ('r \<times> ('o, 'v, 's) cb_world) option" where
  "CallableMany_3_1 funs f obj bind1 arg1 arg2 w = funs f obj [bind1, arg1, arg2] w"

definition makeCallableMany_3_1 :: "nat \<Rightarrow> 'o \<Rightarrow> 'v \<Rightarrow> ('o, 'v, 's) cb_world \<Rightarrow> nat \<times> ('o, 'v, 's) cb_world" where
  "makeCallableMany_3_1 f obj bind1 = new_cell \<lparr>target_func = f, target_obj = obj, binds = [bind1], call_once = False\<rparr>"

lemmas callable_3_1 = CallableOnce_3_1_def makeCallableOnce_3_1_def CallableMany_3_1_def makeCallableMany_3_1_def

definition CallableOnce_3_2 :: "('o, 'v, 's, 'r) targets \<Rightarrow> nat \<Rightarrow> nat \<Rightarrow> 'o \<Rightarrow> 'v \<Rightarrow> 'v \<Rightarrow> 'v \<Rightarrow> ('o, 'v, 's) cb_world \<Rightarrow> ('r \<times> ('o, 'v, 's) cb_world) option" where
  "CallableOnce_3_2 funs this f obj bind1 bind2 arg1 w =
     do { (ret, w1) \<leftarrow> funs f obj [bind1, bind2, arg1] w; w2 \<leftarrow> delete_cb this w1; Some (ret, w2) }"

definition makeCallableOnce_3_2 :: "nat \<Rightarrow> 'o \<Rightarrow> 'v \<Rightarrow> 'v \<Rightarrow> ('o, 'v, 's) cb_world \<Rightarrow> nat \<times> ('o, 'v, 's) cb_world" where
  "makeCallableOnce_3_2 f obj bind1 bind2 = new_cell \<lparr>target_func = f, target_obj = obj, binds = [bind1, bind2], call_once = True\<rparr>"

definition CallableMany_3_2 :: "('o, 'v, 's, 'r) targets \<Rightarrow> nat \<Rightarrow> 'o \<Rightarrow> 'v \<Rightarrow> 'v \<Rightarrow> 'v \<Rightarrow> ('o, 'v, 's) cb_world \<Rightarrow> ('r \<times> ('o, 'v, 's) cb_world) option" where
  "CallableMany_3_2 funs f obj bind1 bind2 arg1 w = funs f obj [bind1, bind2, arg1] w"

definition makeCallableMany_3_2 :: "nat \<Rightarrow> 'o \<Rightarrow> 'v \<Rightarrow> 'v \<Rightarrow> ('o, 'v, 's) cb_world \<Rightarrow> nat \<times> ('o, 'v, 's) cb_world" where
  "makeCallableMany_3_2 f obj bind1 bind2 = new_cell \<lparr>target_func = f, target_obj = obj, binds = [bind1, bind2], call_once = False\<rparr>"

lemmas callable_3_2 = CallableOnce_3_2_def makeCallableOnce_3_2_def CallableMany_3_2_def makeCallableMany_3_2_def

definition CallableOnce_3_3 :: "('o, 'v, 's, 'r) targets \<Rightarrow> nat \<Rightarrow> nat \<Rightarrow> 'o \<Rightarrow> 'v \<Rightarrow> 'v \<Rightarrow> 'v \<Rightarrow> ('o, 'v, 's) cb_world \<Rightarrow> ('r \<times> ('o, 'v, 's) cb_world) option" where
  "CallableOnce_3_3 funs this f obj bind1 bind2 bind3 w =
     do { (ret, w1) \<leftarrow> funs f obj [bind1, bind2, bind3] w; w2 \<leftarrow> delete_cb this w1; Some (ret, w2) }"

definition makeCallableOnce_3_3 :: "nat \<Rightarrow> 'o \<Rightarrow> 'v \<Rightarrow> 'v \<Rightarrow> 'v \<Rightarrow> ('o, 'v, 's) cb_world \<Rightarrow> nat \<times> ('o, 'v, 's) cb_world" where
  "makeCallableOnce_3_3 f obj bind1 bind2 bind3 = new_cell \<lparr>target_func = f, target_obj = obj, binds = [bind1, bind2, bind3], call_once = True\<rparr>"

definition CallableMany_3_3 :: "('o, 'v, 's, 'r) targets \<Rightarrow> nat \<Rightarrow> 'o \<Rightarrow> 'v \<Rightarrow> 'v \<Rightarrow> 'v \<Rightarrow> ('o, 'v, 's) cb_world \<Rightarrow> ('r \<times> ('o, 'v, 's) cb_world) option" where
  "CallableMany_3_3 funs f obj bind1 bind2 bind3 w = funs f obj [bind1, bind2, bind3] w"

definition makeCallableMany_3_3 :: "nat \<Rightarrow> 'o \<Rightarrow> 'v \<Rightarrow> 'v \<Rightarrow> 'v \<Rightarrow> ('o, 'v, 's) cb_world \<Rightarrow> nat \<times> ('o, 'v, 's) cb_world" where
  "makeCallableMany_3_3 f obj bind1 bind2 bind3 = new_cell \<lparr>target_func = f, target_obj = obj, binds = [bind1, bind2, bind3], call_once = False\<rparr>"

lemmas callable_3_3 = CallableOnce_3_3_def makeCallableOnce_3_3_def CallableMany_3_3_def makeCallableMany_3_3_def

section \<open>Properties\<close>

text \<open>A target function leaves a callback alone when it neither deletes nor replaces it.\<close>

definition leaves :: "('o, 'v, 's, 'r) targets \<Rightarrow> nat \<Rightarrow> bool" where
  "leaves funs c_id \<longleftrightarrow> (\<forall>f obj vs w r w'. funs f obj vs w = Some (r, w') \<longrightarrow> cells w' c_id = cells w c_id)"

text \<open>
  Callbacks: a call passes the bound arguments before those of the call to the member function
  and returns its result; a call-once callback is gone after its first call, so that a second call is
  undefined, and a call-many callback stays and can be called again, until it is deleted.
\<close>

theorem callbacks:
  assumes "leaves funs c_id" "funs f obj (bs @ args) w1 = Some (r, w2)"
  shows "(makeCallableOnce f obj bs w = (c_id, w1) \<longrightarrow>
           call funs c_id args w1 = Some (r, w2\<lparr>cells := (cells w2)(c_id := None)\<rparr>)
           \<and> call funs c_id args' (w2\<lparr>cells := (cells w2)(c_id := None)\<rparr>) = None)
       \<and> (makeCallableMany f obj bs w = (c_id, w1) \<longrightarrow>
           call funs c_id args w1 = Some (r, w2) \<and> call funs c_id args' w2 = funs f obj (bs @ args') w2
           \<and> (\<exists>w3. delete_cb c_id w2 = Some w3 \<and> call funs c_id args' w3 = None))"
proof (intro conjI impI)
  have c: "cells w2 c_id = cells w1 c_id" using assms by (auto simp: leaves_def)
  {
    assume "makeCallableOnce f obj bs w = (c_id, w1)"
    then have "cells w1 c_id = Some \<lparr>target_func = f, target_obj = obj, binds = bs, call_once = True\<rparr>"
      by (auto simp: makeCallableOnce_def new_cell_def)
    then show "call funs c_id args w1 = Some (r, w2\<lparr>cells := (cells w2)(c_id := None)\<rparr>)"
      "call funs c_id args' (w2\<lparr>cells := (cells w2)(c_id := None)\<rparr>) = None"
      using assms(2) c by (simp_all add: call_def CallableOnce_call_def delete_cb_def)
  }
  {
    assume "makeCallableMany f obj bs w = (c_id, w1)"
    then have "cells w1 c_id = Some \<lparr>target_func = f, target_obj = obj, binds = bs, call_once = False\<rparr>"
      by (auto simp: makeCallableMany_def new_cell_def)
    then show "call funs c_id args w1 = Some (r, w2)" "call funs c_id args' w2 = funs f obj (bs @ args') w2"
      "\<exists>w3. delete_cb c_id w2 = Some w3 \<and> call funs c_id args' w3 = None"
      using assms(2) c by (simp_all add: call_def CallableMany_call_def delete_cb_def)
  }
qed

definition inc_by :: "(unit, nat, nat, unit) targets" where
  "inc_by f obj vs w = Some ((), w\<lparr>app := app w + sum_list vs\<rparr>)"

theorem callbacks_witness:
  "call inc_by 0 [3] \<lparr>cells = [0 \<mapsto> \<lparr>target_func = 0, target_obj = (), binds = [2], call_once = True\<rparr>], fresh = 1, app = 0\<rparr>
   = Some ((), \<lparr>cells = Map.empty, fresh = 1, app = 5\<rparr>)"
  using callbacks [of inc_by 0 0 "()" "[2]" "[3]" "\<lparr>cells = [0 \<mapsto> \<lparr>target_func = 0, target_obj = (), binds = [2], call_once = True\<rparr>], fresh = 1, app = 0\<rparr>"
      "()" "\<lparr>cells = [0 \<mapsto> \<lparr>target_func = 0, target_obj = (), binds = [2], call_once = True\<rparr>], fresh = 1, app = 5\<rparr>"
      "\<lparr>cells = Map.empty, fresh = 0, app = 0\<rparr>"]
  by (simp add: leaves_def inc_by_def makeCallableOnce_def new_cell_def)

text \<open>
  The generated classes: for every number of parameters up to three and every number of them
  bound at creation, calling the callback that the factory made is the call operator of its class, and
  each class passes the bound arguments first and the others after them, in their order.
\<close>

theorem callable_instances:
  "(case makeCallableOnce_0_0 f obj w of (this, w1) \<Rightarrow> call funs this [] w1 = CallableOnce_0_0 funs this f obj w1)
   \<and> (case makeCallableOnce_1_0 f obj w of (this, w1) \<Rightarrow> call funs this [arg1] w1 = CallableOnce_1_0 funs this f obj arg1 w1)
   \<and> (case makeCallableOnce_1_1 f obj bind1 w of (this, w1) \<Rightarrow> call funs this [] w1 = CallableOnce_1_1 funs this f obj bind1 w1)
   \<and> (case makeCallableOnce_2_0 f obj w of (this, w1) \<Rightarrow> call funs this [arg1, arg2] w1 = CallableOnce_2_0 funs this f obj arg1 arg2 w1)
   \<and> (case makeCallableOnce_2_1 f obj bind1 w of (this, w1) \<Rightarrow> call funs this [arg1] w1 = CallableOnce_2_1 funs this f obj bind1 arg1 w1)
   \<and> (case makeCallableOnce_2_2 f obj bind1 bind2 w of (this, w1) \<Rightarrow> call funs this [] w1 = CallableOnce_2_2 funs this f obj bind1 bind2 w1)
   \<and> (case makeCallableOnce_3_0 f obj w of (this, w1) \<Rightarrow> call funs this [arg1, arg2, arg3] w1 = CallableOnce_3_0 funs this f obj arg1 arg2 arg3 w1)
   \<and> (case makeCallableOnce_3_1 f obj bind1 w of (this, w1) \<Rightarrow> call funs this [arg1, arg2] w1 = CallableOnce_3_1 funs this f obj bind1 arg1 arg2 w1)
   \<and> (case makeCallableOnce_3_2 f obj bind1 bind2 w of (this, w1) \<Rightarrow> call funs this [arg1] w1 = CallableOnce_3_2 funs this f obj bind1 bind2 arg1 w1)
   \<and> (case makeCallableOnce_3_3 f obj bind1 bind2 bind3 w of (this, w1) \<Rightarrow> call funs this [] w1 = CallableOnce_3_3 funs this f obj bind1 bind2 bind3 w1)
   \<and> (case makeCallableMany_0_0 f obj w of (this, w1) \<Rightarrow> call funs this [] w1 = CallableMany_0_0 funs f obj w1)
   \<and> (case makeCallableMany_1_0 f obj w of (this, w1) \<Rightarrow> call funs this [arg1] w1 = CallableMany_1_0 funs f obj arg1 w1)
   \<and> (case makeCallableMany_1_1 f obj bind1 w of (this, w1) \<Rightarrow> call funs this [] w1 = CallableMany_1_1 funs f obj bind1 w1)
   \<and> (case makeCallableMany_2_0 f obj w of (this, w1) \<Rightarrow> call funs this [arg1, arg2] w1 = CallableMany_2_0 funs f obj arg1 arg2 w1)
   \<and> (case makeCallableMany_2_1 f obj bind1 w of (this, w1) \<Rightarrow> call funs this [arg1] w1 = CallableMany_2_1 funs f obj bind1 arg1 w1)
   \<and> (case makeCallableMany_2_2 f obj bind1 bind2 w of (this, w1) \<Rightarrow> call funs this [] w1 = CallableMany_2_2 funs f obj bind1 bind2 w1)
   \<and> (case makeCallableMany_3_0 f obj w of (this, w1) \<Rightarrow> call funs this [arg1, arg2, arg3] w1 = CallableMany_3_0 funs f obj arg1 arg2 arg3 w1)
   \<and> (case makeCallableMany_3_1 f obj bind1 w of (this, w1) \<Rightarrow> call funs this [arg1, arg2] w1 = CallableMany_3_1 funs f obj bind1 arg1 arg2 w1)
   \<and> (case makeCallableMany_3_2 f obj bind1 bind2 w of (this, w1) \<Rightarrow> call funs this [arg1] w1 = CallableMany_3_2 funs f obj bind1 bind2 arg1 w1)
   \<and> (case makeCallableMany_3_3 f obj bind1 bind2 bind3 w of (this, w1) \<Rightarrow> call funs this [] w1 = CallableMany_3_3 funs f obj bind1 bind2 bind3 w1)"
  by (intro conjI; simp add: callable_0_0 callable_1_0 callable_1_1 callable_2_0 callable_2_1 callable_2_2 callable_3_0 callable_3_1 callable_3_2 callable_3_3 new_cell_def call_def
      CallableOnce_call_def CallableMany_call_def)

end
