(* ===== verification/Runtime.thy ===== *)
theory Runtime
  imports Prelude
begin

text \<open>
  Parts every component uses: thread creation and the registry of
  threads (\<^verbatim>\<open>thread.cpp\<close>, \<^verbatim>\<open>thread_registry.cpp\<close>), thread-local storage (\<^verbatim>\<open>thread_local.hpp\<close>), log messages
  (\<^verbatim>\<open>log_message.cpp\<close>, \<^verbatim>\<open>log_writer.cpp\<close>), the timer (\<^verbatim>\<open>timer.hpp\<close>) and the generator of operation series
  (\<^verbatim>\<open>op_generator.cpp\<close>).
\<close>

section \<open>Threads\<close>

type_synonym ThreadRegistry = "nat set"

definition registerThread :: "nat \<Rightarrow> ThreadRegistry \<Rightarrow> bool \<times> ThreadRegistry" where
  "registerThread tid ids = (tid \<notin> ids, insert tid ids)"

definition unregisterThread :: "nat \<Rightarrow> ThreadRegistry \<Rightarrow> bool \<times> ThreadRegistry" where
  "unregisterThread tid ids = (tid \<in> ids, ids - {tid})"

definition getAllThreadIDs :: "ThreadRegistry \<Rightarrow> ThreadRegistry" where
  "getAllThreadIDs ids = ids"

text \<open>The function a new thread runs, with what its body does to the rest of the state.\<close>

definition threadFunction :: "nat \<Rightarrow> (ThreadRegistry \<times> 's \<Rightarrow> (ThreadRegistry \<times> 's) option) \<Rightarrow> ThreadRegistry \<times> 's \<Rightarrow> (ThreadRegistry \<times> 's) option" where
  "threadFunction tid body = (\<lambda>(ids, s).
     do { (ids1, s1) \<leftarrow> body (snd (registerThread tid ids), s); Some (snd (unregisterThread tid ids1), s1) })"

text \<open>\<open>rc\<close> is the result of \<^verbatim>\<open>pthread_create\<close>; \<open>None\<close>: the fatal message.\<close>

definition makeThread :: "int \<Rightarrow> nat \<Rightarrow> nat option" where
  "makeThread rc tid = (if rc \<noteq> 0 then None else Some tid)"

text \<open>Thread-local storage: the cell of a thread is allocated when the thread first uses it; a new cell is \<open>None\<close>.\<close>

type_synonym 'a ThreadLocal = "nat \<rightharpoonup> 'a option"

definition getLocalState :: "nat \<Rightarrow> 'a ThreadLocal \<Rightarrow> 'a option \<times> 'a ThreadLocal" where
  "getLocalState me m = (case m me of None \<Rightarrow> (None, m(me \<mapsto> None)) | Some c \<Rightarrow> (c, m))"

definition getVal :: "nat \<Rightarrow> 'a ThreadLocal \<Rightarrow> 'a option \<times> 'a ThreadLocal" where
  "getVal me m = getLocalState me m"

definition setVal :: "nat \<Rightarrow> 'a \<Rightarrow> 'a ThreadLocal \<Rightarrow> 'a ThreadLocal" where
  "setVal me v m = (snd (getLocalState me m))(me \<mapsto> Some v)"

definition destroyLocalKey :: "nat \<Rightarrow> 'a ThreadLocal \<Rightarrow> 'a ThreadLocal" where
  "destroyLocalKey me m = m(me := None)"

section \<open>Log messages\<close>

datatype severity = NORMAL | WARNING | ERROR | FATAL

record Logger =
  log_file :: "string list option"
  exit_on_fatal :: bool
  has_fatal_message :: bool

text \<open>\<open>can_create\<close> says whether \<^verbatim>\<open>fopen\<close> succeeds; a message that cannot be written is lost.\<close>

definition log_write :: "bool \<Rightarrow> string \<Rightarrow> Logger \<Rightarrow> Logger" where
  "log_write can_create msg l =
     (case log_file l of
        Some f \<Rightarrow> l\<lparr>log_file := Some (f @ [msg])\<rparr>
      | None \<Rightarrow> if can_create then l\<lparr>log_file := Some [msg]\<rparr> else l)"

text \<open>The destructor of a message: \<open>Inl\<close> is the exit of the process.\<close>

definition delete_LogMessage :: "bool \<Rightarrow> severity \<Rightarrow> string \<Rightarrow> Logger \<Rightarrow> Logger + Logger" where
  "delete_LogMessage can_create sev msg l =
     (let l1 = log_write can_create msg l
      in if sev = FATAL then if exit_on_fatal l1 then Inl l1 else Inr (l1\<lparr>has_fatal_message := True\<rparr>) else Inr l1)"

section \<open>Timer\<close>

text \<open>Seconds and microseconds; the elapsed time in microseconds.\<close>

record Timer =
  start_time :: "int \<times> int"
  end_time :: "int \<times> int"

definition timer_reset :: Timer where
  "timer_reset = \<lparr>start_time = (0, 0), end_time = (0, 0)\<rparr>"

definition timer_start :: "int \<times> int \<Rightarrow> Timer \<Rightarrow> Timer" where
  "timer_start now t = t\<lparr>start_time := now\<rparr>"

definition timer_end :: "int \<times> int \<Rightarrow> Timer \<Rightarrow> Timer" where
  "timer_end now t = t\<lparr>end_time := now\<rparr>"

definition elapsed :: "Timer \<Rightarrow> int" where
  "elapsed t = (case (start_time t, end_time t) of ((s, u), (s', u')) \<Rightarrow>
     let (sec, usec) = (if u' < u then (s' - 1 - s, u' + 1000000 - u) else (s' - s, u' - u))
     in sec * 1000000 + usec)"

section \<open>Series of operations\<close>

text \<open>\<open>shuffle\<close> is \<^verbatim>\<open>random_shuffle\<close>.\<close>

definition AscPositiveStripe :: "int \<Rightarrow> int \<Rightarrow> nat \<Rightarrow> int list" where
  "AscPositiveStripe num_workers me sz = map (\<lambda>i. num_workers * int i + me + 1) [0..<sz]"

definition DescNegativeStripe :: "int \<Rightarrow> int \<Rightarrow> nat \<Rightarrow> int list" where
  "DescNegativeStripe num_workers me sz = map (\<lambda>i. - (num_workers * int i + me + 1)) [0..<sz]"

definition ShufflePositiveStripe :: "(int list \<Rightarrow> int list) \<Rightarrow> int \<Rightarrow> int \<Rightarrow> nat \<Rightarrow> int list" where
  "ShufflePositiveStripe shuffle num_workers me sz = shuffle (map (\<lambda>i. num_workers * int i + me + 1) [0..<sz])"

definition ShuffleNegativeStripe :: "(int list \<Rightarrow> int list) \<Rightarrow> int \<Rightarrow> int \<Rightarrow> nat \<Rightarrow> int list" where
  "ShuffleNegativeStripe shuffle num_workers me sz = shuffle (map (\<lambda>i. - (num_workers * int i + me + 1)) [0..<sz])"

section \<open>Properties\<close>

text \<open>
  The stripes of the workers partition the first positions: every operation number from 1 to the
  number of workers times the sz belongs to exactly one worker, in ascending order within it, and
  the negative stripes mirror the positive ones.
\<close>

theorem stripes_partition:
  assumes "0 < k"
  shows "(\<Union>me \<in> {0..<int k}. set (AscPositiveStripe (int k) me sz)) = {1..int (k * sz)}
    \<and> (\<forall>a \<in> {0..<int k}. \<forall>b \<in> {0..<int k}. a \<noteq> b \<longrightarrow> set (AscPositiveStripe (int k) a sz) \<inter> set (AscPositiveStripe (int k) b sz) = {})
    \<and> (\<forall>me. sorted_wrt (<) (AscPositiveStripe (int k) me sz) \<and> DescNegativeStripe (int k) me sz = map uminus (AscPositiveStripe (int k) me sz))"
proof (intro conjI ballI allI impI)
  have mem: "x \<in> set (AscPositiveStripe (int k) me sz) \<longleftrightarrow> 0 < x \<and> x \<le> int (k * sz) \<and> (x - 1) mod int k = me"
    if me: "0 \<le> me" "me < int k" for x me
  proof
    assume "x \<in> set (AscPositiveStripe (int k) me sz)"
    then obtain i where i: "i < sz" "x = int k * int i + me + 1" by (auto simp: AscPositiveStripe_def)
    have "k * Suc i \<le> k * sz" using i(1) by (intro mult_le_mono2) simp
    then have "int k * int i + int k \<le> int (k * sz)" by (metis mult_Suc_right of_nat_add of_nat_le_iff of_nat_mult add.commute)
    then show "0 < x \<and> x \<le> int (k * sz) \<and> (x - 1) mod int k = me" using i me by simp
  next
    assume x: "0 < x \<and> x \<le> int (k * sz) \<and> (x - 1) mod int k = me"
    define i where "i = nat ((x - 1) div int k)"
    have d: "0 \<le> (x - 1) div int k" using x assms by (intro div_int_pos_iff [THEN iffD2]) auto
    then have e: "x = int k * int i + me + 1" using x by (simp add: i_def flip: minus_mod_eq_mult_div)
    moreover have "i < sz"
    proof (rule ccontr)
      assume "\<not> i < sz"
      then have "int k * int sz \<le> int k * int i" by (intro mult_left_mono) auto
      moreover have "x \<le> int k * int sz" using x by simp
      ultimately show False using e me by linarith
    qed
    ultimately show "x \<in> set (AscPositiveStripe (int k) me sz)" by (auto simp: AscPositiveStripe_def)
  qed
  show "(\<Union>me \<in> {0..<int k}. set (AscPositiveStripe (int k) me sz)) = {1..int (k * sz)}"
    using assms mem by (force simp: set_eq_iff)
  show "set (AscPositiveStripe (int k) a sz) \<inter> set (AscPositiveStripe (int k) b sz) = {}"
    if "a \<in> {0..<int k}" "b \<in> {0..<int k}" "a \<noteq> b" for a b using that mem [of a] mem [of b] by auto
  show "sorted_wrt (<) (AscPositiveStripe (int k) me sz)" for me
    unfolding AscPositiveStripe_def sorted_wrt_map
  proof (rule sorted_wrt_mono_rel [OF _ strict_sorted_list_of_set [of "{0..<sz}", unfolded sorted_list_of_set_range]])
    fix i j :: nat assume "i < j"
    then have "int k * int i < int k * int j" using assms by simp
    then show "int k * int i + me + 1 < int k * int j + me + 1" by simp
  qed
  show "DescNegativeStripe (int k) me sz = map uminus (AscPositiveStripe (int k) me sz)" for me
    by (simp add: AscPositiveStripe_def DescNegativeStripe_def)
qed

theorem stripes_partition_witness:
  "set (AscPositiveStripe 2 0 3) \<inter> set (AscPositiveStripe 2 1 3) = {}"
  using stripes_partition [of 2 3] by auto

end
