(* ===== verification/Fd_Stream.thy ===== *)
theory Fd_Stream
  imports Prelude
begin

text \<open>
  The stream over a file descriptor (\<^verbatim>\<open>ifdstream.hpp\<close>) and the child process whose standard error is
  read through it (\<^verbatim>\<open>child_process.cpp\<close>). What \<^verbatim>\<open>read\<close> returns is a list of answers, one per call; an
  empty answer stands for the end of the file and for an error, which the code does not distinguish.
\<close>

section \<open>The buffer of the stream\<close>

text \<open>
  \<^verbatim>\<open>buffer\<close> with an uninitialised character as \<open>None\<close>, and the three pointers of \<^verbatim>\<open>streambuf\<close> into it:
  the beginning of the putback area, the read position and the end.
\<close>

record fdinbuf =
  buffer :: "char option list"
  eback :: nat
  gptr :: nat
  egptr :: nat

definition pbSize :: nat where
  "pbSize = 4"

definition bufSize :: nat where
  "bufSize = 1024"

definition setg :: "nat \<Rightarrow> nat \<Rightarrow> nat \<Rightarrow> fdinbuf \<Rightarrow> fdinbuf" where
  "setg b g e f = f\<lparr>eback := b, gptr := g, egptr := e\<rparr>"

definition new_fdinbuf :: fdinbuf where
  "new_fdinbuf = \<lparr>buffer = replicate (bufSize + pbSize) None, eback = pbSize, gptr = pbSize, egptr = pbSize\<rparr>"

text \<open>\<^verbatim>\<open>memmove\<close> of \<open>n\<close> characters, and the characters \<^verbatim>\<open>read\<close> stores.\<close>

definition store_chars :: "nat \<Rightarrow> char option list \<Rightarrow> fdinbuf \<Rightarrow> fdinbuf" where
  "store_chars at cs f = f\<lparr>buffer := take at (buffer f) @ cs @ drop (at + length cs) (buffer f)\<rparr>"

definition memmove :: "nat \<Rightarrow> nat \<Rightarrow> nat \<Rightarrow> fdinbuf \<Rightarrow> fdinbuf" where
  "memmove dst src n f = store_chars dst (take n (drop src (buffer f))) f"

text \<open>
  \<^verbatim>\<open>underflow\<close>: \<open>None\<close> when it would have to read and no answer is left, otherwise the next character, or \<open>None\<close>
  for \<^verbatim>\<open>EOF\<close>, and the answers left.
\<close>

definition underflow :: "string list \<Rightarrow> fdinbuf \<Rightarrow> (char option \<times> string list \<times> fdinbuf) option" where
  "underflow answers f =
     (if gptr f < egptr f then Some (buffer f ! gptr f, answers, f)
      else let numPutback = min (gptr f - eback f) pbSize;
               f1 = memmove (pbSize - numPutback) (gptr f - numPutback) numPutback f
           in case answers of
                [] \<Rightarrow> None
              | a # as \<Rightarrow>
                  if a = [] then Some (None, as, f1)
                  else let new = take bufSize a;
                           f2 = setg (pbSize - numPutback) pbSize (pbSize + length new) (store_chars pbSize (map Some new) f1)
                       in Some (buffer f2 ! gptr f2, as, f2))"

text \<open>\<^verbatim>\<open>sbumpc\<close> and \<^verbatim>\<open>sungetc\<close> of \<^verbatim>\<open>std::streambuf\<close>; \<^verbatim>\<open>pbackfail\<close> is not overridden and fails.\<close>

definition sbumpc :: "string list \<Rightarrow> fdinbuf \<Rightarrow> (char option \<times> string list \<times> fdinbuf) option" where
  "sbumpc answers f =
     do { (c, as, f1) \<leftarrow> underflow answers f;
          Some (c, as, if gptr f1 < egptr f1 then f1\<lparr>gptr := gptr f1 + 1\<rparr> else f1) }"

definition sungetc :: "fdinbuf \<Rightarrow> char option \<times> fdinbuf" where
  "sungetc f = (if eback f < gptr f then (buffer f ! (gptr f - 1), f\<lparr>gptr := gptr f - 1\<rparr>) else (None, f))"

section \<open>What the stream delivers\<close>

text \<open>
  The buffer holds \<open>q\<close>, the last characters of those that were read so far (\<open>h\<close>), at least four of them if
  there were as many, and behind them \<open>r\<close>, the characters that were not read yet.
\<close>

definition holds :: "fdinbuf \<Rightarrow> string \<Rightarrow> string \<Rightarrow> bool" where
  "holds f h r \<longleftrightarrow>
     (\<exists>pre q post h0. buffer f = pre @ map Some q @ map Some r @ post \<and> length (buffer f) = bufSize + pbSize
        \<and> length pre = eback f \<and> gptr f = eback f + length q \<and> egptr f = gptr f + length r
        \<and> h = h0 @ q \<and> min pbSize (length h) \<le> length q)"

lemma holds_new: "holds new_fdinbuf [] []"
proof -
  have "replicate (bufSize + pbSize) None = replicate pbSize None @ replicate bufSize (None :: char option)"
    by (simp only: replicate_add [symmetric] add.commute)
  then show ?thesis
    unfolding holds_def new_fdinbuf_def
    by (intro exI [of _ "replicate pbSize None"] exI [of _ "[]"] exI [of _ "replicate bufSize None"]) simp
qed

lemma holds_next: "holds f h (c # r) \<Longrightarrow> underflow as f = Some (Some c, as, f) \<and> holds (f\<lparr>gptr := gptr f + 1\<rparr>) (h @ [c]) r"
proof -
  assume "holds f h (c # r)"
  then obtain pre q post h0 where b: "buffer f = pre @ map Some q @ map Some (c # r) @ post" "length (buffer f) = bufSize + pbSize"
      "length pre = eback f" "gptr f = eback f + length q" "egptr f = gptr f + length (c # r)" "h = h0 @ q" "min pbSize (length h) \<le> length q"
    unfolding holds_def by blast
  have "buffer f ! gptr f = Some c" using b(1,3,4) by (simp add: nth_append)
  then have "underflow as f = Some (Some c, as, f)" using b(5) by (simp add: underflow_def)
  moreover have "holds (f\<lparr>gptr := gptr f + 1\<rparr>) (h @ [c]) r"
    unfolding holds_def by (intro exI [of _ pre] exI [of _ "q @ [c]"] exI [of _ post] exI [of _ h0]) (use b in auto)
  ultimately show ?thesis ..
qed

text \<open>An empty buffer is filled by the next answer, behind the last four characters.\<close>

lemma holds_fill:
  assumes "holds f h []" "a \<noteq> []" "length a \<le> bufSize"
  shows "\<exists>f'. underflow (a # as) f = Some (Some (hd a), as, f') \<and> holds f' h a"
proof -
  from assms(1) obtain pre q post h0 where b: "buffer f = pre @ map Some q @ post" "length (buffer f) = bufSize + pbSize"
      "length pre = eback f" "gptr f = eback f + length q" "egptr f = gptr f" "h = h0 @ q" "min pbSize (length h) \<le> length q"
    unfolding holds_def by auto
  define np where "np = min (length q) pbSize"
  obtain q1 q2 where q: "q = q1 @ q2" "length q2 = np"
    by (metis append_take_drop_id diff_diff_cancel length_drop min.cobounded1 np_def)
  have np: "min (gptr f - eback f) pbSize = np" "np \<le> pbSize" using b(4) by (auto simp: np_def)
  have src: "take np (drop (gptr f - np) (buffer f)) = map Some q2"
    using b(1,3,4) q by (simp add: drop_append take_append)
  define g where "g = store_chars pbSize (map Some a) (memmove (pbSize - np) (gptr f - np) np f)"
  have g: "buffer g = take (pbSize - np) (buffer f) @ map Some q2 @ map Some a @ drop (pbSize + length a) (buffer f)"
    using np(2) q(2) b(2) by (simp add: g_def memmove_def store_chars_def src take_append drop_append add.commute)
  let ?f = "setg (pbSize - np) pbSize (pbSize + length a) g"
  have l: "length (take (pbSize - np) (buffer f)) = pbSize - np" using b(2) by simp
  have len: "length (buffer g) = bufSize + pbSize" using np(2) q(2) b(2) assms(3) by (simp add: g)
  have h: "holds ?f h a"
    unfolding holds_def
  proof (intro exI conjI)
    show "buffer ?f = take (pbSize - np) (buffer f) @ map Some q2 @ map Some a @ drop (pbSize + length a) (buffer f)" by (simp add: setg_def g)
    show "length (buffer ?f) = bufSize + pbSize" by (simp add: setg_def len)
    show "length (take (pbSize - np) (buffer f)) = eback ?f" using l by (simp add: setg_def del: length_take)
    show "gptr ?f = eback ?f + length q2" using np(2) q(2) by (simp add: setg_def)
    show "egptr ?f = gptr ?f + length a" by (simp add: setg_def)
    show "h = (h0 @ q1) @ q2" using b(6) q(1) by simp
    show "min pbSize (length h) \<le> length q2" using b(7) q(2) by (simp add: np_def)
  qed
  obtain c a' where a: "a = c # a'" using assms(2) by (cases a) auto
  have "buffer ?f ! gptr ?f = Some c" using h unfolding holds_def a by (auto simp: nth_append)
  then have "underflow (a # as) f = Some (Some (hd a), as, ?f)"
    using b(5) assms(2,3) np(1) a by (simp add: underflow_def Let_def g_def)
  with h show ?thesis by blast
qed

fun read_chars :: "nat \<Rightarrow> string list \<Rightarrow> fdinbuf \<Rightarrow> (char option list \<times> string list \<times> fdinbuf) option" where
  "read_chars 0 as f = Some ([], as, f)"
| "read_chars (Suc n) as f =
     do { (c, as1, f1) \<leftarrow> sbumpc as f; (cs, as2, f2) \<leftarrow> read_chars n as1 f1; Some (c # cs, as2, f2) }"

fun unget_chars :: "nat \<Rightarrow> fdinbuf \<Rightarrow> char option list" where
  "unget_chars 0 f = []"
| "unget_chars (Suc k) f = (case sungetc f of (c, f1) \<Rightarrow> c # unget_chars k f1)"

lemma sbumpc_next: "holds f h (c # r) \<Longrightarrow> \<exists>f'. sbumpc as f = Some (Some c, as, f') \<and> holds f' (h @ [c]) r"
  using holds_next [of f h c r as] by (auto simp: sbumpc_def holds_def)

lemma sbumpc_fill:
  assumes "holds f h []" "a \<noteq> []" "length a \<le> bufSize"
  shows "\<exists>f'. sbumpc (a # as) f = Some (Some (hd a), as, f') \<and> holds f' (h @ [hd a]) (tl a)"
proof -
  from holds_fill [OF assms] obtain f' where f: "underflow (a # as) f = Some (Some (hd a), as, f')" "holds f' h (hd a # tl a)"
    using assms(2) by auto
  then have "gptr f' < egptr f'" by (auto simp: holds_def)
  with holds_next [OF f(2), of as] f(1) show ?thesis by (simp add: sbumpc_def)
qed

lemma read_chars_spec:
  assumes "holds f h r" "\<forall>a \<in> set as. a \<noteq> [] \<and> length a \<le> bufSize" "n \<le> length (r @ concat as)"
  shows "\<exists>as' r' f'. read_chars n (as @ later) f = Some (map Some (take n (r @ concat as)), as' @ later, f')
    \<and> holds f' (h @ take n (r @ concat as)) r' \<and> r' @ concat as' = drop n (r @ concat as) \<and> set as' \<subseteq> set as"
  using assms
proof (induction n arbitrary: f h r as)
  case (Suc n)
  show ?case
  proof (cases r)
    case (Cons c r1)
    with sbumpc_next Suc.prems(1) obtain f1 where f1: "sbumpc (as @ later) f = Some (Some c, as @ later, f1)" "holds f1 (h @ [c]) r1" by blast
    from Suc.IH [OF f1(2) Suc.prems(2)] Suc.prems(3) Cons f1(1) show ?thesis by (auto simp: Cons)
  next
    case Nil
    with Suc.prems(3) obtain a as1 where as: "as = a # as1" by (cases as) auto
    with Suc.prems(2) obtain c a1 where a: "a = c # a1" by (cases a) auto
    from sbumpc_fill [of f h a "as1 @ later"] Suc.prems(1,2) Nil as a obtain f1 where
      f1: "sbumpc (as @ later) f = Some (Some c, as1 @ later, f1)" "holds f1 (h @ [c]) a1" by auto
    have "\<forall>a \<in> set as1. a \<noteq> [] \<and> length a \<le> bufSize" "n \<le> length (a1 @ concat as1)" using Suc.prems as a Nil by auto
    from Suc.IH [OF f1(2) this] f1(1) as a Nil show ?thesis by (fastforce)
  qed
qed auto

lemma unget_spec: "holds f h r \<Longrightarrow> k \<le> min pbSize (length h) \<Longrightarrow> unget_chars k f = map Some (take k (rev h))"
proof -
  assume "holds f h r" and k: "k \<le> min pbSize (length h)"
  then obtain pre q post h0 where b: "buffer f = pre @ map Some q @ post" "length pre = eback f" "gptr f = eback f + length q" "h = h0 @ q"
      "min pbSize (length h) \<le> length q"
    unfolding holds_def by blast
  have "unget_chars k g = map Some (take k (rev q))"
    if "buffer g = pre @ map Some q @ post" "length pre = eback g" "gptr g = eback g + length q" "k \<le> length q" for g q k post
    using that
  proof (induction k arbitrary: g q post)
    case (Suc k)
    then obtain q1 c where q: "q = q1 @ [c]" by (cases q rule: rev_cases) auto
    have "buffer g ! (gptr g - 1) = Some c" using Suc.prems(1-3) q by (simp add: nth_append)
    moreover have "unget_chars k (g\<lparr>gptr := gptr g - 1\<rparr>) = map Some (take k (rev q1))"
      by (rule Suc.IH [of _ _ "Some c # post"]) (use Suc.prems q in auto)
    ultimately show ?case using Suc.prems q by (simp add: sungetc_def)
  qed simp
  moreover have "k \<le> length q" using k b(4,5) by linarith
  ultimately have "unget_chars k f = map Some (take k (rev q))" using b(1-3) by blast
  with \<open>k \<le> length q\<close> b(4) show ?thesis by simp
qed

text \<open>
  C36. However the file delivers its bytes, the stream returns them in order and without loss: reading \<open>n\<close> characters
  gives the first \<open>n\<close> of what the calls of \<^verbatim>\<open>read\<close> return together, and after the last one comes \<^verbatim>\<open>EOF\<close>.
  At every point before that \<^verbatim>\<open>EOF\<close> is reported, up to four characters (as many as were read, if
  fewer) can be put back and are the ones last read. After it they need not be: see
  \<open>putback_after_eof\<close> below.
\<close>

theorem fd_stream_delivers:
  assumes "\<forall>a \<in> set as. a \<noteq> [] \<and> length a \<le> bufSize" "n \<le> length (concat as)"
  shows "\<exists>as' f. read_chars n (as @ later) new_fdinbuf = Some (map Some (take n (concat as)), as' @ later, f)
    \<and> (\<forall>k \<le> min pbSize n. unget_chars k f = map Some (take k (rev (take n (concat as)))))
    \<and> (n = length (concat as) \<longrightarrow> as' = [] \<and> (\<forall>later'. later = [] # later' \<longrightarrow> (\<exists>f'. sbumpc later f = Some (None, later', f'))))"
proof -
  from read_chars_spec [OF holds_new assms(1), of n later] assms(2) obtain as' r' f where
    f: "read_chars n (as @ later) new_fdinbuf = Some (map Some (take n (concat as)), as' @ later, f)" "holds f (take n (concat as)) r'"
      "r' @ concat as' = drop n (concat as)" "set as' \<subseteq> set as" by auto
  have "unget_chars k f = map Some (take k (rev (take n (concat as))))" if "k \<le> min pbSize n" for k
    using unget_spec [OF f(2), of k] that assms(2) by simp
  moreover have "as' = [] \<and> (\<exists>f'. later = [] # later' \<longrightarrow> sbumpc later f = Some (None, later', f'))" if "n = length (concat as)" for later'
  proof -
    from f(3) that have "r' = []" "concat as' = []" by auto
    moreover have "as' = []" using \<open>concat as' = []\<close> f(4) assms(1) by (cases as') auto
    moreover from f(2) have "gptr f = egptr f" unfolding holds_def \<open>r' = []\<close> by auto
    ultimately show ?thesis by (auto simp: sbumpc_def underflow_def Let_def memmove_def store_chars_def)
  qed
  ultimately show ?thesis using f(1) by blast
qed

theorem fd_stream_delivers_witness:
  "\<exists>as' f. read_chars 3 ([''ab'', ''c''] @ [[]]) new_fdinbuf = Some ([Some CHR ''a'', Some CHR ''b'', Some CHR ''c''], as' @ [[]], f)
     \<and> unget_chars 2 f = [Some CHR ''c'', Some CHR ''b'']"
proof -
  have "\<exists>as' f. read_chars 3 ([''ab'', ''c''] @ [[]]) new_fdinbuf = Some (map Some (take 3 (concat [''ab'', ''c''])), as' @ [[]], f)
      \<and> (\<forall>k \<le> min pbSize 3. unget_chars k f = map Some (take k (rev (take 3 (concat [''ab'', ''c''])))))"
    using fd_stream_delivers [of "[''ab'', ''c'']" 3 "[[]]"] by (fastforce simp: bufSize_def)
  then obtain as' f where f: "read_chars 3 ([''ab'', ''c''] @ [[]]) new_fdinbuf = Some (map Some (take 3 (concat [''ab'', ''c''])), as' @ [[]], f)"
    "\<forall>k \<le> min pbSize 3. unget_chars k f = map Some (take k (rev (take 3 (concat [''ab'', ''c'']))))" by blast
  have "unget_chars 2 f = map Some (take 2 (rev (take 3 (concat [''ab'', ''c'']))))" using f(2) by (simp add: pbSize_def)
  with f(1) show ?thesis by auto
qed

text \<open>
  At the end of the file \<^verbatim>\<open>underflow\<close> has already moved the last characters, although it leaves the pointers as
  they were: characters that are put back after an \<^verbatim>\<open>EOF\<close> may be wrong. Here the second of the two
  characters that are put back is a copy of the first.
\<close>

theorem putback_after_eof:
  "map_option (\<lambda>(_, _, f). unget_chars 2 f) (read_chars 6 [''abcd'', ''e'', []] new_fdinbuf) = Some [Some CHR ''e'', Some CHR ''e'']"
  by code_simp

section \<open>The child process\<close>

text \<open>
  Which descriptors a process has open, and where its standard error goes. \<open>pipe_end\<close> says of a
  descriptor whether it is the reading (\<open>False\<close>) or writing (\<open>True\<close>) end of the pipe.
\<close>

record process =
  open_fds :: "int \<Rightarrow> bool option"
  std_err :: "bool option"

record ChildProcess =
  child_pid :: int
  pfd :: "(int \<times> int) option"

definition new_ChildProcess :: ChildProcess where
  "new_ChildProcess = \<lparr>child_pid = -1, pfd = None\<rparr>"

definition sys_close :: "int \<Rightarrow> process \<Rightarrow> process" where
  "sys_close fd p = p\<lparr>open_fds := (open_fds p)(fd := None)\<rparr>"

definition dup2_stderr :: "int \<Rightarrow> process \<Rightarrow> process" where
  "dup2_stderr fd p = p\<lparr>std_err := open_fds p fd\<rparr>"

text \<open>
  \<^verbatim>\<open>start\<close> with what \<^verbatim>\<open>pipe\<close> returns (the two descriptors, or \<open>None\<close>) and what \<^verbatim>\<open>fork\<close> returns in this process. The
  second result says whether this process runs the callback of the child.
\<close>

definition start_child :: "(int \<times> int) option \<Rightarrow> int \<Rightarrow> ChildProcess \<times> process \<Rightarrow> bool \<times> bool \<times> ChildProcess \<times> process" where
  "start_child pipe_fds pid cp =
     (case cp of (c, p) \<Rightarrow>
        case pipe_fds of
          None \<Rightarrow> (False, False, c, p)
        | Some (rd, wr) \<Rightarrow>
            let c1 = c\<lparr>pfd := Some (rd, wr), child_pid := pid\<rparr>;
                p1 = p\<lparr>open_fds := (open_fds p)(rd \<mapsto> False, wr \<mapsto> True)\<rparr>
            in if pid = -1 then (False, False, c1, p1)
               else if pid = 0 then (True, True, c1, sys_close wr (dup2_stderr wr (sys_close rd p1)))
               else (True, False, c1, sys_close wr p1))"

text \<open>\<open>waited\<close> is the result of \<^verbatim>\<open>waitpid\<close>, which is the number of the process; its status is dropped.\<close>

definition wait_child :: "(int \<Rightarrow> int) \<Rightarrow> ChildProcess \<Rightarrow> int" where
  "wait_child waited c = waited (child_pid c)"

definition getStderrFD :: "ChildProcess \<Rightarrow> int option" where
  "getStderrFD c = map_option fst (pfd c)"

text \<open>
  After \<^verbatim>\<open>start\<close> the child writes its standard error to the pipe and has no other end of it open, the parent
  has the reading end only, and exactly the child runs the callback. When \<^verbatim>\<open>fork\<close> fails both ends stay open.
\<close>

theorem start_child_pipes:
  assumes "rd \<noteq> wr" "open_fds p rd = None" "open_fds p wr = None" "start_child (Some (rd, wr)) pid (c, p) = (ok, runs, c', p')"
  shows "(pid > 0 \<longrightarrow> ok \<and> \<not> runs \<and> open_fds p' = (open_fds p)(rd \<mapsto> False) \<and> getStderrFD c' = Some rd \<and> std_err p' = std_err p)
    \<and> (pid = 0 \<longrightarrow> ok \<and> runs \<and> open_fds p' = open_fds p \<and> std_err p' = Some True)
    \<and> (pid = -1 \<longrightarrow> \<not> ok \<and> \<not> runs \<and> open_fds p' rd = Some False \<and> open_fds p' wr = Some True)"
  using assms by (auto simp: start_child_def sys_close_def dup2_stderr_def getStderrFD_def fun_eq_iff split: if_splits)

end
