(* ===== verification/Test_Unit.thy ===== *)
theory Test_Unit
  imports Param_Map
begin

text \<open>
  The test registry (\<^verbatim>\<open>test_unit.hpp\<close>) that every test program runs: its cases, the choice of cases by the
  parameters \<^verbatim>\<open>--case\<close> and \<^verbatim>\<open>--listcases\<close>, and the number of errors the program returns. A case is
  its names and what its body adds to the number of its errors.
\<close>

section \<open>Cases\<close>

record TestCase =
  group :: string
  tname :: string
  errors :: int
  testBody :: "int \<Rightarrow> int"

definition fullName :: "TestCase \<Rightarrow> string" where
  "fullName t = group t @ ''('' @ tname t @ '')''"

definition incErrors :: "TestCase \<Rightarrow> TestCase" where
  "incErrors t = t\<lparr>errors := errors t + 1\<rparr>"

text \<open>The expectations: a wrong one counts an error. \<open>expect_fatal\<close> looks at the flag that a fatal message sets.\<close>

definition expect_true :: "bool \<Rightarrow> TestCase \<Rightarrow> TestCase" where
  "expect_true a t = (if \<not> a then incErrors t else t)"

definition expect_false :: "bool \<Rightarrow> TestCase \<Rightarrow> TestCase" where
  "expect_false a t = (if a then incErrors t else t)"

definition expect_eq :: "'a \<Rightarrow> 'a \<Rightarrow> TestCase \<Rightarrow> TestCase" where
  "expect_eq a b t = (if a \<noteq> b then incErrors t else t)"

definition expect_neq :: "'a \<Rightarrow> 'a \<Rightarrow> TestCase \<Rightarrow> TestCase" where
  "expect_neq a b t = (if a = b then incErrors t else t)"

definition expect_gt :: "'a::linorder \<Rightarrow> 'a \<Rightarrow> TestCase \<Rightarrow> TestCase" where
  "expect_gt a b t = (if a \<le> b then incErrors t else t)"

definition expect_gte :: "'a::linorder \<Rightarrow> 'a \<Rightarrow> TestCase \<Rightarrow> TestCase" where
  "expect_gte a b t = (if a < b then incErrors t else t)"

definition expect_fatal :: "(bool \<Rightarrow> bool) \<Rightarrow> TestCase \<Rightarrow> TestCase" where
  "expect_fatal a t = (if \<not> a False then incErrors t else t)"

section \<open>The registry\<close>

record TestRegistry =
  tests :: "TestCase list"
  args :: ParamMap

definition new_TestRegistry :: TestRegistry where
  "new_TestRegistry =
     \<lparr>tests = [],
      args = snd (addParam ''listcases'' ''false'' ''list the test cases for this test''
               (snd (addParam ''case'' ''all'' ''csv list of test cases to run'' new_ParamMap)))\<rparr>"

definition registerCase :: "TestCase \<Rightarrow> TestRegistry \<Rightarrow> TestRegistry" where
  "registerCase t r = r\<lparr>tests := tests r @ [t]\<rparr>"

text \<open>The registry is made on first use; \<open>None\<close> is the null pointer of \<^verbatim>\<open>instance_\<close>.\<close>

definition getInstance :: "TestRegistry option \<Rightarrow> TestRegistry" where
  "getInstance inst = (case inst of None \<Rightarrow> new_TestRegistry | Some r \<Rightarrow> r)"

text \<open>What the program prints, line by line.\<close>

definition runListCases :: "TestRegistry \<Rightarrow> string list" where
  "runListCases r = map fullName (tests r)"

text \<open>
  The names in \<^verbatim>\<open>--case\<close>, with a flag that the case was executed. \<^verbatim>\<open>insert\<close> keeps an entry that is there
  already. \<open>pos + 1\<close> is 0 for \<^verbatim>\<open>npos\<close>, but the loop then ends.
\<close>

function split_cases :: "string \<Rightarrow> (string \<rightharpoonup> bool) \<Rightarrow> string \<rightharpoonup> bool" where
  "split_cases cur flt =
     (case str_find '','' cur of
        None \<Rightarrow> (if flt cur = None then flt(cur \<mapsto> False) else flt)
      | Some pos \<Rightarrow>
          (let name = take pos cur in
           split_cases (drop (pos + 1) cur) (if flt name = None then flt(name \<mapsto> False) else flt)))"
  by pat_completeness auto

lemma str_find_some: "str_find '','' s = Some p \<Longrightarrow> p < length s"
  by (induction s arbitrary: p) (auto split: if_splits option.splits)

termination split_cases
  by (relation "measure (\<lambda>(cur, _). length cur)") (auto dest: str_find_some)

declare split_cases.simps [simp del]

text \<open>One case of the loop, with the filter, the errors and the cases that ran. \<open>filter.empty()\<close> is tested through \<open>all\<close>.\<close>

fun run_tests :: "TestCase list \<Rightarrow> (string \<rightharpoonup> bool) \<Rightarrow> bool \<Rightarrow> int \<Rightarrow> (string \<rightharpoonup> bool) \<times> int \<times> TestCase list" where
  "run_tests [] flt all errs = (flt, errs, [])"
| "run_tests (t # ts) flt all errs =
     (if \<not> all \<and> flt (tname t) = None then (case run_tests ts flt all errs of (f, e, l) \<Rightarrow> (f, e, t # l))
      else let flt1 = (if all then flt else flt(tname t \<mapsto> True));
               t1 = t\<lparr>errors := testBody t (errors t)\<rparr>;
               errs1 = (if errors t1 \<noteq> 0 then errs + errors t1 else errs)
           in case run_tests ts flt1 all errs1 of (f, e, l) \<Rightarrow> (f, e, t1 # l))"

definition runSomeCases :: "string \<Rightarrow> TestRegistry \<Rightarrow> int \<Rightarrow> int \<times> TestRegistry" where
  "runSomeCases cases r errs =
     (let flt = (if cases \<noteq> ''all'' then split_cases cases Map.empty else Map.empty)
      in case run_tests (tests r) flt (cases = ''all'') errs of
           (flt1, errs1, ts) \<Rightarrow> (errs1 + int (card {n. flt1 n = Some False}), r\<lparr>tests := ts\<rparr>))"

text \<open>
  The main program of a test: the errors, the lines of the list, and \<^verbatim>\<open>instance_\<close>, which is deleted.
  \<open>argv\<close> has at least the name of the program.
\<close>

definition runAndResetWithArgs :: "string list \<Rightarrow> TestRegistry \<Rightarrow> (int \<times> string list \<times> TestRegistry option) option" where
  "runAndResetWithArgs argv r =
     do { (ok, m) \<leftarrow> parseArgv argv (args r);
          let r1 = r\<lparr>args := m\<rparr>;
          if \<not> ok then Some (1, [], None)
          else if getParam ''listcases'' m = Some ''true'' then Some (0, runListCases r1, None)
          else case getParam ''case'' m of
                 None \<Rightarrow> Some (0, [], None)
               | Some cases \<Rightarrow> Some (fst (runSomeCases cases r1 0), [], None) }"

section \<open>Which cases run\<close>

fun join :: "string list \<Rightarrow> string" where
  "join [] = ''''"
| "join [n] = n"
| "join (n # ns) = n @ CHR '','' # join ns"

lemma str_find_comma: "CHR '','' \<notin> set n \<Longrightarrow> str_find '','' (n @ CHR '','' # s) = Some (length n)"
  by (induction n) auto

lemma str_find_no_comma: "CHR '','' \<notin> set n \<Longrightarrow> str_find '','' n = None"
  by (induction n) auto

text \<open>The names of the list, not executed yet.\<close>

lemma split_join:
  assumes "ns \<noteq> []" "\<forall>n \<in> set ns. CHR '','' \<notin> set n" "\<forall>n. flt n \<in> {None, Some False}"
  shows "split_cases (join ns) flt = (\<lambda>n. if n \<in> set ns then Some False else flt n)"
  using assms
proof (induction ns arbitrary: flt rule: join.induct)
  case (2 n)
  then show ?case by (subst split_cases.simps) (auto simp: str_find_no_comma fun_eq_iff dest: spec [of _ n])
next
  case (3 n m ns)
  have "split_cases (join (n # m # ns)) flt = split_cases (join (m # ns)) (if flt n = None then flt(n \<mapsto> False) else flt)"
    using 3(3) by (subst split_cases.simps) (simp add: str_find_comma)
  also have "\<dots> = (\<lambda>x. if x \<in> set (m # ns) then Some False else (if flt n = None then flt(n \<mapsto> False) else flt) x)"
    using 3(3,4) by (intro 3(1)) auto
  also have "\<dots> = (\<lambda>x. if x \<in> set (n # m # ns) then Some False else flt x)" using 3(4) [rule_format, of n] by (auto simp: fun_eq_iff)
  finally show ?case .
qed simp

definition body_errors :: "TestCase \<Rightarrow> int" where
  "body_errors t = testBody t (errors t)"

lemma run_all: "run_tests ts flt True errs = (flt, errs + sum_list (map body_errors ts), map (\<lambda>t. t\<lparr>errors := body_errors t\<rparr>) ts)"
  by (induction ts arbitrary: errs) (auto simp: body_errors_def Let_def)

lemma run_some:
  "run_tests ts flt False errs =
     ((\<lambda>n. if flt n \<noteq> None \<and> n \<in> tname ` set ts then Some True else flt n),
      errs + sum_list (map body_errors (filter (\<lambda>t. flt (tname t) \<noteq> None) ts)),
      map (\<lambda>t. if flt (tname t) \<noteq> None then t\<lparr>errors := body_errors t\<rparr> else t) ts)"
proof (induction ts arbitrary: flt errs)
  case (Cons t ts)
  show ?case
  proof (cases "flt (tname t) = None")
    case True
    then show ?thesis by (auto simp: Cons.IH fun_eq_iff)
  next
    case False
    have f: "(flt(tname t \<mapsto> True)) n \<noteq> None \<longleftrightarrow> flt n \<noteq> None" for n using False by auto
    have step: "run_tests (t # ts) flt False errs =
        (case run_tests ts (flt(tname t \<mapsto> True)) False (errs + body_errors t) of (g, e, l) \<Rightarrow> (g, e, t\<lparr>errors := body_errors t\<rparr> # l))"
      using False by (cases "flt (tname t)") (simp_all add: Let_def body_errors_def)
    have g: "(if flt n \<noteq> None \<and> n \<in> tname ` set ts then Some True else (flt(tname t \<mapsto> True)) n)
        = (if flt n \<noteq> None \<and> n \<in> tname ` set (t # ts) then Some True else flt n)" for n using False by auto
    show ?thesis unfolding step Cons.IH f g using False by simp
  qed
qed (auto simp: fun_eq_iff)

text \<open>
  A test program runs exactly the cases it is asked for: all of them for \<^verbatim>\<open>all\<close>, and for a list of
  names separated by commas those whose name is in the list. The result is the number of errors of their
  bodies and, for a list, one more for each name that no case has.
\<close>

theorem selected_cases_run:
  assumes "ns \<noteq> []" "\<forall>n \<in> set ns. CHR '','' \<notin> set n" "ns \<noteq> [''all'']"
  shows "runSomeCases ''all'' r errs =
      (errs + sum_list (map body_errors (tests r)), r\<lparr>tests := map (\<lambda>t. t\<lparr>errors := body_errors t\<rparr>) (tests r)\<rparr>)
    \<and> runSomeCases (join ns) r errs =
      (errs + sum_list (map body_errors (filter (\<lambda>t. tname t \<in> set ns) (tests r))) + int (card (set ns - tname ` set (tests r))),
       r\<lparr>tests := map (\<lambda>t. if tname t \<in> set ns then t\<lparr>errors := body_errors t\<rparr> else t) (tests r)\<rparr>)"
proof
  show "runSomeCases ''all'' r errs =
      (errs + sum_list (map body_errors (tests r)), r\<lparr>tests := map (\<lambda>t. t\<lparr>errors := body_errors t\<rparr>) (tests r)\<rparr>)"
    by (simp add: runSomeCases_def run_all)
  have "join ns \<noteq> ''all''"
  proof
    assume a: "join ns = ''all''"
    from assms(1) consider n where "ns = [n]" | n m l where "ns = n # m # l" by (cases ns rule: join.cases) auto
    then show False
    proof cases
      case 2
      then have "CHR '','' \<in> set (join ns)" by simp
      then show False using a by simp
    qed (use a assms(3) in simp)
  qed
  moreover define flt where "flt = (\<lambda>n. if n \<in> set ns then Some False else None)"
  have s: "split_cases (join ns) Map.empty = flt" using split_join [OF assms(1,2)] by (simp add: flt_def)
  have f: "flt n \<noteq> None \<longleftrightarrow> n \<in> set ns" for n by (auto simp: flt_def)
  have c: "{n. (if flt n \<noteq> None \<and> n \<in> tname ` set (tests r) then Some True else flt n) = Some False} = set ns - tname ` set (tests r)"
    by (auto simp: flt_def)
  ultimately show "runSomeCases (join ns) r errs =
      (errs + sum_list (map body_errors (filter (\<lambda>t. tname t \<in> set ns) (tests r))) + int (card (set ns - tname ` set (tests r))),
       r\<lparr>tests := map (\<lambda>t. if tname t \<in> set ns then t\<lparr>errors := body_errors t\<rparr> else t) (tests r)\<rparr>)"
    by (simp add: runSomeCases_def s run_some c f del: not_None_eq)
qed

theorem selected_cases_run_witness:
  "fst (runSomeCases (join [''a'', ''x'']) \<lparr>tests = [\<lparr>group = ''g'', tname = ''a'', errors = 0, testBody = (\<lambda>e. e + 2)\<rparr>,
      \<lparr>group = ''g'', tname = ''b'', errors = 0, testBody = (\<lambda>e. e + 5)\<rparr>], args = new_ParamMap\<rparr> 0) = 3"
  using selected_cases_run [of "[''a'', ''x'']" "\<lparr>tests = [\<lparr>group = ''g'', tname = ''a'', errors = 0, testBody = (\<lambda>e. e + 2)\<rparr>,
      \<lparr>group = ''g'', tname = ''b'', errors = 0, testBody = (\<lambda>e. e + 5)\<rparr>], args = new_ParamMap\<rparr>" 0]
  by (simp add: body_errors_def)

end
