(* ===== verification/Signals.thy ===== *)
theory Signals
  imports State_Machine
begin

text \<open>
  The handler of fatal signals (\<^verbatim>\<open>signal_handler.cpp\<close>): the faulting thread prints its stack, makes every other
  registered thread print its own, one after the other, and lets the signal kill the process. An
  action is one call of the system; a thread handles a signal that was sent to it at any later time.
\<close>

section \<open>Writing\<close>

text \<open>
  \<^verbatim>\<open>rawWrite\<close> with the answers of \<^verbatim>\<open>write\<close>: the number of bytes, and whether \<^verbatim>\<open>errno\<close> is \<^verbatim>\<open>EINTR\<close> then. The result
  is what was written; \<open>None\<close>: the answers are used up.
\<close>

fun rawWrite :: "(int \<times> bool) list \<Rightarrow> string \<Rightarrow> (string \<times> (int \<times> bool) list) option" where
  "rawWrite [] msg = None"
| "rawWrite ((bytes, eintr) # as) msg = (if bytes \<le> 0 \<and> eintr then rawWrite as msg else Some (take (nat bytes) msg, as))"

text \<open>The first \<open>len\<close> bytes of a string literal in memory, with its terminating zero.\<close>

definition literal :: "string \<Rightarrow> nat \<Rightarrow> string" where
  "literal s len = take len (s @ [CHR 0x00])"

definition start_marker :: string where
  "start_marker = literal (''==== start backtrace ===='' @ [CHR 0x0A]) 27"

definition end_marker :: string where
  "end_marker = literal (''==== end backtrace ===='' @ [CHR 0x0A]) 25"

text \<open>\<^verbatim>\<open>printStackTrace\<close>, when every \<^verbatim>\<open>write\<close> is complete; \<open>frames\<close> are the lines of \<^verbatim>\<open>backtrace_symbols_fd\<close>.\<close>

definition printStackTrace :: "string list \<Rightarrow> string" where
  "printStackTrace frames =
     start_marker
     @ (if length frames > 1 then concat (map (\<lambda>l. l @ [CHR 0x0A]) (drop 2 frames))
        else literal (''Could not get stack trace'' @ [CHR 0x0A]) 27)
     @ end_marker"

text \<open>The lengths in the code are one too large: each marker is written with the zero that ends the literal.\<close>

theorem markers_end_with_zero:
  "start_marker = ''==== start backtrace ===='' @ [CHR 0x0A, CHR 0x00] \<and> end_marker = ''==== end backtrace ===='' @ [CHR 0x0A, CHR 0x00]"
  by (simp add: start_marker_def end_marker_def literal_def)

section \<open>The handlers\<close>

text \<open>
  Where the faulting thread is: in \<open>HLoop\<close> the threads it has not asked yet, in \<open>HWait\<close> the one it waits for
  and the others. Where another thread is: asked but not yet in \<^verbatim>\<open>dumpStackHandler\<close>, between the start
  and the end of its trace, or before its \<^verbatim>\<open>sem_post\<close>.
\<close>

datatype fatal_pc = HIdle | HGot | HBegin | HEnd | HLoop "nat list" | HWait nat "nat list" | HClose | HRaise

datatype dump_pc = DNone | DPending | DBegun | DEnded

datatype piece = Got | Begin | End

record signals =
  in_progress :: bool
  sig_pending :: bool
  sem :: nat
  fatal :: fatal_pc
  dump :: "nat \<Rightarrow> dump_pc"
  out :: "(nat \<times> piece) list"

definition new_signals :: signals where
  "new_signals = \<lparr>in_progress = False, sig_pending = False, sem = 0, fatal = HIdle, dump = (\<lambda>_. DNone), out = []\<rparr>"

text \<open>
  \<^verbatim>\<open>installSignalHandler\<close> with the results of \<^verbatim>\<open>sem_open\<close> and of the two calls of \<^verbatim>\<open>sigaction\<close>; \<open>None\<close> is
  \<^verbatim>\<open>exit(1)\<close>.
\<close>

definition installSignalHandler :: "bool \<Rightarrow> bool \<Rightarrow> bool \<Rightarrow> signals option" where
  "installSignalHandler opened fatal_set dump_set =
     (if \<not> opened then None else if \<not> fatal_set then None else if \<not> dump_set then None else Some new_signals)"

text \<open>
  The signal is blocked in its own handler: when a handler is in progress already, \<^verbatim>\<open>raise\<close> leaves the signal pending
  and the code goes on. \<open>me\<close> is the faulting thread and \<open>ids\<close> what \<^verbatim>\<open>getAllThreadIDs\<close> returns, in the order of the loop.\<close>

definition fatalSignalHandler :: "nat \<Rightarrow> nat list \<Rightarrow> signals \<Rightarrow> signals option" where
  "fatalSignalHandler me ids s =
     (case fatal s of
        HIdle \<Rightarrow> Some (s\<lparr>sig_pending := (sig_pending s \<or> in_progress s), in_progress := True, fatal := HGot\<rparr>)
      | HGot \<Rightarrow> Some (s\<lparr>out := out s @ [(me, Got)], fatal := HBegin\<rparr>)
      | HBegin \<Rightarrow> Some (s\<lparr>out := out s @ [(me, Begin)], fatal := HEnd\<rparr>)
      | HEnd \<Rightarrow> Some (s\<lparr>out := out s @ [(me, End)], fatal := HLoop ids\<rparr>)
      | HLoop [] \<Rightarrow> Some (s\<lparr>fatal := HClose\<rparr>)
      | HLoop (t # ts) \<Rightarrow>
          Some (if t \<noteq> me then s\<lparr>dump := (dump s)(t := DPending), fatal := HWait t ts\<rparr> else s\<lparr>fatal := HLoop ts\<rparr>)
      | HWait t ts \<Rightarrow> if sem s > 0 then Some (s\<lparr>sem := sem s - 1, fatal := HLoop ts\<rparr>) else None
      | HClose \<Rightarrow> Some (s\<lparr>fatal := HRaise\<rparr>)
      | HRaise \<Rightarrow> None)"

definition dumpStackHandler :: "nat \<Rightarrow> signals \<Rightarrow> signals option" where
  "dumpStackHandler t s =
     (case dump s t of
        DNone \<Rightarrow> None
      | DPending \<Rightarrow> Some (s\<lparr>out := out s @ [(t, Begin)], dump := (dump s)(t := DBegun)\<rparr>)
      | DBegun \<Rightarrow> Some (s\<lparr>out := out s @ [(t, End)], dump := (dump s)(t := DEnded)\<rparr>)
      | DEnded \<Rightarrow> Some (s\<lparr>sem := sem s + 1, dump := (dump s)(t := DNone)\<rparr>))"

datatype sig_act = Fatal | Dump nat

fun sig_step :: "nat \<Rightarrow> nat list \<Rightarrow> sig_act \<Rightarrow> signals \<Rightarrow> signals option" where
  "sig_step me ids Fatal s = fatalSignalHandler me ids s"
| "sig_step me ids (Dump t) s = dumpStackHandler t s"

section \<open>The order of the traces\<close>

definition traces :: "nat \<Rightarrow> nat list \<Rightarrow> (nat \<times> piece) list" where
  "traces me dn = [(me, Got), (me, Begin), (me, End)] @ concat (map (\<lambda>t. [(t, Begin), (t, End)]) (filter (\<lambda>t. t \<noteq> me) dn))"

definition sig_inv :: "nat \<Rightarrow> nat list \<Rightarrow> signals \<Rightarrow> bool" where
  "sig_inv me ids s \<longleftrightarrow>
     (case fatal s of
        HWait t ts \<Rightarrow> t \<noteq> me \<and> (\<forall>u. u \<noteq> t \<longrightarrow> dump s u = DNone) \<and>
          (\<exists>dn. ids = dn @ t # ts \<and>
             (case dump s t of
                DPending \<Rightarrow> sem s = 0 \<and> out s = traces me dn
              | DBegun \<Rightarrow> sem s = 0 \<and> out s = traces me dn @ [(t, Begin)]
              | DEnded \<Rightarrow> sem s = 0 \<and> out s = traces me (dn @ [t])
              | DNone \<Rightarrow> sem s = 1 \<and> out s = traces me (dn @ [t])))
      | p \<Rightarrow> sem s = 0 \<and> (\<forall>u. dump s u = DNone) \<and>
          (case p of
             HLoop ts \<Rightarrow> \<exists>dn. ids = dn @ ts \<and> out s = traces me dn
           | HClose \<Rightarrow> out s = traces me ids
           | HRaise \<Rightarrow> out s = traces me ids
           | HBegin \<Rightarrow> out s = [(me, Got)]
           | HEnd \<Rightarrow> out s = [(me, Got), (me, Begin)]
           | _ \<Rightarrow> out s = []))"

lemma traces_add: "t \<noteq> me \<Longrightarrow> traces me (dn @ [t]) = traces me dn @ [(t, Begin), (t, End)]" "traces me (dn @ [me]) = traces me dn"
  by (simp_all add: traces_def)

lemma dumping_awaited: "sig_inv me ids s \<Longrightarrow> dump s t \<noteq> DNone \<Longrightarrow> \<exists>ts. fatal s = HWait t ts"
proof (cases "fatal s")
  case (HWait u ts)
  assume "sig_inv me ids s" "dump s t \<noteq> DNone"
  with HWait have "t = u" by (intro ccontr [of "t = u"]) (auto simp: sig_inv_def)
  with HWait show ?thesis by blast
qed (auto simp: sig_inv_def)

lemma sig_inv_step:
  assumes "sig_inv me ids s" "sig_step me ids a s = Some s'"
  shows "sig_inv me ids s'"
proof (cases a)
  case (Dump t)
  with assms have d: "dumpStackHandler t s = Some s'" by simp
  then have "dump s t \<noteq> DNone" by (auto simp: dumpStackHandler_def)
  then obtain ts where f: "fatal s = HWait t ts" using dumping_awaited [OF assms(1)] by blast
  with assms(1) d show ?thesis by (cases "dump s t") (auto simp: sig_inv_def dumpStackHandler_def traces_add)
next
  case Fatal
  with assms have f: "fatalSignalHandler me ids s = Some s'" by simp
  show ?thesis
  proof (cases "fatal s")
    case (HLoop ts)
    show ?thesis
    proof (cases ts)
      case (Cons t r)
      with HLoop assms(1) f show ?thesis
        by (auto simp: sig_inv_def fatalSignalHandler_def traces_add split: if_splits intro!: exI [of _ "_ @ [me]"])
    qed (use HLoop assms(1) f in \<open>auto simp: sig_inv_def fatalSignalHandler_def\<close>)
  next
    case (HWait t ts)
    with assms(1) f show ?thesis
      by (cases "dump s t") (auto simp: sig_inv_def fatalSignalHandler_def split: if_splits intro!: exI [of _ "_ @ [t]"])
  qed (use assms(1) f in \<open>auto simp: sig_inv_def fatalSignalHandler_def traces_def\<close>)
qed

interpretation signals: machine "sig_step me ids" "\<lambda>s. s = new_signals" "sig_inv me ids" for me ids
  by unfold_locales (simp add: sig_inv_def new_signals_def, rule sig_inv_step)

text \<open>The handshake goes on until the process is killed, and takes a bounded number of steps.\<close>

fun sig_steps_left :: "nat \<Rightarrow> fatal_pc \<Rightarrow> dump_pc \<Rightarrow> nat" where
  "sig_steps_left n HIdle d = 6 * n + 6"
| "sig_steps_left n HGot d = 6 * n + 5"
| "sig_steps_left n HBegin d = 6 * n + 4"
| "sig_steps_left n HEnd d = 6 * n + 3"
| "sig_steps_left n (HLoop ts) d = 6 * length ts + 2"
| "sig_steps_left n (HWait t ts) d = 6 * length ts + 3 + (case d of DPending \<Rightarrow> 3 | DBegun \<Rightarrow> 2 | DEnded \<Rightarrow> 1 | DNone \<Rightarrow> 0)"
| "sig_steps_left n HClose d = 1"
| "sig_steps_left n HRaise d = 0"

definition waits_for :: "fatal_pc \<Rightarrow> nat" where
  "waits_for p = (case p of HWait t _ \<Rightarrow> t | _ \<Rightarrow> 0)"

definition left :: "nat list \<Rightarrow> signals \<Rightarrow> nat" where
  "left ids s = sig_steps_left (length ids) (fatal s) (dump s (waits_for (fatal s)))"

lemma left_decreases:
  assumes "sig_inv me ids s" "sig_step me ids a s = Some s'"
  shows "left ids s' < left ids s"
proof (cases a)
  case (Dump t)
  with assms have d: "dumpStackHandler t s = Some s'" by simp
  then have "dump s t \<noteq> DNone" by (auto simp: dumpStackHandler_def)
  then obtain ts where f: "fatal s = HWait t ts" using dumping_awaited [OF assms(1)] by blast
  with d show ?thesis by (cases "dump s t") (auto simp: left_def waits_for_def dumpStackHandler_def)
next
  case Fatal
  with assms have f: "fatalSignalHandler me ids s = Some s'" by simp
  show ?thesis
  proof (cases "fatal s")
    case (HLoop ts)
    with f show ?thesis by (cases ts) (auto simp: left_def waits_for_def fatalSignalHandler_def)
  qed (use f in \<open>auto simp: left_def waits_for_def fatalSignalHandler_def split: if_splits\<close>)
qed

lemma sig_not_stuck:
  assumes "sig_inv me ids s" "fatal s \<noteq> HRaise"
  shows "\<exists>a s'. sig_step me ids a s = Some s'"
proof (cases "fatal s")
  case (HWait t ts)
  show ?thesis
  proof (cases "dump s t = DNone")
    case True
    with assms(1) HWait have "sig_step me ids Fatal s \<noteq> None" by (auto simp: sig_inv_def fatalSignalHandler_def)
    then show ?thesis by blast
  next
    case False
    then have "sig_step me ids (Dump t) s \<noteq> None" by (cases "dump s t") (auto simp: dumpStackHandler_def)
    then show ?thesis by blast
  qed
next
  case (HLoop ts)
  then have "sig_step me ids Fatal s \<noteq> None" by (cases ts) (auto simp: fatalSignalHandler_def)
  then show ?thesis by blast
qed (use assms(2) in \<open>auto simp: fatalSignalHandler_def intro: exI [of _ Fatal]\<close>)

text \<open>
  C37. When a thread faults, every other registered thread prints its stack exactly once, the traces come one
  after the other in the order of the registry, none of them mixed with another, and only then is
  the signal raised again; and this happens after a bounded number of steps, whatever the
  threads do in between.
\<close>

theorem fatal_signal_dumps_all:
  assumes "exec (sig_step me ids) as new_signals = Some s"
  shows "(fatal s = HRaise \<longrightarrow>
      out s = [(me, Got), (me, Begin), (me, End)] @ concat (map (\<lambda>t. [(t, Begin), (t, End)]) (filter (\<lambda>t. t \<noteq> me) ids)))
    \<and> (fatal s \<noteq> HRaise \<longrightarrow> (\<exists>a s'. sig_step me ids a s = Some s')) \<and> length as \<le> 6 * length ids + 6"
proof -
  have i: "sig_inv me ids s"
    using signals.exec_inv [OF signals.init_inv assms] by simp
  have "length as + left ids s \<le> left ids new_signals"
    using exec_bounded [of "sig_inv me ids" "\<lambda>_. True" "sig_step me ids" "left ids" new_signals as s] assms
      sig_inv_step left_decreases signals.init_inv by (auto simp: list_all_iff)
  moreover have "left ids new_signals = 6 * length ids + 6" by (simp add: left_def new_signals_def)
  ultimately show ?thesis using i sig_not_stuck [OF i] by (auto simp: sig_inv_def traces_def)
qed

theorem fatal_signal_dumps_all_witness:
  "\<exists>s. exec (sig_step 1 [1, 2]) [Fatal, Fatal, Fatal, Fatal, Fatal, Fatal, Dump 2, Dump 2, Dump 2, Fatal, Fatal, Fatal] new_signals = Some s
     \<and> out s = [(1, Got), (1, Begin), (1, End), (2, Begin), (2, End)]"
proof -
  let ?as = "[Fatal, Fatal, Fatal, Fatal, Fatal, Fatal, Dump 2, Dump 2, Dump 2, Fatal, Fatal, Fatal]"
  have "case exec (sig_step 1 [1, 2]) ?as new_signals of None \<Rightarrow> False | Some s \<Rightarrow> fatal s = HRaise" by code_simp
  then obtain s where s: "exec (sig_step 1 [1, 2]) ?as new_signals = Some s" "fatal s = HRaise" by (auto split: option.splits)
  from fatal_signal_dumps_all [OF s(1)] s show ?thesis by auto
qed

end
