(* ===== verification/Diagnostics.thy ===== *)
theory Diagnostics
  imports Runtime Cpp_Text
begin

unbundle bit_operations_syntax

text \<open>
  Whole log messages (\<^verbatim>\<open>logging.hpp\<close>, \<^verbatim>\<open>log_message.cpp\<close>) over the writer of \<open>Runtime\<close>, and the clock
  (\<^verbatim>\<open>ticks_clock.cpp\<close>), whose readings of the time stamp counter are arguments.
\<close>

section \<open>Log messages\<close>

record LogMessage =
  msg_stream :: string
  msg_severity :: severity

definition label :: "severity \<Rightarrow> char" where
  "label sev = (case sev of NORMAL \<Rightarrow> CHR '' '' | WARNING \<Rightarrow> CHR ''W'' | ERROR \<Rightarrow> CHR ''E'' | FATAL \<Rightarrow> CHR ''F'')"

definition new_LogMessage :: "string \<Rightarrow> nat \<Rightarrow> severity \<Rightarrow> LogMessage" where
  "new_LogMessage src ln sev =
     \<lparr>msg_stream = [label sev] @ '' '' @ src @ '':'' @ show_nat ln @ '' '', msg_severity = sev\<rparr>"

definition stream :: "string \<Rightarrow> LogMessage \<Rightarrow> LogMessage" where
  "stream body m = m\<lparr>msg_stream := msg_stream m @ body\<rparr>"

definition flush :: "LogMessage \<Rightarrow> LogMessage" where
  "flush m = m\<lparr>msg_stream := msg_stream m @ [CHR 0x0A]\<rparr>"

text \<open>\<^verbatim>\<open>LOG(severity) << text\<close>: the message is built, written by its destructor, and a fatal one ends the process (\<open>Inl\<close>).\<close>

definition LOG :: "bool \<Rightarrow> string \<Rightarrow> nat \<Rightarrow> severity \<Rightarrow> string \<Rightarrow> Logger \<Rightarrow> Logger + Logger" where
  "LOG can_create src ln sev body l =
     (let m = flush (stream body (new_LogMessage src ln sev)) in delete_LogMessage can_create (msg_severity m) (msg_stream m) l)"

definition line_of :: "string \<times> nat \<times> severity \<times> string \<Rightarrow> string" where
  "line_of = (\<lambda>(src, ln, sev, body). [label sev] @ '' '' @ src @ '':'' @ show_nat ln @ '' '' @ body @ [CHR 0x0A])"

fun log_all :: "(bool \<times> string \<times> nat \<times> severity \<times> string) list \<Rightarrow> Logger \<Rightarrow> Logger + Logger" where
  "log_all [] l = Inr l"
| "log_all ((ok, src, ln, sev, body) # ms) l = (case LOG ok src ln sev body l of Inl l1 \<Rightarrow> Inl l1 | Inr l1 \<Rightarrow> log_all ms l1)"

lemma LOG_line:
  assumes "sev \<noteq> FATAL \<or> \<not> exit_on_fatal l"
  shows "LOG ok src ln sev body l =
    Inr ((log_write ok (line_of (src, ln, sev, body)) l)\<lparr>has_fatal_message := has_fatal_message l \<or> sev = FATAL\<rparr>)"
  using assms
  by (cases l) (auto simp: LOG_def delete_LogMessage_def log_write_def flush_def stream_def new_LogMessage_def line_of_def Let_def split: option.splits)

lemma log_all_open:
  assumes "\<forall>(_, _, _, sev, _) \<in> set ms. sev \<noteq> FATAL \<or> \<not> exit_on_fatal l" "log_file l = Some f"
  shows "\<exists>l'. log_all ms l = Inr l' \<and> log_file l' = Some (f @ map (line_of \<circ> snd) ms)"
  using assms
proof (induction ms arbitrary: l f)
  case (Cons m ms)
  obtain ok src ln sev body where m: "m = (ok, src, ln, sev, body)" by (cases m) auto
  let ?l = "(log_write ok (line_of (src, ln, sev, body)) l)\<lparr>has_fatal_message := has_fatal_message l \<or> sev = FATAL\<rparr>"
  have "LOG ok src ln sev body l = Inr ?l" using Cons.prems m by (intro LOG_line) auto
  moreover have "log_file ?l = Some (f @ [line_of (src, ln, sev, body)])" "exit_on_fatal ?l = exit_on_fatal l"
    using Cons.prems(2) by (simp_all add: log_write_def)
  ultimately show ?case using Cons.IH [of ?l "f @ [line_of (src, ln, sev, body)]"] Cons.prems(1) m by auto
qed simp

text \<open>
  The log holds the messages in the order they were made, each on a line with its label, file and line number.
  Messages made before the file could be created are lost, and none after. A fatal message ends the process, unless the tests
  have turned that off.
\<close>

theorem log_in_order:
  assumes "\<forall>(_, _, _, sev, _) \<in> set ms. sev \<noteq> FATAL \<or> \<not> exit_on_fatal l" "log_file l = None"
  shows "\<exists>l'. log_all ms l = Inr l'
    \<and> log_file l' = (case dropWhile (\<lambda>m. \<not> fst m) ms of [] \<Rightarrow> None | ms' \<Rightarrow> Some (map (line_of \<circ> snd) ms'))"
  using assms
proof (induction ms arbitrary: l)
  case (Cons m ms)
  obtain ok src ln sev body where m: "m = (ok, src, ln, sev, body)" by (cases m) auto
  let ?l = "(log_write ok (line_of (src, ln, sev, body)) l)\<lparr>has_fatal_message := has_fatal_message l \<or> sev = FATAL\<rparr>"
  have l: "LOG ok src ln sev body l = Inr ?l" using Cons.prems m by (intro LOG_line) auto
  have ex: "exit_on_fatal ?l = exit_on_fatal l" using Cons.prems(2) by (simp add: log_write_def)
  show ?case
  proof (cases ok)
    case True
    then have "log_file ?l = Some [line_of (src, ln, sev, body)]" using Cons.prems(2) by (simp add: log_write_def)
    from log_all_open [OF _ this, of ms] Cons.prems(1) ex l m True show ?thesis by auto
  next
    case False
    then have "log_file ?l = None" using Cons.prems(2) by (simp add: log_write_def)
    from Cons.IH [OF _ this] Cons.prems(1) ex l m False show ?thesis by auto
  qed
qed simp

section \<open>The clock\<close>

text \<open>\<^verbatim>\<open>rdtsc\<close> leaves the counter in two halves.\<close>

definition getTicks :: "u32 \<Rightarrow> u32 \<Rightarrow> u64" where
  "getTicks hi lo = push_bit 32 (ucast hi) OR ucast lo"

text \<open>The calibration over half a second, and the accessor, which runs it on its first call only.\<close>

definition moduleInit :: "u64 \<Rightarrow> u64 \<Rightarrow> u64" where
  "moduleInit before after = (after - before) * 2"

definition ticksPerSecond :: "u64 \<Rightarrow> u64 \<Rightarrow> u64 option \<Rightarrow> u64 \<times> u64 option" where
  "ticksPerSecond before after once =
     (case once of None \<Rightarrow> (moduleInit before after, Some (moduleInit before after)) | Some v \<Rightarrow> (v, Some v))"

text \<open>The two halves make up the counter, and all calls return the value of the first calibration.\<close>

theorem clock:
  "unat (getTicks hi lo) = unat hi * 2 ^ 32 + unat lo
    \<and> fst (ticksPerSecond b2 a2 (snd (ticksPerSecond b1 a1 None))) = (a1 - b1) * 2"
proof -
  have d: "push_bit 32 (ucast hi :: u64) AND ucast lo = 0"
    by (rule bit_eqI) (auto simp: bit_simps dest: bit_imp_le_length)
  then have "getTicks hi lo = push_bit 32 (ucast hi) + ucast lo" unfolding getTicks_def by (simp add: disjunctive_add_eq_or)
  moreover have "unat (push_bit 32 (ucast hi :: u64)) = unat hi * 2 ^ 32"
  proof -
    have "unat hi < 2 ^ 32" using unsigned_less [of hi] by simp
    then have "unat hi * 2 ^ 32 < (2 :: nat) ^ 64" "unat hi < (2 :: nat) ^ 64" by simp_all
    moreover from this have "unat (ucast hi :: u64) = unat hi" by (simp add: unsigned_ucast_eq take_bit_nat_eq_self)
    moreover have "unat (2 ^ 32 :: u64) = 2 ^ 32" by simp
    ultimately show ?thesis by (simp add: push_bit_eq_mult unat_word_ariths)
  qed
  moreover have "unat (ucast lo :: u64) = unat lo" by (simp add: unsigned_ucast_eq take_bit_nat_eq_self order_less_le_trans [OF unsigned_less])
  moreover have "unat hi * 2 ^ 32 + unat lo < 2 ^ 64"
    using unsigned_less [of hi, where 'a = nat] unsigned_less [of lo, where 'a = nat] by simp
  ultimately show ?thesis by (simp add: unat_word_ariths moduleInit_def ticksPerSecond_def)
qed

end
