(* ===== verification/Mutexes.thy ===== *)
theory Mutexes
  imports State_Machine
begin

text \<open>
  The wrappers around pthreads (\<^verbatim>\<open>lock.hpp\<close>): mutexes, read-write locks, condition variables, the scoped locks
  and the notification, which is built from a mutex and a condition variable. A thread is a number, and
  \<open>None\<close> says that the thread is blocked in the call.
\<close>

section \<open>Mutexes and read-write locks\<close>

record Mutex =
  holder :: "nat option"

definition new_Mutex :: Mutex where
  "new_Mutex = \<lparr>holder = None\<rparr>"

definition mutex_lock :: "nat \<Rightarrow> Mutex \<Rightarrow> Mutex option" where
  "mutex_lock t m = (if holder m = None then Some (m\<lparr>holder := Some t\<rparr>) else None)"

definition mutex_unlock :: "nat \<Rightarrow> Mutex \<Rightarrow> Mutex option" where
  "mutex_unlock t m = (if holder m = Some t then Some (m\<lparr>holder := None\<rparr>) else None)"

record RWMutex =
  readers :: "nat list"
  writer :: "nat option"

definition new_RWMutex :: RWMutex where
  "new_RWMutex = \<lparr>readers = [], writer = None\<rparr>"

definition rLock :: "nat \<Rightarrow> RWMutex \<Rightarrow> RWMutex option" where
  "rLock t m = (if writer m = None then Some (m\<lparr>readers := t # readers m\<rparr>) else None)"

definition wLock :: "nat \<Rightarrow> RWMutex \<Rightarrow> RWMutex option" where
  "wLock t m = (if writer m = None \<and> readers m = [] then Some (m\<lparr>writer := Some t\<rparr>) else None)"

definition rw_unlock :: "nat \<Rightarrow> RWMutex \<Rightarrow> RWMutex option" where
  "rw_unlock t m =
     (if writer m = Some t then Some (m\<lparr>writer := None\<rparr>)
      else if t \<in> set (readers m) then Some (m\<lparr>readers := remove1 t (readers m)\<rparr>)
      else None)"

text \<open>The scoped locks take the lock, run the rest of the block and release it.\<close>

definition scoped :: "('m \<Rightarrow> 'm option) \<Rightarrow> ('m \<Rightarrow> 'm option) \<Rightarrow> ('m \<Rightarrow> 'm option) \<Rightarrow> 'm \<Rightarrow> 'm option" where
  "scoped lk ul block m = do { m1 \<leftarrow> lk m; m2 \<leftarrow> block m1; ul m2 }"

definition ScopedLock :: "nat \<Rightarrow> (Mutex \<Rightarrow> Mutex option) \<Rightarrow> Mutex \<Rightarrow> Mutex option" where
  "ScopedLock t = scoped (mutex_lock t) (mutex_unlock t)"

definition ScopedRLock :: "nat \<Rightarrow> (RWMutex \<Rightarrow> RWMutex option) \<Rightarrow> RWMutex \<Rightarrow> RWMutex option" where
  "ScopedRLock t = scoped (rLock t) (rw_unlock t)"

definition ScopedWLock :: "nat \<Rightarrow> (RWMutex \<Rightarrow> RWMutex option) \<Rightarrow> RWMutex \<Rightarrow> RWMutex option" where
  "ScopedWLock t = scoped (wLock t) (rw_unlock t)"

datatype rw_act = RLock nat | WLock nat | RWUnlock nat

fun rw_step :: "rw_act \<Rightarrow> RWMutex \<Rightarrow> RWMutex option" where
  "rw_step (RLock t) m = rLock t m"
| "rw_step (WLock t) m = wLock t m"
| "rw_step (RWUnlock t) m = rw_unlock t m"

definition rw_inv :: "RWMutex \<Rightarrow> bool" where
  "rw_inv m \<longleftrightarrow> writer m = None \<or> readers m = []"

interpretation rwmutex: machine rw_step "\<lambda>m. m = new_RWMutex" rw_inv
proof unfold_locales
  fix m m' a assume "rw_inv m" "rw_step a m = Some m'"
  then show "rw_inv m'"
    by (cases a) (auto simp: rw_inv_def rLock_def wLock_def rw_unlock_def split: if_splits)
qed (simp add: rw_inv_def new_RWMutex_def)

text \<open>A writer is alone, and a reader stands beside readers only.\<close>

theorem rw_excludes:
  assumes "reachable rw_step (\<lambda>m. m = new_RWMutex) m"
  shows "writer m = Some t \<Longrightarrow> readers m = []" "u \<in> set (readers m) \<Longrightarrow> writer m = None"
  using rwmutex.reachable_inv [OF assms] by (auto simp: rw_inv_def)

section \<open>Condition variables\<close>

text \<open>
  The threads that sleep. \<^verbatim>\<open>signal\<close> wakes the threads \<open>ws\<close>, at least one if there is one, as the system chooses.
\<close>

record ConditionVar =
  sleeping :: "nat list"

definition new_ConditionVar :: ConditionVar where
  "new_ConditionVar = \<lparr>sleeping = []\<rparr>"

definition wake :: "nat list \<Rightarrow> ConditionVar \<Rightarrow> ConditionVar" where
  "wake ws c = c\<lparr>sleeping := filter (\<lambda>u. u \<notin> set ws) (sleeping c)\<rparr>"

definition cv_sleep :: "nat \<Rightarrow> Mutex \<times> ConditionVar \<Rightarrow> (Mutex \<times> ConditionVar) option" where
  "cv_sleep t = (\<lambda>(m, c). do { m1 \<leftarrow> mutex_unlock t m; Some (m1, c\<lparr>sleeping := sleeping c @ [t]\<rparr>) })"

definition cv_return :: "nat \<Rightarrow> Mutex \<times> ConditionVar \<Rightarrow> (Mutex \<times> ConditionVar) option" where
  "cv_return t = (\<lambda>(m, c). if t \<in> set (sleeping c) then None else do { m1 \<leftarrow> mutex_lock t m; Some (m1, c) })"

definition cv_signal :: "nat list \<Rightarrow> ConditionVar \<Rightarrow> ConditionVar option" where
  "cv_signal ws c = (if set ws \<subseteq> set (sleeping c) \<and> (ws = [] \<longrightarrow> sleeping c = []) then Some (wake ws c) else None)"

definition cv_signalAll :: "ConditionVar \<Rightarrow> ConditionVar" where
  "cv_signalAll c = wake (sleeping c) c"

section \<open>Notifications\<close>

text \<open>Where a thread is in \<^verbatim>\<open>wait\<close>, \<^verbatim>\<open>notify\<close> and \<^verbatim>\<open>reset\<close>.\<close>

datatype notif_pc = NOut | WLocking | WTest | WSleep | WUnlock | NLocking | NSet | NSignal | NUnlock | RLocking | RSet | RUnlock

record Notification =
  n_m :: Mutex
  n_cv :: ConditionVar
  notified :: bool
  n_pc :: "nat \<Rightarrow> notif_pc"

definition new_Notification :: Notification where
  "new_Notification = \<lparr>n_m = new_Mutex, n_cv = new_ConditionVar, notified = False, n_pc = (\<lambda>_. NOut)\<rparr>"

definition n_goto :: "nat \<Rightarrow> notif_pc \<Rightarrow> Notification \<Rightarrow> Notification" where
  "n_goto t p n = n\<lparr>n_pc := (n_pc n)(t := p)\<rparr>"

definition n_lock :: "nat \<Rightarrow> notif_pc \<Rightarrow> Notification \<Rightarrow> Notification option" where
  "n_lock t p n = do { m \<leftarrow> mutex_lock t (n_m n); Some (n_goto t p (n\<lparr>n_m := m\<rparr>)) }"

definition n_unlock :: "nat \<Rightarrow> Notification \<Rightarrow> Notification option" where
  "n_unlock t n = do { m \<leftarrow> mutex_unlock t (n_m n); Some (n_goto t NOut (n\<lparr>n_m := m\<rparr>)) }"

definition n_wait :: "nat \<Rightarrow> Notification \<Rightarrow> Notification option" where
  "n_wait t n =
     (case n_pc n t of
        NOut \<Rightarrow> Some (n_goto t WLocking n)
      | WLocking \<Rightarrow> n_lock t WTest n
      | WTest \<Rightarrow>
          if notified n then Some (n_goto t WUnlock n)
          else do { (m, c) \<leftarrow> cv_sleep t (n_m n, n_cv n); Some (n_goto t WSleep (n\<lparr>n_m := m, n_cv := c\<rparr>)) }
      | WSleep \<Rightarrow> do { (m, c) \<leftarrow> cv_return t (n_m n, n_cv n); Some (n_goto t WTest (n\<lparr>n_m := m, n_cv := c\<rparr>)) }
      | WUnlock \<Rightarrow> n_unlock t n
      | _ \<Rightarrow> None)"

definition notify :: "nat \<Rightarrow> nat list \<Rightarrow> Notification \<Rightarrow> Notification option" where
  "notify t ws n =
     (case n_pc n t of
        NOut \<Rightarrow> Some (n_goto t NLocking n)
      | NLocking \<Rightarrow> n_lock t NSet n
      | NSet \<Rightarrow> Some (n_goto t NSignal (n\<lparr>notified := True\<rparr>))
      | NSignal \<Rightarrow> do { c \<leftarrow> cv_signal ws (n_cv n); Some (n_goto t NUnlock (n\<lparr>n_cv := c\<rparr>)) }
      | NUnlock \<Rightarrow> n_unlock t n
      | _ \<Rightarrow> None)"

definition n_reset :: "nat \<Rightarrow> Notification \<Rightarrow> Notification option" where
  "n_reset t n =
     (case n_pc n t of
        NOut \<Rightarrow> Some (n_goto t RLocking n)
      | RLocking \<Rightarrow> n_lock t RSet n
      | RSet \<Rightarrow> Some (n_goto t RUnlock (n\<lparr>notified := False\<rparr>))
      | RUnlock \<Rightarrow> n_unlock t n
      | _ \<Rightarrow> None)"

text \<open>A sleeping thread may also wake up without a signal.\<close>

datatype n_act = Wait nat | Notify nat "nat list" | Reset nat | Spurious nat

fun n_step :: "n_act \<Rightarrow> Notification \<Rightarrow> Notification option" where
  "n_step (Wait t) n = n_wait t n"
| "n_step (Notify t ws) n = notify t ws n"
| "n_step (Reset t) n = n_reset t n"
| "n_step (Spurious t) n = Some (n\<lparr>n_cv := wake [t] (n_cv n)\<rparr>)"

text \<open>Only \<open>w\<close> waits, as in every use of a notification in the program.\<close>

fun n_step1 :: "nat \<Rightarrow> n_act \<Rightarrow> Notification \<Rightarrow> Notification option" where
  "n_step1 w (Wait t) n = (if t = w then n_wait t n else None)"
| "n_step1 w a n = n_step a n"

definition holds_m :: "notif_pc \<Rightarrow> bool" where
  "holds_m p \<longleftrightarrow> p \<in> {WTest, WUnlock, NSet, NSignal, NUnlock, RSet, RUnlock}"

definition waits :: "notif_pc \<Rightarrow> bool" where
  "waits p \<longleftrightarrow> p \<in> {WLocking, WTest, WSleep, WUnlock}"

text \<open>
  The mutex is held exactly by the thread inside, only threads in \<^verbatim>\<open>wait\<close> sleep, and a thread leaves \<^verbatim>\<open>wait\<close> with the
  flag set.
\<close>

definition n_inv :: "Notification \<Rightarrow> bool" where
  "n_inv n \<longleftrightarrow>
     (\<forall>t. holds_m (n_pc n t) \<longleftrightarrow> holder (n_m n) = Some t)
     \<and> (\<forall>t \<in> set (sleeping (n_cv n)). n_pc n t = WSleep)
     \<and> (\<forall>t. n_pc n t \<in> {WUnlock, NSignal} \<longrightarrow> notified n)"

text \<open>If only \<open>w\<close> waits it does not sleep while the flag is set, except just before the signal.\<close>

definition n_inv1 :: "nat \<Rightarrow> Notification \<Rightarrow> bool" where
  "n_inv1 w n \<longleftrightarrow> n_inv n \<and> (\<forall>t. t \<noteq> w \<longrightarrow> \<not> waits (n_pc n t))
     \<and> (notified n \<and> sleeping (n_cv n) \<noteq> [] \<longrightarrow> (\<exists>t. n_pc n t = NSignal))"

lemmas n_defs = n_lock_def n_unlock_def n_goto_def mutex_lock_def mutex_unlock_def cv_sleep_def cv_return_def cv_signal_def wake_def

lemma n_inv_new: "n_inv1 w new_Notification"
  by (simp add: n_inv1_def n_inv_def holds_m_def waits_def new_Notification_def new_Mutex_def new_ConditionVar_def)

lemma holds_m_simps [simp]:
  "holds_m WTest" "holds_m WUnlock" "holds_m NSet" "holds_m NSignal" "holds_m NUnlock" "holds_m RSet" "holds_m RUnlock"
  "\<not> holds_m NOut" "\<not> holds_m WLocking" "\<not> holds_m WSleep" "\<not> holds_m NLocking" "\<not> holds_m RLocking"
  by (simp_all add: holds_m_def)

lemma inside_alone: "n_inv n \<Longrightarrow> holds_m (n_pc n t) \<Longrightarrow> holds_m (n_pc n u) \<Longrightarrow> t = u"
  by (simp add: n_inv_def)

lemma n_inv_step:
  assumes "n_inv n" "n_pc n' = (n_pc n)(t := p)" "notified n' = notified n \<or> holds_m (n_pc n t)" "p \<in> {WUnlock, NSignal} \<longrightarrow> notified n'"
    "holder (n_m n') = (if holds_m p then Some t else if holds_m (n_pc n t) then None else holder (n_m n))"
    "holds_m p \<and> \<not> holds_m (n_pc n t) \<longrightarrow> holder (n_m n) = None"
    "\<forall>u \<in> set (sleeping (n_cv n')). u \<in> set (sleeping (n_cv n)) \<and> u \<noteq> t \<or> u = t \<and> p = WSleep"
  shows "n_inv n'"
proof -
  have h: "holds_m (n_pc n u) \<longleftrightarrow> holder (n_m n) = Some u" for u using assms(1) by (simp add: n_inv_def)
  have "holds_m (n_pc n' u) \<longleftrightarrow> holder (n_m n') = Some u" for u using assms(2,5,6) h [of u] h [of t] by auto
  moreover have "notified n'" if "n_pc n' u \<in> {WUnlock, NSignal}" for u
  proof (cases "u = t")
    case False
    then have "n_pc n u \<in> {WUnlock, NSignal}" using that assms(2) by simp
    moreover from this have "holds_m (n_pc n u)" by auto
    ultimately show ?thesis using assms(1,3) False inside_alone [OF assms(1)] by (auto simp: n_inv_def)
  qed (use that assms(2,4) in simp)
  moreover have "\<forall>u \<in> set (sleeping (n_cv n')). n_pc n' u = WSleep" using assms(1,2,7) by (auto simp: n_inv_def)
  ultimately show ?thesis by (auto simp: n_inv_def)
qed

lemma n_wait_inv: "n_inv n \<Longrightarrow> n_wait t n = Some n' \<Longrightarrow> n_inv n'"
  by (rule n_inv_step [where t = t and p = "n_pc n' t"], assumption)
     (cases "n_pc n t"; auto simp: n_wait_def n_inv_def n_defs split: if_splits)+

lemma notify_inv: "n_inv n \<Longrightarrow> notify t ws n = Some n' \<Longrightarrow> n_inv n'"
  by (rule n_inv_step [where t = t and p = "n_pc n' t"], assumption)
     (cases "n_pc n t"; auto simp: notify_def n_inv_def n_defs split: if_splits)+

lemma n_reset_inv: "n_inv n \<Longrightarrow> n_reset t n = Some n' \<Longrightarrow> n_inv n'"
  by (rule n_inv_step [where t = t and p = "n_pc n' t"], assumption)
     (cases "n_pc n t"; auto simp: n_reset_def n_inv_def n_defs split: if_splits)+

lemma spurious_inv: "n_inv n \<Longrightarrow> n_inv (n\<lparr>n_cv := wake ws (n_cv n)\<rparr>)"
  by (auto simp: n_inv_def wake_def)

lemma n_step_inv: "n_inv n \<Longrightarrow> n_step a n = Some n' \<Longrightarrow> n_inv n'"
  by (cases a) (auto intro: n_wait_inv notify_inv n_reset_inv spurious_inv)

interpretation notification: machine n_step "\<lambda>n. n = new_Notification" n_inv
  using n_inv_new by unfold_locales (auto simp: n_inv1_def intro: n_step_inv)

lemma waits_only:
  "n_wait t n = Some n' \<Longrightarrow> u \<noteq> t \<Longrightarrow> n_pc n' u = n_pc n u"
  "notify t ws n = Some n' \<Longrightarrow> waits (n_pc n' u) \<Longrightarrow> waits (n_pc n u)"
  "n_reset t n = Some n' \<Longrightarrow> waits (n_pc n' u) \<Longrightarrow> waits (n_pc n u)"
  by (cases "n_pc n t"; auto simp: n_wait_def notify_def n_reset_def n_defs waits_def split: if_splits)+

lemma n_step1_inv:
  assumes i: "n_inv1 w n" and st: "n_step1 w a n = Some n'"
  shows "n_inv1 w n'"
proof -
  have g: "n_step a n = Some n'" using st by (cases a) (auto split: if_splits)
  have n: "n_inv n'" using n_step_inv [OF _ g] i by (simp add: n_inv1_def)
  have only: "\<forall>t. t \<noteq> w \<longrightarrow> \<not> waits (n_pc n' t)"
    using i st waits_only by (cases a) (fastforce simp: n_inv1_def split: if_splits)+
  have keep: "\<exists>u. n_pc n' u = NSignal"
    if "notified n" "sleeping (n_cv n) \<noteq> []" "n_pc n t \<noteq> NSignal" "n_pc n' = (n_pc n)(t := p)" for t p
    using that i by (auto simp: n_inv1_def)
  have "\<exists>t. n_pc n' t = NSignal" if "notified n'" "sleeping (n_cv n') \<noteq> []"
  proof (cases a)
    case (Wait t)
    with g have f: "n_wait t n = Some n'" by simp
    have "n_pc n t \<noteq> NSignal \<and> n_pc n' = (n_pc n)(t := n_pc n' t) \<and> notified n' = notified n
        \<and> (notified n \<longrightarrow> sleeping (n_cv n') = sleeping (n_cv n))"
      using f by (cases "n_pc n t") (auto simp: n_wait_def n_defs split: if_splits)
    with that keep show ?thesis by metis
  next
    case (Notify t ws)
    with g have f: "notify t ws n = Some n'" by simp
    show ?thesis
    proof (cases "n_pc n t = NSignal")
      case True
      with f have ws: "set ws \<subseteq> set (sleeping (n_cv n))" "ws = [] \<longrightarrow> sleeping (n_cv n) = []"
        and s: "sleeping (n_cv n') = filter (\<lambda>u. u \<notin> set ws) (sleeping (n_cv n))"
        by (auto simp: notify_def n_defs split: if_splits)
      have all: "\<forall>u \<in> set (sleeping (n_cv n)). u = w" using i by (auto simp: n_inv1_def n_inv_def waits_def)
      from s that(2) have "sleeping (n_cv n) \<noteq> []" by auto
      with ws obtain v where "v \<in> set ws" by (cases ws) auto
      with ws(1) all have "w \<in> set ws" by auto
      with all s have "sleeping (n_cv n') = []" by (auto simp: filter_empty_conv)
      with that(2) show ?thesis by simp
    next
      case False
      with f have "n_pc n' t = NSignal \<or> n_pc n' = (n_pc n)(t := n_pc n' t) \<and> notified n' = notified n
          \<and> sleeping (n_cv n') = sleeping (n_cv n)"
        by (cases "n_pc n t") (auto simp: notify_def n_defs split: if_splits)
      with that keep False show ?thesis by metis
    qed
  next
    case (Reset t)
    with g have f: "n_reset t n = Some n'" by simp
    have "\<not> notified n' \<or> n_pc n t \<noteq> NSignal \<and> n_pc n' = (n_pc n)(t := n_pc n' t) \<and> notified n' = notified n
        \<and> sleeping (n_cv n') = sleeping (n_cv n)"
      using f by (cases "n_pc n t") (auto simp: n_reset_def n_defs split: if_splits)
    with that keep show ?thesis by metis
  next
    case (Spurious t)
    with g that i show ?thesis by (auto simp: n_inv1_def wake_def)
  qed
  with n only show ?thesis by (simp add: n_inv1_def)
qed

interpretation notification1: machine "n_step1 w" "\<lambda>n. n = new_Notification" "n_inv1 w" for w
  using n_inv_new by unfold_locales (auto intro: n_step1_inv)

text \<open>What a wait needs when nobody else is inside.\<close>

lemma wait_returns:
  assumes "n_inv1 w n" "notified n" "\<forall>t. t \<noteq> w \<longrightarrow> n_pc n t = NOut" "waits (n_pc n w)"
  shows "\<exists>k \<le> 3. \<exists>n'. exec (n_step1 w) (replicate k (Wait w)) n = Some n' \<and> n_pc n' w = NOut"
proof -
  have free: "holder (n_m n) = (if holds_m (n_pc n w) then Some w else None)"
  proof -
    have h: "holds_m (n_pc n t) \<longleftrightarrow> holder (n_m n) = Some t" for t using assms(1) by (simp add: n_inv1_def n_inv_def)
    show ?thesis using h [of w] h [of "the (holder (n_m n))"] assms(3) by (cases "holder (n_m n)") (auto split: if_splits)
  qed
  have awake: "sleeping (n_cv n) = []"
  proof (rule ccontr)
    assume "sleeping (n_cv n) \<noteq> []"
    with assms(1,2) obtain t where "n_pc n t = NSignal" by (auto simp: n_inv1_def)
    with assms(3,4) show False by (cases "t = w") (auto simp: waits_def)
  qed
  have one: "\<exists>n'. exec (n_step1 w) (replicate 1 (Wait w)) n = Some n' \<and> n_pc n' w = NOut" if "n_pc n w = WUnlock"
    using that free by (simp add: n_wait_def n_defs holds_m_def)
  have two: "\<exists>n'. exec (n_step1 w) (replicate 2 (Wait w)) n = Some n' \<and> n_pc n' w = NOut" if "n_pc n w = WTest"
    using that free assms(2) by (simp add: numeral_2_eq_2 n_wait_def n_defs holds_m_def)
  have three: "\<exists>n'. exec (n_step1 w) (replicate 3 (Wait w)) n = Some n' \<and> n_pc n' w = NOut" if "n_pc n w \<in> {WLocking, WSleep}"
    using that free assms(2) awake by (auto simp: numeral_3_eq_3 n_wait_def n_defs holds_m_def)
  from assms(4) consider "n_pc n w = WUnlock" | "n_pc n w = WTest" | "n_pc n w \<in> {WLocking, WSleep}" by (auto simp: waits_def)
  then show ?thesis
  proof cases
    case 1
    with one show ?thesis by (intro exI [of _ 1]) auto
  next
    case 2
    with two show ?thesis by (intro exI [of _ 2]) auto
  next
    case 3
    with three show ?thesis by (intro exI [of _ 3]) auto
  qed
qed

text \<open>
  C21. A notification loses no wake-up as long as only one thread waits for it: its \<^verbatim>\<open>wait\<close> returns only
  while the flag is set, and when the flag is set and no other thread is inside the notification, it
  returns after at most three steps of its own, whether it was asleep or not, in every interleaving of
  waits, notifications, resets and spurious wake-ups.
\<close>

theorem notification_reaches_waiter:
  assumes "reachable (n_step1 w) (\<lambda>n. n = new_Notification) n"
  shows "(n_pc n w = WUnlock \<longrightarrow> notified n)
    \<and> (notified n \<and> (\<forall>t. t \<noteq> w \<longrightarrow> n_pc n t = NOut) \<and> waits (n_pc n w) \<longrightarrow>
        (\<exists>k \<le> 3. \<exists>n'. exec (n_step1 w) (replicate k (Wait w)) n = Some n' \<and> n_pc n' w = NOut))"
proof -
  have i: "n_inv1 w n" using notification1.reachable_inv [OF assms] .
  then show ?thesis using wait_returns [OF i] by (auto simp: n_inv1_def n_inv_def)
qed

definition sleep_then_notify :: "n_act list" where
  "sleep_then_notify = [Wait 1, Wait 1, Wait 1] @ replicate 3 (Notify 2 []) @ [Notify 2 [1], Notify 2 []]"

theorem notification_reaches_waiter_witness:
  "\<exists>n. exec (n_step1 1) sleep_then_notify new_Notification = Some n \<and> n_pc n 1 = WSleep
     \<and> (\<exists>k \<le> 3. \<exists>n'. exec (n_step1 1) (replicate k (Wait 1)) n = Some n' \<and> n_pc n' 1 = NOut)"
proof -
  obtain n where n: "exec (n_step1 1) sleep_then_notify new_Notification = Some n"
    "notified n" "n_pc n = (\<lambda>_. NOut)(1 := WSleep, 2 := NOut)"
    by (simp add: sleep_then_notify_def new_Notification_def new_Mutex_def new_ConditionVar_def numeral_3_eq_3 n_wait_def notify_def n_defs)
  have "reachable (n_step1 1) (\<lambda>n. n = new_Notification) n" by (rule reachable_exec [OF reach_init n(1)]) simp
  from notification_reaches_waiter [OF this] n show ?thesis by (auto simp: waits_def)
qed

section \<open>Several waiters\<close>

text \<open>A sleeping thread goes on sleeping until a signal or a spurious wake-up of its own.\<close>

fun leaves_asleep :: "nat \<Rightarrow> n_act \<Rightarrow> bool" where
  "leaves_asleep t (Notify u ws) = False"
| "leaves_asleep t (Spurious u) = (u \<noteq> t)"
| "leaves_asleep t _ = True"

lemma asleep_step:
  assumes "t \<in> set (sleeping (n_cv n))" "n_pc n t = WSleep" "leaves_asleep t a" "n_step a n = Some n'"
  shows "t \<in> set (sleeping (n_cv n')) \<and> n_pc n' t = WSleep"
proof (cases a)
  case (Wait u)
  then show ?thesis using assms by (cases "u = t"; cases "n_pc n u") (auto simp: n_wait_def n_defs split: if_splits)
next
  case (Reset u)
  then show ?thesis using assms by (cases "u = t"; cases "n_pc n u") (auto simp: n_reset_def n_defs split: if_splits)
qed (use assms in \<open>auto simp: n_defs\<close>)

lemma asleep_exec:
  "t \<in> set (sleeping (n_cv n)) \<Longrightarrow> n_pc n t = WSleep \<Longrightarrow> list_all (leaves_asleep t) ls \<Longrightarrow> exec n_step ls n = Some n' \<Longrightarrow>
    t \<in> set (sleeping (n_cv n')) \<and> n_pc n' t = WSleep"
proof (induction ls arbitrary: n)
  case (Cons a ls)
  then obtain n1 where "n_step a n = Some n1" "exec n_step ls n1 = Some n'" by (auto simp: Option.bind_eq_Some_conv)
  with Cons.IH [of n1] Cons.prems asleep_step [of t n a n1] show ?case by simp
qed simp

text \<open>A whole call of \<^verbatim>\<open>notify\<close> whose signal wakes the threads \<open>ws\<close>.\<close>

definition notify_call :: "nat \<Rightarrow> nat list \<Rightarrow> n_act list" where
  "notify_call p ws = [Notify p [], Notify p [], Notify p [], Notify p ws, Notify p []]"

lemma notify_call_runs:
  assumes "n_pc n p = NOut" "holder (n_m n) = None" "set ws \<subseteq> set (sleeping (n_cv n))" "ws \<noteq> []"
  shows "\<exists>n'. exec n_step (notify_call p ws) n = Some n' \<and> notified n' \<and> n_pc n' = n_pc n \<and> holder (n_m n') = None
    \<and> sleeping (n_cv n') = filter (\<lambda>u. u \<notin> set ws) (sleeping (n_cv n))"
  using assms by (auto simp: notify_call_def notify_def n_defs fun_eq_iff)

text \<open>
  C40. \<^verbatim>\<open>notify\<close> signals one thread only. Whenever two threads sleep in \<^verbatim>\<open>wait\<close>, in any state that can be
  reached, a whole call of \<^verbatim>\<open>notify\<close> by another thread is possible after which the flag is set and
  nobody is inside, and yet the second sleeper stays blocked in every continuation, until somebody
  notifies again or it happens to wake up without a signal: the flag alone gets no waiter out.
\<close>

theorem notify_wakes_one_waiter:
  assumes "reachable n_step (\<lambda>n. n = new_Notification) n" "t \<noteq> u"
    and "t \<in> set (sleeping (n_cv n))" "u \<in> set (sleeping (n_cv n))" "holder (n_m n) = None" "n_pc n p = NOut"
  shows "\<exists>n'. exec n_step (notify_call p [u]) n = Some n' \<and> notified n' \<and> n_pc n' p = NOut \<and> holder (n_m n') = None
    \<and> (\<forall>ls n''. list_all (leaves_asleep t) ls \<and> exec n_step ls n' = Some n'' \<longrightarrow> n_pc n'' t = WSleep \<and> n_wait t n'' = None)"
proof -
  have i: "n_inv n" using notification.reachable_inv [OF assms(1)] .
  then have t: "n_pc n t = WSleep" using assms(3) by (simp add: n_inv_def)
  obtain n' where n': "exec n_step (notify_call p [u]) n = Some n'" "notified n'" "n_pc n' = n_pc n" "holder (n_m n') = None"
    "sleeping (n_cv n') = filter (\<lambda>v. v \<notin> set [u]) (sleeping (n_cv n))"
    using notify_call_runs [OF assms(6,5), of "[u]"] assms(4) by auto
  have "n_pc n'' t = WSleep \<and> n_wait t n'' = None" if "list_all (leaves_asleep t) ls" "exec n_step ls n' = Some n''" for ls n''
    using asleep_exec [OF _ _ that] n' t assms(2,3) by (auto simp: n_wait_def n_defs)
  with n' assms(6) show ?thesis by metis
qed

definition two_sleepers :: "n_act list" where
  "two_sleepers = [Wait 1, Wait 1, Wait 1, Wait 2, Wait 2, Wait 2]"

theorem notify_wakes_one_waiter_witness:
  "\<exists>n n'. exec n_step two_sleepers new_Notification = Some n \<and> exec n_step (notify_call 3 [1]) n = Some n'
     \<and> (\<forall>ls n''. list_all (leaves_asleep 2) ls \<and> exec n_step ls n' = Some n'' \<longrightarrow> n_pc n'' 2 = WSleep)"
proof -
  obtain n where n: "exec n_step two_sleepers new_Notification = Some n" "1 \<in> set (sleeping (n_cv n))" "2 \<in> set (sleeping (n_cv n))"
    "holder (n_m n) = None" "n_pc n 3 = NOut"
    by (simp add: two_sleepers_def new_Notification_def new_Mutex_def new_ConditionVar_def n_wait_def n_defs)
  have "reachable n_step (\<lambda>n. n = new_Notification) n" by (rule reachable_exec [OF reach_init n(1)]) simp
  from notify_wakes_one_waiter [OF this _ n(3,2,4,5)] n(1) show ?thesis by auto
qed

end
