(* ===== verification/Lock_Benchmark.thy ===== *)
theory Lock_Benchmark
  imports Complex_Main Locks Mutexes
begin

text \<open>
  The lock benchmarks (\<^verbatim>\<open>lock_benchmark.cpp\<close>, \<^verbatim>\<open>lock_benchmark_MCS.cpp\<close>): threads that increment a shared counter under a
  lock. What they need of the lock is the locale \<open>excluding_lock\<close>, what they need to finish \<open>live_lock\<close>; the mutex, the
  spinlock and the queue lock, as long as no swap of it fails, are its interpretations. An action is one step
  of the lock or one access to a variable.
\<close>

section \<open>The testers\<close>

datatype test_pc = TLoop | TLock | TRead | TWrite | TCount | TDelay nat | TUnlock | TDone

record tester =
  increments :: int
  requests :: int
  reg :: int
  tpc :: test_pc

record 'l bench =
  lk :: 'l
  counter :: int
  testers :: "nat \<Rightarrow> tester"

text \<open>
  The two loops have the same parts in a different order: where the code goes with the lock, with an
  increment to do, without one, after counting it, and without the lock.
\<close>

record flow =
  at_lock :: test_pc
  at_enter :: test_pc
  at_exit :: test_pc
  at_count :: test_pc
  at_unlock :: test_pc

definition small_flow :: flow where
  "small_flow = \<lparr>at_lock = TRead, at_enter = TLock, at_exit = TDone, at_count = TUnlock, at_unlock = TLoop\<rparr>"

definition large_flow :: "nat \<Rightarrow> flow" where
  "large_flow temp = \<lparr>at_lock = TLoop, at_enter = TRead, at_exit = TUnlock, at_count = TDelay temp, at_unlock = TDone\<rparr>"

lemma flow_simps [simp]:
  "at_lock small_flow = TRead" "at_enter small_flow = TLock" "at_exit small_flow = TDone" "at_count small_flow = TUnlock" "at_unlock small_flow = TLoop"
  "at_lock (large_flow d) = TLoop" "at_enter (large_flow d) = TRead" "at_exit (large_flow d) = TUnlock" "at_count (large_flow d) = TDelay d"
  "at_unlock (large_flow d) = TDone"
  by (simp_all add: small_flow_def large_flow_def)

definition set_tester :: "nat \<Rightarrow> tester \<Rightarrow> 'l bench \<Rightarrow> 'l bench" where
  "set_tester t x s = s\<lparr>testers := (testers s)(t := x)\<rparr>"

definition test_step ::
  "flow \<Rightarrow> (nat \<Rightarrow> 'l \<Rightarrow> 'l option) \<Rightarrow> (nat \<Rightarrow> 'l \<Rightarrow> 'l option) \<Rightarrow> ('l \<Rightarrow> nat \<Rightarrow> bool) \<Rightarrow> nat \<Rightarrow> 'l bench \<Rightarrow> 'l bench option" where
  "test_step fl acq rel ins t s =
     (let x = testers s t in
      case tpc x of
        TLoop \<Rightarrow> Some (set_tester t (x\<lparr>increments := increments x - 1, tpc := (if increments x > 0 then at_enter fl else at_exit fl)\<rparr>) s)
      | TLock \<Rightarrow> do { l \<leftarrow> acq t (lk s); Some (set_tester t (x\<lparr>tpc := (if ins l t then at_lock fl else TLock)\<rparr>) (s\<lparr>lk := l\<rparr>)) }
      | TRead \<Rightarrow> Some (set_tester t (x\<lparr>reg := counter s, tpc := TWrite\<rparr>) s)
      | TWrite \<Rightarrow> Some (set_tester t (x\<lparr>tpc := TCount\<rparr>) (s\<lparr>counter := reg x + 1\<rparr>))
      | TCount \<Rightarrow> Some (set_tester t (x\<lparr>requests := requests x + 1, tpc := at_count fl\<rparr>) s)
      | TDelay n \<Rightarrow> Some (set_tester t (x\<lparr>tpc := (if n > 0 then TDelay (n - 1) else TLoop)\<rparr>) s)
      | TUnlock \<Rightarrow> do { l \<leftarrow> rel t (lk s); Some (set_tester t (x\<lparr>tpc := (if ins l t then TUnlock else at_unlock fl)\<rparr>) (s\<lparr>lk := l\<rparr>)) }
      | TDone \<Rightarrow> None)"

text \<open>\<open>n\<close> testers that were started with \<open>incs\<close>.\<close>

definition new_tester :: "flow \<Rightarrow> int \<Rightarrow> tester" where
  "new_tester fl incs = \<lparr>increments = incs, requests = 0, reg = 0, tpc = (if at_lock fl = TLoop then TLock else TLoop)\<rparr>"

definition start_bench :: "flow \<Rightarrow> int \<Rightarrow> 'l \<Rightarrow> 'l bench" where
  "start_bench fl incs l = \<lparr>lk = l, counter = 0, testers = (\<lambda>_. new_tester fl incs)\<rparr>"

definition bench_step ::
  "flow \<Rightarrow> (nat \<Rightarrow> 'l \<Rightarrow> 'l option) \<Rightarrow> (nat \<Rightarrow> 'l \<Rightarrow> 'l option) \<Rightarrow> ('l \<Rightarrow> nat \<Rightarrow> bool) \<Rightarrow> nat \<Rightarrow> nat \<Rightarrow> 'l bench \<Rightarrow> 'l bench option" where
  "bench_step fl acq rel ins n t s = (if t < n then test_step fl acq rel ins t s else None)"

definition all_done :: "nat \<Rightarrow> 'l bench \<Rightarrow> bool" where
  "all_done n s \<longleftrightarrow> (\<forall>t < n. tpc (testers s t) = TDone)"

section \<open>The rounds of a benchmark\<close>

text \<open>
  A round starts \<open>n\<close> testers on the lock, which stays from round to round, runs them by a schedule until
  all are joined, and keeps the time it took.
\<close>

definition bench_round ::
  "flow \<Rightarrow> (nat \<Rightarrow> 'l \<Rightarrow> 'l option) \<Rightarrow> (nat \<Rightarrow> 'l \<Rightarrow> 'l option) \<Rightarrow> ('l \<Rightarrow> nat \<Rightarrow> bool) \<Rightarrow> int \<Rightarrow> nat \<Rightarrow> nat list \<times> rat
    \<Rightarrow> 'l \<times> rat list \<Rightarrow> ('l \<times> rat list) option" where
  "bench_round fl acq rel ins incs n run r =
     (case exec (bench_step fl acq rel ins n) (fst run) (start_bench fl incs (fst r)) of
        None \<Rightarrow> None
      | Some s \<Rightarrow> if all_done n s then Some (lk s, snd r @ [snd run]) else None)"

fun bench_rounds ::
  "flow \<Rightarrow> (nat \<Rightarrow> 'l \<Rightarrow> 'l option) \<Rightarrow> (nat \<Rightarrow> 'l \<Rightarrow> 'l option) \<Rightarrow> ('l \<Rightarrow> nat \<Rightarrow> bool) \<Rightarrow> int \<Rightarrow> nat list \<Rightarrow> (nat list \<times> rat) list
    \<Rightarrow> 'l \<times> rat list \<Rightarrow> ('l \<times> rat list) option" where
  "bench_rounds fl acq rel ins incs (n # ns) (run # runs) r =
     do { r1 \<leftarrow> bench_round fl acq rel ins incs n run r; bench_rounds fl acq rel ins incs ns runs r1 }"
| "bench_rounds fl acq rel ins incs [] [] r = Some r"
| "bench_rounds fl acq rel ins incs _ _ r = None"

section \<open>What the testers need of a lock\<close>

locale excluding_lock =
  fixes acq rel :: "nat \<Rightarrow> 'l \<Rightarrow> 'l option"
    and ins :: "'l \<Rightarrow> nat \<Rightarrow> bool"
    and ok :: "'l \<Rightarrow> bool"
  assumes excl: "ok l \<Longrightarrow> ins l t \<Longrightarrow> ins l u \<Longrightarrow> t = u"
    and acq_ok: "ok l \<Longrightarrow> \<not> ins l t \<Longrightarrow> acq t l = Some l' \<Longrightarrow> ok l' \<and> (\<forall>u. u \<noteq> t \<longrightarrow> ins l' u = ins l u)"
    and rel_ok: "ok l \<Longrightarrow> ins l t \<Longrightarrow> rel t l = Some l' \<Longrightarrow> ok l' \<and> (\<forall>u. u \<noteq> t \<longrightarrow> ins l' u = ins l u)"

locale live_lock = excluding_lock +
  assumes acq_live: "ok l \<Longrightarrow> (\<forall>u. \<not> ins l u) \<Longrightarrow> \<exists>k l'. exec acq (replicate k t) l = Some l' \<and> ins l' t"
    and rel_live: "ok l \<Longrightarrow> ins l t \<Longrightarrow> \<exists>k l'. exec rel (replicate k t) l = Some l' \<and> \<not> ins l' t"

text \<open>The points inside the lock, those with an increment begun, and those after the last one.\<close>

definition is_flow :: "flow \<Rightarrow> nat \<Rightarrow> bool" where
  "is_flow fl d \<longleftrightarrow> fl = small_flow \<or> fl = large_flow d"

definition crit :: "flow \<Rightarrow> test_pc \<Rightarrow> bool" where
  "crit fl p \<longleftrightarrow> (case p of TLoop \<Rightarrow> at_lock fl = TLoop | TDelay _ \<Rightarrow> at_lock fl = TLoop | TLock \<Rightarrow> False | TDone \<Rightarrow> False | _ \<Rightarrow> True)"

definition begun :: "flow \<Rightarrow> test_pc \<Rightarrow> bool" where
  "begun fl p \<longleftrightarrow> p \<in> {TRead, TWrite, TCount, TDone} \<or> p = (if at_lock fl = TLoop then TUnlock else TLock)"

definition leaving :: "flow \<Rightarrow> test_pc \<Rightarrow> bool" where
  "leaving fl p \<longleftrightarrow> p = TDone \<or> at_lock fl = TLoop \<and> p = TUnlock"

definition tester_ok :: "flow \<Rightarrow> int \<Rightarrow> int \<Rightarrow> tester \<Rightarrow> bool" where
  "tester_ok fl incs c x \<longleftrightarrow> (tpc x = TWrite \<longrightarrow> reg x = c)
     \<and> requests x + increments x + (if begun fl (tpc x) then 1 else 0) = incs
     \<and> (if leaving fl (tpc x) then increments x = -1 else increments x \<ge> 0)"

definition counted :: "tester \<Rightarrow> int" where
  "counted x = requests x + (if tpc x = TCount then 1 else 0)"

definition bench_inv :: "('l \<Rightarrow> nat \<Rightarrow> bool) \<Rightarrow> ('l \<Rightarrow> bool) \<Rightarrow> flow \<Rightarrow> int \<Rightarrow> nat \<Rightarrow> 'l bench \<Rightarrow> bool" where
  "bench_inv ins ok fl incs n s \<longleftrightarrow>
     ok (lk s) \<and> (\<forall>t. ins (lk s) t \<longleftrightarrow> t < n \<and> crit fl (tpc (testers s t)))
     \<and> (\<forall>t < n. tester_ok fl incs (counter s) (testers s t))
     \<and> counter s = (\<Sum>t < n. counted (testers s t))"

lemma sum_update: "(t :: nat) < n \<Longrightarrow> (\<Sum>u < n. f ((g(t := x)) u)) = (\<Sum>u < n. f (g u)) - f (g t) + (f x :: int)"
proof -
  assume t: "t < n"
  then have "t \<in> {..<n}" by simp
  then have "(\<Sum>u < n. f (h u)) = f (h t) + (\<Sum>u \<in> {..<n} - {t}. f (h u))" for h by (intro sum.remove) simp_all
  moreover have "(\<Sum>u \<in> {..<n} - {t}. f ((g(t := x)) u)) = (\<Sum>u \<in> {..<n} - {t}. f (g u))" by (intro sum.cong) simp_all
  ultimately show ?thesis by (simp del: fun_upd_apply add: fun_upd_same)
qed

text \<open>The loop test keeps the tester in order and does not enter or leave the lock.\<close>

lemma loop_ok:
  assumes "is_flow fl d" "tester_ok fl incs c x" "tpc x = TLoop"
  defines "p \<equiv> if increments x > 0 then at_enter fl else at_exit fl"
  shows "tester_ok fl incs c (x\<lparr>increments := increments x - 1, tpc := p\<rparr>)" "crit fl p = crit fl TLoop" "p \<noteq> TCount"
  using assms(1,2,3) unfolding p_def is_flow_def
  by (cases "increments x > 0"; elim disjE; simp add: tester_ok_def crit_def begun_def leaving_def)+

lemma lock_ok:
  assumes "is_flow fl d"
  shows "tester_ok fl incs c x \<Longrightarrow> tpc x = TLock \<Longrightarrow> tester_ok fl incs c (x\<lparr>tpc := at_lock fl\<rparr>)" "crit fl (at_lock fl)" "at_lock fl \<noteq> TCount"
    "tester_ok fl incs c x \<Longrightarrow> tpc x = TUnlock \<Longrightarrow> tester_ok fl incs c (x\<lparr>tpc := at_unlock fl\<rparr>)" "\<not> crit fl (at_unlock fl)" "at_unlock fl \<noteq> TCount"
  using assms unfolding is_flow_def by (elim disjE; simp add: tester_ok_def crit_def begun_def leaving_def)+

lemma counting_ok:
  assumes "is_flow fl d"
  shows "tester_ok fl incs c x \<Longrightarrow> tpc x = TCount \<Longrightarrow> tester_ok fl incs c (x\<lparr>requests := requests x + 1, tpc := at_count fl\<rparr>)"
    "crit fl (at_count fl)" "at_count fl \<noteq> TCount"
    "tester_ok fl incs c x \<Longrightarrow> tpc x = TDelay m \<Longrightarrow> tester_ok fl incs c (x\<lparr>tpc := (if m > 0 then TDelay (m - 1) else TLoop)\<rparr>)"
    "crit fl (if m > 0 then TDelay (m - 1) else TLoop) = crit fl (TDelay m)"
  using assms unfolding is_flow_def by (elim disjE; simp add: tester_ok_def crit_def begun_def leaving_def)+

context excluding_lock
begin

text \<open>A step of \<open>t\<close> changes the tester \<open>t\<close>, maybe the lock, and the counter only inside.\<close>

lemma inv_update:
  assumes i: "bench_inv ins ok fl incs n s" and t: "t < n"
    and l: "ok l'" "\<forall>u. u \<noteq> t \<longrightarrow> ins l' u = ins (lk s) u" "ins l' t \<longleftrightarrow> crit fl (tpc x)"
    and x: "tester_ok fl incs c x" "c = counter s + counted x - counted (testers s t)"
    and c: "c \<noteq> counter s \<longrightarrow> ins (lk s) t"
  shows "bench_inv ins ok fl incs n (set_tester t x (s\<lparr>lk := l', counter := c\<rparr>))"
proof -
  have "tester_ok fl incs c (testers s u)" if "u < n" "u \<noteq> t" for u
  proof (cases "c = counter s")
    case False
    have "ok (lk s)" using i by (simp add: bench_inv_def)
    then have "\<not> ins (lk s) u" using excl [of "lk s" t u] c False that(2) by blast
    then have "\<not> crit fl (tpc (testers s u))" using i that(1) by (simp add: bench_inv_def)
    then have "tpc (testers s u) \<noteq> TWrite" by (auto simp: crit_def)
    then show ?thesis using i that(1) by (auto simp: bench_inv_def tester_ok_def)
  next
    case True
    with i that show ?thesis unfolding bench_inv_def by blast
  qed
  moreover have "counter s = (\<Sum>u < n. counted (testers s u))" using i by (simp add: bench_inv_def)
  then have "c = (\<Sum>u < n. counted (((testers s)(t := x)) u))" unfolding sum_update [OF t] using x(2) by simp
  ultimately show ?thesis using i t l x(1) by (auto simp: bench_inv_def set_tester_def)
qed

lemma inv_step:
  assumes i: "bench_inv ins ok fl incs n s" and f: "is_flow fl d" and st: "bench_step fl acq rel ins n t s = Some s'"
  shows "bench_inv ins ok fl incs n s'"
proof -
  from st have t: "t < n" and st: "test_step fl acq rel ins t s = Some s'" by (auto simp: bench_step_def split: if_splits)
  let ?x = "testers s t"
  have o: "ok (lk s)" and it: "ins (lk s) t \<longleftrightarrow> crit fl (tpc ?x)" and xt: "tester_ok fl incs (counter s) ?x"
    using i t by (auto simp: bench_inv_def)
  have upd: "bench_inv ins ok fl incs n s'"
    if "s' = set_tester t x (s\<lparr>lk := l', counter := c\<rparr>)" "ok l'" "\<forall>u. u \<noteq> t \<longrightarrow> ins l' u = ins (lk s) u"
      "ins l' t \<longleftrightarrow> crit fl (tpc x)" "tester_ok fl incs c x" "c = counter s + counted x - counted ?x" "c \<noteq> counter s \<longrightarrow> crit fl (tpc ?x)"
    for x l' c
    using inv_update [OF i t that(2-6)] that(1,7) it by simp
  show ?thesis
  proof (cases "tpc ?x")
    case TLock
    with st obtain l where l: "acq t (lk s) = Some l" "s' = set_tester t (?x\<lparr>tpc := (if ins l t then at_lock fl else TLock)\<rparr>) (s\<lparr>lk := l\<rparr>)"
      by (auto simp: test_step_def Option.bind_eq_Some_conv Let_def)
    have "\<not> ins (lk s) t" using it TLock by (simp add: crit_def)
    with acq_ok [OF o _ l(1)] have l': "ok l" "\<forall>u. u \<noteq> t \<longrightarrow> ins l u = ins (lk s) u" by blast+
    have "tester_ok fl incs (counter s) (?x\<lparr>tpc := TLock\<rparr>)" "crit fl TLock = (TLock = TUnlock)"
      using xt TLock by (simp_all add: tester_ok_def crit_def)
    with lock_ok [OF f] xt TLock l l' show ?thesis
      by (intro upd [where x = "?x\<lparr>tpc := (if ins l t then at_lock fl else TLock)\<rparr>" and l' = l and c = "counter s"])
         (simp_all add: counted_def)
  next
    case TUnlock
    with st obtain l where l: "rel t (lk s) = Some l" "s' = set_tester t (?x\<lparr>tpc := (if ins l t then TUnlock else at_unlock fl)\<rparr>) (s\<lparr>lk := l\<rparr>)"
      by (auto simp: test_step_def Option.bind_eq_Some_conv Let_def)
    have "ins (lk s) t" using it TUnlock by (simp add: crit_def)
    with rel_ok [OF o _ l(1)] have l': "ok l" "\<forall>u. u \<noteq> t \<longrightarrow> ins l u = ins (lk s) u" by blast+
    have "tester_ok fl incs (counter s) (?x\<lparr>tpc := TUnlock\<rparr>)" "crit fl TUnlock = (TUnlock = TUnlock)"
      using xt TUnlock by (simp_all add: tester_ok_def crit_def)
    with lock_ok [OF f] xt TUnlock l l' show ?thesis
      by (intro upd [where x = "?x\<lparr>tpc := (if ins l t then TUnlock else at_unlock fl)\<rparr>" and l' = l and c = "counter s"])
         (simp_all add: counted_def)
  next
    case TLoop
    note lo = loop_ok [OF f xt TLoop]
    show ?thesis
      by (rule upd [where l' = "lk s" and c = "counter s" and x = "?x\<lparr>increments := increments ?x - 1, tpc := (if increments ?x > 0 then at_enter fl else at_exit fl)\<rparr>"])
        (use st TLoop lo o it in \<open>simp_all add: test_step_def Let_def counted_def del: if_split\<close>)
  next
    case TRead
    with xt have "tester_ok fl incs (counter s) (?x\<lparr>reg := counter s, tpc := TWrite\<rparr>)"
      by (simp add: tester_ok_def begun_def leaving_def)
    with st TRead o it show ?thesis
      by (intro upd [where x = "?x\<lparr>reg := counter s, tpc := TWrite\<rparr>" and l' = "lk s" and c = "counter s"])
         (simp_all add: test_step_def Let_def crit_def counted_def)
  next
    case TWrite
    with xt have "tester_ok fl incs (reg ?x + 1) (?x\<lparr>tpc := TCount\<rparr>)" "reg ?x = counter s"
      by (simp_all add: tester_ok_def begun_def leaving_def)
    with st TWrite o it show ?thesis
      by (intro upd [where x = "?x\<lparr>tpc := TCount\<rparr>" and l' = "lk s" and c = "reg ?x + 1"])
         (simp_all add: test_step_def Let_def crit_def counted_def)
  next
    case TCount
    then have cr: "crit fl TCount" by (simp add: crit_def)
    note co = counting_ok(1) [OF f xt TCount] counting_ok(2,3) [OF f]
    show ?thesis
      by (rule upd [where x = "?x\<lparr>requests := requests ?x + 1, tpc := at_count fl\<rparr>" and l' = "lk s" and c = "counter s"])
         (use st TCount xt o it co cr in \<open>simp_all add: test_step_def Let_def counted_def\<close>)
  next
    case (TDelay m)
    note co = counting_ok(4) [OF f xt TDelay] counting_ok(5) [OF f, of m]
    show ?thesis
      by (rule upd [where x = "?x\<lparr>tpc := (if m > 0 then TDelay (m - 1) else TLoop)\<rparr>" and l' = "lk s" and c = "counter s"])
         (use st TDelay xt o it co in \<open>simp_all add: test_step_def Let_def counted_def del: if_split split: if_splits\<close>)
  qed (use st in \<open>simp add: test_step_def\<close>)
qed

lemma inv_start:
  assumes "ok l" "\<forall>t. \<not> ins l t" "is_flow fl d" "incs \<ge> 0"
  shows "bench_inv ins ok fl incs n (start_bench fl incs l)"
  using assms
  by (auto simp: bench_inv_def start_bench_def new_tester_def is_flow_def crit_def tester_ok_def begun_def
      leaving_def counted_def)

lemma inv_exec:
  "bench_inv ins ok fl incs n s \<Longrightarrow> is_flow fl d \<Longrightarrow> exec (bench_step fl acq rel ins n) sched s = Some s' \<Longrightarrow> bench_inv ins ok fl incs n s'"
  by (induction sched arbitrary: s) (auto simp: Option.bind_eq_Some_conv intro: inv_step)

text \<open>No increment is lost.\<close>

lemma done_counts:
  assumes i: "bench_inv ins ok fl incs n s" and d: "all_done n s"
  shows "counter s = int n * incs \<and> (\<forall>t < n. requests (testers s t) = incs) \<and> ok (lk s) \<and> (\<forall>t. \<not> ins (lk s) t)"
proof -
  have c: "counted (testers s t) = incs \<and> requests (testers s t) = incs" if "t < n" for t
  proof -
    have "tester_ok fl incs (counter s) (testers s t)" "tpc (testers s t) = TDone"
      using i d that unfolding bench_inv_def all_done_def by blast+
    then show ?thesis by (simp add: tester_ok_def begun_def leaving_def counted_def)
  qed
  then have "(\<Sum>t < n. counted (testers s t)) = (\<Sum>t < n. incs)" by (intro sum.cong) auto
  with i c d show ?thesis by (auto simp: bench_inv_def all_done_def crit_def)
qed

end

text \<open>How far a tester is from its end, counting the lock and the unlock as one step.\<close>

fun pc_left :: "nat \<Rightarrow> test_pc \<Rightarrow> nat" where
  "pc_left d TLoop = 0"
| "pc_left d TDone = 0"
| "pc_left d TUnlock = 1"
| "pc_left d (TDelay k) = k + 1"
| "pc_left d TCount = d + 3"
| "pc_left d TWrite = d + 4"
| "pc_left d TRead = d + 5"
| "pc_left d TLock = d + 6"

definition tester_left :: "nat \<Rightarrow> tester \<Rightarrow> nat" where
  "tester_left d x = nat (increments x + 1) * (d + 7) + pc_left d (tpc x)"

context live_lock
begin

lemma test_lock:
  "exec acq (replicate k t) (lk s) = Some l \<Longrightarrow> ins l t \<Longrightarrow> tpc (testers s t) = TLock \<Longrightarrow> \<not> ins (lk s) t \<Longrightarrow>
    \<exists>j l'. exec (test_step fl acq rel ins) (replicate j t) s = Some (set_tester t ((testers s t)\<lparr>tpc := at_lock fl\<rparr>) (s\<lparr>lk := l'\<rparr>))"
proof (induction k arbitrary: s)
  case (Suc k)
  then obtain l1 where l1: "acq t (lk s) = Some l1" "exec acq (replicate k t) l1 = Some l" by (auto simp: Option.bind_eq_Some_conv)
  have st: "test_step fl acq rel ins t s = Some (set_tester t ((testers s t)\<lparr>tpc := (if ins l1 t then at_lock fl else TLock)\<rparr>) (s\<lparr>lk := l1\<rparr>))"
    using l1(1) Suc.prems(3) by (simp add: test_step_def Let_def)
  show ?case
  proof (cases "ins l1 t")
    case True
    with st show ?thesis by (intro exI [of _ 1] exI [of _ l1]) simp
  next
    case False
    let ?s = "set_tester t ((testers s t)\<lparr>tpc := TLock\<rparr>) (s\<lparr>lk := l1\<rparr>)"
    from Suc.IH [of ?s] l1(2) Suc.prems(2) False obtain j l' where
      "exec (test_step fl acq rel ins) (replicate j t) ?s = Some (set_tester t ((testers ?s t)\<lparr>tpc := at_lock fl\<rparr>) (?s\<lparr>lk := l'\<rparr>))"
      by (auto simp: set_tester_def)
    with st False show ?thesis by (intro exI [of _ "Suc j"] exI [of _ l']) (simp add: set_tester_def)
  qed
qed simp

lemma test_unlock:
  "exec rel (replicate k t) (lk s) = Some l \<Longrightarrow> \<not> ins l t \<Longrightarrow> tpc (testers s t) = TUnlock \<Longrightarrow> ins (lk s) t \<Longrightarrow>
    \<exists>j l'. exec (test_step fl acq rel ins) (replicate j t) s = Some (set_tester t ((testers s t)\<lparr>tpc := at_unlock fl\<rparr>) (s\<lparr>lk := l'\<rparr>))"
proof (induction k arbitrary: s)
  case (Suc k)
  then obtain l1 where l1: "rel t (lk s) = Some l1" "exec rel (replicate k t) l1 = Some l" by (auto simp: Option.bind_eq_Some_conv)
  have st: "test_step fl acq rel ins t s = Some (set_tester t ((testers s t)\<lparr>tpc := (if ins l1 t then TUnlock else at_unlock fl)\<rparr>) (s\<lparr>lk := l1\<rparr>))"
    using l1(1) Suc.prems(3) by (simp add: test_step_def Let_def)
  show ?case
  proof (cases "ins l1 t")
    case False
    with st show ?thesis by (intro exI [of _ 1] exI [of _ l1]) simp
  next
    case True
    let ?s = "set_tester t ((testers s t)\<lparr>tpc := TUnlock\<rparr>) (s\<lparr>lk := l1\<rparr>)"
    from Suc.IH [of ?s] l1(2) Suc.prems(2) True obtain j l' where
      "exec (test_step fl acq rel ins) (replicate j t) ?s = Some (set_tester t ((testers ?s t)\<lparr>tpc := at_unlock fl\<rparr>) (?s\<lparr>lk := l'\<rparr>))"
      by (auto simp: set_tester_def)
    with st True show ?thesis by (intro exI [of _ "Suc j"] exI [of _ l']) (simp add: set_tester_def)
  qed
qed simp

lemma bench_exec: "t < n \<Longrightarrow> exec (bench_step fl acq rel ins n) (replicate j t) s = exec (test_step fl acq rel ins) (replicate j t) s"
  by (induction j arbitrary: s) (simp_all add: bench_step_def cong: Option.bind_cong)

text \<open>A tester moves on when no other one is inside, and the others stay where they are.\<close>

lemma tester_moves:
  assumes i: "bench_inv ins ok fl incs n s" and f: "is_flow fl d" and t: "t < n" and nd: "tpc (testers s t) \<noteq> TDone"
    and alone: "\<forall>u. u \<noteq> t \<longrightarrow> \<not> ins (lk s) u"
  shows "\<exists>j x l' c. exec (bench_step fl acq rel ins n) (replicate j t) s = Some (set_tester t x (s\<lparr>lk := l', counter := c\<rparr>))
    \<and> tester_left d x < tester_left d (testers s t)"
proof -
  let ?x = "testers s t"
  have o: "ok (lk s)" and it: "ins (lk s) t \<longleftrightarrow> crit fl (tpc ?x)" and xt: "tester_ok fl incs (counter s) ?x"
    using i t by (auto simp: bench_inv_def)
  note fl = f [unfolded is_flow_def]
  have goal: ?thesis
    if "exec (test_step fl acq rel ins) (replicate j t) s = Some (set_tester t x (s\<lparr>lk := l', counter := c\<rparr>))"
      "tester_left d x < tester_left d ?x" for j x l' c
    using that bench_exec [OF t] by metis
  have one: ?thesis
    if "test_step fl acq rel ins t s = Some (set_tester t x (s\<lparr>lk := l', counter := c\<rparr>))" "tester_left d x < tester_left d ?x" for x l' c
    using that by (intro goal [where j = 1 and x = x and l' = l' and c = c]) simp_all
  show ?thesis
  proof (cases "tpc ?x")
    case TLock
    then have "\<forall>u. \<not> ins (lk s) u" using it alone by (auto simp: crit_def)
    with acq_live [OF o] obtain k l where "exec acq (replicate k t) (lk s) = Some l" "ins l t" by blast
    with test_lock [of k t s l fl] TLock it obtain j l' where
      "exec (test_step fl acq rel ins) (replicate j t) s = Some (set_tester t (?x\<lparr>tpc := at_lock fl\<rparr>) (s\<lparr>lk := l'\<rparr>))"
      by (auto simp: crit_def)
    then show ?thesis using TLock fl
      by (intro goal [where j = j and x = "?x\<lparr>tpc := at_lock fl\<rparr>" and l' = l' and c = "counter s"]) (auto simp: tester_left_def)
  next
    case TUnlock
    then have u: "ins (lk s) t" using it by (simp add: crit_def)
    with rel_live [OF o] obtain k l where "exec rel (replicate k t) (lk s) = Some l" "\<not> ins l t" by blast
    with test_unlock [of k t s l fl] TUnlock u obtain j l' where
      "exec (test_step fl acq rel ins) (replicate j t) s = Some (set_tester t (?x\<lparr>tpc := at_unlock fl\<rparr>) (s\<lparr>lk := l'\<rparr>))"
      by auto
    then show ?thesis using TUnlock fl
      by (intro goal [where j = j and x = "?x\<lparr>tpc := at_unlock fl\<rparr>" and l' = l' and c = "counter s"]) (auto simp: tester_left_def)
  next
    case TLoop
    let ?y = "?x\<lparr>increments := increments ?x - 1, tpc := (if increments ?x > 0 then at_enter fl else at_exit fl)\<rparr>"
    have inc: "increments ?x \<ge> 0" using xt TLoop by (simp add: tester_ok_def leaving_def)
    then obtain m where m: "increments ?x = int m" using nonneg_int_cases by blast
    have "tester_left d ?y < tester_left d ?x"
      using fl TLoop by (cases m) (auto simp: tester_left_def m nat_add_distrib)
    then show ?thesis using TLoop
      by (intro one [where x = ?y and l' = "lk s" and c = "counter s"]) (simp_all add: test_step_def Let_def)
  next
    case TRead
    then show ?thesis
      by (intro one [where x = "?x\<lparr>reg := counter s, tpc := TWrite\<rparr>" and l' = "lk s" and c = "counter s"])
         (simp_all add: test_step_def Let_def tester_left_def)
  next
    case TWrite
    then show ?thesis
      by (intro one [where x = "?x\<lparr>tpc := TCount\<rparr>" and l' = "lk s" and c = "reg ?x + 1"]) (simp_all add: test_step_def Let_def tester_left_def)
  next
    case TCount
    then show ?thesis using fl
      by (intro one [where x = "?x\<lparr>requests := requests ?x + 1, tpc := at_count fl\<rparr>" and l' = "lk s" and c = "counter s"])
         (auto simp: test_step_def Let_def tester_left_def)
  next
    case (TDelay m)
    then show ?thesis
      by (intro one [where x = "?x\<lparr>tpc := (if m > 0 then TDelay (m - 1) else TLoop)\<rparr>" and l' = "lk s" and c = "counter s"])
         (simp_all add: test_step_def Let_def tester_left_def)
  qed (use nd in simp)
qed

text \<open>So there is always a way for all of them to finish.\<close>

lemma can_finish:
  assumes "bench_inv ins ok fl incs n s" "is_flow fl d"
  shows "\<exists>sched s'. exec (bench_step fl acq rel ins n) sched s = Some s' \<and> all_done n s'"
  using assms
proof (induction "\<Sum>t < n. tester_left d (testers s t)" arbitrary: s rule: less_induct)
  case less
  show ?case
  proof (cases "all_done n s")
    case True
    then show ?thesis by (intro exI [of _ "[]"]) simp
  next
    case False
    then obtain t0 where t0: "t0 < n" "tpc (testers s t0) \<noteq> TDone" by (auto simp: all_done_def)
    have o: "ok (lk s)" and ins: "ins (lk s) t \<longleftrightarrow> t < n \<and> crit fl (tpc (testers s t))" for t
      using less.prems by (auto simp: bench_inv_def)
    obtain t where t: "t < n" "tpc (testers s t) \<noteq> TDone" "\<forall>u. u \<noteq> t \<longrightarrow> \<not> ins (lk s) u"
    proof (cases "\<exists>u. ins (lk s) u")
      case True
      then obtain u where u: "ins (lk s) u" by blast
      moreover from this have "u < n" "tpc (testers s u) \<noteq> TDone" using ins [of u] by (auto simp: crit_def)
      ultimately show thesis using that excl [OF o] by blast
    qed (use t0 that in blast)
    from tester_moves [OF less.prems t] obtain j x l' c where
      j: "exec (bench_step fl acq rel ins n) (replicate j t) s = Some (set_tester t x (s\<lparr>lk := l', counter := c\<rparr>))"
      and x: "tester_left d x < tester_left d (testers s t)" by blast
    let ?s = "set_tester t x (s\<lparr>lk := l', counter := c\<rparr>)"
    have "(\<Sum>u < n. tester_left d (testers ?s u)) < (\<Sum>u < n. tester_left d (testers s u))"
      using t(1) x by (intro sum_strict_mono_ex1) (auto simp: set_tester_def)
    from less.hyps [OF this inv_exec [OF less.prems j] less.prems(2)] obtain sched s' where
      "exec (bench_step fl acq rel ins n) sched ?s = Some s'" "all_done n s'" by blast
    with j show ?thesis by (intro exI [of _ "replicate j t @ sched"]) (simp add: exec_append)
  qed
qed

lemma rounds_return:
  assumes "ok l" "\<forall>t. \<not> ins l t" "is_flow fl d" "incs \<ge> 0" "length ns = N" "length ms = N"
  shows "\<exists>scheds l'. length scheds = N \<and> bench_rounds fl acq rel ins incs ns (zip scheds ms) (l, ts) = Some (l', ts @ ms)"
  using assms
proof (induction ns arbitrary: l ts ms N)
  case (Cons n ns)
  then obtain x ms1 where ms: "ms = x # ms1" "length ms1 = length ns" "N = Suc (length ns)" by (cases ms) auto
  have i: "bench_inv ins ok fl incs n (start_bench fl incs l)" by (rule inv_start [OF Cons.prems(1-4)])
  from can_finish [OF i Cons.prems(3)] obtain sched s where
    s: "exec (bench_step fl acq rel ins n) sched (start_bench fl incs l) = Some s" "all_done n s" by blast
  from done_counts [OF inv_exec [OF i Cons.prems(3) s(1)] s(2)] have "ok (lk s)" "\<forall>t. \<not> ins (lk s) t" by simp_all
  from Cons.IH [OF this Cons.prems(3,4) refl ms(2), of "ts @ [x]"] obtain scheds l' where
    "length scheds = length ns" "bench_rounds fl acq rel ins incs ns (zip scheds ms1) (lk s, ts @ [x]) = Some (l', (ts @ [x]) @ ms1)" by blast
  with s ms(1,3) show ?case by (intro exI [of _ "sched # scheds"] exI [of _ l']) (simp add: bench_round_def)
qed simp

end

section \<open>The locks\<close>

definition mutex_inside :: "Mutex \<Rightarrow> nat \<Rightarrow> bool" where
  "mutex_inside m t \<longleftrightarrow> holder m = Some t"

interpretation mutex: live_lock mutex_lock mutex_unlock mutex_inside "\<lambda>_. True"
proof unfold_locales
  fix m t assume "\<forall>u. \<not> mutex_inside m u"
  then show "\<exists>k l'. exec mutex_lock (replicate k t) m = Some l' \<and> mutex_inside l' t"
    by (intro exI [of _ 1]) (simp add: mutex_inside_def mutex_lock_def)
next
  fix m t assume "mutex_inside m t"
  then show "\<exists>k l'. exec mutex_unlock (replicate k t) m = Some l' \<and> \<not> mutex_inside l' t"
    by (intro exI [of _ 1]) (simp add: mutex_inside_def mutex_unlock_def)
qed (auto simp: mutex_inside_def mutex_lock_def mutex_unlock_def split: if_splits)

definition spin_inside :: "Spinlock \<Rightarrow> nat \<Rightarrow> bool" where
  "spin_inside s t \<longleftrightarrow> spin s t = SIn"

lemma spin_excl: "spin_inv s \<Longrightarrow> spin_inside s t \<Longrightarrow> spin_inside s u \<Longrightarrow> t = u"
  by (auto simp: spin_inv_def spin_inside_def)

lemma spin_others: "spin_step t s = Some s' \<Longrightarrow> u \<noteq> t \<Longrightarrow> spin_inside s' u = spin_inside s u"
  by (erule spin_step_cases) (auto simp: spin_inside_def spin_goto_def)

interpretation spin: live_lock spin_step spin_step spin_inside spin_inv
proof unfold_locales
  fix s t assume "spin_inv s" "\<forall>u. \<not> spin_inside s u"
  then have "\<not> locked s" "spin s t \<noteq> SIn" by (auto simp: spin_inv_def spin_inside_def)
  from spin_alone [OF this] show "\<exists>k l'. exec spin_step (replicate k t) s = Some l' \<and> spin_inside l' t" by (auto simp: spin_inside_def)
next
  fix s t assume "spin_inside s t"
  then show "\<exists>k l'. exec spin_step (replicate k t) s = Some l' \<and> \<not> spin_inside l' t"
    by (intro exI [of _ 1]) (simp add: spin_inside_def spin_step_def spin_goto_def)
qed (auto intro: spin_excl spin_step_inv dest: spin_others)

lemma mcs_lock_others: "mcs_lock t s = Some s' \<Longrightarrow> u \<noteq> t \<Longrightarrow> mpc s' u = mpc s u"
  by (cases "mpc s t") (auto simp: mcs_lock_def mgoto_def Let_def split: if_splits)

lemma mcs_unlock_others: "mcs_unlock t s = Some s' \<Longrightarrow> u \<noteq> t \<Longrightarrow> mpc s' u = mpc s u"
  by (cases "mpc s t") (auto simp: mcs_unlock_def mgoto_def split: if_splits option.splits)

lemma clean_others: "clean_step a s = Some s' \<Longrightarrow> a \<in> {Lock t, Unlock t} \<Longrightarrow> u \<noteq> t \<Longrightarrow> mpc s' u = mpc s u"
  by (auto simp: clean_step_def mcs_lock_others mcs_unlock_others split: if_splits)

interpretation queue: excluding_lock "\<lambda>t. clean_step (Lock t)" "\<lambda>t. clean_step (Unlock t)" mcs_inside "\<lambda>s. \<exists>q. mcs_queue s q"
proof unfold_locales
  fix s t u assume "\<exists>q. mcs_queue s q" "mcs_inside s t" "mcs_inside s u"
  then show "t = u" by (metis list.inject mcs_inside_head)
next
  fix s s' t assume q: "\<exists>q. mcs_queue s q" and st: "clean_step (Lock t) s = Some s'"
  show "(\<exists>q. mcs_queue s' q) \<and> (\<forall>u. u \<noteq> t \<longrightarrow> mcs_inside s' u = mcs_inside s u)"
    using mcslock.step_inv [OF q st] clean_others [OF st, of t] by (simp add: mcs_inside_def)
next
  fix s s' t assume q: "\<exists>q. mcs_queue s q" and st: "clean_step (Unlock t) s = Some s'"
  show "(\<exists>q. mcs_queue s' q) \<and> (\<forall>u. u \<noteq> t \<longrightarrow> mcs_inside s' u = mcs_inside s u)"
    using mcslock.step_inv [OF q st] clean_others [OF st, of t] by (simp add: mcs_inside_def)
qed

section \<open>The benchmarks\<close>

definition SmallCriticalSpinLockTester :: "nat \<Rightarrow> Spinlock bench \<Rightarrow> Spinlock bench option" where
  "SmallCriticalSpinLockTester = test_step small_flow spin_step spin_step spin_inside"

definition LargeCriticalSpinLockTester :: "nat \<Rightarrow> Spinlock bench \<Rightarrow> Spinlock bench option" where
  "LargeCriticalSpinLockTester = test_step (large_flow 1000) spin_step spin_step spin_inside"

definition SmallCriticalBlockingLockTester :: "nat \<Rightarrow> Mutex bench \<Rightarrow> Mutex bench option" where
  "SmallCriticalBlockingLockTester = test_step small_flow mutex_lock mutex_unlock mutex_inside"

definition LargeCriticalBlockingLockTester :: "nat \<Rightarrow> Mutex bench \<Rightarrow> Mutex bench option" where
  "LargeCriticalBlockingLockTester = test_step (large_flow 100) mutex_lock mutex_unlock mutex_inside"

definition SmallCriticalSpinLockMCSTester :: "nat \<Rightarrow> SpinlockMCS bench \<Rightarrow> SpinlockMCS bench option" where
  "SmallCriticalSpinLockMCSTester = test_step small_flow mcs_lock mcs_unlock mcs_inside"

definition LargeCriticalSpinLockMCSTester :: "nat \<Rightarrow> SpinlockMCS bench \<Rightarrow> SpinlockMCS bench option" where
  "LargeCriticalSpinLockMCSTester = test_step (large_flow 1000) mcs_lock mcs_unlock mcs_inside"

text \<open>Each benchmark runs 2 to 8 threads and returns the times of the rounds.\<close>

definition SpinLocksShortCritical :: "(nat list \<times> rat) list \<Rightarrow> rat list option" where
  "SpinLocksShortCritical runs = map_option snd (bench_rounds small_flow spin_step spin_step spin_inside 50000 [2..<9] runs (new_Spinlock, []))"

definition SpinLocksLongCritical :: "(nat list \<times> rat) list \<Rightarrow> rat list option" where
  "SpinLocksLongCritical runs =
     map_option snd (bench_rounds (large_flow 1000) spin_step spin_step spin_inside 50000 [2..<9] runs (new_Spinlock, []))"

definition BlockingLocksShortCritical :: "(nat list \<times> rat) list \<Rightarrow> rat list option" where
  "BlockingLocksShortCritical runs = map_option snd (bench_rounds small_flow mutex_lock mutex_unlock mutex_inside 50000 [2..<9] runs (new_Mutex, []))"

definition BlockingLocksLongCritical :: "(nat list \<times> rat) list \<Rightarrow> rat list option" where
  "BlockingLocksLongCritical runs =
     map_option snd (bench_rounds (large_flow 100) mutex_lock mutex_unlock mutex_inside 50000 [2..<9] runs (new_Mutex, []))"

definition SpinLocksMCSShortCritical :: "(nat list \<times> rat) list \<Rightarrow> rat list option" where
  "SpinLocksMCSShortCritical runs = map_option snd (bench_rounds small_flow mcs_lock mcs_unlock mcs_inside 200 [2..<9] runs (new_SpinlockMCS, []))"

definition SpinLocksMCSLongCritical :: "(nat list \<times> rat) list \<Rightarrow> rat list option" where
  "SpinLocksMCSLongCritical runs =
     map_option snd (bench_rounds (large_flow 1000) mcs_lock mcs_unlock mcs_inside 200 [2..<9] runs (new_SpinlockMCS, []))"

text \<open>The spinlock in \<^verbatim>\<open>lock_benchmark_MCS.cpp\<close>, with fewer increments.\<close>

definition SpinLocksShortCritical_MCS :: "(nat list \<times> rat) list \<Rightarrow> rat list option" where
  "SpinLocksShortCritical_MCS runs = map_option snd (bench_rounds small_flow spin_step spin_step spin_inside 200 [2..<9] runs (new_Spinlock, []))"

definition SpinLocksLongCritical_MCS :: "(nat list \<times> rat) list \<Rightarrow> rat list option" where
  "SpinLocksLongCritical_MCS runs =
     map_option snd (bench_rounds (large_flow 1000) spin_step spin_step spin_inside 200 [2..<9] runs (new_Spinlock, []))"

text \<open>\<^verbatim>\<open>findLarger\<close> in exact arithmetic, and the rows of a table of results; \<open>None\<close> when \<^verbatim>\<open>at\<close> throws.\<close>

definition findLarger :: "rat \<Rightarrow> rat \<Rightarrow> nat \<times> rat" where
  "findLarger a b = (if a \<ge> b then (1, (1 - b / a) * 100) else (2, (1 - a / b) * 100))"

fun result_rows :: "nat \<Rightarrow> rat list \<Rightarrow> rat list \<Rightarrow> (nat \<times> rat \<times> rat \<times> bool \<times> rat) list option" where
  "result_rows n (a # as) (b # bs) =
     (case findLarger a b of (larger, p) \<Rightarrow> map_option ((#) (n, a, b, larger = 2, p)) (result_rows (n + 1) as bs))"
| "result_rows n [] bs = Some []"
| "result_rows n (a # as) [] = None"

definition SmallCriticalResults :: "rat list \<Rightarrow> rat list \<Rightarrow> (nat \<times> rat \<times> rat \<times> bool \<times> rat) list option" where
  "SmallCriticalResults SpinLocksShort BlockingLocksShort = result_rows 2 SpinLocksShort BlockingLocksShort"

definition LargeCriticalResults :: "rat list \<Rightarrow> rat list \<Rightarrow> (nat \<times> rat \<times> rat \<times> bool \<times> rat) list option" where
  "LargeCriticalResults SpinLocksLong BlockingLocksLong = result_rows 2 SpinLocksLong BlockingLocksLong"

section \<open>Properties\<close>

text \<open>
  C20. Under the spinlock and under the mutex no increment is lost, in the small and in the large critical
  section and for every interleaving: when all \<open>n\<close> threads are done the counter is \<open>n\<close> times the
  increments of one. And however the threads have run so far, they can all finish.
\<close>

theorem lock_benchmarks_count:
  assumes "incs \<ge> 0" "fl = small_flow \<or> fl = large_flow temp"
    and "exec (bench_step fl spin_step spin_step spin_inside n) as (start_bench fl incs new_Spinlock) = Some s"
    and "exec (bench_step fl mutex_lock mutex_unlock mutex_inside n) bs (start_bench fl incs new_Mutex) = Some m"
  shows "(all_done n s \<longrightarrow> counter s = int n * incs) \<and> (all_done n m \<longrightarrow> counter m = int n * incs)
    \<and> (\<exists>cs s'. exec (bench_step fl spin_step spin_step spin_inside n) cs s = Some s' \<and> all_done n s')
    \<and> (\<exists>cs m'. exec (bench_step fl mutex_lock mutex_unlock mutex_inside n) cs m = Some m' \<and> all_done n m')"
proof -
  have fl: "is_flow fl temp" using assms(2) by (simp add: is_flow_def)
  have s: "bench_inv spin_inside spin_inv fl incs n s"
    using spin.inv_exec [OF spin.inv_start [OF spin_inv_new _ fl assms(1)] fl assms(3)] by (simp add: spin_inside_def new_Spinlock_def)
  have m: "bench_inv mutex_inside (\<lambda>_. True) fl incs n m"
    using mutex.inv_exec [OF mutex.inv_start [OF _ _ fl assms(1)] fl assms(4)] by (simp add: mutex_inside_def new_Mutex_def)
  show ?thesis using spin.done_counts [OF s] mutex.done_counts [OF m] spin.can_finish [OF s fl] mutex.can_finish [OF m fl] by blast
qed

theorem lock_benchmarks_count_witness:
  "\<exists>m. exec (bench_step small_flow mutex_lock mutex_unlock mutex_inside 2) (replicate 7 0 @ replicate 7 1) (start_bench small_flow 1 new_Mutex) = Some m
     \<and> counter m = 2"
proof -
  let ?m = "exec (bench_step small_flow mutex_lock mutex_unlock mutex_inside 2) (replicate 7 0 @ replicate 7 1) (start_bench small_flow 1 new_Mutex)"
  have "case ?m of None \<Rightarrow> False | Some m \<Rightarrow> tpc (testers m 0) = TDone \<and> tpc (testers m 1) = TDone" by code_simp
  then obtain m where m: "?m = Some m" "all_done 2 m" by (auto simp: all_done_def less_2_cases_iff split: option.splits)
  from lock_benchmarks_count [of 1 small_flow 0 2 "[]" _ _ m] m show ?thesis by auto
qed

text \<open>Whatever times are measured, there are schedules by which the benchmarks return them.\<close>

theorem benchmarks_return:
  assumes "length ms = 7"
  shows "\<exists>scheds. length scheds = 7 \<and> SpinLocksShortCritical (zip scheds ms) = Some ms"
    "\<exists>scheds. length scheds = 7 \<and> SpinLocksLongCritical (zip scheds ms) = Some ms"
    "\<exists>scheds. length scheds = 7 \<and> BlockingLocksShortCritical (zip scheds ms) = Some ms"
    "\<exists>scheds. length scheds = 7 \<and> BlockingLocksLongCritical (zip scheds ms) = Some ms"
proof -
  have l: "length [2..<9 :: nat] = 7" by simp
  note s = spin.rounds_return [OF spin_inv_new _ _ _ l assms, where incs = 50000 and ts = "[]"]
  note m = mutex.rounds_return [where l = new_Mutex, OF _ _ _ _ l assms, where incs = 50000 and ts = "[]"]
  show "\<exists>scheds. length scheds = 7 \<and> SpinLocksShortCritical (zip scheds ms) = Some ms"
    using s [of small_flow 0] by (auto simp: SpinLocksShortCritical_def spin_inside_def new_Spinlock_def is_flow_def)
  show "\<exists>scheds. length scheds = 7 \<and> SpinLocksLongCritical (zip scheds ms) = Some ms"
    using s [of "large_flow 1000" 1000] by (auto simp: SpinLocksLongCritical_def spin_inside_def new_Spinlock_def is_flow_def)
  show "\<exists>scheds. length scheds = 7 \<and> BlockingLocksShortCritical (zip scheds ms) = Some ms"
    using m [of small_flow 0] by (auto simp: BlockingLocksShortCritical_def mutex_inside_def new_Mutex_def is_flow_def)
  show "\<exists>scheds. length scheds = 7 \<and> BlockingLocksLongCritical (zip scheds ms) = Some ms"
    using m [of "large_flow 100" 100] by (auto simp: BlockingLocksLongCritical_def mutex_inside_def new_Mutex_def is_flow_def)
qed

text \<open>In the executions in which no swap of it fails the queue lock counts as well.\<close>

theorem clean_queue_lock_counts:
  assumes "incs \<ge> 0" "fl = small_flow \<or> fl = large_flow temp"
    and "exec (bench_step fl (\<lambda>t. clean_step (Lock t)) (\<lambda>t. clean_step (Unlock t)) mcs_inside n) as (start_bench fl incs new_SpinlockMCS) = Some s"
    and "all_done n s"
  shows "counter s = int n * incs"
proof -
  have fl: "is_flow fl temp" using assms(2) by (simp add: is_flow_def)
  have q: "\<exists>q. mcs_queue new_SpinlockMCS q" using mcs_queue_new by blast
  have "bench_inv mcs_inside (\<lambda>s. \<exists>q. mcs_queue s q) fl incs n s"
    using queue.inv_exec [OF queue.inv_start [OF q _ fl assms(1)] fl assms(3)] by (simp add: mcs_inside_def new_SpinlockMCS_def)
  from queue.done_counts [OF this assms(4)] show ?thesis by simp
qed

definition lost_update :: "nat list" where
  "lost_update = [0, 0, 0, 0, 0, 0, 0, 1, 1, 1, 0, 0, 0, 1, 2, 2, 2, 2, 1, 2, 1, 1, 2, 2, 2, 2, 2, 1, 1]"

text \<open>
  C39. With the queue lock as it is written the benchmark loses an increment and does not end: three
  threads have made their one increment each, the counter is 2, two threads are done, and the third
  waits in \<^verbatim>\<open>unlock\<close> for a successor that never comes.
\<close>

theorem mcs_benchmark_loses_update:
  "\<exists>s. exec (bench_step small_flow mcs_lock mcs_unlock mcs_inside 3) lost_update (start_bench small_flow 1 new_SpinlockMCS) = Some s
    \<and> counter s = 2 \<and> map (\<lambda>t. requests (testers s t)) [0, 1, 2] = [1, 1, 1]
    \<and> map (\<lambda>t. tpc (testers s t)) [0, 1, 2] = [TDone, TUnlock, TDone]
    \<and> map (\<lambda>t. bench_step small_flow mcs_lock mcs_unlock mcs_inside 3 t s) [0, 1, 2] = [None, None, None]"
proof -
  let ?e = "exec (bench_step small_flow mcs_lock mcs_unlock mcs_inside 3) lost_update (start_bench small_flow 1 new_SpinlockMCS)"
  have "case ?e of None \<Rightarrow> False | Some s \<Rightarrow> counter s = 2 \<and> map (\<lambda>t. requests (testers s t)) [0, 1, 2] = [1, 1, 1]
      \<and> map (\<lambda>t. tpc (testers s t)) [0, 1, 2] = [TDone, TUnlock, TDone]
      \<and> list_all (\<lambda>t. Option.is_none (bench_step small_flow mcs_lock mcs_unlock mcs_inside 3 t s)) [0, 1, 2]"
    by code_simp
  then show ?thesis by (cases ?e) (auto simp: Option.is_none_def)
qed

end
