(* ===== verification/Test_Counter.thy ===== *)
theory Test_Counter
  imports Mutexes
begin

text \<open>
  The counter of the tests (\<^verbatim>\<open>test_util.hpp\<close>) and the tasks that use it. Every operation runs on thread \<open>t\<close>; \<open>None\<close>
  says that it blocks on the mutex of the counter.
\<close>

section \<open>The counter\<close>

record Counter =
  cnt :: int
  locker :: Mutex

definition locked_op :: "nat \<Rightarrow> (int \<Rightarrow> int) \<Rightarrow> Counter \<Rightarrow> Counter option" where
  "locked_op t f c = do { m \<leftarrow> mutex_lock t (locker c); m1 \<leftarrow> mutex_unlock t m; Some (c\<lparr>cnt := f (cnt c), locker := m1\<rparr>) }"

text \<open>\<^verbatim>\<open>count\<close> returns before it unlocks.\<close>

definition c_count :: "nat \<Rightarrow> Counter \<Rightarrow> (int \<times> Counter) option" where
  "c_count t c = do { m \<leftarrow> mutex_lock t (locker c); Some (cnt c, c\<lparr>locker := m\<rparr>) }"

definition c_set :: "nat \<Rightarrow> int \<Rightarrow> Counter \<Rightarrow> Counter option" where
  "c_set t i = locked_op t (\<lambda>_. i)"

definition c_reset :: "nat \<Rightarrow> Counter \<Rightarrow> Counter option" where
  "c_reset t = locked_op t (\<lambda>_. 0)"

definition c_inc :: "nat \<Rightarrow> Counter \<Rightarrow> Counter option" where
  "c_inc t = locked_op t (\<lambda>n. n + 1)"

definition c_incBy :: "nat \<Rightarrow> int \<Rightarrow> Counter \<Rightarrow> Counter option" where
  "c_incBy t i = locked_op t (\<lambda>n. n + i)"

definition c_between :: "int \<Rightarrow> int \<Rightarrow> Counter \<Rightarrow> bool" where
  "c_between i j c = (if i > cnt c then False else if j < cnt c then False else True)"

text \<open>The constructor; the member \<open>cnt\<close> is not initialised before \<^verbatim>\<open>reset\<close> sets it.\<close>

definition new_Counter :: "nat \<Rightarrow> int \<Rightarrow> Counter option" where
  "new_Counter t junk = c_reset t \<lparr>cnt = junk, locker = new_Mutex\<rparr>"

section \<open>The tasks\<close>

fun repeat :: "nat \<Rightarrow> ('a \<Rightarrow> 'a option) \<Rightarrow> 'a \<Rightarrow> 'a option" where
  "repeat 0 f x = Some x"
| "repeat (Suc n) f x = do { y \<leftarrow> f x; repeat n f y }"

definition ShortTask :: "nat \<Rightarrow> Counter \<Rightarrow> Counter option" where
  "ShortTask t = c_inc t"

definition LongTask :: "nat \<Rightarrow> Counter \<Rightarrow> Counter option" where
  "LongTask t c =
     do { c1 \<leftarrow> repeat 100000 (c_inc t) c;
          c2 \<leftarrow> c_reset t c1;
          repeat 100000 (\<lambda>c. if c_between 0 50000 c then c_incBy t 10 c else c_incBy t 20 c) c2 }"

section \<open>What they do\<close>

lemma locked_op_free: "holder (locker c) = None \<Longrightarrow> locked_op t f c = Some (c\<lparr>cnt := f (cnt c)\<rparr>)"
  by (cases "locker c") (simp add: locked_op_def mutex_lock_def mutex_unlock_def)

lemma locked_op_held: "holder (locker c) \<noteq> None \<Longrightarrow> locked_op t f c = None"
  by (auto simp: locked_op_def mutex_lock_def)

lemma repeat_add: "repeat (m + n) f x = do { y \<leftarrow> repeat m f x; repeat n f y }"
proof (induction m arbitrary: x)
  case (Suc m)
  then show ?case by (cases "f x") simp_all
qed simp

lemma repeat_steps:
  assumes "\<And>k c. k < n \<Longrightarrow> P c \<Longrightarrow> cnt c = a + b * int k \<Longrightarrow> f c = Some (c\<lparr>cnt := cnt c + b\<rparr>) \<and> P (c\<lparr>cnt := cnt c + b\<rparr>)"
    and "P c" "cnt c = a"
  shows "repeat n f c = Some (c\<lparr>cnt := a + b * int n\<rparr>)"
proof -
  have "repeat m f c = Some (c\<lparr>cnt := a + b * int m\<rparr>) \<and> P (c\<lparr>cnt := a + b * int m\<rparr>)" if "m \<le> n" for m
    using that
  proof (induction m)
    case 0
    have "c\<lparr>cnt := a\<rparr> = c" using assms(3) by (cases c) simp
    with assms(2) show ?case by simp
  next
    case (Suc m)
    then have "repeat m f c = Some (c\<lparr>cnt := a + b * int m\<rparr>)" "P (c\<lparr>cnt := a + b * int m\<rparr>)" by simp_all
    with assms(1) [of m "c\<lparr>cnt := a + b * int m\<rparr>"] Suc.prems repeat_add [of m 1 f c] show ?case
      by (simp add: algebra_simps)
  qed
  then show ?thesis by simp
qed

text \<open>
  Run alone, the long task leaves 1949990 in the counter, whatever was in it: 5001 additions of 10 take it past 50000, and
  20 is added 94999 times.
\<close>

theorem long_task_result:
  assumes "holder (locker c) = None"
  shows "LongTask t c = Some (c\<lparr>cnt := 1949990\<rparr>)"
proof -
  let ?P = "\<lambda>c. holder (locker c) = None"
  let ?f = "\<lambda>c. if c_between 0 50000 c then c_incBy t 10 c else c_incBy t 20 c"
  have "repeat 100000 (c_inc t) c = Some (c\<lparr>cnt := cnt c + 1 * int 100000\<rparr>)"
    by (rule repeat_steps [where P = ?P]) (use assms in \<open>simp_all add: c_inc_def locked_op_free\<close>)
  moreover have "c_reset t d = Some (d\<lparr>cnt := 0\<rparr>)" if "?P d" for d using that by (simp add: c_reset_def locked_op_free)
  moreover have "repeat 5001 ?f (c\<lparr>cnt := 0\<rparr>) = Some ((c\<lparr>cnt := 0\<rparr>)\<lparr>cnt := 0 + 10 * int 5001\<rparr>)"
    by (rule repeat_steps [where P = ?P]) (use assms in \<open>auto simp: c_incBy_def c_between_def locked_op_free\<close>)
  moreover have "repeat 94999 ?f (c\<lparr>cnt := 50010\<rparr>) = Some ((c\<lparr>cnt := 50010\<rparr>)\<lparr>cnt := 50010 + 20 * int 94999\<rparr>)"
    by (rule repeat_steps [where P = ?P]) (use assms in \<open>auto simp: c_incBy_def c_between_def locked_op_free\<close>)
  moreover have "repeat 100000 ?f d = do { e \<leftarrow> repeat 5001 ?f d; repeat 94999 ?f e }" for d
    using repeat_add [of 5001 94999 ?f d] by simp
  ultimately show ?thesis using assms by (simp add: LongTask_def)
qed

theorem long_task_result_witness: "LongTask 1 \<lparr>cnt = 7, locker = new_Mutex\<rparr> = Some \<lparr>cnt = 1949990, locker = new_Mutex\<rparr>"
  using long_task_result [of "\<lparr>cnt = 7, locker = new_Mutex\<rparr>" 1] by (simp add: new_Mutex_def)

text \<open>
  \<^verbatim>\<open>count\<close> keeps the mutex: after one call every other operation blocks, on every thread, and so does the
  next call of \<^verbatim>\<open>count\<close>. The test of the callbacks does this (\<^verbatim>\<open>callback_test.cpp\<close>).
\<close>

theorem count_keeps_lock:
  assumes "c_count t c = Some (n, c')"
  shows "n = cnt c \<and> c_inc u c' = None \<and> c_incBy u i c' = None \<and> c_set u i c' = None \<and> c_reset u c' = None \<and> c_count u c' = None"
  using assms
  by (auto simp: c_count_def c_inc_def c_incBy_def c_set_def c_reset_def mutex_lock_def locked_op_held split: if_splits)

end
