(* ===== verification/Client_Programs.thy ===== *)
theory Client_Programs
  imports Kv_Connection Connection_Correct
begin

text \<open>
  The clients: \<^verbatim>\<open>client_async.cpp\<close> and \<^verbatim>\<open>kv_benchmark.cpp\<close>, which send a request, wait for the response, and start
  over from a timer or a task of the thread pool, and \<^verbatim>\<open>client_sync.cpp\<close>. The random number of
  \<^verbatim>\<open>kv_benchmark.cpp\<close> is an argument. Task \<open>request_task\<close> is \<^verbatim>\<open>request_cb_\<close> and callback \<open>response_cb\<close> is \<^verbatim>\<open>response_cb_\<close>.
\<close>

section \<open>The asynchronous clients\<close>

definition request_task :: nat where
  "request_task = 0"

definition response_cb :: nat where
  "response_cb = 0"

definition get_request :: "string \<Rightarrow> Request" where
  "get_request addr = \<lparr>req_method = ''GET'', req_address = addr, req_version = ''HTTP/1.1''\<rparr>"

definition doRequest :: "write_res list \<Rightarrow> Client conn_world \<Rightarrow> Client conn_world run" where
  "doRequest rs w =
     run_bind (if \<not> conn_ok w then Done w else asyncSend (get_request ''/index.html'') response_cb rs w) (\<lambda>w1. of_opt (release w1))"

definition client_start :: "write_res list \<Rightarrow> Client conn_world \<Rightarrow> Client conn_world run" where
  "client_start rs w = (if \<not> conn_ok w then Done w else run_bind (of_opt (acquire w)) (doRequest rs))"

text \<open>\<open>ts\<close> is the time of the timer; the response is not deleted.\<close>

definition requestDone :: "64 word \<Rightarrow> Client conn_world \<Rightarrow> Client conn_world run" where
  "requestDone ts w =
     (if \<not> conn_ok w then Done w
      else run_bind (of_opt (acquire w)) (\<lambda>w1. Done (w1\<lparr>io := addTimer ts request_task (io w1)\<rparr>)))"

text \<open>The client of \<^verbatim>\<open>kv_benchmark.cpp\<close>; \<open>r\<close> is what \<^verbatim>\<open>rand\<close> returns.\<close>

definition kv_doRequest :: "nat \<Rightarrow> write_res list \<Rightarrow> Client conn_world \<Rightarrow> Client conn_world run" where
  "kv_doRequest r rs w =
     run_bind (if \<not> conn_ok w then Done w else kv_asyncSend (get_request (''/'' @ show_nat (r mod 300 + 1))) response_cb rs w)
       (\<lambda>w1. of_opt (release w1))"

definition kv_client_start :: "nat \<Rightarrow> write_res list \<Rightarrow> Client conn_world \<Rightarrow> Client conn_world run" where
  "kv_client_start r rs w = (if \<not> conn_ok w then Done w else run_bind (of_opt (acquire w)) (kv_doRequest r rs))"

definition kv_requestDone :: "Client conn_world \<Rightarrow> Client conn_world run" where
  "kv_requestDone w =
     (if \<not> conn_ok w then Done w
      else run_bind (of_opt (acquire w)) (\<lambda>w1. Done (w1\<lparr>io := io_addTask request_task (io w1)\<rparr>)))"

text \<open>The progress meter, with its static counter; \<open>cb\<close> is the callback it makes for its next call.\<close>

definition check :: "64 word \<Rightarrow> nat \<Rightarrow> nat option \<Rightarrow> int \<times> ServiceManager \<times> IOManager \<Rightarrow> (int \<times> ServiceManager \<times> IOManager) run" where
  "check ts cb c = (\<lambda>(i, sm, m).
     if i + 1 = 10 then run_bind (sm_stop c (sm, m)) (\<lambda>(sm1, m1). Done (i + 1, sm1, m1))
     else Done (i + 1, sm, addTimer ts cb m))"

text \<open>The same for \<^verbatim>\<open>kv_benchmark.cpp\<close>, which also prints the requests of the last second.\<close>

definition kv_check :: "nat \<Rightarrow> nat \<Rightarrow> nat \<Rightarrow> RequestStats \<Rightarrow> 64 word \<Rightarrow> nat \<Rightarrow> nat option \<Rightarrow> int \<times> ServiceManager \<times> IOManager
    \<Rightarrow> (string \<times> int \<times> ServiceManager \<times> IOManager) run" where
  "kv_check K T now st ts cb c = (\<lambda>(i, sm, m).
     if i + 1 = 10 then run_bind (sm_stop c (sm, m)) (\<lambda>(sm1, m1). Done ([], i + 1, sm1, m1))
     else Done (show_nat (getStats K T now st), i + 1, sm, addTimer ts cb m))"

section \<open>One request after the other\<close>

text \<open>
  A round, as the event loop and the thread pool run it: a response arrives and goes to the callback at
  the head of the queue; if that is the client's, it runs \<^verbatim>\<open>requestDone\<close>; the polling loop then looks at
  its timers, and worker \<open>v\<close> looks into its mailbox and runs the client's request if that is the task
  it finds there. When a step finds nothing to do, the round does not complete (\<open>Pending\<close>). Responses,
  answers of the socket, times and random numbers are arguments.
\<close>

definition deliver_response :: "Response \<Rightarrow> (Client conn_world \<Rightarrow> Client conn_world run) \<Rightarrow> Client conn_world \<Rightarrow> Client conn_world run" where
  "deliver_response resp callback w =
     run_bind (handleResponse resp w) (\<lambda>(_, w1).
       if delivered (sub (conn w1)) = delivered (sub (conn w)) @ [(response_cb, resp)] then callback w1 else Pending)"

definition run_task :: "nat \<Rightarrow> (Client conn_world \<Rightarrow> Client conn_world run) \<Rightarrow> Client conn_world \<Rightarrow> Client conn_world run" where
  "run_task v task w =
     (case worker_take v (worker_pool (io w)) of
        None \<Rightarrow> Pending
      | Some p \<Rightarrow>
          if phases p ! v = Running request_task then
            run_bind (task (w\<lparr>io := (io w)\<lparr>worker_pool := p\<rparr>\<rparr>)) (\<lambda>w1.
              of_opt (do { p1 \<leftarrow> worker_return v (worker_pool (io w1)); Some (w1\<lparr>io := (io w1)\<lparr>worker_pool := p1\<rparr>\<rparr>) }))
          else Pending)"

definition http_round :: "nat \<Rightarrow> Response \<times> write_res list \<times> 64 word \<times> 64 word \<Rightarrow> Client conn_world \<Rightarrow> Client conn_world run" where
  "http_round v = (\<lambda>(resp, rs, ts, now) w.
     run_bind (deliver_response resp (requestDone ts) w) (\<lambda>w1. run_task v (doRequest rs) (w1\<lparr>io := poll_timers now (io w1)\<rparr>)))"

definition kv_round :: "nat \<Rightarrow> Response \<times> write_res list \<times> nat \<Rightarrow> Client conn_world \<Rightarrow> Client conn_world run" where
  "kv_round v = (\<lambda>(resp, rs, r) w. run_bind (deliver_response resp kv_requestDone w) (run_task v (kv_doRequest r rs)))"

fun client_rounds :: "('a \<Rightarrow> Client conn_world \<Rightarrow> Client conn_world run) \<Rightarrow> 'a list \<Rightarrow> Client conn_world \<Rightarrow> Client conn_world run" where
  "client_rounds f [] w = Done w"
| "client_rounds f (x # xs) w = run_bind (f x w) (client_rounds f xs)"

definition idle :: "Client conn_world \<Rightarrow> bool" where
  "idle w \<longleftrightarrow> conn_ok w \<and> \<not> destroyed w \<and> refs (conn w) > 0 \<and> \<not> writing (conn w) \<and> out_inv (out_buf (conn w))
     \<and> content (out_buf (conn w)) = []"

text \<open>The event loop between two rounds: no timer is set, and worker \<open>v\<close> is the next to get a task.\<close>

definition loop_ready :: "nat \<Rightarrow> IOManager \<Rightarrow> bool" where
  "loop_ready v m \<longleftrightarrow> timer_queue m = [] \<and> dispatch_queue (worker_pool m) = [] \<and> (\<exists>rest. free_workers (worker_pool m) = v # rest)
     \<and> v < length (wrk (worker_pool m)) \<and> v < length (phases (worker_pool m)) \<and> phases (worker_pool m) ! v = Waiting
     \<and> \<not> last_worker (worker_pool m) ! v"

text \<open>What \<open>w'\<close> has more than \<open>w\<close>: the bytes sent, the responses delivered, the callbacks that wait.\<close>

definition sent :: "Client conn_world \<Rightarrow> string \<Rightarrow> Response list \<Rightarrow> nat list \<Rightarrow> Client conn_world \<Rightarrow> bool" where
  "sent w bytes resps cbs w' \<longleftrightarrow> idle w' \<and> sock_out w' = sock_out w @ map Some bytes \<and> refs (conn w') = refs (conn w)
     \<and> delivered (sub (conn w')) = delivered (sub (conn w)) @ map (Pair response_cb) resps \<and> response_cbs (sub (conn w')) = cbs"

lemma sent_trans: "sent w b1 r1 c1 w1 \<Longrightarrow> sent w1 b2 r2 c2 w2 \<Longrightarrow> sent w (b1 @ b2) (r1 @ r2) c2 w2"
  by (simp add: sent_def)

lemma sent_io: "sent w b r c (w'\<lparr>io := m\<rparr>) = sent w b r c w'" "sent (w\<lparr>io := m\<rparr>) b r c w' = sent w b r c w'"
  by (simp_all add: sent_def idle_def conn_ok_def)

text \<open>A task added while worker \<open>v\<close> is the next: it runs it, whether it was asleep or not, and is the next again.\<close>

lemma worker_runs_task:
  assumes "loop_ready v m"
  shows "\<exists>p. worker_take v (worker_pool (io_addTask t m)) = Some p \<and> phases p ! v = Running t
    \<and> (\<exists>p1. worker_return v p = Some p1 \<and> loop_ready v ((io_addTask t m)\<lparr>worker_pool := p1\<rparr>))"
  using assms by (auto simp: loop_ready_def io_addTask_def addTask_def assignTask_def worker_take_def worker_return_def queueWorker_def Let_def)

lemma timer_fires:
  "timer_queue m = [] \<Longrightarrow> ts \<le> now \<Longrightarrow> poll_timers now (addTimer ts t m) = io_addTask t m"
  by (cases m) (simp add: poll_timers_def addTimer_def io_addTask_def not_less [symmetric])

text \<open>A request sent while a reference is held for it.\<close>

lemma send_request:
  assumes "idle w" "response_cbs (sub (conn w)) = []" "accepting rs" "length (request_bytes rq) \<le> takes rs"
  shows "\<exists>w'. run_bind (asyncSend rq response_cb rs (w\<lparr>conn := (conn w)\<lparr>refs := refs (conn w) + 1\<rparr>, io := m\<rparr>)) (\<lambda>w1. of_opt (release w1)) = Done w'
    \<and> sent w (request_bytes rq) [] [response_cb] w' \<and> io w' = m"
proof -
  from assms(1) toBuffer_spec [of "out_buf (conn w)" rq] obtain b where
    b: "toBuffer rq (out_buf (conn w)) = Some b" "out_inv b" "content b = map Some (request_bytes rq)" by (auto simp: idle_def)
  define w1 where "w1 = w\<lparr>conn := (conn w)\<lparr>refs := refs (conn w) + 1, sub := (sub (conn w))\<lparr>response_cbs := [response_cb]\<rparr>, out_buf := b\<rparr>, io := m\<rparr>"
  have u: "upd_out (toBuffer rq) (upd_sub (\<lambda>x. x\<lparr>response_cbs := response_cbs x @ [response_cb]\<rparr>) (w\<lparr>conn := (conn w)\<lparr>refs := refs (conn w) + 1\<rparr>, io := m\<rparr>)) = Done w1"
    using b(1) assms(2) by (simp add: upd_out_def upd_sub_def w1_def)
  have "request_bytes rq \<noteq> []" by (simp add: request_bytes_def)
  then have p: "buf_inv (out_buf (conn w1))" "content (out_buf (conn w1)) \<noteq> []" "\<not> writing (conn w1)" "\<not> destroyed w1" "refs (conn w1) > 0"
    "length (content (out_buf (conn w1))) \<le> takes rs"
    using b assms(1,4) by (simp_all add: w1_def out_inv_def idle_def)
  from startWrite_all [OF p(1-5) assms(3) p(6)] obtain b' where
    b': "buf_inv b'" "content b' = []" "has_room b' = has_room b" and
    e: "startWrite rs w1 = Done (w1\<lparr>sock_out := sock_out w1 @ content b, conn := (conn w1)\<lparr>out_buf := b'\<rparr>\<rparr>)"
    by (auto simp: w1_def)
  define w2 where "w2 = w1\<lparr>sock_out := sock_out w1 @ content b, conn := (conn w1)\<lparr>out_buf := b'\<rparr>\<rparr>"
  have r: "release w2 = Some (w2\<lparr>conn := (conn w2)\<lparr>refs := refs (conn w)\<rparr>\<rparr>)"
    using assms(1) by (simp add: release_def w2_def w1_def idle_def Let_def)
  have "sent w (request_bytes rq) [] [response_cb] (w2\<lparr>conn := (conn w2)\<lparr>refs := refs (conn w)\<rparr>\<rparr>)"
    using assms(1) b b' by (simp add: sent_def idle_def w2_def w1_def out_inv_def conn_ok_def)
  with u e r show ?thesis by (simp add: asyncSend_def w2_def) (simp add: w1_def)
qed

text \<open>The response, with its callback run while a reference for the next request is held.\<close>

lemma response_arrives:
  assumes "idle w" "response_cbs (sub (conn w)) = [response_cb]"
  obtains w1 where "sent w [] [resp] [] w1" "io w1 = io w" "deliver_response resp callback w = callback w1"
proof -
  define w1 where "w1 = upd_sub (\<lambda>x. x\<lparr>response_cbs := [], delivered := delivered x @ [(response_cb, resp)]\<rparr>) w"
  have "sent w [] [resp] [] w1" "io w1 = io w" using assms by (simp_all add: w1_def upd_sub_def sent_def idle_def conn_ok_def)
  moreover have "deliver_response resp callback w = callback w1"
    using assms(2) by (simp add: deliver_response_def handleResponse_def w1_def upd_sub_def)
  ultimately show thesis using that by blast
qed

text \<open>The next request, sent from the worker that finds the task in its mailbox.\<close>

lemma worker_sends:
  assumes "sent w [] [resp] [] w1" "loop_ready v (io w1)" "accepting rs" "length (request_bytes rq) \<le> takes rs"
    and "\<And>w2. task w2 = run_bind (if \<not> conn_ok w2 then Done w2 else asyncSend rq response_cb rs w2) (\<lambda>w3. of_opt (release w3))"
  shows "\<exists>w'. run_task v task (w1\<lparr>conn := (conn w1)\<lparr>refs := refs (conn w1) + 1\<rparr>, io := io_addTask request_task (io w1)\<rparr>) = Done w'
    \<and> sent w (request_bytes rq) [resp] [response_cb] w' \<and> loop_ready v (io w')"
proof -
  obtain p p1 where p: "worker_take v (worker_pool (io_addTask request_task (io w1))) = Some p" "phases p ! v = Running request_task"
    "worker_return v p = Some p1" "loop_ready v ((io_addTask request_task (io w1))\<lparr>worker_pool := p1\<rparr>)"
    using worker_runs_task [OF assms(2)] by blast
  have i: "idle w1" "response_cbs (sub (conn w1)) = []" using assms(1) by (simp_all add: sent_def)
  let ?m = "(io_addTask request_task (io w1))\<lparr>worker_pool := p\<rparr>"
  let ?w2 = "w1\<lparr>conn := (conn w1)\<lparr>refs := refs (conn w1) + 1\<rparr>, io := ?m\<rparr>"
  obtain w2 where w2: "run_bind (asyncSend rq response_cb rs ?w2) (\<lambda>w1. of_opt (release w1)) = Done w2"
    "sent w1 (request_bytes rq) [] [response_cb] w2" "io w2 = ?m" using send_request [OF i assms(3,4), of ?m] by blast
  have "conn_ok ?w2" using i(1) by (simp add: idle_def conn_ok_def)
  with w2(1) have t: "task ?w2 = Done w2" using assms(5) [of ?w2] by simp
  have "run_task v task (w1\<lparr>conn := (conn w1)\<lparr>refs := refs (conn w1) + 1\<rparr>, io := io_addTask request_task (io w1)\<rparr>)
      = Done (w2\<lparr>io := ?m\<lparr>worker_pool := p1\<rparr>\<rparr>)"
    using p(1-3) t w2(3) by (simp add: run_task_def)
  moreover have "sent w (request_bytes rq) [resp] [response_cb] (w2\<lparr>io := ?m\<lparr>worker_pool := p1\<rparr>\<rparr>)"
    using sent_trans [OF assms(1) w2(2)] by (simp add: sent_io)
  ultimately show ?thesis using p(4) by auto
qed

lemma http_round_ok:
  assumes "idle w" "response_cbs (sub (conn w)) = [response_cb]" "loop_ready v (io w)" "accepting rs"
    and "length (request_bytes (get_request ''/index.html'')) \<le> takes rs" "ts \<le> now"
  shows "\<exists>w'. http_round v (resp, rs, ts, now) w = Done w' \<and> sent w (request_bytes (get_request ''/index.html'')) [resp] [response_cb] w'
    \<and> loop_ready v (io w')"
proof -
  obtain w1 where w1: "sent w [] [resp] [] w1" "io w1 = io w" "deliver_response resp (requestDone ts) w = requestDone ts w1"
    using response_arrives [OF assms(1,2)] by blast
  have i: "conn_ok w1" "\<not> destroyed w1" using w1(1) by (simp_all add: sent_def idle_def)
  have "timer_queue (io w1) = []" using assms(3) w1(2) by (simp add: loop_ready_def)
  then have "http_round v (resp, rs, ts, now) w =
      run_task v (doRequest rs) (w1\<lparr>conn := (conn w1)\<lparr>refs := refs (conn w1) + 1\<rparr>, io := io_addTask request_task (io w1)\<rparr>)"
    using i w1(3) timer_fires [of "io w1" ts now request_task] assms(6) by (simp add: http_round_def requestDone_def acquire_def)
  with worker_sends [OF w1(1) _ assms(4,5), of v "doRequest rs"] assms(3) w1(2) show ?thesis by (simp add: doRequest_def)
qed

lemma kv_round_ok:
  assumes "idle w" "response_cbs (sub (conn w)) = [response_cb]" "loop_ready v (io w)" "accepting rs"
    and "length (request_bytes (get_request (''/'' @ show_nat (r mod 300 + 1)))) \<le> takes rs"
  shows "\<exists>w'. kv_round v (resp, rs, r) w = Done w'
    \<and> sent w (request_bytes (get_request (''/'' @ show_nat (r mod 300 + 1)))) [resp] [response_cb] w' \<and> loop_ready v (io w')"
proof -
  obtain w1 where w1: "sent w [] [resp] [] w1" "io w1 = io w" "deliver_response resp kv_requestDone w = kv_requestDone w1"
    using response_arrives [OF assms(1,2)] by blast
  have i: "conn_ok w1" "\<not> destroyed w1" using w1(1) by (simp_all add: sent_def idle_def)
  then have "kv_round v (resp, rs, r) w =
      run_task v (kv_doRequest r rs) (w1\<lparr>conn := (conn w1)\<lparr>refs := refs (conn w1) + 1\<rparr>, io := io_addTask request_task (io w1)\<rparr>)"
    using w1(3) by (simp add: kv_round_def kv_requestDone_def acquire_def)
  with worker_sends [OF w1(1) _ assms(4,5), of v "kv_doRequest r rs"] assms(3) w1(2) show ?thesis
    by (simp add: kv_doRequest_def kv_asyncSend_def)
qed

lemma client_rounds_ok:
  assumes "\<And>x w. x \<in> set xs \<Longrightarrow> idle w \<Longrightarrow> response_cbs (sub (conn w)) = [response_cb] \<Longrightarrow> loop_ready v (io w) \<Longrightarrow>
      \<exists>w'. f x w = Done w' \<and> sent w (bytes x) [resp x] [response_cb] w' \<and> loop_ready v (io w')"
    and "idle w" "response_cbs (sub (conn w)) = [response_cb]" "loop_ready v (io w)"
  shows "\<exists>w'. client_rounds f xs w = Done w' \<and> sent w (concat (map bytes xs)) (map resp xs) [response_cb] w'"
  using assms
proof (induction xs arbitrary: w)
  case Nil
  then show ?case by (simp add: sent_def)
next
  case (Cons x xs)
  from Cons.prems(1) [of x w] Cons.prems(2-4) obtain w1 where w1: "f x w = Done w1" "sent w (bytes x) [resp x] [response_cb] w1" "loop_ready v (io w1)" by auto
  then have "idle w1" "response_cbs (sub (conn w1)) = [response_cb]" by (simp_all add: sent_def)
  with Cons.IH [of w1] Cons.prems(1) w1(3) obtain w2 where "client_rounds f xs w1 = Done w2" "sent w1 (concat (map bytes xs)) (map resp xs) [response_cb] w2" by auto
  with w1 sent_trans [OF w1(2)] show ?case by fastforce
qed

text \<open>The answers of the socket take a whole request.\<close>

definition takes_all :: "string \<Rightarrow> write_res list \<Rightarrow> bool" where
  "takes_all bytes rs \<longleftrightarrow> accepting rs \<and> length bytes \<le> takes rs"

definition index_bytes :: string where
  "index_bytes = request_bytes (get_request ''/index.html'')"

definition key_bytes :: "nat \<Rightarrow> string" where
  "key_bytes r = request_bytes (get_request (''/'' @ show_nat (r mod 300 + 1)))"

lemma http_started:
  "idle w \<Longrightarrow> response_cbs (sub (conn w)) = [] \<Longrightarrow> takes_all index_bytes rs \<Longrightarrow>
    \<exists>w'. client_start rs w = Done w' \<and> sent w index_bytes [] [response_cb] w' \<and> io w' = io w"
  using send_request [of w rs "get_request ''/index.html''" "io w"]
  by (simp add: client_start_def doRequest_def acquire_def idle_def conn_ok_def takes_all_def index_bytes_def)

lemma kv_started:
  "idle w \<Longrightarrow> response_cbs (sub (conn w)) = [] \<Longrightarrow> takes_all (key_bytes r) rs \<Longrightarrow>
    \<exists>w'. kv_client_start r rs w = Done w' \<and> sent w (key_bytes r) [] [response_cb] w' \<and> io w' = io w"
  using send_request [of w rs "get_request (''/'' @ show_nat (r mod 300 + 1))" "io w"]
  by (simp add: kv_client_start_def kv_doRequest_def kv_asyncSend_def acquire_def idle_def conn_ok_def takes_all_def key_bytes_def)

lemma async_clients:
  assumes "idle w" "response_cbs (sub (conn w)) = []" "takes_all index_bytes rs" "takes_all (key_bytes r) rs"
    and "loop_ready v (io w)"
    and "\<forall>(_, a, ts, now) \<in> set xs. takes_all index_bytes a \<and> ts \<le> now" "\<forall>(_, a, k) \<in> set ys. takes_all (key_bytes k) a"
  shows "\<exists>w'. run_bind (client_start rs w) (client_rounds (http_round v) xs) = Done w'
      \<and> sent w (concat (replicate (Suc (length xs)) index_bytes)) (map fst xs) [response_cb] w'"
    "\<exists>w'. run_bind (kv_client_start r rs w) (client_rounds (kv_round v) ys) = Done w'
      \<and> sent w (key_bytes r @ concat (map (\<lambda>(_, _, k). key_bytes k) ys)) (map fst ys) [response_cb] w'"
proof -
  from http_started [OF assms(1-3)] obtain w1 where w1: "client_start rs w = Done w1" "sent w index_bytes [] [response_cb] w1" "io w1 = io w" by blast
  then have i: "idle w1" "response_cbs (sub (conn w1)) = [response_cb]" "loop_ready v (io w1)" using assms(5) by (simp_all add: sent_def)
  have "\<exists>w'. http_round v x w = Done w' \<and> sent w index_bytes [fst x] [response_cb] w' \<and> loop_ready v (io w')"
    if "x \<in> set xs" "idle w" "response_cbs (sub (conn w)) = [response_cb]" "loop_ready v (io w)" for x w
    using that assms(6) http_round_ok [OF that(2-4), of "fst (snd x)" "fst (snd (snd x))" "snd (snd (snd x))" "fst x"]
    by (cases x) (auto simp: takes_all_def index_bytes_def)
  from client_rounds_ok [where f = "http_round v" and bytes = "\<lambda>_. index_bytes" and resp = fst, OF this i] obtain w2 where
    w2: "client_rounds (http_round v) xs w1 = Done w2" "sent w1 (concat (map (\<lambda>_. index_bytes) xs)) (map fst xs) [response_cb] w2" by blast
  from sent_trans [OF w1(2) w2(2)] w1(1) w2(1)
  show "\<exists>w'. run_bind (client_start rs w) (client_rounds (http_round v) xs) = Done w'
      \<and> sent w (concat (replicate (Suc (length xs)) index_bytes)) (map fst xs) [response_cb] w'"
    by (simp add: map_replicate_const)
next
  from kv_started [OF assms(1,2,4)] obtain w1 where w1: "kv_client_start r rs w = Done w1" "sent w (key_bytes r) [] [response_cb] w1" "io w1 = io w" by blast
  then have i: "idle w1" "response_cbs (sub (conn w1)) = [response_cb]" "loop_ready v (io w1)" using assms(5) by (simp_all add: sent_def)
  have "\<exists>w'. kv_round v x w = Done w' \<and> sent w (case x of (_, _, k) \<Rightarrow> key_bytes k) [fst x] [response_cb] w' \<and> loop_ready v (io w')"
    if "x \<in> set ys" "idle w" "response_cbs (sub (conn w)) = [response_cb]" "loop_ready v (io w)" for x w
    using that assms(7) kv_round_ok [OF that(2-4), of "fst (snd x)" "snd (snd x)" "fst x"] by (cases x) (auto simp: takes_all_def key_bytes_def)
  from client_rounds_ok [where f = "kv_round v" and bytes = "\<lambda>(_, _, k). key_bytes k" and resp = fst, OF this i] obtain w2 where
    w2: "client_rounds (kv_round v) ys w1 = Done w2" "sent w1 (concat (map (\<lambda>(_, _, k). key_bytes k) ys)) (map fst ys) [response_cb] w2" by blast
  from sent_trans [OF w1(2) w2(2)] w1(1) w2(1)
  show "\<exists>w'. run_bind (kv_client_start r rs w) (client_rounds (kv_round v) ys) = Done w'
      \<and> sent w (key_bytes r @ concat (map (\<lambda>(_, _, k). key_bytes k) ys)) (map fst ys) [response_cb] w'" by simp
qed

text \<open>
  C29. The asynchronous clients have one request on the way at a time: started on an idle connection, after
  any number of responses they have sent one request more than responses came, byte for byte one after
  the other, handed every response to their callback in order, wait with that callback for the next one,
  and hold as many references to the connection as in the beginning. Each request but the first is sent
  by the worker that finds the client's task in its mailbox: for \<^verbatim>\<open>client_async.cpp\<close> because the timer that
  \<^verbatim>\<open>requestDone\<close> set was due at the next round of the polling loop, for \<^verbatim>\<open>kv_benchmark.cpp\<close> because it added
  the task itself.
\<close>

theorem async_clients_alternate:
  assumes "idle w" "response_cbs (sub (conn w)) = []" "takes_all index_bytes rs" "takes_all (key_bytes r) rs"
    and "loop_ready v (io w)"
    and "\<forall>(_, a, ts, now) \<in> set xs. takes_all index_bytes a \<and> ts \<le> now" "\<forall>(_, a, k) \<in> set ys. takes_all (key_bytes k) a"
  shows "(\<exists>w'. run_bind (client_start rs w) (client_rounds (http_round v) xs) = Done w'
      \<and> sent w (concat (replicate (Suc (length xs)) index_bytes)) (map fst xs) [response_cb] w')
    \<and> (\<exists>w'. run_bind (kv_client_start r rs w) (client_rounds (kv_round v) ys) = Done w'
      \<and> sent w (key_bytes r @ concat (map (\<lambda>(_, _, k). key_bytes k) ys)) (map fst ys) [response_cb] w')"
  using async_clients [OF assms] by blast

definition connected_world :: "Client conn_world" where
  "connected_world = \<lparr>conn = \<lparr>in_buf = new_Buffer, writing = False, out_buf = new_Buffer, client_fd = 5, conn_closed = False, io_desc = Some 0,
       in_error = False, error_string = [], refs = 1, sub = \<lparr>connect_cb = Some 0, response_cbs = [], delivered = [], connect_called = 1\<rparr>\<rparr>,
     io = io idle_world, upcalls = [], destroyed = False, closed_fds = [], sock_out = []\<rparr>"

definition patient_socket :: "write_res list" where
  "patient_socket = replicate 100 (STook 1)"

theorem async_clients_alternate_witness:
  "(\<exists>w'. run_bind (client_start patient_socket connected_world)
       (client_rounds (http_round 0) [(\<lparr>statusLine = [], headerRemainder = [], res_body = []\<rparr>, patient_socket, 5, 7)]) = Done w'
     \<and> sent connected_world (index_bytes @ index_bytes) [\<lparr>statusLine = [], headerRemainder = [], res_body = []\<rparr>] [response_cb] w')
   \<and> (\<exists>w'. run_bind (kv_client_start 6 patient_socket connected_world)
       (client_rounds (kv_round 0) [(\<lparr>statusLine = [], headerRemainder = [], res_body = []\<rparr>, patient_socket, 8)]) = Done w'
     \<and> sent connected_world (key_bytes 6 @ key_bytes 8) [\<lparr>statusLine = [], headerRemainder = [], res_body = []\<rparr>] [response_cb] w')"
proof -
  have a: "accepting (replicate n (STook 1))" "takes (replicate n (STook 1)) = n" for n
    by (induction n) (auto simp: takes_def)
  then have p: "accepting patient_socket" "takes patient_socket = 100" by (simp_all only: patient_socket_def)
  have l: "length index_bytes \<le> 100" "length (key_bytes 6) \<le> 100" "length (key_bytes 8) \<le> 100" by code_simp+
  have "idle connected_world" "response_cbs (sub (conn connected_world)) = []"
    by (simp_all add: connected_world_def idle_def conn_ok_def out_inv_new content_new)
  moreover have "takes_all index_bytes patient_socket" "takes_all (key_bytes 6) patient_socket" "takes_all (key_bytes 8) patient_socket"
    using l by (simp_all only: takes_all_def p simp_thms)
  moreover have "loop_ready 0 (io connected_world)"
    by (simp add: connected_world_def idle_world_def new_IOManager_def loop_ready_def new_ThreadPoolFast_def create_worker_def queueWorker_def
        dp_create_def new_Poller_def)
  ultimately show ?thesis
    using async_clients_alternate [where w = connected_world and rs = patient_socket and r = 6 and v = 0
        and xs = "[(\<lparr>statusLine = [], headerRemainder = [], res_body = []\<rparr>, patient_socket, 5, 7)]"
        and ys = "[(\<lparr>statusLine = [], headerRemainder = [], res_body = []\<rparr>, patient_socket, 8)]"]
    by simp
qed

text \<open>The progress meter sets its timer nine times, and its tenth call stops the service.\<close>

fun checks :: "nat \<Rightarrow> nat option \<Rightarrow> 64 word list \<Rightarrow> int \<times> ServiceManager \<times> IOManager \<Rightarrow> (int \<times> ServiceManager \<times> IOManager) run" where
  "checks cb c [] x = Done x"
| "checks cb c (ts # tss) x = run_bind (check ts cb c x) (checks cb c tss)"

lemma checks_before: "i + int (length tss) < 10 \<Longrightarrow> checks cb c tss (i, sm, m) = Done (i + int (length tss), sm, fold (\<lambda>ts. addTimer ts cb) tss m)"
  by (induction tss arbitrary: i m) (auto simp: check_def)

lemma checks_append: "checks cb c (as @ bs) x = run_bind (checks cb c as x) (checks cb c bs)"
proof (induction as arbitrary: x)
  case (Cons a as)
  then show ?case by (cases "check a cb c x") simp_all
qed simp

lemma run_bind_Done [simp]: "run_bind r Done = r"
  by (cases r) simp_all

theorem meter_stops:
  assumes "length tss = 9"
  shows "checks cb c (tss @ [ts]) (0, sm, m) =
    run_bind (sm_stop c (sm, fold (\<lambda>ts. addTimer ts cb) tss m)) (\<lambda>(sm1, m1). Done (10, sm1, m1))"
proof -
  have "checks cb c [] = Done" by (simp add: fun_eq_iff)
  moreover have "checks cb c tss (0, sm, m) = Done (9, sm, fold (\<lambda>ts. addTimer ts cb) tss m)"
    using checks_before [of 0 tss cb c sm m] assms by simp
  ultimately show ?thesis by (simp add: checks_append check_def)
qed

end
