(* ===== verification/Buffer_Session.thy ===== *)
theory Buffer_Session
  imports Buffer_Correct
begin

text \<open>
  Whole sequences of operations on a streaming buffer: the buffer is well formed at every moment and
  stands for the queue of the unread bytes.
\<close>

text \<open>The operations of a client; \<open>Fill\<close> is \<^verbatim>\<open>writePtr\<close>, the bytes stored there, and \<^verbatim>\<open>advance\<close>.\<close>

datatype buf_op = Write string | Reserve nat | Fill string | Consume nat

fun buf_step :: "buf_op \<Rightarrow> Buffer \<Rightarrow> Buffer option" where
  "buf_step (Write d) b = buf_write d b"
| "buf_step (Reserve n) b = map_option snd (reserve n b)"
| "buf_step (Fill d) b = do { b1 \<leftarrow> poke (map Some d) b; (_, b2) \<leftarrow> advance (length d) b1; Some b2 }"
| "buf_step (Consume n) b = consume n b"

fun buf_run :: "buf_op list \<Rightarrow> Buffer \<Rightarrow> Buffer option" where
  "buf_run [] b = Some b"
| "buf_run (x # xs) b = do { b1 \<leftarrow> buf_step x b; buf_run xs b1 }"

text \<open>
  What a client must respect: it stores no more than \<^verbatim>\<open>writeSize\<close> bytes, and does not write to a buffer that
  is drained with a last chunk filled up to the end.
\<close>

fun legal :: "buf_op \<Rightarrow> Buffer \<Rightarrow> bool" where
  "legal (Fill d) b \<longleftrightarrow> d \<noteq> [] \<and> length d \<le> writeSize b"
| "legal (Write d) b \<longleftrightarrow> has_room b \<or> \<not> drained b"
| "legal _ b \<longleftrightarrow> True"

fun legal_run :: "buf_op list \<Rightarrow> Buffer \<Rightarrow> bool" where
  "legal_run [] b \<longleftrightarrow> True"
| "legal_run (x # xs) b \<longleftrightarrow> legal x b \<and> (case buf_step x b of None \<Rightarrow> True | Some b1 \<Rightarrow> legal_run xs b1)"

text \<open>The specification: a queue of bytes.\<close>

fun queue_step :: "buf_op \<Rightarrow> string \<Rightarrow> string" where
  "queue_step (Write d) q = q @ d"
| "queue_step (Reserve n) q = q"
| "queue_step (Fill d) q = q @ d"
| "queue_step (Consume n) q = drop n q"

lemma buf_step_spec:
  assumes "buf_inv b" "legal x b" "content b = map Some q"
  shows "\<exists>b'. buf_step x b = Some b' \<and> buf_inv b' \<and> content b' = map Some (queue_step x q)"
proof (cases x)
  case (Write d)
  with write_spec [OF assms(1), of d] assms(2,3) show ?thesis by auto
next
  case (Reserve n)
  with reserve_spec [OF assms(1), of n] reserve_too_big [of n b] assms(1,3) show ?thesis
    by (cases "n \<le> BlockSize") auto
next
  case (Fill d)
  with poke_advance_spec [OF assms(1), of "map Some d"] assms(2,3) show ?thesis by auto
next
  case (Consume n)
  with consume_spec [OF assms(1), of n] assms(3) show ?thesis by (auto simp: drop_map)
qed

text \<open>
  C8. Whatever sequence of writes, reservations, direct stores and consumptions a client makes within the
  rules, no operation fails, the buffer stays well formed (blocks and sizes match, the positions point
  into them, no empty block is left behind the reader), and its unread bytes are those of a queue of
  bytes under the same operations; \<^verbatim>\<open>byteCount\<close> is their number.
\<close>

theorem buffer_well_formed:
  assumes "legal_run xs new_Buffer"
  shows "\<exists>b. buf_run xs new_Buffer = Some b \<and> buf_inv b \<and> content b = map Some (fold queue_step xs [])
    \<and> byteCount b = Some (length (fold queue_step xs []))"
proof -
  have "\<exists>b'. buf_run xs b = Some b' \<and> buf_inv b' \<and> content b' = map Some (fold queue_step xs q)"
    if "legal_run xs b" "buf_inv b" "content b = map Some q" for b q
    using that
  proof (induction xs arbitrary: b q)
    case (Cons x xs)
    from buf_step_spec [of b x q] Cons.prems obtain b1 where
      "buf_step x b = Some b1" "buf_inv b1" "content b1 = map Some (queue_step x q)" by auto
    with Cons.IH [of b1 "queue_step x q"] Cons.prems(1) show ?case by auto
  qed auto
  from this [OF assms buf_inv_new, of "[]"] obtain b where
    "buf_run xs new_Buffer = Some b" "buf_inv b" "content b = map Some (fold queue_step xs [])" by (auto simp: content_new)
  with byteCount_spec [of b] show ?thesis by auto
qed

theorem buffer_well_formed_witness:
  "\<exists>b. buf_run [Write ''abc'', Consume 1, Write ''de''] new_Buffer = Some b \<and> buf_inv b \<and> content b = map Some ''bcde'' \<and> byteCount b = Some 4"
proof -
  obtain b1 where b1: "buf_write ''abc'' new_Buffer = Some b1" "out_inv b1" using outbuf.put_ok [OF out_inv_new] by blast
  obtain b2 where b2: "consume 1 b1 = Some b2" "out_inv b2" using outbuf.skip_ok [OF b1(2), of 1] by blast
  have "legal_run [Write ''abc'', Consume 1, Write ''de''] new_Buffer"
    using b1 b2 out_inv_new by (auto simp: out_inv_def split: option.splits)
  from buffer_well_formed [OF this] show ?thesis by (simp add: numeral_eq_Suc)
qed

end
