(* ===== verification/Spec2Isabelle.thy ===== *)
theory Spec2Isabelle
  imports Http_Roundtrip Hash_Table_Linearizable Lock_Free_Race Thread_Pool_Fast File_Cache_Correct IO_Manager_Correct Connection_Correct
    Service_Manager Http_Connection_Correct Request_Stats Kv_Correct Locks Thread_Pool_Normal Circular_Buffer List_Set Param_Map Callback Runtime
    Fd_Stream Test_Unit Signals Diagnostics Lock_Benchmark Test_Counter Client_Programs Buffer_Session
begin

text \<open>
  Verification of a multithreaded HTTP and key-value server.

  \<^bold>\<open>The program.\<close> \<^verbatim>\<open>src/server.cpp\<close> starts two services on one service manager. The manager owns an event
  loop (\<^verbatim>\<open>io_manager.cpp\<close>) that waits for ready sockets with \<^verbatim>\<open>epoll\<close> and schedules callbacks on a thread pool
  (\<^verbatim>\<open>thread_pool_fast.cpp\<close>). An acceptor hands each new socket to a service, which makes a connection
  object; a connection collects the bytes it reads in a streaming buffer, lets its protocol parse
  requests from it, and sends what the protocol wrote to a second buffer. The HTTP protocol answers from
  a cache of files, the key-value protocol from a lock-free hash table that many workers use at once.

  \<^bold>\<open>The theories, and the files under src/ they model.\<close>

    \<^item> \<open>Prelude\<close>: checked access to deques, unsigned subtraction, positions on a circle, lemmas on lists.
      \<open>Cpp_Text\<close>: searching, printing and reading numbers in strings. \<open>State_Machine\<close>: interleavings as
      schedules of atomic actions, with invariants proved once in the locale \<open>machine\<close>. \<open>Streams\<close>: the
      interfaces between buffers and their users as locales, interpreted on the buffer's definitions.
    \<^item> \<open>Buffer\<close>, \<open>Buffer_Correct\<close>: \<^verbatim>\<open>buffer.hpp\<close>, \<^verbatim>\<open>buffer.cpp\<close>. A buffer is its deque of chunks with the sizes
      and the two positions; an uninitialised byte is \<open>None\<close>. The lemmas relate every operation to the
      sequence of unread bytes (\<open>content\<close>); \<open>Buffer_Session\<close> states this for whole sequences of operations.
    \<^item> \<open>Http_Message\<close>, \<open>Http_Parser\<close>, \<open>Response_Parser\<close>, \<open>Http_Roundtrip\<close>: \<^verbatim>\<open>http_request.*\<close>, \<^verbatim>\<open>http_response.hpp\<close>,
      \<^verbatim>\<open>http_parser.*\<close>. The parsers work on buffer iterators as in the code, with exceptions as values; they
      are proved equal to parsers over the remaining bytes, from which the round trips follow.
    \<^item> \<open>Markable_Pointer\<close>, \<open>Hazard_Pointers\<close>, \<open>Lock_Free_List\<close>, \<open>Lock_Free_Hash_Table\<close> with their \<open>Correct\<close>
      theories: the headers of the same names. Nodes live in an explicit heap, so that a use of freed
      memory is \<open>None\<close>; operations run one after another, on lists that may hold nodes another thread
      left marked, and the theorems say that they end and implement a finite map.
    \<^item> \<open>Lock_Free_Concurrent\<close>: the list and its hazard pointers again, as a machine whose actions are single
      accesses to shared memory by any number of threads, with an allocator that may reuse addresses.
      \<open>Lock_Free_Protection\<close> and \<open>Lock_Free_Concurrent_Correct\<close> hold its invariant, \<open>Lock_Free_Linearizable\<close> an
      observer that records the bindings a running call could see, \<open>Lock_Free_Race\<close> the execution that
      reaches freed memory.
    \<^item> \<open>Hash_Table_Concurrent\<close>: the operations of the hash table as steps around the machine of the list, with
      the accesses to the buckets, the count and the size. \<open>Hash_Table_Concurrent_Correct\<close> shows that every
      action is one of the list's or leaves it alone, and that the table keeps the rules of the list's
      callers; \<open>Hash_Table_Linearizable\<close> carries the list's observer over to the keys of the table.
    \<^item> \<open>Thread_Pool_Fast\<close>, \<open>Thread_Pool_Normal\<close>: \<^verbatim>\<open>thread_pool_fast.*\<close>, \<^verbatim>\<open>thread_pool_normal.*\<close>, under every interleaving
      of their critical sections. A worker that waits on a condition variable is asleep until a signal or a
      spurious wake-up, and the signals of the code are part of the actions that send them.
    \<^item> \<open>Locks\<close>: \<^verbatim>\<open>spinlock.hpp\<close>, \<^verbatim>\<open>spinlock_mcs.hpp\<close>, \<^verbatim>\<open>thread_barrier.hpp\<close>, where an action is one access to shared
      memory or one semaphore operation; \<open>swap_fails\<close> marks the steps at which the exchange of the queue lock
      meets a tail that changed since it was read. \<open>Mutexes\<close>: \<^verbatim>\<open>lock.hpp\<close>, with the steps of a notification. \<open>Lock_Benchmark\<close>:
      \<^verbatim>\<open>lock_benchmark.cpp\<close> and \<^verbatim>\<open>lock_benchmark_MCS.cpp\<close>, whose testers are clients of the locales \<open>excluding_lock\<close>
      and \<open>live_lock\<close>, interpreted by the mutex, the spinlock and, as long as no swap of it fails, the queue lock.
    \<^item> \<open>File_Cache\<close>, \<open>File_Cache_Correct\<close>: \<^verbatim>\<open>file_cache.*\<close>, with \<^verbatim>\<open>pin\<close> cut where it releases the lock.
    \<^item> \<open>IO_Manager\<close>, \<open>IO_Manager_Correct\<close>: \<^verbatim>\<open>io_manager.*\<close>, \<^verbatim>\<open>descriptor_poller*\<close>: readiness latches, dispatch of events,
      timers, deferred deletion of descriptors, stopping.
    \<^item> \<open>Connection\<close>, \<open>Connection_Correct\<close>: \<^verbatim>\<open>connection.*\<close>, with what the sockets answer as arguments and
      the protocol's handlers as parameters. \<open>Service_Manager\<close>: \<^verbatim>\<open>acceptor.*\<close>, \<^verbatim>\<open>service_manager.*\<close>.
    \<^item> \<open>Http_Connection\<close>, \<open>Http_Connection_Correct\<close>, \<open>Kv_Connection\<close>, \<open>Kv_Correct\<close>: \<^verbatim>\<open>http_connection.*\<close>, \<^verbatim>\<open>http_service.*\<close>,
      \<^verbatim>\<open>kv_connection.*\<close>, \<^verbatim>\<open>kv_service.*\<close> and \<^verbatim>\<open>server.cpp\<close>: the protocols over all of the above. \<open>Client_Programs\<close>:
      the handlers of the asynchronous clients (\<^verbatim>\<open>client_async.cpp\<close>, \<^verbatim>\<open>kv_benchmark.cpp\<close>) and their progress meters.
    \<^item> \<open>Request_Stats\<close>, \<open>Callback\<close>, \<open>Runtime\<close>, \<open>Circular_Buffer\<close>, \<open>List_Set\<close>, \<open>Param_Map\<close>: the remaining parts of
      the same names; \<open>Runtime\<close> holds threads, thread-local storage, the log writer, timer and operation series.
    \<^item> \<open>Diagnostics\<close>: log messages (\<^verbatim>\<open>logging.hpp\<close>, \<^verbatim>\<open>log_message.*\<close>) and the clock (\<^verbatim>\<open>ticks_clock.*\<close>). \<open>Signals\<close>:
      \<^verbatim>\<open>signal_handler.cpp\<close>, as a machine of the faulting thread and those it asks for their stacks. \<open>Fd_Stream\<close>:
      \<^verbatim>\<open>ifdstream.hpp\<close> and \<^verbatim>\<open>child_process.*\<close>, with what the system calls return as arguments. \<open>Test_Unit\<close>,
      \<open>Test_Counter\<close>: the registry of test cases (\<^verbatim>\<open>test_unit.hpp\<close>) and the counter of the tests (\<^verbatim>\<open>test_util.hpp\<close>).

  \<^bold>\<open>What is shown.\<close> Functional correctness of the buffer, the iterator and both parsers, with round trips
  between writing and parsing and termination of the parser; that the lock-free list and hash table
  implement maps and free memory only when no hazard pointer protects it; that the concurrent list is
  and the concurrent hash table over it are safe and linearizable as long as no scan meets the gap in the
  exchange of two hazard pointers, and the item count is exact when no call runs; order and completeness
  of the thread pools, and that after the NULL tasks of \<^verbatim>\<open>stop\<close>, or its signal to all, every worker ends without a lost
  wake-up; exclusion of the locks, of the queue lock as long as none of its swaps fails, and rounds of the barrier;
  that no wake-up is lost and no freed descriptor is reached in the event loop; that concurrent writers keep the order of
  the bytes, and that the reading loop feeds any protocol the bytes of the stream; the answer to a request
  for a file from the cache to the parser of the client, pipelined requests answered by the protocol's own handler, and
  responses handed to the callbacks of the calls of \<^verbatim>\<open>asyncSend\<close>; that the statistics count a rolling window,
  away from the boundaries of its slots and while ticks are exact in double precision; refinement of the circular
  buffer, the list-based set and the command line; that a notification reaches its waiter, the lock
  benchmarks lose no increment, the clients keep one request on the way, sent by the task their timer or
  their call of \<^verbatim>\<open>addTask\<close> gives a worker, the handler of a fatal signal
  collects all stacks in order, and the stream over a descriptor loses no byte. Where the code does not do what it means to, a
  theorem states what it does instead: the use of a freed node through that gap, the queue lock whose
  exchange is not atomic, so that its benchmark loses an increment and hangs, the notification that wakes only one
  of several waiters, and the answers of the key-value server are properties, and
  further theorems without a number show, for example, that a file of more than one block is cached as an empty buffer and that a failed write blocks all later ones.

  \<^bold>\<open>Bounds and fuel.\<close> Machine integers wrap around: keys of the hash table are 32-bit words, pointers
  64-bit words, sizes and ticks natural numbers with the reduction written out; the counters of the file
  cache and of the lock benchmarks are integers without a width. Loops that may not end
  are partial functions whose theorems prove that they return. The loops of the protocols take the
  number of bytes in the buffer plus one as fuel, since a parsed message takes at least one byte, and
  the loops around the ten slots of the statistics take ten. A loop on the answers of a socket is a
  recursion on their list; \<open>Pending\<close> says that the answers are used up. The hash table may allocate
  \<open>2 ^ 59\<close> nodes of 32 bytes.

  \<^bold>\<open>Not modelled.\<close> Weak memory: every access to shared memory is sequentially consistent. Each
  operation on the hash table's vector of buckets is one action, which \<^verbatim>\<open>std::vector\<close> does not promise while it
  grows. System calls are arguments (their results), and
  so are readings of the time stamp counter, measured times and the order of a shuffle. The comparisons of ticks in
  \<open>Request_Stats\<close> round to double precision; the other floating point numbers are exact.
  The test programs, the
  straight-line benchmarks (\<^verbatim>\<open>buffer_benchmark.cpp\<close>, \<^verbatim>\<open>callback_benchmark.cpp\<close>, \<^verbatim>\<open>thread_pool_benchmark.cpp\<close>,
  \<^verbatim>\<open>false_sharing_benchmark.cpp\<close>), \<^verbatim>\<open>client_sync.cpp\<close>, the \<^verbatim>\<open>main\<close> functions of the other clients, the build scripts and the
  generator \<^verbatim>\<open>callback.py\<close> are left out; the header it generates is covered by \<open>Callback\<close>.
\<close>

end
